(* ===== verification/Prelude.thy ===== *)
theory Prelude
  imports Main "HOL-Library.Code_Target_Numeral" "HOL-Library.Multiset"
begin

text \<open>
  What every component shares: the exception tree of \<open>src/rsm/errors.py\<close>, results that are
  either a raised exception or a value, the Python values that travel as commands and state,
  Python dictionaries, the draws of a seeded generator, and the list facts the log proofs use.

  The collection \<open>raises\<close> holds the equations that push a result through its continuation.
\<close>

named_theorems raises

section \<open>Exceptions\<close>

text \<open>
  One constructor per leaf class of \<open>errors.py\<close>, and the exceptions of Python's own the code can
  meet: a list or a dictionary read where nothing is, a value or a type a conversion does not take, a struct read past
  its buffer, a division by zero. The messages the exceptions carry are not modelled. The
  three predicates are the three \<open>except\<close> clauses a caller of the package can write.
\<close>

datatype error =
    ElectionSafety | LogMatching | LeaderCompleteness | StateMachineSafety | LeaderAppendOnly
  | NotLeader | NoLeader | Unavailable | Timeout | Refused
  | LogError | Compacted | NotFound
  | ConfigError | NetworkError | UnknownNode
  | IndexError | KeyError | ValueError | TypeError | StructError | ZeroDivisionError

fun is_consensus_error :: "error \<Rightarrow> bool" where
  "is_consensus_error ElectionSafety = True"
| "is_consensus_error LogMatching = True"
| "is_consensus_error LeaderCompleteness = True"
| "is_consensus_error StateMachineSafety = True"
| "is_consensus_error LeaderAppendOnly = True"
| "is_consensus_error _ = False"

fun is_refused :: "error \<Rightarrow> bool" where
  "is_refused NotLeader = True"
| "is_refused NoLeader = True"
| "is_refused Unavailable = True"
| "is_refused Timeout = True"
| "is_refused Refused = True"
| "is_refused _ = False"

fun is_log_error :: "error \<Rightarrow> bool" where
  "is_log_error LogError = True"
| "is_log_error Compacted = True"
| "is_log_error NotFound = True"
| "is_log_error _ = False"

type_synonym 'a result = "error + 'a"

fun rbind :: "'e + 'a \<Rightarrow> ('a \<Rightarrow> 'e + 'b) \<Rightarrow> 'e + 'b" where
  "rbind (Inl e) f = Inl e"
| "rbind (Inr x) f = f x"

declare rbind.simps [raises]

lemma rbind_cong [fundef_cong]:
  "m = m' \<Longrightarrow> (\<And>x. m' = Inr x \<Longrightarrow> f x = g x) \<Longrightarrow> rbind m f = rbind m' g"
  by (cases m') auto

lemma rbind_eq_Inr [raises]: "rbind m f = Inr y \<longleftrightarrow> (\<exists>x. m = Inr x \<and> f x = Inr y)"
  by (cases m) auto

lemma rbind_eq_Inl [raises]:
  "rbind m f = Inl e \<longleftrightarrow> m = Inl e \<or> (\<exists>x. m = Inr x \<and> f x = Inl e)"
  by (cases m) auto

lemma rbind_assoc: "rbind (rbind m f) g = rbind m (\<lambda>x. rbind (f x) g)"
  by (cases m) auto

text \<open>A comprehension whose element expression may raise.\<close>

fun rmap :: "('a \<Rightarrow> 'e + 'b) \<Rightarrow> 'a list \<Rightarrow> 'e + 'b list" where
  "rmap f [] = Inr []"
| "rmap f (x # xs) = rbind (f x) (\<lambda>y. rbind (rmap f xs) (\<lambda>ys. Inr (y # ys)))"

lemma rmap_Inr: "(\<And>x. x \<in> set xs \<Longrightarrow> f x = Inr (g x)) \<Longrightarrow> rmap f xs = Inr (map g xs)"
  by (induction xs) auto

lemma rmap_cong [fundef_cong]:
  "xs = ys \<Longrightarrow> (\<And>x. x \<in> set ys \<Longrightarrow> f x = g x) \<Longrightarrow> rmap f xs = rmap g ys"
  by (induction xs arbitrary: ys) auto

lemma rmap_length: "rmap f xs = Inr ys \<Longrightarrow> length ys = length xs"
  by (induction xs arbitrary: ys) (auto simp: raises)

lemma rmap_append:
  "rmap f (xs @ ys) = rbind (rmap f xs) (\<lambda>as. rbind (rmap f ys) (\<lambda>bs. Inr (as @ bs)))"
proof (induction xs)
  case Nil
  show ?case by (cases "rmap f ys") auto
next
  case (Cons x xs)
  then show ?case
    by (cases "f x"; cases "rmap f xs"; cases "rmap f ys") auto
qed

text \<open>A loop whose body updates a state and may raise.\<close>

fun rfold :: "('a \<Rightarrow> 's \<Rightarrow> 'e + 's) \<Rightarrow> 'a list \<Rightarrow> 's \<Rightarrow> 'e + 's" where
  "rfold f [] s = Inr s"
| "rfold f (x # xs) s = rbind (f x s) (rfold f xs)"

lemma rfold_cong [fundef_cong]:
  "xs = ys \<Longrightarrow> s = t \<Longrightarrow> (\<And>x u. x \<in> set ys \<Longrightarrow> f x u = g x u) \<Longrightarrow> rfold f xs s = rfold g ys t"
proof (induction xs arbitrary: ys s t)
  case (Cons x xs)
  then show ?case by (cases "g x t") auto
qed simp

lemma rfold_append: "rfold f (xs @ ys) s = rbind (rfold f xs s) (rfold f ys)"
proof (induction xs arbitrary: s)
  case (Cons x xs)
  then show ?case by (cases "f x s") simp_all
qed simp

lemma rfold_snoc: "rfold f (xs @ [x]) s = rbind (rfold f xs s) (f x)"
proof (cases "rfold f xs s")
  case (Inr t)
  then show ?thesis by (cases "f x t") (simp_all add: rfold_append)
qed (simp add: rfold_append)

text \<open>An invariant of the body that also rules out raising is one of the loop.\<close>

lemma rfold_total:
  assumes "\<And>x s. x \<in> set xs \<Longrightarrow> P s \<Longrightarrow> \<exists>s'. f x s = Inr s' \<and> P s'" "P s"
  shows "\<exists>s'. rfold f xs s = Inr s' \<and> P s'"
  using assms
proof (induction xs arbitrary: s)
  case (Cons x xs)
  obtain s1 where "f x s = Inr s1" "P s1"
    using Cons.prems(1) [of x s] Cons.prems(2) by auto
  with Cons.IH [of s1] Cons.prems(1) show ?case by auto
qed simp

lemma rfold_invariant:
  assumes "\<And>x s s'. x \<in> set xs \<Longrightarrow> P s \<Longrightarrow> f x s = Inr s' \<Longrightarrow> P s'" "P s" "rfold f xs s = Inr s'"
  shows "P s'"
  using assms
proof (induction xs arbitrary: s)
  case (Cons x xs)
  then obtain s1 where "f x s = Inr s1" "rfold f xs s1 = Inr s'" by (auto simp: raises)
  with Cons show ?case by (metis list.set_intros)
qed simp

section \<open>Decimal numerals\<close>

text \<open>How a natural number is formatted into a string.\<close>

fun decimal :: "nat \<Rightarrow> string" where
  "decimal n = (if n < 10 then [char_of (48 + n)]
                else decimal (n div 10) @ [char_of (48 + n mod 10)])"

declare decimal.simps [simp del]

definition undecimal :: "string \<Rightarrow> nat" where
  "undecimal cs = foldl (\<lambda>a c. a * 10 + (of_char c - 48)) 0 cs"

lemma undecimal_decimal [simp]: "undecimal (decimal n) = n"
proof (induction n rule: decimal.induct)
  case (1 n)
  show ?case
  proof (cases "n < 10")
    case True
    then show ?thesis by (subst decimal.simps) (simp add: undecimal_def)
  next
    case False
    have "n mod 10 < 10" by simp
    then have "(48 + n mod 10) mod 256 = 48 + n mod 10" by (intro mod_less) linarith
    moreover have "undecimal (decimal (n div 10)) = n div 10" using 1 False by blast
    ultimately show ?thesis
      using False by (subst decimal.simps) (simp add: undecimal_def)
  qed
qed

lemma decimal_inject [simp]: "decimal m = decimal n \<longleftrightarrow> m = n"
  by (metis undecimal_decimal)

section \<open>Python values and dictionaries\<close>

text \<open>
  The values a command or a state holds. \<open>PObj\<close> is an instance of a frozen dataclass, by
  class name and field values. A float is an integer over a power of two. Python compares \<open>True\<close>
  and \<open>1.0\<close> equal to \<open>1\<close>, which \<open>py_norm\<close> accounts for.
\<close>

datatype pyobj = PNone | PBool bool | PInt int | PFloat int nat | PStr string
  | PTuple "pyobj list" | PObj string "pyobj list"

fun dyadic_norm :: "int \<Rightarrow> nat \<Rightarrow> pyobj" where
  "dyadic_norm m 0 = PInt m"
| "dyadic_norm m (Suc k) = (if even m then dyadic_norm (m div 2) k else PFloat m (Suc k))"

fun py_norm :: "pyobj \<Rightarrow> pyobj" where
  "py_norm (PBool b) = PInt (if b then 1 else 0)"
| "py_norm (PFloat m k) = dyadic_norm m k"
| "py_norm (PTuple xs) = PTuple (map py_norm xs)"
| "py_norm (PObj c xs) = PObj c (map py_norm xs)"
| "py_norm v = v"

definition py_eq :: "pyobj \<Rightarrow> pyobj \<Rightarrow> bool" where
  "py_eq a b \<longleftrightarrow> py_norm a = py_norm b"

text \<open>Truth, and \<open>isinstance(v, int)\<close> with the integer it then stands for.\<close>

fun truthy :: "pyobj \<Rightarrow> bool" where
  "truthy PNone = False"
| "truthy (PBool b) = b"
| "truthy (PInt i) = (i \<noteq> 0)"
| "truthy (PFloat m k) = (m \<noteq> 0)"
| "truthy (PStr s) = (s \<noteq> [])"
| "truthy (PTuple xs) = (xs \<noteq> [])"
| "truthy (PObj c xs) = True"

fun as_int :: "pyobj \<Rightarrow> int option" where
  "as_int (PBool b) = Some (if b then 1 else 0)"
| "as_int (PInt i) = Some i"
| "as_int _ = None"

text \<open>
  \<open>int(v)\<close>: a string is stripped, may carry a sign, and may separate its digits with single
  underscores.
\<close>

definition is_space :: "char \<Rightarrow> bool" where
  "is_space c \<longleftrightarrow> (let k = of_char c :: nat in
     9 \<le> k \<and> k \<le> 13 \<or> 28 \<le> k \<and> k \<le> 32 \<or> k = 133 \<or> k = 160)"

definition digit_of :: "char \<Rightarrow> nat option" where
  "digit_of c = (let k = of_char c :: nat in if 48 \<le> k \<and> k \<le> 57 then Some (k - 48) else None)"

fun digits_value :: "string \<Rightarrow> nat \<Rightarrow> bool \<Rightarrow> nat option" where
  "digits_value [] acc after_digit = (if after_digit then Some acc else None)"
| "digits_value (c # cs) acc after_digit =
     (case digit_of c of
        Some d \<Rightarrow> digits_value cs (acc * 10 + d) True
      | None \<Rightarrow> if c = CHR ''_'' \<and> after_digit then digits_value cs acc False else None)"

definition strip :: "string \<Rightarrow> string" where
  "strip s = rev (dropWhile is_space (rev (dropWhile is_space s)))"

fun int_of_text :: "string \<Rightarrow> int option" where
  "int_of_text [] = None"
| "int_of_text (c # cs) =
     (if c = CHR ''-'' then map_option (\<lambda>v. - int v) (digits_value cs 0 False)
      else if c = CHR ''+'' then map_option int (digits_value cs 0 False)
      else map_option int (digits_value (c # cs) 0 False))"

fun py_int :: "pyobj \<Rightarrow> int result" where
  "py_int (PBool b) = Inr (if b then 1 else 0)"
| "py_int (PInt i) = Inr i"
| "py_int (PFloat m k) = Inr (if m < 0 then - (- m div 2 ^ k) else m div 2 ^ k)"
| "py_int (PStr s) = (case int_of_text (strip s) of Some i \<Rightarrow> Inr i | None \<Rightarrow> Inl ValueError)"
| "py_int _ = Inl TypeError"

lemma py_eq_refl [simp]: "py_eq a a"
  by (simp add: py_eq_def)

lemma py_eq_sym: "py_eq a b \<Longrightarrow> py_eq b a"
  by (simp add: py_eq_def)

lemma py_eq_trans: "py_eq a b \<Longrightarrow> py_eq b c \<Longrightarrow> py_eq a c"
  by (simp add: py_eq_def)

text \<open>
  A dictionary keeps its items in insertion order; assigning to a key it has keeps the key
  object and its place.
\<close>

type_synonym dict = "(pyobj \<times> pyobj) list"

fun dict_get :: "dict \<Rightarrow> pyobj \<Rightarrow> pyobj option" where
  "dict_get [] k = None"
| "dict_get ((k', v) # d) k = (if py_eq k' k then Some v else dict_get d k)"

fun dict_set :: "dict \<Rightarrow> pyobj \<Rightarrow> pyobj \<Rightarrow> dict" where
  "dict_set [] k v = [(k, v)]"
| "dict_set ((k', v') # d) k v =
     (if py_eq k' k then (k', v) # d else (k', v') # dict_set d k v)"

fun dict_del :: "dict \<Rightarrow> pyobj \<Rightarrow> dict" where
  "dict_del [] k = []"
| "dict_del ((k', v) # d) k = (if py_eq k' k then d else (k', v) # dict_del d k)"

fun dict_keys_distinct :: "dict \<Rightarrow> bool" where
  "dict_keys_distinct [] = True"
| "dict_keys_distinct ((k, v) # d) = (dict_get d k = None \<and> dict_keys_distinct d)"

lemma dict_get_cong_key: "py_eq k k' \<Longrightarrow> dict_get d k = dict_get d k'"
  by (induction d k rule: dict_get.induct) (auto simp: py_eq_def)

lemma dict_get_set: "dict_get (dict_set d k v) k' = (if py_eq k k' then Some v else dict_get d k')"
  by (induction d k v rule: dict_set.induct) (auto simp: py_eq_def)

lemma dict_get_del:
  "dict_keys_distinct d \<Longrightarrow>
   dict_get (dict_del d k) k' = (if py_eq k k' then None else dict_get d k')"
proof (induction d k rule: dict_del.induct)
  case (1 k)
  then show ?case by simp
next
  case (2 k1 v d k)
  show ?case
  proof (cases "py_eq k1 k")
    case True
    with 2 show ?thesis
      using dict_get_cong_key [of k1 k' d] by (auto simp: py_eq_def)
  next
    case False
    with 2 show ?thesis by (auto simp: py_eq_def)
  qed
qed

lemma dict_keys_distinct_set: "dict_keys_distinct d \<Longrightarrow> dict_keys_distinct (dict_set d k v)"
  by (induction d k v rule: dict_set.induct) (auto simp: dict_get_set py_eq_def)

lemma dict_get_del_None: "dict_get d k' = None \<Longrightarrow> dict_get (dict_del d k) k' = None"
  by (induction d k rule: dict_del.induct) (auto split: if_splits)

lemma dict_keys_distinct_del: "dict_keys_distinct d \<Longrightarrow> dict_keys_distinct (dict_del d k)"
  by (induction d k rule: dict_del.induct) (auto simp: dict_get_del_None)

text \<open>
  What the components that keep a dictionary rely on: reading after writing, reading after
  deleting, and that no operation ever leaves one key twice.
\<close>

locale dictionary =
  fixes get :: "'d \<Rightarrow> 'k \<Rightarrow> 'v option"
    and put :: "'d \<Rightarrow> 'k \<Rightarrow> 'v \<Rightarrow> 'd"
    and del :: "'d \<Rightarrow> 'k \<Rightarrow> 'd"
    and empty :: "'d"
    and same :: "'k \<Rightarrow> 'k \<Rightarrow> bool"
    and wf :: "'d \<Rightarrow> bool"
  assumes get_empty: "get empty k = None"
    and get_put: "get (put d k v) k' = (if same k k' then Some v else get d k')"
    and get_del: "wf d \<Longrightarrow> get (del d k) k' = (if same k k' then None else get d k')"
    and wf_empty: "wf empty"
    and wf_put: "wf d \<Longrightarrow> wf (put d k v)"
    and wf_del: "wf d \<Longrightarrow> wf (del d k)"
    and same_refl: "same k k"
begin

lemma put_put_get: "get (put (put d k v) k w) k' = get (put d k w) k'"
  by (simp add: get_put)

lemma del_put_get: "wf d \<Longrightarrow> get (del (put d k v) k) k' = get (del d k) k'"
  by (simp add: get_put get_del wf_put)

lemma get_put_same [simp]: "get (put d k v) k = Some v"
  by (simp add: get_put same_refl)

lemma put_commute_get:
  "\<not> same k k' \<Longrightarrow> \<not> same k' k \<Longrightarrow> (\<And>a b c. same a b \<Longrightarrow> same c b \<Longrightarrow> same a c) \<Longrightarrow>
   get (put (put d k v) k' w) x = get (put (put d k' w) k v) x"
  by (auto simp: get_put)

end

interpretation py_dict: dictionary dict_get dict_set dict_del "[]" py_eq dict_keys_distinct
  by unfold_locales
    (auto simp: dict_get_set dict_get_del dict_keys_distinct_set dict_keys_distinct_del)

text \<open>The keys of \<open>dict.fromkeys\<close>: the first of each, in order.\<close>

definition from_keys :: "'a list \<Rightarrow> 'a list" where
  "from_keys xs = foldl (\<lambda>ks x. if x \<in> set ks then ks else ks @ [x]) [] xs"

lemma set_from_keys: "set (from_keys xs) = set xs"
proof -
  have "set (foldl (\<lambda>ks x. if x \<in> set ks then ks else ks @ [x]) ys xs) = set ys \<union> set xs" for ys
    by (induction xs arbitrary: ys) auto
  then show ?thesis by (simp add: from_keys_def)
qed

section \<open>Seeded generators\<close>

text \<open>
  A \<open>random.Random\<close> is the sequence of the raw draws it has left. Which sequence a seed gives
  is the standard library's business, and every theorem holds for all of them. \<open>randint\<close> is the
  library's inclusive range.
\<close>

type_synonym draws = "nat \<Rightarrow> nat"

definition next_draw :: "draws \<Rightarrow> draws" where
  "next_draw g = (\<lambda>i. g (Suc i))"

definition randint :: "nat \<Rightarrow> nat \<Rightarrow> draws \<Rightarrow> nat \<times> draws" where
  "randint lo hi g = (lo + g 0 mod (hi - lo + 1), next_draw g)"

type_synonym dyadic = "int \<times> nat" \<comment> \<open>\<open>(m, k)\<close> is \<open>m / 2 ^ k\<close>\<close>

text \<open>\<open>random()\<close> is a multiple of \<open>2 ^ -53\<close> below one, taken from the next raw draw.\<close>

definition random_draw :: "draws \<Rightarrow> dyadic \<times> draws" where
  "random_draw g = ((int (g 0 mod 2 ^ 53), 53), next_draw g)"

lemma randint_bounds: "lo \<le> hi \<Longrightarrow> lo \<le> fst (randint lo hi g) \<and> fst (randint lo hi g) \<le> hi"
proof -
  assume "lo \<le> hi"
  moreover have "g 0 mod (hi - lo + 1) < hi - lo + 1"
    by (rule mod_less_divisor) simp
  ultimately have "lo + g 0 mod (hi - lo + 1) \<le> hi" by linarith
  then show ?thesis by (simp add: randint_def)
qed

text \<open>
  \<open>choice\<close> takes one of a list, \<open>sample\<close> some of its places without repeating one, and \<open>shuffle\<close>
  exchanges each place, from the last down, with one not after it.
\<close>

definition choice :: "'a list \<Rightarrow> draws \<Rightarrow> ('a \<times> draws) result" where
  "choice xs g = (if xs = [] then Inl IndexError else Inr (xs ! (g 0 mod length xs), next_draw g))"

fun sample_from :: "'a list \<Rightarrow> nat \<Rightarrow> draws \<Rightarrow> 'a list \<times> draws" where
  "sample_from pool 0 g = ([], g)"
| "sample_from pool (Suc k) g =
     (let j = g 0 mod length pool;
          (xs, g') = sample_from (butlast (pool[j := last pool])) k (next_draw g)
      in (pool ! j # xs, g'))"

definition sample :: "'a list \<Rightarrow> nat \<Rightarrow> draws \<Rightarrow> ('a list \<times> draws) result" where
  "sample pool k g = (if k > length pool then Inl ValueError else Inr (sample_from pool k g))"

fun shuffle_from :: "nat \<Rightarrow> 'a list \<Rightarrow> draws \<Rightarrow> 'a list \<times> draws" where
  "shuffle_from 0 xs g = (xs, g)"
| "shuffle_from (Suc i) xs g =
     (let j = g 0 mod (Suc i + 1)
      in shuffle_from i (xs[Suc i := xs ! j, j := xs ! Suc i]) (next_draw g))"

definition shuffle :: "'a list \<Rightarrow> draws \<Rightarrow> 'a list \<times> draws" where
  "shuffle xs g = shuffle_from (length xs - 1) xs g"

lemma choice_in: "choice xs g = Inr (x, g') \<Longrightarrow> x \<in> set xs"
  by (auto simp: choice_def split: if_splits)

lemma choice_total: "xs \<noteq> [] \<Longrightarrow> \<exists>x g'. choice xs g = Inr (x, g') \<and> x \<in> set xs"
  by (auto simp: choice_def)

lemma mset_drop_at: "j < length xs \<Longrightarrow> add_mset (xs ! j) (mset (butlast (xs[j := last xs]))) = mset xs"
proof -
  assume j: "j < length xs"
  then obtain ys z where xs: "xs = ys @ [z]" by (cases xs rule: rev_cases) auto
  show ?thesis
  proof (cases "j = length ys")
    case False
    with j xs have j': "j < length ys" by simp
    then have "mset (ys[j := z]) = add_mset z (mset ys - {#ys ! j#})" by (rule mset_update)
    moreover have "ys ! j \<in># mset ys" using j' by simp
    ultimately show ?thesis using j' xs by (simp add: list_update_append butlast_append nth_append)
  qed (simp add: xs list_update_append)
qed

lemma sample_from_mset:
  assumes "k \<le> length pool" "sample_from pool k g = (xs, g')"
  shows "length xs = k \<and> mset xs \<subseteq># mset pool"
  using assms
proof (induction pool k g arbitrary: xs rule: sample_from.induct)
  case (2 pool k g)
  let ?j = "g 0 mod length pool"
  have j: "?j < length pool" using "2.prems"(1) by (intro mod_less_divisor) linarith
  obtain ys where ys: "sample_from (butlast (pool[?j := last pool])) k (next_draw g) = (ys, g')"
    "xs = pool ! ?j # ys" using "2.prems"(2) by (auto simp: Let_def split: prod.splits)
  have "length ys = k \<and> mset ys \<subseteq># mset (butlast (pool[?j := last pool]))"
    using "2.IH" [OF refl _ ys(1)] "2.prems"(1) by simp
  then have "mset xs \<subseteq># add_mset (pool ! ?j) (mset (butlast (pool[?j := last pool])))"
    using ys(2) by simp
  then show ?case
    using \<open>length ys = k \<and> _\<close> ys(2) unfolding mset_drop_at [OF j] by simp
qed simp

lemma shuffle_from_mset: "i < length xs \<Longrightarrow> mset (fst (shuffle_from i xs g)) = mset xs"
proof (induction i xs g rule: shuffle_from.induct)
  case (2 i xs g)
  let ?j = "g 0 mod (Suc i + 1)"
  have "?j < Suc i + 1" by (rule mod_less_divisor) simp
  then have j: "?j < length xs" using "2.prems" by linarith
  have "mset (xs[Suc i := xs ! ?j, ?j := xs ! Suc i]) = mset xs" by (rule mset_swap [OF j "2.prems"])
  then show ?case using "2.IH" [OF refl] "2.prems" by (simp only: shuffle_from.simps Let_def) simp
qed simp

lemma shuffle_mset: "mset (fst (shuffle xs g)) = mset xs"
  by (cases xs) (auto simp: shuffle_def shuffle_from_mset)

section \<open>Lists that agree up to an index\<close>

text \<open>
  Logs are compared by the entries they hold up to a one based index. \<open>agree i xs ys\<close> says both
  lists hold that many entries and they are the same.
\<close>

definition agree :: "nat \<Rightarrow> 'a list \<Rightarrow> 'a list \<Rightarrow> bool" where
  "agree i xs ys \<longleftrightarrow> i \<le> length xs \<and> i \<le> length ys \<and> take i xs = take i ys"

lemma agree_0 [simp]: "agree 0 xs ys"
  by (simp add: agree_def)

lemma agree_refl: "i \<le> length xs \<Longrightarrow> agree i xs xs"
  by (simp add: agree_def)

lemma agree_sym: "agree i xs ys \<Longrightarrow> agree i ys xs"
  by (simp add: agree_def)

lemma agree_trans: "agree i xs ys \<Longrightarrow> agree i ys zs \<Longrightarrow> agree i xs zs"
  by (simp add: agree_def)

lemma agree_mono: "agree i xs ys \<Longrightarrow> j \<le> i \<Longrightarrow> agree j xs ys"
  by (auto simp: agree_def) (metis min.absorb2 min.commute take_take)

lemma agree_nth: "agree i xs ys \<Longrightarrow> j < i \<Longrightarrow> xs ! j = ys ! j"
  by (metis agree_def nth_take)

lemma agree_append: "agree i xs ys \<Longrightarrow> agree i xs (ys @ zs)"
  by (simp add: agree_def)

lemma agree_take: "i \<le> q \<Longrightarrow> agree i (take q xs) ys \<longleftrightarrow> i \<le> q \<and> agree i xs ys"
  by (auto simp: agree_def min_def)

lemma agree_length: "agree i xs ys \<Longrightarrow> i \<le> length xs" "agree i xs ys \<Longrightarrow> i \<le> length ys"
  by (auto simp: agree_def)

lemma agree_iff_nth:
  "agree i xs ys \<longleftrightarrow> i \<le> length xs \<and> i \<le> length ys \<and> (\<forall>j<i. xs ! j = ys ! j)"
proof
  assume "agree i xs ys"
  then show "i \<le> length xs \<and> i \<le> length ys \<and> (\<forall>j<i. xs ! j = ys ! j)"
    by (auto simp: agree_length agree_nth)
next
  assume *: "i \<le> length xs \<and> i \<le> length ys \<and> (\<forall>j<i. xs ! j = ys ! j)"
  then have "take i xs = take i ys"
    by (intro nth_equalityI) auto
  with * show "agree i xs ys" by (simp add: agree_def)
qed

lemma agree_Suc: "agree (Suc i) xs ys \<longleftrightarrow> agree i xs ys \<and> i < length xs \<and> i < length ys \<and> xs ! i = ys ! i"
  by (auto simp: agree_iff_nth less_Suc_eq)

lemma agree_full: "agree (length xs) xs ys \<Longrightarrow> xs = take (length xs) ys"
  by (simp add: agree_def)

end
