(* ===== verification/Raft_Log.thy ===== *)
theory Raft_Log
  imports Prelude
begin

text \<open>
  \<open>src/rsm/log.py\<close>: entries, the replicated log and its operations, and the two ways of
  finding where a follower's log stops agreeing with a leader's. Terms and indices are
  non-negative in every object the constructors accept, so they are \<open>nat\<close>; the subtractions
  of the source all sit behind a comparison, which the model keeps.
\<close>

section \<open>Entries\<close>

definition NO_TERM :: nat where "NO_TERM = 0"
definition NO_INDEX :: nat where "NO_INDEX = 0"

record entry =
  e_term :: nat
  e_index :: nat
  command :: pyobj

definition Entry :: "nat \<Rightarrow> nat \<Rightarrow> pyobj \<Rightarrow> entry result" where
  "Entry t i c =
     (if t < 1 then Inl ConfigError
      else if i < 1 then Inl ConfigError
      else Inr \<lparr>e_term = t, e_index = i, command = c\<rparr>)"

definition is_noop :: "entry \<Rightarrow> bool" where
  "is_noop e \<longleftrightarrow> command e = PNone"

section \<open>The log and its reads\<close>

record raft_log =
  entries :: "entry list"
  snapshot_index :: nat
  snapshot_term :: nat

fun in_place :: "nat \<Rightarrow> entry list \<Rightarrow> bool" where
  "in_place s [] = True"
| "in_place s (e # es) = (e_index e = s + 1 \<and> in_place (s + 1) es)"

fun terms_ascend :: "entry list \<Rightarrow> bool" where
  "terms_ascend [] = True"
| "terms_ascend [e] = True"
| "terms_ascend (e # f # es) = (\<not> e_term f < e_term e \<and> terms_ascend (f # es))"

definition Log :: "entry list \<Rightarrow> nat \<Rightarrow> nat \<Rightarrow> raft_log result" where
  "Log es si st =
     (if \<not> in_place si es then Inl ConfigError
      else if \<not> terms_ascend es then Inl ConfigError
      else Inr \<lparr>entries = es, snapshot_index = si, snapshot_term = st\<rparr>)"

definition empty_log :: raft_log where
  "empty_log = \<lparr>entries = [], snapshot_index = NO_INDEX, snapshot_term = NO_TERM\<rparr>"

definition first_index :: "raft_log \<Rightarrow> nat" where
  "first_index l = snapshot_index l + 1"

definition last_index :: "raft_log \<Rightarrow> nat" where
  "last_index l = (if entries l \<noteq> [] then e_index (last (entries l)) else snapshot_index l)"

definition last_term :: "raft_log \<Rightarrow> nat" where
  "last_term l = (if entries l \<noteq> [] then e_term (last (entries l)) else snapshot_term l)"

definition log_empty :: "raft_log \<Rightarrow> bool" where
  "log_empty l \<longleftrightarrow> last_index l = NO_INDEX"

definition holds :: "raft_log \<Rightarrow> nat \<Rightarrow> bool" where
  "holds l i \<longleftrightarrow> first_index l \<le> i \<and> i \<le> last_index l"

definition log_at :: "raft_log \<Rightarrow> nat \<Rightarrow> entry result" where
  "log_at l i =
     (if i \<le> snapshot_index l then Inl Compacted
      else if i > last_index l then Inl NotFound
      else if i - first_index l < length (entries l) then Inr (entries l ! (i - first_index l))
      else Inl IndexError)"

definition term_at :: "raft_log \<Rightarrow> nat \<Rightarrow> nat result" where
  "term_at l i =
     (if i = NO_INDEX then Inr NO_TERM
      else if i = snapshot_index l then Inr (snapshot_term l)
      else rbind (log_at l i) (\<lambda>e. Inr (e_term e)))"

definition log_slice :: "raft_log \<Rightarrow> nat \<Rightarrow> nat option \<Rightarrow> entry list result" where
  "log_slice l start stop =
     (if start < first_index l then Inl Compacted
      else let end = (case stop of None \<Rightarrow> last_index l | Some s \<Rightarrow> min s (last_index l))
           in rmap (log_at l) [start..<end + 1])"

definition matches :: "raft_log \<Rightarrow> nat \<Rightarrow> nat \<Rightarrow> bool result" where
  "matches l i t =
     (if i = NO_INDEX then Inr True
      else if i < snapshot_index l \<or> i > last_index l then Inr False
      else rbind (term_at l i) (\<lambda>u. Inr (u = t)))"

definition is_up_to_date :: "raft_log \<Rightarrow> nat \<Rightarrow> nat \<Rightarrow> bool" where
  "is_up_to_date l other_index other_term =
     (if other_term \<noteq> last_term l then other_term > last_term l
      else other_index \<ge> last_index l)"

section \<open>Writes\<close>

text \<open>
  \<open>append\<close> adds entries one at a time and raises at the first one that does not continue the
  log. Those before it stay, so the log is returned beside the exception.
\<close>

fun log_append :: "raft_log \<Rightarrow> entry list \<Rightarrow> raft_log \<times> error option" where
  "log_append l [] = (l, None)"
| "log_append l (e # es) =
     (if e_index e \<noteq> last_index l + 1 then (l, Some LogError)
      else if e_term e < last_term l then (l, Some LeaderAppendOnly)
      else log_append (l\<lparr>entries := entries l @ [e]\<rparr>) es)"

definition append1 :: "raft_log \<Rightarrow> entry \<Rightarrow> raft_log result" where
  "append1 l e = (case log_append l [e] of (l', None) \<Rightarrow> Inr l' | (l', Some x) \<Rightarrow> Inl x)"

definition truncate_from :: "raft_log \<Rightarrow> nat \<Rightarrow> (nat \<times> raft_log) result" where
  "truncate_from l i =
     (if i \<le> snapshot_index l then Inl Compacted
      else if i > last_index l then Inr (0, l)
      else let keep = i - first_index l
           in Inr (length (entries l) - keep, l\<lparr>entries := take keep (entries l)\<rparr>))"

section \<open>Building logs and reconciling them\<close>

fun number_entries :: "nat \<Rightarrow> (nat \<times> pyobj) list \<Rightarrow> entry list result" where
  "number_entries i [] = Inr []"
| "number_entries i ((t, c) # tcs) =
     rbind (Entry t i c) (\<lambda>e. rbind (number_entries (i + 1) tcs) (\<lambda>es. Inr (e # es)))"

text \<open>
  \<open>written\<close> takes the terms with their commands; the source's default commands, the index
  spelled out, are one choice of them.
\<close>

definition written :: "(nat \<times> pyobj) list \<Rightarrow> nat \<Rightarrow> raft_log result" where
  "written tcs start =
     rbind (number_entries start tcs) (\<lambda>es.
       if start = 1 then Log es NO_INDEX NO_TERM
       else Log es (start - 1) (case tcs of [] \<Rightarrow> 1 | (t, c) # _ \<Rightarrow> t))"

definition diverge :: "raft_log \<Rightarrow> nat \<Rightarrow> (nat \<times> pyobj) list \<Rightarrow> raft_log result" where
  "diverge base i tcs =
     (if i < 1 then Inl ConfigError
      else rbind (Log (filter (\<lambda>e. e_index e < i) (entries base)) NO_INDEX NO_TERM) (\<lambda>made.
             rbind (number_entries i tcs) (\<lambda>es. Inr (made\<lparr>entries := entries made @ es\<rparr>))))"

fun agree_down :: "raft_log \<Rightarrow> raft_log \<Rightarrow> nat \<Rightarrow> nat result" where
  "agree_down left right 0 = Inr NO_INDEX"
| "agree_down left right (Suc i) =
     (if \<not> holds left (Suc i) \<or> \<not> holds right (Suc i) then agree_down left right i
      else rbind (term_at left (Suc i)) (\<lambda>t. rbind (term_at right (Suc i)) (\<lambda>u.
             if t = u then Inr (Suc i) else agree_down left right i)))"

definition agree_up_to :: "raft_log \<Rightarrow> raft_log \<Rightarrow> nat result" where
  "agree_up_to left right = agree_down left right (min (last_index left) (last_index right))"

fun walk_back :: "raft_log \<Rightarrow> raft_log \<Rightarrow> nat \<Rightarrow> nat \<Rightarrow> nat result" where
  "walk_back leader follower 0 trips = Inr trips"
| "walk_back leader follower (Suc previous) trips =
     rbind (if holds leader previous then term_at leader previous else Inr 0) (\<lambda>t.
     rbind (matches follower previous t) (\<lambda>ok.
       if ok then Inr (trips + 1)
       else if previous = NO_INDEX then Inr (trips + 1)
       else walk_back leader follower previous (trips + 1)))"

definition reconcile_one_at_a_time :: "raft_log \<Rightarrow> raft_log \<Rightarrow> nat result" where
  "reconcile_one_at_a_time leader follower = walk_back leader follower (last_index leader + 1) 0"

text \<open>
  Where the run of one term that ends at \<open>first\<close> begins. The node's refusal uses the same loop.
\<close>

function run_start :: "raft_log \<Rightarrow> nat \<Rightarrow> nat \<Rightarrow> nat result" where
  "run_start l conflicting first =
     (if first > first_index l
      then rbind (term_at l (first - 1)) (\<lambda>t.
             if t = conflicting then run_start l conflicting (first - 1) else Inr first)
      else Inr first)"
  by pat_completeness auto
termination
  by (relation "measure (\<lambda>(l, c, first). first)") auto

declare run_start.simps [simp del]

text \<open>
  Jumping over whole terms: one turn of the loop raises, returns, or goes round again with a
  new next index. Nothing bounds the loop for logs that were compacted, so a run that does not
  come back is \<open>None\<close>.
\<close>

datatype turn = is_raise: Raise (raised: error) | is_return: Return | Again (retry: nat)

definition jump_turn :: "raft_log \<Rightarrow> raft_log \<Rightarrow> nat \<Rightarrow> turn" where
  "jump_turn leader follower previous =
     (case (if holds leader previous then term_at leader previous else Inr NO_TERM) of
        Inl e \<Rightarrow> Raise e
      | Inr leader_term \<Rightarrow>
         (if previous = NO_INDEX then Return
          else case matches follower previous leader_term of
            Inl e \<Rightarrow> Raise e
          | Inr ok \<Rightarrow>
             (if ok then Return
              else if \<not> holds follower previous then Again (last_index follower + 1)
              else case rbind (term_at follower previous) (\<lambda>c. run_start follower c previous) of
                Inl e \<Rightarrow> Raise e
              | Inr first \<Rightarrow> Again first)))"

partial_function (option) jump_back ::
  "raft_log \<Rightarrow> raft_log \<Rightarrow> nat \<Rightarrow> nat \<Rightarrow> nat result option" where
  "jump_back leader follower next_index trips =
     (if next_index > NO_INDEX then
        (if is_raise (jump_turn leader follower (next_index - 1))
         then Some (Inl (raised (jump_turn leader follower (next_index - 1))))
         else if is_return (jump_turn leader follower (next_index - 1)) then Some (Inr (trips + 1))
         else jump_back leader follower (retry (jump_turn leader follower (next_index - 1)))
                (trips + 1))
      else Some (Inr trips))"

definition reconcile_by_conflict_term :: "raft_log \<Rightarrow> raft_log \<Rightarrow> nat result option" where
  "reconcile_by_conflict_term leader follower =
     jump_back leader follower (last_index leader + 1) 0"

section \<open>Well-formed logs\<close>

text \<open>
  What the constructor checks, and what every operation of a node keeps: entries sit at
  consecutive indices above the snapshot and their terms never go backwards.
\<close>

definition log_ok :: "raft_log \<Rightarrow> bool" where
  "log_ok l \<longleftrightarrow> in_place (snapshot_index l) (entries l) \<and> terms_ascend (entries l)"

lemma in_place_iff: "in_place s es \<longleftrightarrow> (\<forall>j<length es. e_index (es ! j) = s + j + 1)"
proof (induction s es rule: in_place.induct)
  case (1 s)
  then show ?case by simp
next
  case (2 s e es)
  then show ?case by (auto simp: less_Suc_eq_0_disj)
qed

lemma in_place_append:
  "in_place s (es @ fs) \<longleftrightarrow> in_place s es \<and> in_place (s + length es) fs"
  by (induction s es rule: in_place.induct) auto

lemma in_place_take: "in_place s es \<Longrightarrow> in_place s (take n es)"
  by (metis append_take_drop_id in_place_append)

lemma terms_ascend_iff: "terms_ascend es \<longleftrightarrow> sorted (map e_term es)"
proof (induction es rule: terms_ascend.induct)
  case (3 e f es)
  then show ?case by (auto intro: order_trans [of "e_term e" "e_term f"])
qed auto

lemma terms_ascend_append:
  "terms_ascend (es @ [e]) \<longleftrightarrow> terms_ascend es \<and> (es = [] \<or> e_term (last es) \<le> e_term e)"
proof (induction es rule: terms_ascend.induct)
  case (3 e f es)
  then show ?case by auto
qed auto

lemma terms_ascend_take: "terms_ascend es \<Longrightarrow> terms_ascend (take n es)"
  by (simp add: terms_ascend_iff take_map [symmetric] sorted_wrt_take)

lemma Log_ok: "Log es si st = Inr l \<longleftrightarrow>
    l = \<lparr>entries = es, snapshot_index = si, snapshot_term = st\<rparr> \<and> log_ok l"
  by (auto simp: Log_def log_ok_def)

lemma last_index_ok: "log_ok l \<Longrightarrow> last_index l = snapshot_index l + length (entries l)"
  by (auto simp: log_ok_def last_index_def in_place_iff last_conv_nth)

lemma log_at_ok:
  "log_ok l \<Longrightarrow> snapshot_index l < i \<Longrightarrow> i \<le> last_index l \<Longrightarrow>
   log_at l i = Inr (entries l ! (i - snapshot_index l - 1))"
  by (auto simp: log_at_def last_index_ok first_index_def)

lemma log_at_index:
  "log_ok l \<Longrightarrow> log_at l i = Inr e \<Longrightarrow> e_index e = i"
  by (auto simp: log_at_def last_index_ok first_index_def log_ok_def in_place_iff split: if_splits)

lemma log_ok_empty [simp]: "log_ok empty_log"
  by (simp add: log_ok_def empty_log_def)

lemma log_append_ok:
  "log_ok l \<Longrightarrow> (\<forall>e\<in>set (entries l). snapshot_term l \<le> e_term e) \<Longrightarrow>
   log_ok (fst (log_append l es)) \<and>
   (\<forall>e\<in>set (entries (fst (log_append l es))). snapshot_term l \<le> e_term e)"
proof (induction l es rule: log_append.induct)
  case (1 l)
  then show ?case by simp
next
  case (2 l e es)
  show ?case
  proof (cases "e_index e \<noteq> last_index l + 1 \<or> e_term e < last_term l")
    case True
    with "2.prems" show ?thesis by auto
  next
    case False
    with "2.prems" have "log_ok (l\<lparr>entries := entries l @ [e]\<rparr>)"
      by (auto simp: log_ok_def in_place_append terms_ascend_append last_term_def
          last_index_ok [unfolded log_ok_def] split: if_splits)
    moreover from False "2.prems" have "snapshot_term l \<le> e_term e"
      by (cases "entries l" rule: rev_cases) (auto simp: last_term_def)
    ultimately show ?thesis
      using "2.IH" False "2.prems" by auto
  qed
qed

lemma log_append_prefix:
  "\<exists>n. entries (fst (log_append l es)) = entries l @ take n es \<and>
       (snd (log_append l es) = None \<longrightarrow> n = length es)"
proof (induction l es rule: log_append.induct)
  case (1 l)
  then show ?case by simp
next
  case (2 l e es)
  show ?case
  proof (cases "e_index e \<noteq> last_index l + 1 \<or> e_term e < last_term l")
    case True
    then show ?thesis by (intro exI [where x = 0]) auto
  next
    case False
    with "2.IH" obtain n where
      "entries (fst (log_append (l\<lparr>entries := entries l @ [e]\<rparr>) es)) = (entries l @ [e]) @ take n es"
      "snd (log_append (l\<lparr>entries := entries l @ [e]\<rparr>) es) = None \<longrightarrow> n = length es"
      by auto
    with False show ?thesis by (intro exI [where x = "Suc n"]) auto
  qed
qed

lemma append1_Inr:
  "append1 l e = Inr l' \<longleftrightarrow>
   e_index e = last_index l + 1 \<and> last_term l \<le> e_term e \<and> l' = l\<lparr>entries := entries l @ [e]\<rparr>"
  by (auto simp: append1_def)

lemma truncate_ok: "log_ok l \<Longrightarrow> truncate_from l i = Inr (n, l') \<Longrightarrow> log_ok l'"
  by (auto simp: truncate_from_def log_ok_def in_place_take terms_ascend_take Let_def split: if_splits)

section \<open>Logs that were never compacted\<close>

text \<open>
  A node of a cluster that takes no snapshot keeps the whole history, and its log is the list of
  its entries. The reads become list operations.
\<close>

definition plain :: "entry list \<Rightarrow> raft_log" where
  "plain es = \<lparr>entries = es, snapshot_index = 0, snapshot_term = 0\<rparr>"

definition indexed :: "entry list \<Rightarrow> bool" where
  "indexed es \<longleftrightarrow> (\<forall>j<length es. e_index (es ! j) = j + 1)"

lemma indexed_in_place: "indexed es \<longleftrightarrow> in_place 0 es"
  by (simp add: indexed_def in_place_iff)

lemma indexed_append1: "indexed (es @ [e]) \<longleftrightarrow> indexed es \<and> e_index e = length es + 1"
  by (auto simp: indexed_in_place in_place_append)

lemma indexed_take: "indexed es \<Longrightarrow> indexed (take n es)"
  by (auto simp: indexed_def)

lemma indexed_Nil [simp]: "indexed []"
  by (simp add: indexed_def)

named_theorems plain_log

lemma entries_plain [simp]: "entries (plain es) = es"
  and snapshot_plain [simp]: "snapshot_index (plain es) = 0" "snapshot_term (plain es) = 0"
  by (simp_all add: plain_def)

lemma plain_update [simp]: "(plain es)\<lparr>entries := fs\<rparr> = plain fs"
  by (simp add: plain_def)

lemma plain_empty: "empty_log = plain []"
  by (simp add: plain_def empty_log_def NO_INDEX_def NO_TERM_def)

lemma plain_inject [simp]: "plain es = plain fs \<longleftrightarrow> es = fs"
  by (simp add: plain_def)

definition term_of :: "entry list \<Rightarrow> nat \<Rightarrow> nat" where
  "term_of es i = (if i = 0 then 0 else e_term (es ! (i - 1)))"

lemma first_index_plain [plain_log]: "first_index (plain es) = 1"
  by (simp add: first_index_def)

lemma last_index_plain [plain_log]: "indexed es \<Longrightarrow> last_index (plain es) = length es"
  by (auto simp: last_index_def indexed_def last_conv_nth)

lemma last_term_plain [plain_log]: "last_term (plain es) = term_of es (length es)"
  by (auto simp: last_term_def term_of_def last_conv_nth)

lemma holds_plain [plain_log]: "indexed es \<Longrightarrow> holds (plain es) i \<longleftrightarrow> 1 \<le> i \<and> i \<le> length es"
  by (simp add: holds_def plain_log)

lemma log_at_plain [plain_log]:
  "indexed es \<Longrightarrow> 1 \<le> i \<Longrightarrow> i \<le> length es \<Longrightarrow> log_at (plain es) i = Inr (es ! (i - 1))"
  by (auto simp: log_at_def plain_log)

lemma term_at_plain [plain_log]:
  "indexed es \<Longrightarrow> i \<le> length es \<Longrightarrow> term_at (plain es) i = Inr (term_of es i)"
  by (auto simp: term_at_def plain_log term_of_def NO_TERM_def NO_INDEX_def)

lemma matches_plain [plain_log]:
  "indexed es \<Longrightarrow>
   matches (plain es) i t = Inr (i = 0 \<or> (i \<le> length es \<and> term_of es i = t))"
  by (auto simp: matches_def plain_log NO_INDEX_def)

lemma truncate_plain [plain_log]:
  "indexed es \<Longrightarrow> 1 \<le> i \<Longrightarrow>
   truncate_from (plain es) i = Inr (length es - (i - 1), plain (take (i - 1) es))"
  by (auto simp: truncate_from_def plain_log Let_def)

lemma map_nth_upt: "k \<le> length es \<Longrightarrow> map (\<lambda>i. es ! (i - 1)) [Suc j..<Suc k] = take (k - j) (drop j es)"
  by (rule nth_equalityI) (auto simp del: upt_Suc)

lemma slice_plain [plain_log]:
  assumes "indexed es" "1 \<le> start"
  shows "log_slice (plain es) start (Some stop) =
         Inr (take (min stop (length es) - (start - 1)) (drop (start - 1) es))"
proof -
  let ?last = "min stop (length es)"
  have "rmap (log_at (plain es)) [start..<?last + 1] = Inr (map (\<lambda>i. es ! (i - 1)) [start..<?last + 1])"
    using assms by (intro rmap_Inr) (auto simp: plain_log)
  also have "map (\<lambda>i. es ! (i - 1)) [start..<?last + 1] = take (?last - (start - 1)) (drop (start - 1) es)"
    using map_nth_upt [of ?last es "start - 1"] assms by (simp del: upt_Suc)
  finally show ?thesis
    using assms by (simp add: log_slice_def plain_log del: upt_Suc)
qed

lemma append1_plain [plain_log]:
  "indexed es \<Longrightarrow> e_index e = length es + 1 \<Longrightarrow> term_of es (length es) \<le> e_term e \<Longrightarrow>
   append1 (plain es) e = Inr (plain (es @ [e]))"
  by (simp add: append1_Inr plain_log)

end
