(* ===== verification/Protocol.thy ===== *)
theory Protocol
  imports Raft_Log
begin

text \<open>
  The protocol the nodes of \<open>src/rsm/node.py\<close> run, without messages, timers or batches: what
  happens to terms, votes, logs and commitments, one atomic step at a time. The state keeps its
  history: who voted for whom in every term, the log every candidate stood with, the log every
  leader has written, and what every node has acknowledged to every leader. \<open>Node_Refines\<close>
  shows that the handlers of the code take these steps and no others; the safety argument is
  made here, once, for any pair of quorum systems.

  Logs are lists of entries; positions in them are one based, as in the code.
\<close>

record 'n protocol =
  aterm :: "'n \<Rightarrow> nat"
  alog :: "'n \<Rightarrow> entry list"
  vote :: "nat \<Rightarrow> 'n \<Rightarrow> 'n option"
  cand :: "nat \<Rightarrow> 'n \<Rightarrow> entry list option"
  lead :: "nat \<Rightarrow> 'n option"
  llog :: "nat \<Rightarrow> entry list"
  ack :: "nat \<Rightarrow> 'n \<Rightarrow> nat"
  com :: "(nat \<times> nat) set"
  acommit :: "'n \<Rightarrow> nat"

definition init_protocol :: "'n protocol" where
  "init_protocol =
     \<lparr>aterm = (\<lambda>n. 1), alog = (\<lambda>n. []), vote = (\<lambda>t n. None), cand = (\<lambda>t n. None),
      lead = (\<lambda>t. None), llog = (\<lambda>t. []), ack = (\<lambda>t n. 0), com = {}, acommit = (\<lambda>n. 0)\<rparr>"

text \<open>The election restriction: last term first, length second.\<close>

definition as_good :: "entry list \<Rightarrow> entry list \<Rightarrow> bool" where
  "as_good other own \<longleftrightarrow>
     term_of own (length own) < term_of other (length other) \<or>
     term_of own (length own) = term_of other (length other) \<and> length own \<le> length other"

text \<open>
  What a follower's log becomes when it takes a leader's log up to index \<open>q\<close>: unchanged if it
  holds all of that already, the leader's entries and nothing more otherwise.
\<close>

definition adopt :: "entry list \<Rightarrow> entry list \<Rightarrow> nat \<Rightarrow> entry list" where
  "adopt own theirs q = (if agree q own theirs then own else take q theirs)"

text \<open>An index is covered by a commitment the term \<open>t\<close> has seen.\<close>

definition covered :: "'n protocol \<Rightarrow> nat \<Rightarrow> entry list \<Rightarrow> nat \<Rightarrow> bool" where
  "covered s t l c \<longleftrightarrow>
     c = 0 \<or> (\<exists>u i. (u, i) \<in> com s \<and> u \<le> t \<and> c \<le> i \<and> agree c l (llog s u))"

inductive pstep ::
  "('n set \<Rightarrow> bool) \<Rightarrow> ('n set \<Rightarrow> bool) \<Rightarrow> 'n protocol \<Rightarrow> 'n protocol \<Rightarrow> bool"
  for elects :: "'n set \<Rightarrow> bool" and commits :: "'n set \<Rightarrow> bool" where
  bump: "aterm s n \<le> t \<Longrightarrow>
    pstep elects commits s (s\<lparr>aterm := (aterm s)(n := t)\<rparr>)"
| stand: "t = aterm s n + 1 \<Longrightarrow>
    pstep elects commits s
      (s\<lparr>aterm := (aterm s)(n := t),
         vote := (vote s)(t := (vote s t)(n := Some n)),
         cand := (cand s)(t := (cand s t)(n := Some (alog s n)))\<rparr>)"
| grant: "aterm s v = t \<Longrightarrow> vote s t v = None \<or> vote s t v = Some c \<Longrightarrow>
    cand s t c = Some l \<Longrightarrow> as_good l (alog s v) \<Longrightarrow>
    pstep elects commits s (s\<lparr>vote := (vote s)(t := (vote s t)(v := Some c))\<rparr>)"
| elect: "aterm s c = t \<Longrightarrow> cand s t c = Some (alog s c) \<Longrightarrow> lead s t = None \<Longrightarrow>
    elects {v. vote s t v = Some c} \<Longrightarrow>
    e_term e = t \<Longrightarrow> e_index e = length (alog s c) + 1 \<Longrightarrow>
    pstep elects commits s
      (s\<lparr>lead := (lead s)(t := Some c),
         llog := (llog s)(t := alog s c @ [e]),
         alog := (alog s)(c := alog s c @ [e]),
         ack := (ack s)(t := (ack s t)(c := length (alog s c) + 1))\<rparr>)"
| extend: "aterm s n = t \<Longrightarrow> lead s t = Some n \<Longrightarrow> alog s n = llog s t \<Longrightarrow>
    e_term e = t \<Longrightarrow> e_index e = length (alog s n) + 1 \<Longrightarrow>
    pstep elects commits s
      (s\<lparr>llog := (llog s)(t := alog s n @ [e]),
         alog := (alog s)(n := alog s n @ [e]),
         ack := (ack s)(t := (ack s t)(n := length (alog s n) + 1))\<rparr>)"
| accept: "aterm s v = t \<Longrightarrow> lead s t = Some l \<Longrightarrow> q \<le> length (llog s t) \<Longrightarrow>
    pstep elects commits s
      (s\<lparr>alog := (alog s)(v := adopt (alog s v) (llog s t) q),
         ack := (ack s)(t := (ack s t)(v := max (ack s t v) q))\<rparr>)"
| commit: "lead s t = Some l \<Longrightarrow> 1 \<le> i \<Longrightarrow> i \<le> length (llog s t) \<Longrightarrow>
    term_of (llog s t) i = t \<Longrightarrow> commits {v. i \<le> ack s t v} \<Longrightarrow>
    pstep elects commits s (s\<lparr>com := insert (t, i) (com s)\<rparr>)"
| learn: "covered s (aterm s n) (alog s n) c \<Longrightarrow> c \<le> length (alog s n) \<Longrightarrow>
    pstep elects commits s (s\<lparr>acommit := (acommit s)(n := c)\<rparr>)"

inductive preach ::
  "('n set \<Rightarrow> bool) \<Rightarrow> ('n set \<Rightarrow> bool) \<Rightarrow> 'n protocol \<Rightarrow> bool"
  for elects :: "'n set \<Rightarrow> bool" and commits :: "'n set \<Rightarrow> bool" where
  start: "preach elects commits init_protocol"
| next_step: "preach elects commits s \<Longrightarrow> pstep elects commits s s' \<Longrightarrow>
    preach elects commits s'"

text \<open>Several steps in a row, which is what one handler of the code amounts to.\<close>

inductive psteps ::
  "('n set \<Rightarrow> bool) \<Rightarrow> ('n set \<Rightarrow> bool) \<Rightarrow> 'n protocol \<Rightarrow> 'n protocol \<Rightarrow> bool"
  for elects :: "'n set \<Rightarrow> bool" and commits :: "'n set \<Rightarrow> bool" where
  none: "psteps elects commits s s"
| more: "psteps elects commits s s' \<Longrightarrow> pstep elects commits s' s'' \<Longrightarrow>
    psteps elects commits s s''"

lemma psteps_one: "pstep E C s s' \<Longrightarrow> psteps E C s s'"
  by (rule psteps.more [OF psteps.none])

lemma psteps_trans: "psteps E C s' s'' \<Longrightarrow> psteps E C s s' \<Longrightarrow> psteps E C s s''"
  by (induction rule: psteps.induct) (auto intro: psteps.intros)

lemma psteps_reach: "psteps E C s s' \<Longrightarrow> preach E C s \<Longrightarrow> preach E C s'"
  by (induction rule: psteps.induct) (auto intro: preach.intros)

end
