(* ===== verification/Quorums.thy ===== *)
theory Quorums
  imports Prelude
begin

text \<open>
  \<open>src/rsm/quorum.py\<close>: how many nodes an election and a commit need, and what has to overlap
  with what; and the interface the safety argument asks of quorums.
\<close>

section \<open>The interface\<close>

text \<open>
  What the protocol relies on: two sets that can each elect a leader meet, a set that can elect
  meets every set that can commit, and adding nodes to a quorum leaves it a quorum. The source's
  comment names the second law alone; the first is what keeps one leader to a term.
\<close>

locale quorum_pair =
  fixes elects :: "'n set \<Rightarrow> bool" and commits :: "'n set \<Rightarrow> bool"
  assumes elects_meet: "elects A \<Longrightarrow> elects B \<Longrightarrow> A \<inter> B \<noteq> {}"
    and commit_seen: "elects A \<Longrightarrow> commits B \<Longrightarrow> A \<inter> B \<noteq> {}"
    and elects_mono: "elects A \<Longrightarrow> A \<subseteq> B \<Longrightarrow> elects B"
    and commits_mono: "commits A \<Longrightarrow> A \<subseteq> B \<Longrightarrow> commits B"
begin

lemma one_winner:
  assumes "elects {v. f v = Some c}" "elects {v. f v = Some d}"
  shows "c = d"
  using elects_meet [OF assms] by auto

end

section \<open>Majorities and rules\<close>

definition majority :: "nat \<Rightarrow> nat result" where
  "majority sz = (if sz < 1 then Inl ConfigError else Inr (sz div 2 + 1))"

definition tolerates :: "nat \<Rightarrow> nat result" where
  "tolerates sz = rbind (majority sz) (\<lambda>m. Inr (sz - m))"

record rule =
  size_of :: nat
  election_of :: nat
  commit_of :: nat

definition Rule :: "nat \<Rightarrow> nat \<Rightarrow> nat \<Rightarrow> rule result" where
  "Rule sz election commit =
     (if sz < 1 then Inl ConfigError
      else if \<not> (1 \<le> election \<and> election \<le> sz) then Inl ConfigError
      else if \<not> (1 \<le> commit \<and> commit \<le> sz) then Inl ConfigError
      else Inr \<lparr>size_of = sz, election_of = election, commit_of = commit\<rparr>)"

definition intersects :: "rule \<Rightarrow> bool" where
  "intersects r \<longleftrightarrow> election_of r + commit_of r > size_of r"

definition write_cost :: "rule \<Rightarrow> nat" where
  "write_cost r = commit_of r - 1"

definition election_cost :: "rule \<Rightarrow> nat" where
  "election_cost r = election_of r - 1"

definition survives_writes :: "rule \<Rightarrow> nat" where
  "survives_writes r = size_of r - commit_of r"

definition survives_elections :: "rule \<Rightarrow> nat" where
  "survives_elections r = size_of r - election_of r"

definition survives :: "rule \<Rightarrow> nat" where
  "survives r = min (survives_writes r) (survives_elections r)"

definition raft :: "nat \<Rightarrow> rule result" where
  "raft sz = rbind (majority sz) (\<lambda>m. Rule sz m m)"

text \<open>
  \<open>itertools.combinations\<close>: the sublists of one length, in the library's order; and the search
  for a pair of quorums that share nothing, over members \<open>0\<close> to \<open>size - 1\<close> for the source's
  \<open>n0\<close>, \<open>n1\<close> and so on.
\<close>

fun combinations :: "'a list \<Rightarrow> nat \<Rightarrow> 'a list list" where
  "combinations xs 0 = [[]]"
| "combinations [] (Suc k) = []"
| "combinations (x # xs) (Suc k) = map ((#) x) (combinations xs k) @ combinations xs (Suc k)"

fun first_disjoint :: "'a list \<Rightarrow> 'a list list \<Rightarrow> 'a list option" where
  "first_disjoint left [] = None"
| "first_disjoint left (right # rs) =
     (if set left \<inter> set right = {} then Some right else first_disjoint left rs)"

fun first_pair :: "'a list list \<Rightarrow> 'a list list \<Rightarrow> ('a list \<times> 'a list) option" where
  "first_pair [] rights = None"
| "first_pair (left # ls) rights =
     (case first_disjoint left rights of
        Some right \<Rightarrow> Some (left, right)
      | None \<Rightarrow> first_pair ls rights)"

definition disjoint :: "rule \<Rightarrow> (nat list \<times> nat list) option" where
  "disjoint r =
     (let ms = [0..<size_of r]
      in first_pair (combinations ms (election_of r)) (combinations ms (commit_of r)))"

definition every_pair_overlaps :: "rule \<Rightarrow> bool" where
  "every_pair_overlaps r \<longleftrightarrow> disjoint r = None"

section \<open>The search agrees with the arithmetic\<close>

lemma subsets_insert:
  assumes "x \<notin> M" "finite M"
  shows "{S. S \<subseteq> insert x M \<and> card S = Suc k} =
    insert x ` {S. S \<subseteq> M \<and> card S = k} \<union> {S. S \<subseteq> M \<and> card S = Suc k}"
proof (intro set_eqI iffI)
  fix S assume "S \<in> {S. S \<subseteq> insert x M \<and> card S = Suc k}"
  then have S: "S \<subseteq> insert x M" "card S = Suc k" by auto
  show "S \<in> insert x ` {S. S \<subseteq> M \<and> card S = k} \<union> {S. S \<subseteq> M \<and> card S = Suc k}"
  proof (cases "x \<in> S")
    case True
    then have "S = insert x (S - {x})" "S - {x} \<subseteq> M" "card (S - {x}) = k"
      using S by (auto simp: card_Diff_singleton)
    then show ?thesis by blast
  next
    case False
    with S have "S \<subseteq> M" by blast
    with S show ?thesis by blast
  qed
next
  fix S assume "S \<in> insert x ` {S. S \<subseteq> M \<and> card S = k} \<union> {S. S \<subseteq> M \<and> card S = Suc k}"
  then consider T where "S = insert x T" "T \<subseteq> M" "card T = k" | "S \<subseteq> M" "card S = Suc k"
    by blast
  then show "S \<in> {S. S \<subseteq> insert x M \<and> card S = Suc k}"
  proof cases
    case 1
    then have "finite T" "x \<notin> T"
      using assms by (auto intro: finite_subset)
    with 1 show ?thesis by auto
  next
    case 2
    then show ?thesis by blast
  qed
qed

lemma set_combinations:
  "distinct xs \<Longrightarrow> set ` set (combinations xs k) = {S. S \<subseteq> set xs \<and> card S = k}"
proof (induction xs k rule: combinations.induct)
  case (1 xs)
  have "S = {}" if "S \<subseteq> set xs" "card S = 0" for S
    using finite_subset [OF that(1)] that(2) by simp
  then have "{S. S \<subseteq> set xs \<and> card S = 0} = {{}}"
    by (intro equalityI subsetI) simp_all
  then show ?case by simp
next
  case (2 k)
  have "{S::'a set. S \<subseteq> {} \<and> card S = Suc k} = {}" by force
  then show ?case by simp
next
  case (3 x xs k)
  have "set ` set (combinations (x # xs) (Suc k)) =
      insert x ` (set ` set (combinations xs k)) \<union> set ` set (combinations xs (Suc k))"
    by (simp add: image_Un image_image)
  also have "\<dots> = insert x ` {S. S \<subseteq> set xs \<and> card S = k} \<union> {S. S \<subseteq> set xs \<and> card S = Suc k}"
    using "3.IH" "3.prems" by simp
  also have "\<dots> = {S. S \<subseteq> set (x # xs) \<and> card S = Suc k}"
    using subsets_insert [of x "set xs" k] "3.prems" by simp
  finally show ?case .
qed

lemma first_disjoint_None: "first_disjoint l rs = None \<longleftrightarrow> (\<forall>r\<in>set rs. set l \<inter> set r \<noteq> {})"
  by (induction l rs rule: first_disjoint.induct) auto

lemma first_pair_None:
  "first_pair ls rs = None \<longleftrightarrow> (\<forall>l\<in>set ls. \<forall>r\<in>set rs. set l \<inter> set r \<noteq> {})"
proof (induction ls rs rule: first_pair.induct)
  case (1 rs)
  then show ?case by simp
next
  case (2 l ls rs)
  then show ?case
    using first_disjoint_None [of l rs] by (cases "first_disjoint l rs") auto
qed

lemma meet_of_sizes:
  assumes "finite M" "A \<subseteq> M" "B \<subseteq> M" "card M < card A + card B"
  shows "A \<inter> B \<noteq> {}"
proof
  assume "A \<inter> B = {}"
  with assms have "card (A \<union> B) = card A + card B"
    by (intro card_Un_disjoint) (auto intro: finite_subset)
  moreover have "card (A \<union> B) \<le> card M"
    using assms by (intro card_mono) auto
  ultimately show False using assms(4) by simp
qed

lemma apart_of_sizes:
  assumes "finite M" "a + b \<le> card M"
  obtains A B where "A \<subseteq> M" "B \<subseteq> M" "card A = a" "card B = b" "A \<inter> B = {}"
proof -
  from assms obtain A where A: "A \<subseteq> M" "card A = a"
    using obtain_subset_with_card_n [of a M] by auto
  with assms have "b \<le> card (M - A)"
    by (simp add: card_Diff_subset finite_subset)
  then obtain B where "B \<subseteq> M - A" "card B = b"
    using obtain_subset_with_card_n [of b "M - A"] by auto
  with A show thesis by (intro that [of A B]) auto
qed

lemma overlaps_iff_sets:
  "every_pair_overlaps r \<longleftrightarrow>
   (\<forall>A B. A \<subseteq> {0..<size_of r} \<longrightarrow> B \<subseteq> {0..<size_of r} \<longrightarrow>
      card A = election_of r \<longrightarrow> card B = commit_of r \<longrightarrow> A \<inter> B \<noteq> {})"
proof -
  let ?M = "[0..<size_of r]"
  have E: "set ` set (combinations ?M (election_of r)) = {S. S \<subseteq> {0..<size_of r} \<and> card S = election_of r}"
    and C: "set ` set (combinations ?M (commit_of r)) = {S. S \<subseteq> {0..<size_of r} \<and> card S = commit_of r}"
    using set_combinations [of ?M] by simp_all
  have "every_pair_overlaps r \<longleftrightarrow>
     (\<forall>A\<in>set ` set (combinations ?M (election_of r)). \<forall>B\<in>set ` set (combinations ?M (commit_of r)). A \<inter> B \<noteq> {})"
    by (simp add: every_pair_overlaps_def disjoint_def Let_def first_pair_None)
  then show ?thesis unfolding E C by auto
qed

lemma overlaps_iff_arithmetic: "every_pair_overlaps r \<longleftrightarrow> intersects r"
proof
  assume all: "every_pair_overlaps r"
  show "intersects r"
  proof (rule ccontr)
    assume "\<not> intersects r"
    then have "election_of r + commit_of r \<le> card {0..<size_of r}"
      by (simp add: intersects_def)
    then obtain A B where "A \<subseteq> {0..<size_of r}" "B \<subseteq> {0..<size_of r}"
      "card A = election_of r" "card B = commit_of r" "A \<inter> B = {}"
      by (rule apart_of_sizes [rotated]) auto
    with all show False unfolding overlaps_iff_sets by blast
  qed
next
  assume sum: "intersects r"
  show "every_pair_overlaps r"
    unfolding overlaps_iff_sets
  proof (intro allI impI)
    fix A B
    assume "A \<subseteq> {0..<size_of r}" "B \<subseteq> {0..<size_of r}"
      "card A = election_of r" "card B = commit_of r"
    with sum show "A \<inter> B \<noteq> {}"
      by (intro meet_of_sizes [of "{0..<size_of r}"]) (simp_all add: intersects_def)
  qed
qed

section \<open>Majorities and rules as quorums\<close>

definition is_majority :: "'n list \<Rightarrow> 'n set \<Rightarrow> bool" where
  "is_majority ms S \<longleftrightarrow> length ms div 2 + 1 \<le> card (S \<inter> set ms)"

definition at_least :: "'n list \<Rightarrow> nat \<Rightarrow> 'n set \<Rightarrow> bool" where
  "at_least ms k S \<longleftrightarrow> k \<le> card (S \<inter> set ms)"

lemma at_least_mono: "at_least ms k A \<Longrightarrow> A \<subseteq> B \<Longrightarrow> at_least ms k B"
  unfolding at_least_def by (meson Int_mono card_mono finite_Int finite_set le_trans subset_refl)

lemma at_least_meet:
  assumes "at_least ms a A" "at_least ms b B" "length ms < a + b"
  shows "A \<inter> B \<noteq> {}"
proof -
  have "card (set ms) < card (A \<inter> set ms) + card (B \<inter> set ms)"
    using assms card_length [of ms] unfolding at_least_def by linarith
  then have "(A \<inter> set ms) \<inter> (B \<inter> set ms) \<noteq> {}"
    by (intro meet_of_sizes [of "set ms"]) auto
  then show ?thesis by blast
qed

lemma is_majority_at_least: "is_majority ms = at_least ms (length ms div 2 + 1)"
  by (simp add: is_majority_def at_least_def fun_eq_iff)

lemma majorities_meet: "is_majority ms A \<Longrightarrow> is_majority ms B \<Longrightarrow> A \<inter> B \<noteq> {}"
  unfolding is_majority_at_least by (rule at_least_meet) (assumption+, linarith)

lemma majorities_mono: "is_majority ms A \<Longrightarrow> A \<subseteq> B \<Longrightarrow> is_majority ms B"
  unfolding is_majority_at_least by (rule at_least_mono)

interpretation majorities: quorum_pair "is_majority ms" "is_majority ms"
  by unfold_locales (fact majorities_meet majorities_mono)+

end
