(* ===== verification/Protocol_Safety.thy ===== *)
theory Protocol_Safety
  imports Protocol Quorums
begin

text \<open>
  Safety of the protocol: log matching, leader completeness, and that what is committed stays.
  The invariants are stated one by one, then shown to be kept together by every step, for any
  pair of quorum systems that meets the laws of \<open>quorum_pair\<close>.
\<close>

section \<open>The invariants\<close>

text \<open>
  Every log is built from leaders' logs: up to an entry of term \<open>t\<close> it is what the leader of
  \<open>t\<close> wrote. This is log matching in the form the proofs use.
\<close>

definition rooted :: "'n protocol \<Rightarrow> entry list \<Rightarrow> bool" where
  "rooted s l \<longleftrightarrow> (\<forall>i. 1 \<le> i \<longrightarrow> i \<le> length l \<longrightarrow> agree i l (llog s (term_of l i)))"

definition good :: "'n protocol \<Rightarrow> entry list \<Rightarrow> bool" where
  "good s l \<longleftrightarrow> rooted s l \<and> sorted (map e_term l) \<and> indexed l"

definition votes_ok :: "'n protocol \<Rightarrow> bool" where
  "votes_ok s \<longleftrightarrow> (\<forall>t v c. vote s t v = Some c \<longrightarrow> t \<le> aterm s v \<and> cand s t c \<noteq> None)"

definition cands_ok :: "'n protocol \<Rightarrow> bool" where
  "cands_ok s \<longleftrightarrow> (\<forall>t c l. cand s t c = Some l \<longrightarrow>
     t \<le> aterm s c \<and> vote s t c = Some c \<and> (\<forall>e\<in>set l. e_term e < t) \<and> good s l)"

definition leads_ok :: "('n set \<Rightarrow> bool) \<Rightarrow> 'n protocol \<Rightarrow> bool" where
  "leads_ok elects s \<longleftrightarrow> (\<forall>t. case lead s t of
       None \<Rightarrow> llog s t = []
     | Some c \<Rightarrow> elects {v. vote s t v = Some c} \<and>
         (\<exists>l es. cand s t c = Some l \<and> llog s t = l @ es \<and> es \<noteq> [] \<and> (\<forall>e\<in>set es. e_term e = t)))"

definition logs_ok :: "'n protocol \<Rightarrow> bool" where
  "logs_ok s \<longleftrightarrow> (\<forall>n. good s (alog s n) \<and> (\<forall>e\<in>set (alog s n). e_term e \<le> aterm s n)) \<and>
     (\<forall>t. good s (llog s t) \<and> (\<forall>e\<in>set (llog s t). e_term e \<le> t))"

definition acks_ok :: "'n protocol \<Rightarrow> bool" where
  "acks_ok s \<longleftrightarrow>
     (\<forall>t v. ack s t v \<le> length (llog s t) \<and> (0 < ack s t v \<longrightarrow> t \<le> aterm s v))"

text \<open>
  An entry a leader wrote in its own term that may still gather a commit quorum: enough nodes
  have acknowledged it or have not yet left its term behind.
\<close>

definition choosable :: "('n set \<Rightarrow> bool) \<Rightarrow> 'n protocol \<Rightarrow> nat \<Rightarrow> nat \<Rightarrow> bool" where
  "choosable commits s t i \<longleftrightarrow>
     1 \<le> i \<and> i \<le> length (llog s t) \<and> term_of (llog s t) i = t \<and>
     commits {v. i \<le> ack s t v \<or> aterm s v \<le> t}"

definition covers :: "entry list \<Rightarrow> nat \<Rightarrow> nat \<Rightarrow> bool" where
  "covers l t i \<longleftrightarrow> t < term_of l (length l) \<or> t = term_of l (length l) \<and> i \<le> length l"

definition acks_kept :: "('n set \<Rightarrow> bool) \<Rightarrow> 'n protocol \<Rightarrow> bool" where
  "acks_kept commits s \<longleftrightarrow> (\<forall>t i v. choosable commits s t i \<longrightarrow> i \<le> ack s t v \<longrightarrow>
     agree i (alog s v) (llog s t))"

definition votes_cover :: "('n set \<Rightarrow> bool) \<Rightarrow> 'n protocol \<Rightarrow> bool" where
  "votes_cover commits s \<longleftrightarrow> (\<forall>t i u v c l. choosable commits s t i \<longrightarrow> i \<le> ack s t v \<longrightarrow>
     t < u \<longrightarrow> vote s u v = Some c \<longrightarrow> cand s u c = Some l \<longrightarrow> covers l t i)"

definition complete :: "('n set \<Rightarrow> bool) \<Rightarrow> 'n protocol \<Rightarrow> bool" where
  "complete commits s \<longleftrightarrow> (\<forall>t i u. choosable commits s t i \<longrightarrow> t < u \<longrightarrow> lead s u \<noteq> None \<longrightarrow>
     agree i (llog s u) (llog s t))"

definition commits_ok :: "('n set \<Rightarrow> bool) \<Rightarrow> 'n protocol \<Rightarrow> bool" where
  "commits_ok commits s \<longleftrightarrow> (\<forall>t i. (t, i) \<in> com s \<longrightarrow> 1 \<le> i \<and> i \<le> length (llog s t) \<and>
     term_of (llog s t) i = t \<and> commits {v. i \<le> ack s t v})"

definition learnt_ok :: "'n protocol \<Rightarrow> bool" where
  "learnt_ok s \<longleftrightarrow> (\<forall>n. covered s (aterm s n) (alog s n) (acommit s n))"

named_theorems inv_defs
lemmas [inv_defs] = votes_ok_def cands_ok_def leads_ok_def logs_ok_def acks_ok_def acks_kept_def
  votes_cover_def complete_def commits_ok_def learnt_ok_def

definition pinv :: "('n set \<Rightarrow> bool) \<Rightarrow> ('n set \<Rightarrow> bool) \<Rightarrow> 'n protocol \<Rightarrow> bool" where
  "pinv elects commits s \<longleftrightarrow>
     votes_ok s \<and> cands_ok s \<and> leads_ok elects s \<and> logs_ok s \<and> acks_ok s \<and>
     acks_kept commits s \<and> votes_cover commits s \<and> complete commits s \<and>
     commits_ok commits s \<and> learnt_ok s"

section \<open>Logs\<close>

lemma term_of_take: "i \<le> q \<Longrightarrow> i \<le> length l \<Longrightarrow> term_of (take q l) i = term_of l i"
  by (auto simp: term_of_def)

lemma term_of_append1: "i \<le> length l \<Longrightarrow> term_of (l @ m) i = term_of l i"
  by (auto simp: term_of_def nth_append)

lemma term_of_last: "l \<noteq> [] \<Longrightarrow> term_of l (length l) = e_term (last l)"
  by (simp add: term_of_def last_conv_nth)

lemma term_of_in: "1 \<le> i \<Longrightarrow> i \<le> length l \<Longrightarrow> l ! (i - 1) \<in> set l \<and> term_of l i = e_term (l ! (i - 1))"
  by (auto simp: term_of_def)

lemma term_of_sorted:
  "sorted (map e_term l) \<Longrightarrow> i \<le> j \<Longrightarrow> j \<le> length l \<Longrightarrow> term_of l i \<le> term_of l j"
  by (auto simp: term_of_def sorted_iff_nth_mono)

lemma agree_term_of: "agree i l m \<Longrightarrow> j \<le> i \<Longrightarrow> term_of l j = term_of m j"
  by (auto simp: term_of_def agree_nth)

lemma adopt_agree:
  "q \<le> length theirs \<Longrightarrow> agree q (adopt own theirs q) theirs"
  by (auto simp: adopt_def agree_def)

lemma adopt_keeps:
  assumes "agree i own theirs"
  shows "agree i (adopt own theirs q) theirs"
proof (cases "agree q own theirs")
  case True
  with assms show ?thesis by (simp add: adopt_def)
next
  case False
  with assms have "i \<le> q" by (meson agree_mono nat_le_linear)
  with False assms show ?thesis
    by (simp add: adopt_def agree_take agree_refl agree_length)
qed

lemma adopt_keeps_own: "agree i own theirs \<Longrightarrow> agree i (adopt own theirs q) own"
  by (metis adopt_keeps agree_sym agree_trans)

lemma adopt_cases:
  "adopt own theirs q = own \<or> adopt own theirs q = take q theirs"
  by (auto simp: adopt_def)

lemma rooted_take: "rooted s l \<Longrightarrow> rooted s (take q l)"
  by (auto simp: rooted_def term_of_take agree_take)

lemma good_take: "good s l \<Longrightarrow> good s (take q l)"
  by (auto simp: good_def rooted_take indexed_take take_map [symmetric] sorted_wrt_take)

lemma good_adopt: "good s own \<Longrightarrow> good s theirs \<Longrightarrow> good s (adopt own theirs q)"
  using adopt_cases [of own theirs q] by (auto simp: good_take)

lemma good_Nil [simp]: "good s []"
  by (simp add: good_def rooted_def)

text \<open>Growing leader logs keeps every good log good.\<close>

lemma good_mono:
  assumes "good s l" "\<And>t. \<exists>es. llog s' t = llog s t @ es"
  shows "good s' l"
proof -
  have "agree i l (llog s' (term_of l i))" if "1 \<le> i" "i \<le> length l" for i
    using assms that unfolding good_def rooted_def by (metis agree_append)
  with assms(1) show ?thesis by (auto simp: good_def rooted_def)
qed

lemma covers_as_good: "covers own t i \<Longrightarrow> as_good other own \<Longrightarrow> covers other t i"
  by (auto simp: covers_def as_good_def)

lemma holds_covers:
  assumes "sorted (map e_term l)" "agree i l m" "term_of m i = t" "1 \<le> i"
  shows "covers l t i"
proof -
  have "t \<le> term_of l (length l)"
    using assms by (metis agree_length(1) agree_term_of order_refl term_of_sorted)
  with agree_length(1) [OF assms(2)] show ?thesis
    by (auto simp: covers_def)
qed

section \<open>What a step can and cannot do\<close>

lemma leads_SomeD:
  assumes "leads_ok E s" "lead s t = Some c"
  shows "E {v. vote s t v = Some c}"
    and "\<exists>l es. cand s t c = Some l \<and> llog s t = l @ es \<and> es \<noteq> [] \<and> (\<forall>e\<in>set es. e_term e = t)"
    and "llog s t \<noteq> []"
  using spec [OF assms(1) [unfolded leads_ok_def], of t] assms(2) by auto

lemma leads_NoneD: "leads_ok E s \<Longrightarrow> lead s t = None \<Longrightarrow> llog s t = []"
  unfolding leads_ok_def by (drule spec [of _ t]) simp

lemma leads_nonempty: "leads_ok E s \<Longrightarrow> llog s t \<noteq> [] \<Longrightarrow> lead s t \<noteq> None"
  using leads_NoneD by blast

lemma good_entry:
  "good s l \<Longrightarrow> 1 \<le> i \<Longrightarrow> i \<le> length l \<Longrightarrow> agree i l (llog s (term_of l i))"
  by (simp add: good_def rooted_def)

section \<open>History only grows\<close>

definition ahead :: "'n protocol \<Rightarrow> 'n protocol \<Rightarrow> bool" where
  "ahead s s' \<longleftrightarrow>
     (\<forall>v. aterm s v \<le> aterm s' v) \<and>
     (\<forall>t v c. vote s t v = Some c \<longrightarrow> vote s' t v = Some c) \<and>
     (\<forall>t c l. cand s t c = Some l \<longrightarrow> cand s' t c = Some l) \<and>
     (\<forall>t c. lead s t = Some c \<longrightarrow> lead s' t = Some c) \<and>
     (\<forall>t. \<exists>es. llog s' t = llog s t @ es) \<and>
     (\<forall>t v. ack s t v \<le> ack s' t v) \<and> com s \<subseteq> com s'"

lemma ahead_refl: "ahead s s"
  by (auto simp: ahead_def)

lemma ahead_trans: "ahead s s' \<Longrightarrow> ahead s' s'' \<Longrightarrow> ahead s s''"
  unfolding ahead_def by (intro conjI allI impI) (meson order_trans append_assoc subset_trans | metis append_assoc)+

context quorum_pair
begin

lemma llog_grows:
  assumes "pstep elects commits s s'" "leads_ok elects s"
  shows "\<exists>es. llog s' t = llog s t @ es"
  using assms(1)
proof cases
  case (elect c t' e)
  then show ?thesis using leads_NoneD [OF assms(2), of t'] by auto
qed auto

lemma aterm_grows: "pstep elects commits s s' \<Longrightarrow> aterm s v \<le> aterm s' v"
  by (erule pstep.cases) auto

lemma ack_back:
  "pstep elects commits s s' \<Longrightarrow> i \<le> ack s' t v \<or> aterm s' v \<le> t \<Longrightarrow>
   i \<le> ack s t v \<or> aterm s v \<le> t"
  by (erule pstep.cases) (auto split: if_splits)

lemma acks_grow:
  assumes "pstep elects commits s s'" "acks_ok s" "leads_ok elects s"
  shows "ack s t v \<le> ack s' t v"
  using assms(1)
proof cases
  case (elect c t' e)
  then have "llog s t' = []" using leads_NoneD assms(3) by blast
  then have "ack s t' c = 0" using assms(2) unfolding acks_ok_def by (metis le_zero_eq list.size(3))
  with elect show ?thesis by auto
next
  case (extend n t' e)
  have "ack s t' n \<le> length (llog s t')" using assms(2) unfolding acks_ok_def by blast
  with extend show ?thesis by auto
qed auto

lemma vote_kept:
  assumes "pstep elects commits s s'" "votes_ok s" "vote s t v = Some c"
  shows "vote s' t v = Some c"
  using assms(1)
proof cases
  case (stand t' n)
  have "t \<le> aterm s v" using assms(2,3) unfolding votes_ok_def by blast
  with stand assms(3) show ?thesis by auto
next
  case (grant v' t' c' l)
  with assms(3) show ?thesis by auto
qed (use assms(3) in auto)

lemma cand_kept:
  assumes "pstep elects commits s s'" "cands_ok s" "cand s t c = Some l"
  shows "cand s' t c = Some l"
  using assms(1)
proof cases
  case (stand t' n)
  have "t \<le> aterm s c" using assms(2,3) unfolding cands_ok_def by blast
  with stand assms(3) show ?thesis by auto
qed (use assms(3) in auto)

lemma lead_kept: "pstep elects commits s s' \<Longrightarrow> lead s t = Some c \<Longrightarrow> lead s' t = Some c"
  by (erule pstep.cases) auto

lemma choosable_back:
  assumes step: "pstep elects commits s s'" and "leads_ok elects s"
    and ch: "choosable commits s' t i" and "i \<le> length (llog s t)"
  shows "choosable commits s t i"
proof -
  obtain es where "llog s' t = llog s t @ es" using llog_grows assms(1,2) by blast
  with ch assms(4) have "1 \<le> i" "term_of (llog s t) i = t"
    by (auto simp: choosable_def term_of_append1)
  moreover have "commits {v. i \<le> ack s t v \<or> aterm s v \<le> t}"
    using ch ack_back [OF step] unfolding choosable_def
    by (blast intro: commits_mono)
  ultimately show ?thesis using assms(4) by (simp add: choosable_def)
qed

text \<open>An entry this step wrote is acknowledged by its leader only.\<close>

lemma fresh_entry:
  assumes "pstep elects commits s s'" "length (llog s t) < i" "i \<le> length (llog s' t)"
  obtains n where "aterm s' n = t" "alog s' n = llog s' t" "lead s' t = Some n"
    "\<And>v. v \<noteq> n \<Longrightarrow> ack s' t v = ack s t v" "\<And>u v. vote s' u v = vote s u v"
    "\<And>v. aterm s' v = aterm s v" "\<And>u. u \<noteq> t \<Longrightarrow> lead s' u = lead s u"
  using assms(1)
proof cases
  case (elect c t' e)
  with assms(2,3) have "t' = t" by (auto split: if_splits)
  with elect show ?thesis by (intro that [of c]) auto
next
  case (extend n t' e)
  with assms(2,3) have "t' = t" by (auto split: if_splits)
  with extend show ?thesis by (intro that [of n]) auto
qed (use assms(2,3) in auto)

lemma voters_reached:
  assumes "leads_ok elects s" "votes_ok s" "lead s u \<noteq> None"
  obtains c where "lead s u = Some c" "elects {v. vote s u v = Some c}"
    "\<And>v. vote s u v = Some c \<Longrightarrow> u \<le> aterm s v"
  using assms leads_SomeD(1) unfolding votes_ok_def by (metis option.exhaust)

lemma fresh_is_last:
  assumes step: "pstep elects commits s s'" and inv: "pinv elects commits s"
    and ch: "choosable commits s' t i" and new: "length (llog s t) < i" and u: "lead s u \<noteq> None"
  shows "u \<le> t"
proof (rule ccontr)
  assume "\<not> u \<le> t"
  then have "t < u" by simp
  have len: "i \<le> length (llog s' t)" using ch by (simp add: choosable_def)
  obtain n where n: "aterm s' n = t" "\<And>v. v \<noteq> n \<Longrightarrow> ack s' t v = ack s t v"
    "\<And>v. aterm s' v = aterm s v"
    using fresh_entry [OF step new len] by metis
  obtain c where c: "elects {v. vote s u v = Some c}"
    "\<And>v. vote s u v = Some c \<Longrightarrow> u \<le> aterm s v"
    using voters_reached [of s u] inv u unfolding pinv_def by metis
  from ch have "commits {v. i \<le> ack s' t v \<or> aterm s' v \<le> t}" by (simp add: choosable_def)
  with c(1) obtain v where v: "vote s u v = Some c" "i \<le> ack s' t v \<or> aterm s' v \<le> t"
    using commit_seen by blast
  with c(2) \<open>t < u\<close> n(3) have "i \<le> ack s' t v" "v \<noteq> n" using n(1) by force+
  with n(2) have "i \<le> ack s t v" by simp
  moreover have "ack s t v \<le> length (llog s t)"
    using inv unfolding pinv_def acks_ok_def by blast
  ultimately show False using new by simp
qed

section \<open>Every step keeps the invariants\<close>

lemma votes_ok_step:
  assumes "pstep elects commits s s'" "votes_ok s"
  shows "votes_ok s'"
  using assms(1)
proof cases
  case (bump n t)
  with assms(2) show ?thesis unfolding votes_ok_def by (auto intro: order_trans)
next
  case (stand t n)
  with assms(2) show ?thesis unfolding votes_ok_def
    by (auto split: if_splits) (metis le_SucI)+
next
  case (grant v t c l)
  with assms(2) show ?thesis unfolding votes_ok_def by auto
qed (use assms(2) in \<open>auto simp: votes_ok_def\<close>)

lemma good_step:
  assumes "pstep elects commits s s'" "leads_ok elects s" "good s l"
  shows "good s' l"
  using good_mono [OF assms(3)] llog_grows [OF assms(1,2)] by blast

lemma cands_ok_step:
  assumes step: "pstep elects commits s s'" and inv: "pinv elects commits s"
  shows "cands_ok s'"
proof -
  have ok: "cands_ok s" "leads_ok elects s" "votes_ok s" "logs_ok s"
    using inv by (auto simp: pinv_def)
  show ?thesis
    unfolding cands_ok_def
  proof (intro allI impI)
    fix t c l assume c: "cand s' t c = Some l"
    show "t \<le> aterm s' c \<and> vote s' t c = Some c \<and> (\<forall>e\<in>set l. e_term e < t) \<and> good s' l"
    proof (cases "cand s t c = Some l")
      case True
      with ok(1) have old: "t \<le> aterm s c" "vote s t c = Some c" "\<forall>e\<in>set l. e_term e < t" "good s l"
        unfolding cands_ok_def by blast+
      with aterm_grows [OF step, of c] vote_kept [OF step ok(3), of t c c] good_step [OF step ok(2), of l]
      show ?thesis by auto
    next
      case False
      from step c False have new: "t = aterm s c + 1" "l = alog s c" "aterm s' c = t" "vote s' t c = Some c"
        by (auto elim!: pstep.cases split: if_splits)
      from ok(4) have "good s l" "\<forall>e\<in>set l. e_term e \<le> aterm s c"
        unfolding logs_ok_def new(2) by blast+
      with new good_step [OF step ok(2)] show ?thesis by force
    qed
  qed
qed

lemma leads_ok_step:
  assumes step: "pstep elects commits s s'" and inv: "pinv elects commits s"
  shows "leads_ok elects s'"
proof -
  have ok: "cands_ok s" "leads_ok elects s" "votes_ok s"
    using inv by (auto simp: pinv_def)
  have kept: "elects {v. vote s' t v = Some c}" if "elects {v. vote s t v = Some c}" for t c
    using vote_kept [OF step ok(3)] by (blast intro: elects_mono [OF that])
  have "case lead s' t of None \<Rightarrow> llog s' t = []
     | Some c \<Rightarrow> elects {v. vote s' t v = Some c} \<and>
         (\<exists>l es. cand s' t c = Some l \<and> llog s' t = l @ es \<and> es \<noteq> [] \<and> (\<forall>e\<in>set es. e_term e = t))" for t
  proof (cases "lead s t")
    case None
    then have empty: "llog s t = []" using leads_NoneD ok(2) by blast
    show ?thesis
    proof (cases "lead s' t")
      case None
      with \<open>lead s t = None\<close> empty step show ?thesis
        by (auto elim!: pstep.cases split: if_splits)
    next
      case (Some c)
      from step show ?thesis
      proof cases
        case (elect d t' e)
        with Some \<open>lead s t = None\<close> have "t' = t" "d = c" by (auto split: if_splits)
        with elect Some kept [of t c] show ?thesis by auto
      qed (use Some \<open>lead s t = None\<close> in auto)
    qed
  next
    case (Some c)
    with leads_SomeD [OF ok(2) Some] obtain l es where
      l: "cand s t c = Some l" "llog s t = l @ es" "es \<noteq> []" "\<forall>e\<in>set es. e_term e = t"
      and q: "elects {v. vote s t v = Some c}" by blast
    have "\<exists>fs. llog s' t = llog s t @ fs \<and> (\<forall>e\<in>set fs. e_term e = t)"
      using step
    proof cases
      case (elect d t' e)
      with Some show ?thesis by (intro exI [where x = "[]"]) auto
    next
      case (extend n t' e)
      then show ?thesis
        by (cases "t' = t") auto
    qed auto
    then obtain fs where "llog s' t = l @ (es @ fs)" "\<forall>e\<in>set (es @ fs). e_term e = t"
      using l by auto
    then show ?thesis
      using lead_kept [OF step Some] kept [OF q] cand_kept [OF step ok(1) l(1)] l(3) by auto
  qed
  then show ?thesis unfolding leads_ok_def by blast
qed

lemma good_append1:
  assumes "good s l" "e_index e = length l + 1" "\<forall>x\<in>set l. e_term x \<le> e_term e"
    "llog s (e_term e) = l @ [e]"
  shows "good s (l @ [e])"
proof -
  have "agree i (l @ [e]) (llog s (term_of (l @ [e]) i))" if "1 \<le> i" "i \<le> length (l @ [e])" for i
  proof (cases "i \<le> length l")
    case True
    with good_entry [OF assms(1) that(1)] show ?thesis
      by (simp add: term_of_append1 agree_def)
  next
    case False
    with that have "i = length (l @ [e])" by simp
    then show ?thesis using assms(4) by (simp add: term_of_def agree_refl)
  qed
  with assms show ?thesis
    by (auto simp: good_def rooted_def indexed_append1 sorted_append)
qed

lemma logs_ok_step:
  assumes step: "pstep elects commits s s'" and inv: "pinv elects commits s"
  shows "logs_ok s'"
proof -
  have ok: "cands_ok s" "leads_ok elects s" "logs_ok s"
    using inv by (auto simp: pinv_def)
  note good' = good_step [OF step ok(2)]
  have old: "good s (alog s n)" "\<forall>e\<in>set (alog s n). e_term e \<le> aterm s n"
    "good s (llog s t)" "\<forall>e\<in>set (llog s t). e_term e \<le> t" for n t
    using ok(3) unfolding logs_ok_def by blast+
  have grown: ?thesis if actor: "llog s' = (llog s)(t := alog s n @ [e])"
    "alog s' = (alog s)(n := alog s n @ [e])" "aterm s' = aterm s" "aterm s n = t" "e_term e = t"
    "e_index e = length (alog s n) + 1" for n t e
  proof -
    have "good s' (alog s n @ [e])"
      using actor old(2) [of n] by (intro good_append1 good' old(1)) auto
    then show ?thesis
      using actor good' [OF old(1)] good' [OF old(3)] old(2,4) unfolding logs_ok_def by auto
  qed
  from step show ?thesis
  proof cases
    case (bump n t)
    with good' [OF old(1)] good' [OF old(3)] old(2,4) show ?thesis
      unfolding logs_ok_def by auto (meson order_trans)
  next
    case (stand t n)
    with good' [OF old(1)] good' [OF old(3)] old(2,4) show ?thesis
      unfolding logs_ok_def by (auto intro: le_SucI)
  next
    case (elect c t e)
    then show ?thesis by (intro grown [of t c e]) auto
  next
    case (extend n t e)
    then show ?thesis by (intro grown [of t n e]) auto
  next
    case (accept v t l q)
    have "good s' (adopt (alog s v) (llog s t) q)"
      by (intro good' good_adopt old)
    moreover have "\<forall>e\<in>set (adopt (alog s v) (llog s t) q). e_term e \<le> t"
      using adopt_cases [of "alog s v" "llog s t" q] old(2) [of v] old(4) [of t] accept(2)
        set_take_subset [of q "llog s t"]
      by auto
    ultimately show ?thesis
      using accept good' [OF old(1)] good' [OF old(3)] old(2,4) unfolding logs_ok_def by auto
  qed (use good' [OF old(1)] good' [OF old(3)] old(2,4) in \<open>auto simp: logs_ok_def\<close>)
qed

lemma acks_ok_step:
  assumes step: "pstep elects commits s s'" and inv: "pinv elects commits s"
  shows "acks_ok s'"
proof -
  have ok: "acks_ok s" "leads_ok elects s"
    using inv by (auto simp: pinv_def)
  have old: "ack s t v \<le> length (llog s t)" "0 < ack s t v \<Longrightarrow> t \<le> aterm s v" for t v
    using ok(1) unfolding acks_ok_def by blast+
  have "ack s' t v \<le> length (llog s' t)" for t v
  proof -
    have "length (llog s t) \<le> length (llog s' t)"
      using llog_grows [OF step ok(2), of t] by auto
    with old(1) [of t v] step show ?thesis
      by (auto elim!: pstep.cases split: if_splits intro: le_SucI)
  qed
  moreover have "t \<le> aterm s' v" if "0 < ack s' t v" for t v
  proof (cases "0 < ack s t v")
    case True
    with old(2) aterm_grows [OF step, of v] show ?thesis by (meson order_trans)
  next
    case False
    with that step show ?thesis
      by (auto elim!: pstep.cases split: if_splits)
  qed
  ultimately show ?thesis unfolding acks_ok_def by blast
qed

text \<open>
  The heart of the argument. A log that covers a choosable entry holds it: its last term is that
  of a leader at or after the entry's, and those leaders have it by completeness.
\<close>

lemma covers_holds:
  assumes inv: "pinv elects commits s" and l: "good s l" and cov: "covers l t i"
    and ch: "choosable commits s t i"
  shows "agree i l (llog s t)"
proof -
  define n w where "n = length l" and "w = term_of l n"
  have i: "1 \<le> i" "term_of (llog s t) i = t" using ch by (auto simp: choosable_def)
  show ?thesis
  proof (cases "t = w")
    case True
    with cov i(1) have "i \<le> n" "1 \<le> n" by (auto simp: covers_def n_def w_def)
    with good_entry [OF l, of n] True show ?thesis
      by (auto simp: n_def w_def intro: agree_mono)
  next
    case False
    with cov have "t < w" by (auto simp: covers_def n_def w_def)
    then have "1 \<le> n" by (cases n) (auto simp: w_def term_of_def)
    then have root: "agree n l (llog s w)"
      using good_entry [OF l, of n] by (simp add: n_def w_def)
    with \<open>1 \<le> n\<close> have "llog s w \<noteq> []" by (auto simp: agree_def)
    then have "lead s w \<noteq> None"
      using inv leads_nonempty unfolding pinv_def by blast
    then have full: "agree i (llog s w) (llog s t)"
      using inv ch \<open>t < w\<close> unfolding pinv_def complete_def by blast
    have "i \<le> n"
    proof (rule ccontr)
      assume "\<not> i \<le> n"
      moreover have "sorted (map e_term (llog s w))" "i \<le> length (llog s w)"
        using inv full agree_length(1) unfolding pinv_def logs_ok_def good_def by blast+
      ultimately have "term_of (llog s w) n \<le> term_of (llog s w) i"
        by (intro term_of_sorted) auto
      moreover have "term_of (llog s w) n = w"
        using agree_term_of [OF root, of n] by (simp add: w_def)
      moreover have "term_of (llog s w) i = t"
        using agree_term_of [OF full, of i] i(2) by simp
      ultimately show False using \<open>t < w\<close> by simp
    qed
    with root have "agree i l (llog s w)" by (rule agree_mono)
    with full show ?thesis by (rule agree_trans [rotated])
  qed
qed

lemma held_covers:
  assumes inv: "pinv elects commits s" and ch: "choosable commits s t i" and a: "i \<le> ack s t v"
  shows "covers (alog s v) t i"
proof (rule holds_covers)
  show "sorted (map e_term (alog s v))"
    using inv unfolding pinv_def logs_ok_def good_def by blast
  show "agree i (alog s v) (llog s t)"
    using inv ch a unfolding pinv_def acks_kept_def by blast
  show "term_of (llog s t) i = t" "1 \<le> i" using ch by (auto simp: choosable_def)
qed

lemma acks_kept_step:
  assumes step: "pstep elects commits s s'" and inv: "pinv elects commits s"
  shows "acks_kept commits s'"
  unfolding acks_kept_def
proof (intro allI impI)
  fix t i v assume ch: "choosable commits s' t i" and a: "i \<le> ack s' t v"
  have ok: "leads_ok elects s" "acks_ok s" using inv by (auto simp: pinv_def)
  have i: "1 \<le> i" "i \<le> length (llog s' t)" using ch by (auto simp: choosable_def)
  show "agree i (alog s' v) (llog s' t)"
  proof (cases "i \<le> length (llog s t)")
    case False
    then have new: "length (llog s t) < i" by simp
    then obtain n where n: "alog s' n = llog s' t" "\<And>v. v \<noteq> n \<Longrightarrow> ack s' t v = ack s t v"
      using fresh_entry [OF step _ i(2)] by metis
    have "ack s t v \<le> length (llog s t)" using ok(2) unfolding acks_ok_def by blast
    with n(2) [of v] a new have "v = n" by force
    with n(1) i(2) show ?thesis by (simp add: agree_refl)
  next
    case True
    with choosable_back [OF step ok(1) ch] have chs: "choosable commits s t i" by blast
    have held: "agree i (alog s v) (llog s t)" if "i \<le> ack s t v"
      using inv chs that unfolding pinv_def acks_kept_def by blast
    obtain es where es: "llog s' t = llog s t @ es" using llog_grows [OF step ok(1)] by blast
    from step have "agree i (alog s' v) (llog s t)"
    proof cases
      case (accept v' u l q)
      show ?thesis
      proof (cases "v = v'")
        case False
        with accept a held show ?thesis by (auto split: if_splits)
      next
        case True
        then have new: "alog s' v = adopt (alog s v) (llog s u) q" using accept by simp
        show ?thesis
        proof (cases "i \<le> ack s t v")
          case False
          with a accept True have "u = t" "i \<le> q" by (auto split: if_splits)
          with accept new show ?thesis by (simp add: agree_mono [OF adopt_agree])
        next
          case old: True
          with ok(2) i(1) have "t \<le> aterm s v" unfolding acks_ok_def by (metis le_trans zero_less_one_class.zero_less_one less_le_trans)
          with accept True have "t \<le> u" by simp
          then have "agree i (alog s v) (llog s u)"
          proof (cases "t = u")
            case False
            with \<open>t \<le> u\<close> accept(3) inv chs have "agree i (llog s u) (llog s t)"
              unfolding pinv_def complete_def by (metis le_neq_implies_less option.distinct(1))
            with held [OF old] show ?thesis by (meson agree_sym agree_trans)
          qed (use held [OF old] in simp)
          then have "agree i (adopt (alog s v) (llog s u) q) (alog s v)"
            by (rule adopt_keeps_own)
          with held [OF old] new show ?thesis by (metis agree_trans)
        qed
      qed
    next
      case (elect c t' e)
      then have "ack s' t' c = length (alog s c) + 1" "llog s t' = []"
        using leads_NoneD [OF ok(1)] by auto
      with elect a held True i(1) show ?thesis
        by (auto split: if_splits simp: agree_sym agree_append)
    next
      case (extend n t' e)
      have "agree i (llog s t') (llog s t)" if "t' = t" using that True by (simp add: agree_refl)
      with extend a held True show ?thesis
        by (auto split: if_splits) (metis agree_append agree_sym)+
    qed (use a held in auto)
    with es show ?thesis by (simp add: agree_append)
  qed
qed

lemma votes_cover_step:
  assumes step: "pstep elects commits s s'" and inv: "pinv elects commits s"
    and votes': "votes_ok s'"
  shows "votes_cover commits s'"
  unfolding votes_cover_def
proof (intro allI impI)
  fix t i u v c l
  assume ch: "choosable commits s' t i" and a: "i \<le> ack s' t v" and "t < u"
    and vt: "vote s' u v = Some c" and cd: "cand s' u c = Some l"
  have ok: "leads_ok elects s" "acks_ok s" "votes_ok s" "cands_ok s"
    using inv by (auto simp: pinv_def)
  have i: "1 \<le> i" "i \<le> length (llog s' t)" using ch by (auto simp: choosable_def)
  have late: "u \<le> aterm s' v" using votes' vt unfolding votes_ok_def by blast
  have "i \<le> length (llog s t)"
  proof (rule ccontr)
    assume "\<not> i \<le> length (llog s t)"
    then have new: "length (llog s t) < i" by simp
    then obtain n where n: "aterm s' n = t" "\<And>v. v \<noteq> n \<Longrightarrow> ack s' t v = ack s t v"
      using fresh_entry [OF step _ i(2)] by metis
    have "ack s t v \<le> length (llog s t)" using ok(2) unfolding acks_ok_def by blast
    with n(2) [of v] a new have "v = n" by force
    with n(1) late \<open>t < u\<close> show False by simp
  qed
  with choosable_back [OF step ok(1) ch] have chs: "choosable commits s t i" by blast
  have a0: "i \<le> ack s t v"
  proof (rule ccontr)
    assume no: "\<not> i \<le> ack s t v"
    with a step have "aterm s' v = t"
      by (auto elim!: pstep.cases split: if_splits)
    with late \<open>t < u\<close> show False by simp
  qed
  show "covers l t i"
  proof (cases "vote s u v = Some c \<and> cand s u c = Some l")
    case True
    with inv chs a0 \<open>t < u\<close> show ?thesis unfolding pinv_def votes_cover_def by blast
  next
    case False
    have cov: "covers (alog s v) t i" using held_covers [OF inv chs a0] .
    from step show ?thesis
    proof cases
      case (stand t' n)
      have "vote s u v \<noteq> Some c \<or> cand s u c \<noteq> Some l" using False by blast
      moreover have "cand s u c = Some l" if "vote s u v = Some c"
      proof -
        from that ok(3) obtain l' where l': "cand s u c = Some l'" unfolding votes_ok_def by blast
        with cand_kept [OF step ok(4)] cd show ?thesis by simp
      qed
      ultimately have "vote s u v \<noteq> Some c" by blast
      with stand vt have "u = t'" "v = n" "c = n" by (auto split: if_splits)
      with stand cd cov show ?thesis by simp
    next
      case (grant v' t' c' l')
      with False vt cd have "u = t'" "v = v'" "c = c'" by (auto split: if_splits)
      with grant cd have "as_good l (alog s v)" by simp
      with cov show ?thesis by (rule covers_as_good)
    qed (use False vt cd in auto)
  qed
qed

lemma complete_step:
  assumes step: "pstep elects commits s s'" and inv: "pinv elects commits s"
  shows "complete commits s'"
  unfolding complete_def
proof (intro allI impI)
  fix t i u
  assume ch: "choosable commits s' t i" and "t < u" and ld: "lead s' u \<noteq> None"
  have ok: "leads_ok elects s" "acks_ok s" "votes_ok s" "cands_ok s" "logs_ok s"
    using inv by (auto simp: pinv_def)
  have i: "1 \<le> i" "i \<le> length (llog s' t)" using ch by (auto simp: choosable_def)
  show "agree i (llog s' u) (llog s' t)"
  proof (cases "i \<le> length (llog s t)")
    case False
    then have new: "length (llog s t) < i" by simp
    then obtain n where "\<And>u. u \<noteq> t \<Longrightarrow> lead s' u = lead s u"
      using fresh_entry [OF step _ i(2)] by metis
    with ld \<open>t < u\<close> have "lead s u \<noteq> None" by simp
    with fresh_is_last [OF step inv ch new] \<open>t < u\<close> show ?thesis by force
  next
    case True
    with choosable_back [OF step ok(1) ch] have chs: "choosable commits s t i" by blast
    obtain es fs where grow: "llog s' t = llog s t @ es" "llog s' u = llog s u @ fs"
      using llog_grows [OF step ok(1)] by metis
    have "agree i (llog s' u) (llog s t)"
    proof (cases "lead s u = None")
      case False
      with inv chs \<open>t < u\<close> have "agree i (llog s u) (llog s t)"
        unfolding pinv_def complete_def by blast
      with grow show ?thesis by (metis agree_append agree_sym)
    next
      case None: True
      from step show ?thesis
      proof cases
        case (elect c t' e)
        with None ld have u: "u = t'" by (auto split: if_splits)
        have "commits {v. i \<le> ack s t v \<or> aterm s v \<le> t}" using chs by (simp add: choosable_def)
        with elect(5) obtain v where v: "vote s t' v = Some c" "i \<le> ack s t v \<or> aterm s v \<le> t"
          using commit_seen by blast
        with ok(3) have "t' \<le> aterm s v" unfolding votes_ok_def by blast
        with v \<open>t < u\<close> u have "i \<le> ack s t v" by auto
        with inv chs \<open>t < u\<close> u v(1) elect(3) have "covers (alog s c) t i"
          unfolding pinv_def votes_cover_def by blast
        moreover have "good s (alog s c)" using ok(5) unfolding logs_ok_def by blast
        ultimately have "agree i (alog s c) (llog s t)"
          using covers_holds [OF inv _ _ chs] by blast
        with elect u show ?thesis by (simp add: agree_append agree_sym)
      qed (use None ld in \<open>auto split: if_splits\<close>)
    qed
    with grow(1) show ?thesis by (simp add: agree_append)
  qed
qed

lemma commits_ok_step:
  assumes step: "pstep elects commits s s'" and inv: "pinv elects commits s"
  shows "commits_ok commits s'"
  unfolding commits_ok_def
proof (intro allI impI)
  fix t i assume c: "(t, i) \<in> com s'"
  have ok: "leads_ok elects s" "acks_ok s" "commits_ok commits s" using inv by (auto simp: pinv_def)
  obtain es where es: "llog s' t = llog s t @ es" using llog_grows [OF step ok(1)] by blast
  have "1 \<le> i \<and> i \<le> length (llog s t) \<and> term_of (llog s t) i = t \<and> commits {v. i \<le> ack s t v}"
  proof (cases "(t, i) \<in> com s")
    case True
    with ok(3) show ?thesis unfolding commits_ok_def by blast
  next
    case False
    with c step show ?thesis by (auto elim!: pstep.cases)
  qed
  then have *: "1 \<le> i" "i \<le> length (llog s t)" "term_of (llog s t) i = t" "commits {v. i \<le> ack s t v}"
    by auto
  have "{v. i \<le> ack s t v} \<subseteq> {v. i \<le> ack s' t v}"
    using acks_grow [OF step ok(2,1)] by (auto intro: order_trans)
  with * have "commits {v. i \<le> ack s' t v}" by (blast intro: commits_mono)
  with * es show "1 \<le> i \<and> i \<le> length (llog s' t) \<and> term_of (llog s' t) i = t \<and>
      commits {v. i \<le> ack s' t v}"
    by (simp add: term_of_append1)
qed

lemma com_choosable:
  assumes "commits_ok commits s" "(t, i) \<in> com s"
  shows "choosable commits s t i"
proof -
  from assms have *: "1 \<le> i" "i \<le> length (llog s t)" "term_of (llog s t) i = t"
    "commits {v. i \<le> ack s t v}" unfolding commits_ok_def by blast+
  have "{v. i \<le> ack s t v} \<subseteq> {v. i \<le> ack s t v \<or> aterm s v \<le> t}" by blast
  with * show ?thesis unfolding choosable_def by (blast intro: commits_mono)
qed

lemma com_agree:
  assumes inv: "pinv elects commits s" and "(t, i) \<in> com s" "t \<le> u" "lead s u \<noteq> None"
  shows "agree i (llog s u) (llog s t)"
proof (cases "t = u")
  case True
  with assms show ?thesis unfolding pinv_def commits_ok_def by (auto simp: agree_refl)
next
  case False
  with assms com_choosable [of s t i] show ?thesis
    unfolding pinv_def complete_def by auto
qed

lemma learnt_ok_step:
  assumes step: "pstep elects commits s s'" and inv: "pinv elects commits s"
  shows "learnt_ok s'"
  unfolding learnt_ok_def
proof
  fix n
  have ok: "leads_ok elects s" "learnt_ok s" using inv by (auto simp: pinv_def)
  have mono: "covered s' (aterm s' n) (alog s' n) c"
    if "covered s (aterm s n) l c" "\<And>j m. j \<le> c \<Longrightarrow> agree j l m \<Longrightarrow> agree j (alog s' n) m" for c l
  proof (cases "c = 0")
    case False
    with that(1) obtain u i where ui: "(u, i) \<in> com s" "u \<le> aterm s n" "c \<le> i" "agree c l (llog s u)"
      by (auto simp: covered_def)
    moreover have "(u, i) \<in> com s'" using step ui(1) by (auto elim!: pstep.cases)
    moreover have "u \<le> aterm s' n" using aterm_grows [OF step, of n] ui(2) by simp
    moreover have "agree c (alog s' n) (llog s' u)"
      using that(2) [OF order_refl ui(4)] llog_grows [OF step ok(1), of u] agree_append by auto
    ultimately show ?thesis unfolding covered_def by blast
  qed (simp add: covered_def)
  have old: "covered s (aterm s n) (alog s n) (acommit s n)"
    using ok(2) unfolding learnt_ok_def by blast
  from step show "covered s' (aterm s' n) (alog s' n) (acommit s' n)"
  proof cases
    case (accept v t l q)
    show ?thesis
    proof (cases "v = n \<and> acommit s n \<noteq> 0")
      case False
      with accept show ?thesis using mono [OF old] by (auto simp: covered_def)
    next
      case True
      with old obtain u i where ui: "(u, i) \<in> com s" "u \<le> aterm s n" "acommit s n \<le> i"
        "agree (acommit s n) (alog s n) (llog s u)" by (auto simp: covered_def)
      have "agree i (llog s t) (llog s u)"
        using accept True ui by (intro com_agree [OF inv]) auto
      then have "agree (acommit s n) (alog s n) (llog s t)"
        using ui(3,4) by (meson agree_mono agree_sym agree_trans)
      then have kept: "agree (acommit s n) (adopt (alog s n) (llog s t) q) (alog s n)"
        by (rule adopt_keeps_own)
      have "acommit s' n = acommit s n" using accept by simp
      moreover have "agree j (alog s' n) m" if "j \<le> acommit s n" "agree j (alog s n) m" for j m
        using agree_trans [OF agree_mono [OF kept that(1)] that(2)] accept True by simp
      ultimately show ?thesis using mono [OF old] by auto
    qed
  next
    case (learn m c)
    with mono [of "alog s n" "acommit s' n"] old show ?thesis by (auto split: if_splits)
  qed (use mono [OF old] in \<open>auto simp: agree_sym agree_append split: if_splits,
      (metis agree_append agree_sym)?\<close>)
qed

lemma pinv_step:
  assumes "pstep elects commits s s'" "pinv elects commits s"
  shows "pinv elects commits s'"
proof -
  have "votes_ok s'" using votes_ok_step assms unfolding pinv_def by blast
  then show ?thesis
    unfolding pinv_def [of _ _ s']
    using assms votes_cover_step cands_ok_step leads_ok_step logs_ok_step acks_ok_step
      acks_kept_step complete_step commits_ok_step learnt_ok_step
    by blast
qed

lemma pinv_reach: "preach elects commits s \<Longrightarrow> pinv elects commits s"
proof (induction rule: preach.induct)
  case start
  show ?case by (auto simp: pinv_def inv_defs init_protocol_def choosable_def covered_def)
next
  case (next_step s s')
  then show ?case by (blast intro: pinv_step)
qed

section \<open>What the invariants give\<close>

lemma log_matching:
  assumes "pinv elects commits s" "good s l" "good s m"
    "1 \<le> i" "i \<le> length l" "i \<le> length m" "term_of l i = term_of m i"
  shows "agree i l m"
proof -
  have "agree i l (llog s (term_of l i))" "agree i m (llog s (term_of m i))"
    using assms good_entry by blast+
  with assms(7) have "agree i l (llog s (term_of l i))" "agree i m (llog s (term_of l i))" by simp_all
  then show ?thesis by (meson agree_sym agree_trans)
qed

lemma com_lead: "pinv elects commits s \<Longrightarrow> (t, i) \<in> com s \<Longrightarrow> lead s t \<noteq> None"
  unfolding pinv_def commits_ok_def by (metis leads_nonempty le_zero_eq list.size(3) not_one_le_zero)

lemma commits_comparable:
  assumes inv: "pinv elects commits s" and "(t, i) \<in> com s" "(u, j) \<in> com s"
  shows "agree (min i j) (llog s t) (llog s u)"
proof -
  have "agree i (llog s t) (llog s u)" if "(t, i) \<in> com s" "(u, j) \<in> com s" "t \<le> u" for t i u j
    using com_agree [OF inv that(1,3)] com_lead [OF inv that(2)] by (simp add: agree_sym)
  with assms(2,3) show ?thesis
    by (cases "t \<le> u") (meson agree_mono agree_sym min.cobounded1 min.cobounded2 nat_le_linear)+
qed

lemma covered_agree:
  assumes inv: "pinv elects commits s" and "covered s t l c" "covered s u m d"
  shows "agree (min c d) l m"
proof (cases "c = 0 \<or> d = 0")
  case False
  with assms obtain t' i u' j where
    *: "(t', i) \<in> com s" "c \<le> i" "agree c l (llog s t')" "(u', j) \<in> com s" "d \<le> j" "agree d m (llog s u')"
    by (auto simp: covered_def)
  moreover have "min c d \<le> min i j" using *(2,5) by (rule min.mono)
  ultimately have "agree (min c d) (llog s t') (llog s u')"
    using agree_mono [OF commits_comparable [OF inv *(1) *(4)]] by blast
  with * show ?thesis
    by (meson agree_mono agree_sym agree_trans min.cobounded1 min.cobounded2)
qed auto

text \<open>A follower that takes a leader's entries keeps what it has committed.\<close>

lemma adopt_keeps_commit:
  assumes inv: "pinv elects commits s" and "aterm s v = t" "lead s t = Some l"
  shows "agree (acommit s v) (adopt (alog s v) (llog s t) q) (alog s v)"
proof (cases "acommit s v = 0")
  case False
  have "covered s (aterm s v) (alog s v) (acommit s v)"
    using inv unfolding pinv_def learnt_ok_def by blast
  with False assms(2) obtain u i where ui: "(u, i) \<in> com s" "u \<le> t" "acommit s v \<le> i"
    "agree (acommit s v) (alog s v) (llog s u)" by (auto simp: covered_def)
  have "agree i (llog s t) (llog s u)"
    using assms(3) ui by (intro com_agree [OF inv]) auto
  then have "agree (acommit s v) (alog s v) (llog s t)"
    using ui(3,4) by (meson agree_mono agree_sym agree_trans)
  then show ?thesis by (rule adopt_keeps_own)
qed simp

lemma ahead_step:
  assumes step: "pstep elects commits s s'" and inv: "pinv elects commits s"
  shows "ahead s s'"
proof -
  have ok: "leads_ok elects s" "acks_ok s" "votes_ok s" "cands_ok s" using inv by (auto simp: pinv_def)
  moreover have "com s \<subseteq> com s'" using step by (auto elim!: pstep.cases)
  ultimately show ?thesis
    unfolding ahead_def
    by (intro conjI allI impI)
      (blast intro: aterm_grows [OF step] vote_kept [OF step] cand_kept [OF step]
        lead_kept [OF step] llog_grows [OF step] acks_grow [OF step])+
qed

lemma psteps_ahead:
  assumes "psteps elects commits s s'" "pinv elects commits s"
  shows "pinv elects commits s' \<and> ahead s s'"
  using assms
proof (induction rule: psteps.induct)
  case (none s)
  then show ?case by (simp add: ahead_refl)
next
  case (more s s' s'')
  then show ?case using pinv_step ahead_step ahead_trans by blast
qed

end

end
