(* ===== verification/Raft_Rpc.thy ===== *)
theory Raft_Rpc
  imports Raft_Log
begin

text \<open>
  \<open>src/rsm/rpc.py\<close>: the six messages and the term check. A message is the base class's
  fields with the subclass's as its body; the \<open>kind\<close> string is the body's constructor.
\<close>

type_synonym name = string

datatype payload =
    RequestVote nat nat bool \<comment> \<open>last index, last term, pre vote\<close>
  | Vote bool bool \<comment> \<open>granted, pre vote\<close>
  | Append nat nat "entry list" nat nat
      \<comment> \<open>previous index, previous term, entries, commit index, read id\<close>
  | Appended bool nat nat nat nat
      \<comment> \<open>success, match index, conflict term, conflict index, read id\<close>
  | InstallSnapshot nat nat dict "name list" \<comment> \<open>last index, last term, state, members\<close>
  | Installed nat \<comment> \<open>last index\<close>

record message =
  sender :: name
  recipient :: name
  m_term :: nat
  body :: payload

definition Message :: "name \<Rightarrow> name \<Rightarrow> nat \<Rightarrow> payload \<Rightarrow> message result" where
  "Message s r t b =
     (if t < 1 then Inl ConfigError
      else if s = r then Inl ConfigError
      else Inr \<lparr>sender = s, recipient = r, m_term = t, body = b\<rparr>)"

fun is_reply :: "message \<Rightarrow> bool" where
  "is_reply m = (case body m of Vote _ _ \<Rightarrow> True | Appended _ _ _ _ _ \<Rightarrow> True | Installed _ \<Rightarrow> True
                 | _ \<Rightarrow> False)"

fun is_heartbeat :: "payload \<Rightarrow> bool" where
  "is_heartbeat (Append pi pt es ci rid) = (es = [])"
| "is_heartbeat _ = False"

text \<open>The highest index an append would leave the follower holding.\<close>

definition append_last_index :: "nat \<Rightarrow> entry list \<Rightarrow> nat" where
  "append_last_index previous es = (if es \<noteq> [] then e_index (last es) else previous)"

datatype currency = STALE | CURRENT | AHEAD

definition term_check :: "nat \<Rightarrow> message \<Rightarrow> currency" where
  "term_check own m =
     (if m_term m < own then STALE else if m_term m > own then AHEAD else CURRENT)"

text \<open>Whether a message is a pre vote request or its answer.\<close>

fun asks_pre_vote :: "payload \<Rightarrow> bool" where
  "asks_pre_vote (RequestVote li lt pv) = pv"
| "asks_pre_vote (Vote g pv) = pv"
| "asks_pre_vote _ = False"

lemma Message_Inr [raises]:
  "Message s r t b = Inr m \<longleftrightarrow>
   1 \<le> t \<and> s \<noteq> r \<and> m = \<lparr>sender = s, recipient = r, m_term = t, body = b\<rparr>"
  by (auto simp: Message_def)

lemma term_check_simps [simp]:
  "term_check own m = STALE \<longleftrightarrow> m_term m < own"
  "term_check own m = AHEAD \<longleftrightarrow> m_term m > own"
  "term_check own m = CURRENT \<longleftrightarrow> m_term m = own"
  by (auto simp: term_check_def)

lemma append_last_index_indexed:
  "in_place p es \<Longrightarrow> append_last_index p es = p + length es"
  by (auto simp: append_last_index_def in_place_iff last_conv_nth)

end
