(* ===== verification/Raft_Node.thy ===== *)
theory Raft_Node
  imports Raft_Rpc
begin

text \<open>
  \<open>src/rsm/node.py\<close>: one member of the cluster. Every method that changes the node takes it
  and returns it updated, with the messages to send; a method that can raise returns a result.
  An exception leaves the handler and ends the run, so the half updated node is not kept.

  The election timer draws from the node's generator, which is the sequence of draws it has left
  (\<open>rng\<close>). The \<open>next_index\<close> and \<open>match_index\<close> dictionaries are only read and written by key,
  so they are maps.
\<close>

section \<open>State\<close>

datatype role = FOLLOWER | CANDIDATE | LEADER

definition MIN_ELECTION_TIMEOUT :: nat where "MIN_ELECTION_TIMEOUT = 10"
definition MAX_ELECTION_TIMEOUT :: nat where "MAX_ELECTION_TIMEOUT = 20"
definition HEARTBEAT_INTERVAL :: nat where "HEARTBEAT_INTERVAL = 3"
definition MAX_BATCH :: nat where "MAX_BATCH = 64"

record node =
  name :: name
  members :: "name list"
  pre_vote :: bool
  commit_any_term :: bool
  current_term :: nat
  voted_for :: "name option"
  log :: raft_log
  role :: role
  leader :: "name option"
  commit_index :: nat
  last_applied :: nat
  next_index :: "name \<Rightarrow> nat option"
  match_index :: "name \<Rightarrow> nat option"
  votes :: "name set"
  pre_votes :: "name set"
  now :: nat
  election_deadline :: nat
  heartbeat_due :: nat
  applied :: "entry list"
  state :: dict
  rng :: draws

type_synonym outcome = "(node \<times> message list) result"

definition peers :: "node \<Rightarrow> name list" where
  "peers n = filter (\<lambda>p. p \<noteq> name n) (members n)"

definition quorum :: "node \<Rightarrow> nat" where
  "quorum n = length (members n) div 2 + 1"

definition is_leader :: "node \<Rightarrow> bool" where
  "is_leader n \<longleftrightarrow> role n = LEADER"

definition mget :: "(name \<Rightarrow> nat option) \<Rightarrow> name \<Rightarrow> nat \<Rightarrow> nat" where
  "mget m k d = (case m k of None \<Rightarrow> d | Some v \<Rightarrow> v)"

definition reset_election_timer :: "node \<Rightarrow> node" where
  "reset_election_timer n =
     (let (span, g) = randint MIN_ELECTION_TIMEOUT MAX_ELECTION_TIMEOUT (rng n)
      in n\<lparr>election_deadline := now n + span, rng := g\<rparr>)"

definition Node :: "name \<Rightarrow> name list \<Rightarrow> draws \<Rightarrow> bool \<Rightarrow> bool \<Rightarrow> node result" where
  "Node nm ms g pv cat =
     (if nm \<notin> set ms then Inl ConfigError
      else if \<not> distinct ms then Inl ConfigError
      else Inr (reset_election_timer
        \<lparr>name = nm, members = ms, pre_vote = pv, commit_any_term = cat,
         current_term = 1, voted_for = None, log = empty_log,
         role = FOLLOWER, leader = None, commit_index = NO_INDEX, last_applied = NO_INDEX,
         next_index = Map.empty, match_index = Map.empty, votes = {}, pre_votes = {},
         now = 0, election_deadline = 0, heartbeat_due = 0, applied = [], state = [],
         rng = g\<rparr>))"

section \<open>Committing and applying\<close>

fun apply_command :: "dict \<Rightarrow> pyobj \<Rightarrow> dict" where
  "apply_command d (PTuple [c, k, v]) = (if c = PStr ''set'' then dict_set d k v else d)"
| "apply_command d _ = d"

text \<open>
  \<open>apply_committed\<close>: the entries it hands out are returned with the node.
\<close>

function apply_committed :: "node \<Rightarrow> (entry list \<times> node) result" where
  "apply_committed n =
     (if last_applied n < commit_index n then
        let n' = n\<lparr>last_applied := last_applied n + 1\<rparr> in
        if \<not> holds (log n') (last_applied n') then apply_committed n'
        else rbind (log_at (log n') (last_applied n')) (\<lambda>e.
             rbind (apply_committed
                      (n'\<lparr>applied := applied n' @ [e],
                          state := (if command e \<noteq> PNone then apply_command (state n') (command e)
                                    else state n')\<rparr>))
               (\<lambda>(out, n''). Inr (e # out, n'')))
      else Inr ([], n))"
  by pat_completeness auto
termination
  by (relation "measure (\<lambda>n. commit_index n - last_applied n)") (auto simp: Let_def)

declare apply_committed.simps [simp del]

definition apply_ready :: "node \<Rightarrow> node result" where
  "apply_ready n = rbind (apply_committed n) (\<lambda>(out, n'). Inr n')"

definition holders :: "node \<Rightarrow> nat \<Rightarrow> nat" where
  "holders n i = length (filter (\<lambda>p. mget (match_index n) p NO_INDEX \<ge> i) (members n))"

fun find_commit :: "node \<Rightarrow> nat \<Rightarrow> nat option result" where
  "find_commit n 0 = Inr None"
| "find_commit n (Suc i) =
     (if Suc i \<le> commit_index n then Inr None
      else rbind (if commit_any_term n then Inr True
                  else rbind (term_at (log n) (Suc i)) (\<lambda>t. Inr (t = current_term n))) (\<lambda>own.
           if \<not> own then find_commit n i
           else if holders n (Suc i) \<ge> quorum n then Inr (Some (Suc i))
           else find_commit n i))"

definition advance_commit :: "node \<Rightarrow> node result" where
  "advance_commit n =
     (if role n \<noteq> LEADER then Inr n
      else let n' = n\<lparr>match_index := (match_index n)(name n \<mapsto> last_index (log n))\<rparr> in
           rbind (find_commit n' (last_index (log n'))) (\<lambda>found.
             case found of
               None \<Rightarrow> Inr n'
             | Some i \<Rightarrow> apply_ready (n'\<lparr>commit_index := i\<rparr>)))"

section \<open>Roles\<close>

definition become_follower :: "node \<Rightarrow> nat \<Rightarrow> name option \<Rightarrow> node" where
  "become_follower n t l =
     (let n1 = (if t > current_term n then n\<lparr>current_term := t, voted_for := None\<rparr> else n)
      in reset_election_timer
           (n1\<lparr>role := FOLLOWER, leader := l, votes := {}, pre_votes := {}\<rparr>))"

definition become_pre_candidate :: "node \<Rightarrow> outcome" where
  "become_pre_candidate n =
     (let n1 = reset_election_timer (n\<lparr>pre_votes := {name n}\<rparr>) in
      rbind (rmap (\<lambda>p. Message (name n1) p (current_term n1 + 1)
                         (RequestVote (last_index (log n1)) (last_term (log n1)) True))
               (peers n1))
        (\<lambda>out. Inr (n1, out)))"

definition replicate_one :: "node \<Rightarrow> name \<Rightarrow> message result" where
  "replicate_one n p =
     (let wanted = mget (next_index n) p (last_index (log n) + 1);
          start = min wanted (last_index (log n) + 1)
      in if start \<le> snapshot_index (log n)
         then Message (name n) p (current_term n)
                (InstallSnapshot (snapshot_index (log n)) (snapshot_term (log n)) (state n)
                   (members n))
         else let previous = start - 1 in
              rbind (log_slice (log n) start (Some (start + MAX_BATCH - 1))) (\<lambda>es.
              rbind (term_at (log n) previous) (\<lambda>pt.
              Message (name n) p (current_term n)
                (Append previous pt es (commit_index n) 0))))"

definition replicate_to :: "node \<Rightarrow> name option \<Rightarrow> message list result" where
  "replicate_to n to =
     rmap (replicate_one n) (case to of None \<Rightarrow> peers n | Some p \<Rightarrow> if p = [] then peers n else [p])"

definition become_leader :: "node \<Rightarrow> outcome" where
  "become_leader n =
     (let n1 = n\<lparr>role := LEADER, leader := Some (name n), votes := {},
                 next_index := (\<lambda>p. if p \<in> set (peers n) then Some (last_index (log n) + 1) else None),
                 match_index := (\<lambda>p. if p \<in> set (peers n) then Some NO_INDEX else None)\<rparr> in
      rbind (Entry (current_term n1) (last_index (log n1) + 1) PNone) (\<lambda>e.
      rbind (append1 (log n1) e) (\<lambda>l.
        let n2 = n1\<lparr>log := l,
                    match_index := (match_index n1)(name n1 \<mapsto> last_index l),
                    heartbeat_due := now n1 + HEARTBEAT_INTERVAL\<rparr> in
        rbind (if length (members n2) = 1 then advance_commit n2 else Inr n2) (\<lambda>n3.
        rbind (replicate_to n3 None) (\<lambda>out. Inr (n3, out))))))"

definition become_candidate :: "node \<Rightarrow> outcome" where
  "become_candidate n =
     (let n1 = reset_election_timer
                 (n\<lparr>current_term := current_term n + 1, role := CANDIDATE,
                    voted_for := Some (name n), leader := None, votes := {name n},
                    pre_votes := {}\<rparr>) in
      if length (members n1) = 1 then become_leader n1
      else rbind (rmap (\<lambda>p. Message (name n1) p (current_term n1)
                              (RequestVote (last_index (log n1)) (last_term (log n1)) False))
                    (peers n1))
             (\<lambda>out. Inr (n1, out)))"

definition stand :: "node \<Rightarrow> outcome" where
  "stand n = (if pre_vote n \<and> length (members n) > 1 then become_pre_candidate n
              else become_candidate n)"

definition propose :: "node \<Rightarrow> pyobj \<Rightarrow> (node \<times> nat) result" where
  "propose n c =
     (if \<not> is_leader n then Inl NotLeader
      else rbind (Entry (current_term n) (last_index (log n) + 1) c) (\<lambda>e.
           rbind (append1 (log n) e) (\<lambda>l.
             let n1 = n\<lparr>log := l, match_index := (match_index n)(name n \<mapsto> last_index l)\<rparr> in
             rbind (if length (members n1) = 1 then advance_commit n1 else Inr n1) (\<lambda>n2.
             Inr (n2, e_index e)))))"

definition tick :: "node \<Rightarrow> nat \<Rightarrow> outcome" where
  "tick n t =
     (let n1 = n\<lparr>now := t\<rparr> in
      if role n1 = LEADER then
        (if t \<ge> heartbeat_due n1 then
           let n2 = n1\<lparr>heartbeat_due := t + HEARTBEAT_INTERVAL\<rparr> in
           rbind (replicate_to n2 None) (\<lambda>out. Inr (n2, out))
         else Inr (n1, []))
      else if t \<ge> election_deadline n1 then stand n1
      else Inr (n1, []))"

section \<open>Handlers\<close>

text \<open>Every reply goes back to the sender with this node's term.\<close>

definition reply :: "node \<Rightarrow> message \<Rightarrow> payload \<Rightarrow> outcome" where
  "reply n m b = rbind (Message (name n) (sender m) (current_term n) b) (\<lambda>r. Inr (n, [r]))"

definition refuse :: "node \<Rightarrow> message \<Rightarrow> outcome" where
  "refuse n m =
     (case body m of
        RequestVote _ _ _ \<Rightarrow> reply n m (Vote False False)
      | Append _ _ _ _ _ \<Rightarrow> reply n m (Appended False NO_INDEX NO_TERM NO_INDEX 0)
      | _ \<Rightarrow> Inr (n, []))"

definition on_request_vote :: "node \<Rightarrow> message \<Rightarrow> nat \<Rightarrow> nat \<Rightarrow> bool \<Rightarrow> outcome" where
  "on_request_vote n m li lt pv =
     (let current = is_up_to_date (log n) li lt in
      if pv then reply n m (Vote (current \<and> m_term m > current_term n) True)
      else let free = (voted_for n = None \<or> voted_for n = Some (sender m));
               granted = (free \<and> current);
               n1 = (if granted then reset_election_timer (n\<lparr>voted_for := Some (sender m)\<rparr>) else n)
           in reply n1 m (Vote granted False))"

definition on_pre_vote :: "node \<Rightarrow> message \<Rightarrow> bool \<Rightarrow> outcome" where
  "on_pre_vote n m g =
     (if role n \<noteq> FOLLOWER \<or> \<not> g \<or> pre_votes n = {} then Inr (n, [])
      else let n1 = n\<lparr>pre_votes := insert (sender m) (pre_votes n)\<rparr> in
           if card (pre_votes n1) \<ge> quorum n1 then become_candidate n1 else Inr (n1, []))"

definition on_vote :: "node \<Rightarrow> message \<Rightarrow> bool \<Rightarrow> bool \<Rightarrow> outcome" where
  "on_vote n m g pv =
     (if pv then on_pre_vote n m g
      else if role n \<noteq> CANDIDATE \<or> \<not> g then Inr (n, [])
      else let n1 = n\<lparr>votes := insert (sender m) (votes n)\<rparr> in
           if card (votes n1) \<ge> quorum n1 then become_leader n1 else Inr (n1, []))"

definition conflict :: "node \<Rightarrow> message \<Rightarrow> nat \<Rightarrow> nat \<Rightarrow> outcome" where
  "conflict n m previous rid =
     (if previous > last_index (log n)
      then reply n m (Appended False NO_INDEX NO_TERM (last_index (log n) + 1) rid)
      else rbind (term_at (log n) previous) (\<lambda>conflicting.
           rbind (run_start (log n) conflicting previous) (\<lambda>first.
           reply n m (Appended False NO_INDEX conflicting first rid))))"

definition place :: "raft_log \<Rightarrow> entry \<Rightarrow> raft_log" where
  "place l e = (if e_index e = last_index l + 1 then l\<lparr>entries := entries l @ [e]\<rparr> else l)"

fun take_entries :: "raft_log \<Rightarrow> entry list \<Rightarrow> raft_log result" where
  "take_entries l [] = Inr l"
| "take_entries l (e # es) =
     (if holds l (e_index e) then
        rbind (term_at l (e_index e)) (\<lambda>t.
          if t = e_term e then take_entries l es
          else rbind (truncate_from l (e_index e)) (\<lambda>(gone, l'). take_entries (place l' e) es))
      else take_entries (place l e) es)"

definition on_append ::
  "node \<Rightarrow> message \<Rightarrow> nat \<Rightarrow> nat \<Rightarrow> entry list \<Rightarrow> nat \<Rightarrow> nat \<Rightarrow> outcome" where
  "on_append n m previous pt es lc rid =
     (let n1 = n\<lparr>leader := Some (sender m)\<rparr>;
          n2 = (if role n1 \<noteq> FOLLOWER
                then (become_follower n1 (m_term m) (Some (sender m)))\<lparr>leader := Some (sender m)\<rparr>
                else n1);
          n3 = reset_election_timer n2
      in rbind (matches (log n3) previous pt) (\<lambda>ok.
         if \<not> ok then conflict n3 m previous rid
         else rbind (take_entries (log n3) es) (\<lambda>l.
           let n4 = n3\<lparr>log := l\<rparr> in
           rbind (if lc > commit_index n4
                  then apply_ready (n4\<lparr>commit_index := min lc (last_index (log n4))\<rparr>)
                  else Inr n4) (\<lambda>n5.
           reply n5 m (Appended True (append_last_index previous es) NO_TERM NO_INDEX rid)))))"

fun find_term :: "raft_log \<Rightarrow> nat \<Rightarrow> nat \<Rightarrow> nat option result" where
  "find_term l t 0 = Inr None"
| "find_term l t (Suc i) =
     (if Suc i < first_index l then Inr None
      else rbind (term_at l (Suc i)) (\<lambda>u. if u = t then Inr (Some (Suc i)) else find_term l t i))"

definition skip_term :: "node \<Rightarrow> nat \<Rightarrow> nat \<Rightarrow> nat result" where
  "skip_term n ct ci =
     rbind (find_term (log n) ct (last_index (log n))) (\<lambda>found.
       case found of Some i \<Rightarrow> Inr (i + 1) | None \<Rightarrow> Inr (max ci (first_index (log n))))"

definition record_match :: "node \<Rightarrow> name \<Rightarrow> nat \<Rightarrow> node" where
  "record_match n p i =
     (let mi = max (mget (match_index n) p NO_INDEX) i
      in n\<lparr>match_index := (match_index n)(p \<mapsto> mi), next_index := (next_index n)(p \<mapsto> mi + 1)\<rparr>)"

definition on_appended :: "node \<Rightarrow> message \<Rightarrow> bool \<Rightarrow> nat \<Rightarrow> nat \<Rightarrow> nat \<Rightarrow> outcome" where
  "on_appended n m ok mi ct ci =
     (if role n \<noteq> LEADER then Inr (n, [])
      else if ok then
        rbind (advance_commit (record_match n (sender m) mi)) (\<lambda>n1.
          if mget (next_index n1) (sender m) 0 \<le> last_index (log n1)
          then rbind (replicate_to n1 (Some (sender m))) (\<lambda>out. Inr (n1, out))
          else Inr (n1, []))
      else rbind (if ct \<noteq> NO_TERM then skip_term n ct ci
                  else Inr (max ci (first_index (log n)))) (\<lambda>ni.
           let n1 = n\<lparr>next_index := (next_index n)(sender m \<mapsto> ni)\<rparr> in
           rbind (replicate_to n1 (Some (sender m))) (\<lambda>out. Inr (n1, out))))"

definition on_install :: "node \<Rightarrow> message \<Rightarrow> nat \<Rightarrow> nat \<Rightarrow> dict \<Rightarrow> outcome" where
  "on_install n m li lt st =
     (let n1 = reset_election_timer (n\<lparr>leader := Some (sender m)\<rparr>) in
      rbind (if li > last_index (log n1)
             then rbind (Log [] li lt) (\<lambda>l.
                    Inr (n1\<lparr>log := l, state := st, commit_index := li, last_applied := li\<rparr>))
             else Inr n1) (\<lambda>n2.
      reply n2 m (Installed (last_index (log n2)))))"

definition on_installed :: "node \<Rightarrow> message \<Rightarrow> nat \<Rightarrow> outcome" where
  "on_installed n m li =
     (if role n \<noteq> LEADER then Inr (n, [])
      else rbind (advance_commit (record_match n (sender m) li)) (\<lambda>n1.
           rbind (replicate_to n1 (Some (sender m))) (\<lambda>out. Inr (n1, out))))"

definition dispatch :: "node \<Rightarrow> message \<Rightarrow> outcome" where
  "dispatch n m =
     (case body m of
        RequestVote li lt pv \<Rightarrow> on_request_vote n m li lt pv
      | Vote g pv \<Rightarrow> on_vote n m g pv
      | Append pi pt es lc rid \<Rightarrow> on_append n m pi pt es lc rid
      | Appended ok mi ct ci rid \<Rightarrow> on_appended n m ok mi ct ci
      | InstallSnapshot li lt st ms \<Rightarrow> on_install n m li lt st
      | Installed li \<Rightarrow> on_installed n m li)"

definition step :: "node \<Rightarrow> message \<Rightarrow> outcome" where
  "step n m =
     (if asks_pre_vote (body m)
      then (if term_check (current_term n) m = STALE then refuse n m else dispatch n m)
      else if term_check (current_term n) m = AHEAD
      then dispatch (become_follower n (m_term m) None) m
      else if term_check (current_term n) m = STALE then refuse n m
      else dispatch n m)"

end
