(* ===== verification/Node_Refines.thy ===== *)
theory Node_Refines
  imports Protocol_Safety Raft_Node
begin

text \<open>
  The handlers of \<open>src/rsm/node.py\<close> refine the protocol: run on a node that stands for its part
  of a protocol state, with a message the protocol accounts for, a handler raises nothing, takes
  protocol steps of that node alone, and sends messages the new state accounts for.

  Commit indices are tracked by a flag \<open>b\<close>. With it set, a node's commit index and applied
  entries are covered by commitments of the protocol; this needs every append that was ever sent
  to reach as far as the commit index it carries (\<open>snug\<close>), because the handler takes the smaller
  of that index and the end of its whole log. The theory \<open>Commit_Overrun\<close> shows what happens
  otherwise.
\<close>

section \<open>The relation\<close>

fun snug :: "message \<Rightarrow> bool" where
  "snug m = (case body m of Append pi pt es lc rid \<Rightarrow> lc \<le> pi + length es | _ \<Rightarrow> True)"

definition replay :: "entry list \<Rightarrow> dict" where
  "replay es = fold (\<lambda>e d. if command e \<noteq> PNone then apply_command d (command e) else d) es []"

definition node_sim :: "bool \<Rightarrow> name list \<Rightarrow> name \<Rightarrow> node \<Rightarrow> name protocol \<Rightarrow> bool" where
  "node_sim b ms p n s \<longleftrightarrow>
     name n = p \<and> members n = ms \<and> \<not> commit_any_term n \<and>
     current_term n = aterm s p \<and> 1 \<le> aterm s p \<and> log n = plain (alog s p) \<and>
     voted_for n = vote s (aterm s p) p \<and>
     (role n = CANDIDATE \<longrightarrow> cand s (aterm s p) p = Some (alog s p) \<and>
        lead s (aterm s p) \<noteq> Some p \<and> votes n \<subseteq> {v \<in> set ms. vote s (aterm s p) v = Some p}) \<and>
     (role n = LEADER \<longrightarrow> lead s (aterm s p) = Some p \<and> alog s p = llog s (aterm s p) \<and>
        length (llog s (aterm s p)) \<le> ack s (aterm s p) p \<and>
        (\<forall>q. mget (match_index n) q 0 \<le> ack s (aterm s p) q) \<and>
        (\<forall>q i. next_index n q = Some i \<longrightarrow> 1 \<le> i)) \<and>
     (b \<longrightarrow> commit_index n = acommit s p \<and> last_applied n = acommit s p \<and>
        acommit s p \<le> length (alog s p) \<and> applied n = take (acommit s p) (alog s p) \<and>
        state n = replay (applied n))"

definition msg_ok :: "bool \<Rightarrow> name list \<Rightarrow> name protocol \<Rightarrow> message \<Rightarrow> bool" where
  "msg_ok b ms s m \<longleftrightarrow>
     sender m \<in> set ms \<and> recipient m \<in> set ms \<and> sender m \<noteq> recipient m \<and> 1 \<le> m_term m \<and>
     (case body m of
        RequestVote li lt pv \<Rightarrow> pv \<or>
          (\<exists>l. cand s (m_term m) (sender m) = Some l \<and> li = length l \<and> lt = term_of l (length l))
      | Vote g pv \<Rightarrow> g \<and> \<not> pv \<longrightarrow> vote s (m_term m) (sender m) = Some (recipient m)
      | Append pi pt es lc rid \<Rightarrow>
          lead s (m_term m) = Some (sender m) \<and> pi + length es \<le> length (llog s (m_term m)) \<and>
          es = take (length es) (drop pi (llog s (m_term m))) \<and>
          pt = term_of (llog s (m_term m)) pi \<and>
          (b \<longrightarrow> covered s (m_term m) (llog s (m_term m)) lc)
      | Appended ok mi ct ci rid \<Rightarrow> ok \<longrightarrow> mi \<le> ack s (m_term m) (sender m)
      | InstallSnapshot _ _ _ _ \<Rightarrow> False
      | Installed _ \<Rightarrow> False)"

text \<open>What the other nodes and the messages already sent see of a node's steps.\<close>

definition frame :: "name \<Rightarrow> name protocol \<Rightarrow> name protocol \<Rightarrow> bool" where
  "frame p s s' \<longleftrightarrow>
     (\<forall>q. q \<noteq> p \<longrightarrow> aterm s' q = aterm s q \<and> alog s' q = alog s q \<and> acommit s' q = acommit s q \<and>
        (\<forall>t. vote s' t q = vote s t q \<and> cand s' t q = cand s t q \<and>
           (lead s' t = Some q \<longleftrightarrow> lead s t = Some q) \<and>
           (lead s t = Some q \<longrightarrow> llog s' t = llog s t)))"

definition run :: "name list \<Rightarrow> name \<Rightarrow> name protocol \<Rightarrow> name protocol \<Rightarrow> bool" where
  "run ms p s s' \<longleftrightarrow> psteps (is_majority ms) (is_majority ms) s s' \<and> frame p s s'"

abbreviation inv :: "name list \<Rightarrow> name protocol \<Rightarrow> bool" where
  "inv ms s \<equiv> pinv (is_majority ms) (is_majority ms) s"

lemma frame_refl: "frame p s s"
  by (simp add: frame_def)

lemma frame_trans: "frame p s s' \<Longrightarrow> frame p s' s'' \<Longrightarrow> frame p s s''"
  by (simp add: frame_def)

lemma run_refl: "run ms p s s"
  by (simp add: run_def frame_refl psteps.none)

lemma run_trans: "run ms p s s' \<Longrightarrow> run ms p s' s'' \<Longrightarrow> run ms p s s''"
  unfolding run_def by (blast intro: frame_trans psteps_trans)

lemma run_inv: "run ms p s s' \<Longrightarrow> inv ms s \<Longrightarrow> inv ms s'"
  unfolding run_def using majorities.psteps_ahead by blast

lemma run_ahead: "run ms p s s' \<Longrightarrow> inv ms s \<Longrightarrow> ahead s s'"
  unfolding run_def using majorities.psteps_ahead by blast

lemma run_one: "pstep (is_majority ms) (is_majority ms) s s' \<Longrightarrow> frame p s s' \<Longrightarrow> run ms p s s'"
  by (simp add: run_def psteps_one)

lemma covered_ahead:
  "ahead s s' \<Longrightarrow> covered s t l c \<Longrightarrow> t \<le> t' \<Longrightarrow> covered s' t' l c"
  unfolding covered_def ahead_def by (metis agree_append le_trans subsetD)

lemma covered_agrees: "covered s t l c \<Longrightarrow> agree c m l \<Longrightarrow> covered s t m c"
  unfolding covered_def by (metis agree_trans)

lemma msg_ok_ahead:
  assumes "msg_ok b ms s m" "ahead s s'" "b' \<longrightarrow> b"
  shows "msg_ok b' ms s' m"
proof (cases "body m")
  case (Append pi pt es lc rid)
  from assms(2) obtain fs where fs: "llog s' (m_term m) = llog s (m_term m) @ fs"
    unfolding ahead_def by blast
  have "covered s' (m_term m) (llog s' (m_term m)) lc" if "covered s (m_term m) (llog s (m_term m)) lc"
  proof -
    from that have "lc \<le> length (llog s (m_term m))"
      by (auto simp: covered_def agree_def)
    then have "agree lc (llog s' (m_term m)) (llog s (m_term m))"
      by (simp add: fs agree_def)
    with covered_ahead [OF assms(2) that order_refl] show ?thesis by (rule covered_agrees)
  qed
  with assms fs Append show ?thesis
    unfolding msg_ok_def ahead_def by (auto simp: term_of_append1)
next
  case (RequestVote li lt pv)
  with assms show ?thesis unfolding msg_ok_def ahead_def by auto
next
  case (Vote g pv)
  with assms show ?thesis unfolding msg_ok_def ahead_def by auto
next
  case (Appended ok mi ct ci rid)
  with assms show ?thesis unfolding msg_ok_def ahead_def by (auto intro: order_trans)
qed (use assms in \<open>auto simp: msg_ok_def\<close>)

lemma node_sim_frame:
  assumes "node_sim b ms q n s" "frame p s s'" "ahead s s'" "q \<noteq> p" "b' \<longrightarrow> b"
  shows "node_sim b' ms q n s'"
proof -
  have *: "aterm s' q = aterm s q" "alog s' q = alog s q" "acommit s' q = acommit s q"
    "\<And>t. vote s' t q = vote s t q" "\<And>t. cand s' t q = cand s t q"
    "\<And>t. lead s' t = Some q \<longleftrightarrow> lead s t = Some q"
    "\<And>t. lead s t = Some q \<Longrightarrow> llog s' t = llog s t"
    using assms(2,4) unfolding frame_def by auto
  have "x \<le> ack s' t r" if "x \<le> ack s t r" for x r t
    using that assms(3) unfolding ahead_def by (meson order_trans)
  moreover have "votes n \<subseteq> {v \<in> set ms. vote s' t v = Some q}"
    if "votes n \<subseteq> {v \<in> set ms. vote s t v = Some q}" for t
    using that assms(3) unfolding ahead_def by blast
  ultimately show ?thesis
    using assms(1,5) * unfolding node_sim_def by auto
qed

section \<open>Fields the protocol does not see\<close>

named_theorems unseen

lemma reset_timer_fields [unseen]:
  "name (reset_election_timer n) = name n" "members (reset_election_timer n) = members n"
  "commit_any_term (reset_election_timer n) = commit_any_term n"
  "current_term (reset_election_timer n) = current_term n"
  "voted_for (reset_election_timer n) = voted_for n" "log (reset_election_timer n) = log n"
  "role (reset_election_timer n) = role n" "commit_index (reset_election_timer n) = commit_index n"
  "last_applied (reset_election_timer n) = last_applied n"
  "next_index (reset_election_timer n) = next_index n"
  "match_index (reset_election_timer n) = match_index n" "votes (reset_election_timer n) = votes n"
  "pre_votes (reset_election_timer n) = pre_votes n" "pre_vote (reset_election_timer n) = pre_vote n"
  "applied (reset_election_timer n) = applied n" "state (reset_election_timer n) = state n"
  "now (reset_election_timer n) = now n"
  by (simp_all add: reset_election_timer_def split: prod.split)

lemma node_sim_unseen [unseen]:
  "node_sim b ms p (reset_election_timer n) s = node_sim b ms p n s"
  "node_sim b ms p (n\<lparr>leader := x\<rparr>) s = node_sim b ms p n s"
  "node_sim b ms p (n\<lparr>now := t\<rparr>) s = node_sim b ms p n s"
  "node_sim b ms p (n\<lparr>heartbeat_due := t\<rparr>) s = node_sim b ms p n s"
  "node_sim b ms p (n\<lparr>pre_votes := v\<rparr>) s = node_sim b ms p n s"
  by (simp_all add: node_sim_def unseen)

section \<open>Results that refine\<close>

definition refines :: "bool \<Rightarrow> name list \<Rightarrow> name \<Rightarrow> name protocol \<Rightarrow> outcome \<Rightarrow> bool" where
  "refines b ms p s r \<longleftrightarrow> (\<exists>n' out s'. r = Inr (n', out) \<and> run ms p s s' \<and>
     node_sim b ms p n' s' \<and> (\<forall>m\<in>set out. msg_ok b ms s' m))"

text \<open>Committing and applying touch neither roles nor logs.\<close>

definition refines_node ::
  "bool \<Rightarrow> name list \<Rightarrow> name \<Rightarrow> name protocol \<Rightarrow> node \<Rightarrow> node result \<Rightarrow> bool" where
  "refines_node b ms p s n r \<longleftrightarrow> (\<exists>n' s'. r = Inr n' \<and> run ms p s s' \<and> node_sim b ms p n' s' \<and>
     role n' = role n \<and> alog s' = alog s \<and> aterm s' = aterm s \<and> ack s' = ack s)"

lemma refinesI:
  "r = Inr (n', out) \<Longrightarrow> run ms p s s' \<Longrightarrow> node_sim b ms p n' s' \<Longrightarrow>
   (\<And>m. m \<in> set out \<Longrightarrow> msg_ok b ms s' m) \<Longrightarrow> refines b ms p s r"
  unfolding refines_def by blast

lemma refines_run: "run ms p s s' \<Longrightarrow> refines b ms p s' r \<Longrightarrow> refines b ms p s r"
  unfolding refines_def by (blast intro: run_trans)

lemma refines_quiet: "node_sim b ms p n s \<Longrightarrow> refines b ms p s (Inr (n, []))"
  by (rule refinesI [OF refl run_refl]) auto

section \<open>What the relation gives about one node\<close>

lemma node_simD:
  assumes "node_sim b ms p n s"
  shows "name n = p" "members n = ms" "\<not> commit_any_term n" "current_term n = aterm s p"
    "1 \<le> aterm s p" "log n = plain (alog s p)" "voted_for n = vote s (aterm s p) p"
  using assms by (simp_all add: node_sim_def)

lemma node_sim_leaderD:
  assumes "node_sim b ms p n s" "role n = LEADER"
  shows "lead s (aterm s p) = Some p" "alog s p = llog s (aterm s p)"
    "\<forall>q. mget (match_index n) q 0 \<le> ack s (aterm s p) q"
    "\<And>q i. next_index n q = Some i \<Longrightarrow> 1 \<le> i"
    "length (llog s (aterm s p)) \<le> ack s (aterm s p) p"
  using assms by (simp_all add: node_sim_def)

lemma inv_log:
  assumes "inv ms s"
  shows "indexed (alog s p)" "sorted (map e_term (alog s p))" "good s (alog s p)"
    "e \<in> set (alog s p) \<Longrightarrow> e_term e \<le> aterm s p"
    "indexed (llog s t)" "good s (llog s t)"
  using assms unfolding pinv_def logs_ok_def good_def by blast+

lemma inv_last_term: "inv ms s \<Longrightarrow> term_of (alog s p) (length (alog s p)) \<le> aterm s p"
  using inv_log(4) [of ms s _ p] term_of_in [of "length (alog s p)" "alog s p"]
  by (cases "alog s p = []") (auto simp: term_of_def Suc_le_eq)

lemma set_peers: "node_sim b ms p n s \<Longrightarrow> set (peers n) = set ms - {p}"
  by (auto simp: peers_def node_simD)

lemma indexed_slice: "indexed l \<Longrightarrow> in_place i (take k (drop i l))"
  unfolding indexed_in_place by (metis append_take_drop_id drop_drop in_place_append in_place_take
      length_take min.absorb_iff2 nat_le_linear add_0 drop_all in_place.simps(1) take_Nil)

lemma post_all:
  assumes "\<And>q. q \<in> set qs \<Longrightarrow> f q = Message p q t (g q)" "\<And>q. q \<in> set qs \<Longrightarrow> q \<noteq> p" "1 \<le> t"
  shows "rmap f qs = Inr (map (\<lambda>q. \<lparr>sender = p, recipient = q, m_term = t, body = g q\<rparr>) qs)"
  using assms by (intro rmap_Inr) (auto simp: Message_def)

section \<open>Following a later term\<close>

lemma become_follower_sim:
  assumes inv: "inv ms s" and sim: "node_sim b ms p n s" and t: "1 \<le> t"
  obtains s' where "run ms p s s'" "node_sim b ms p (become_follower n t l) s'"
    "aterm s' p = max t (aterm s p)" "role (become_follower n t l) = FOLLOWER"
proof (cases "aterm s p < t")
  case True
  let ?s = "s\<lparr>aterm := (aterm s)(p := t)\<rparr>"
  have "run ms p s ?s"
    by (rule run_one [OF pstep.bump]) (use True in \<open>auto simp: frame_def\<close>)
  moreover have "vote s t p = None"
    using inv True unfolding pinv_def votes_ok_def by (metis linorder_not_less not_None_eq)
  then have "node_sim b ms p (become_follower n t l) ?s"
    using sim True by (simp add: become_follower_def unseen) (simp add: node_sim_def)
  ultimately show thesis
    using True by (intro that [of ?s]) (simp_all add: become_follower_def unseen)
next
  case False
  then have "node_sim b ms p (become_follower n t l) s"
    using sim by (simp add: become_follower_def unseen node_simD) (simp add: node_sim_def)
  with False show thesis
    by (intro that [of s] run_refl) (simp_all add: become_follower_def unseen)
qed

section \<open>Committing and applying\<close>

lemma fold_replay:
  "replay (es @ [e]) = (if command e \<noteq> PNone then apply_command (replay es) (command e) else replay es)"
  by (simp add: replay_def)

text \<open>Applying never raises on an uncompacted log, and hands out what lies between the indices.\<close>

lemma apply_committed_plain:
  assumes "log n = plain es" "indexed es"
  shows "\<exists>out st. apply_committed n =
      Inr (out, n\<lparr>last_applied := max (last_applied n) (commit_index n),
                 applied := applied n @ out, state := st\<rparr>) \<and>
    (last_applied n \<le> commit_index n \<longrightarrow> commit_index n \<le> length es \<longrightarrow>
       out = take (commit_index n - last_applied n) (drop (last_applied n) es) \<and>
       (state n = replay (applied n) \<longrightarrow> st = replay (applied n @ out)))"
  using assms(1)
proof (induction n rule: apply_committed.induct)
  case (1 n)
  define la where "la = last_applied n"
  show ?case
  proof (cases "la < commit_index n")
    case False
    then show ?thesis
      by (intro exI [where x = "[]"] exI [where x = "state n"])
        (auto simp: apply_committed.simps [of n] la_def)
  next
    case True
    define n1 where "n1 = n\<lparr>last_applied := la + 1\<rparr>"
    show ?thesis
    proof (cases "la + 1 \<le> length es")
      case False
      with assms(2) "1.prems" have h: "\<not> holds (log n1) (last_applied n1)"
        by (simp add: n1_def plain_log)
      with "1.IH"(1) [OF True [unfolded la_def] n1_def [unfolded la_def]] "1.prems"
      obtain out st where "apply_committed n1 =
          Inr (out, n1\<lparr>last_applied := max (last_applied n1) (commit_index n1),
             applied := applied n1 @ out, state := st\<rparr>)"
        by (auto simp: n1_def)
      then have "apply_committed n =
          Inr (out, n1\<lparr>last_applied := max (last_applied n1) (commit_index n1),
             applied := applied n1 @ out, state := st\<rparr>)"
        using True h by (subst apply_committed.simps) (simp add: n1_def la_def Let_def)
      with True False show ?thesis
        by (intro exI [where x = out] exI [where x = st]) (auto simp: n1_def la_def)
    next
      case held: True
      define e where "e = es ! la"
      have at: "log_at (log n1) (last_applied n1) = Inr e" and h: "holds (log n1) (last_applied n1)"
        using held assms(2) "1.prems" by (simp_all add: n1_def plain_log e_def)
      define n2 where "n2 = n1\<lparr>applied := applied n1 @ [e],
        state := (if command e \<noteq> PNone then apply_command (state n1) (command e) else state n1)\<rparr>"
      from "1.IH"(2) [OF True [unfolded la_def] n1_def [unfolded la_def] _ at] h "1.prems"
      obtain out st where ih: "apply_committed n2 =
          Inr (out, n2\<lparr>last_applied := max (last_applied n2) (commit_index n2),
             applied := applied n2 @ out, state := st\<rparr>)"
        "last_applied n2 \<le> commit_index n2 \<longrightarrow> commit_index n2 \<le> length es \<longrightarrow>
         out = take (commit_index n2 - last_applied n2) (drop (last_applied n2) es) \<and>
         (state n2 = replay (applied n2) \<longrightarrow> st = replay (applied n2 @ out))"
        unfolding n2_def by (auto simp: n1_def)
      have "apply_committed n = rbind (apply_committed n2) (\<lambda>(out, n''). Inr (e # out, n''))"
        using True h at by (subst apply_committed.simps) (simp add: n1_def n2_def la_def Let_def)
      then have eq: "apply_committed n =
          Inr (e # out, n2\<lparr>last_applied := max (last_applied n2) (commit_index n2),
             applied := applied n2 @ out, state := st\<rparr>)"
        by (simp add: ih(1))
      have step: "take (commit_index n - la) (drop la es) = e # take (commit_index n - Suc la) (drop (Suc la) es)"
        using True held by (simp add: Cons_nth_drop_Suc [symmetric] e_def take_Cons')
      have "state n2 = replay (applied n2)" if "state n = replay (applied n)"
        using that by (simp add: n2_def n1_def fold_replay)
      with eq ih(2) True step show ?thesis
        by (intro exI [where x = "e # out"] exI [where x = st])
          (auto simp: n2_def n1_def la_def)
    qed
  qed
qed

text \<open>Learning a commitment that covers the log up to an index inside it.\<close>

lemma learn_sim:
  assumes inv: "inv ms s" and sim: "node_sim b ms p n s"
    and c: "b \<longrightarrow> covered s (aterm s p) (alog s p) c \<and> c \<le> length (alog s p) \<and> commit_index n \<le> c"
  shows "refines_node b ms p s n (apply_ready (n\<lparr>commit_index := c\<rparr>))"
proof -
  let ?n = "n\<lparr>commit_index := c\<rparr>"
  have "log ?n = plain (alog s p)" using sim by (simp add: node_simD)
  then obtain out st where out: "apply_committed ?n =
      Inr (out, ?n\<lparr>last_applied := max (last_applied ?n) c, applied := applied n @ out, state := st\<rparr>)"
    "last_applied n \<le> c \<longrightarrow> c \<le> length (alog s p) \<longrightarrow>
       out = take (c - last_applied n) (drop (last_applied n) (alog s p)) \<and>
       (state n = replay (applied n) \<longrightarrow> st = replay (applied n @ out))"
    using apply_committed_plain [of ?n "alog s p"] inv_log(1) [OF inv] by auto
  let ?n' = "?n\<lparr>last_applied := max (last_applied ?n) c, applied := applied n @ out, state := st\<rparr>"
  have ready: "apply_ready ?n = Inr ?n'" by (simp add: apply_ready_def out(1))
  show ?thesis
  proof (cases b)
    case False
    with sim have "node_sim b ms p ?n' s" by (simp add: node_sim_def)
    with ready run_refl [of ms p s] show ?thesis unfolding refines_node_def by auto
  next
    case True
    let ?s = "s\<lparr>acommit := (acommit s)(p := c)\<rparr>"
    have "run ms p s ?s"
      using c True by (intro run_one [OF pstep.learn]) (auto simp: frame_def)
    moreover have "applied n @ out = take c (alog s p)"
    proof -
      have "applied n = take (acommit s p) (alog s p)" "last_applied n = acommit s p" "acommit s p \<le> c"
        using sim True c by (simp_all add: node_sim_def)
      moreover have "out = take (c - acommit s p) (drop (acommit s p) (alog s p))"
        using out(2) True c sim calculation by simp
      ultimately show ?thesis
        by (metis le_add_diff_inverse take_add)
    qed
    moreover have "st = replay (applied n @ out)" "last_applied n \<le> c"
      using out(2) True c sim by (simp_all add: node_sim_def)
    ultimately have "node_sim b ms p ?n' ?s"
      using sim c True by (simp add: node_sim_def max_absorb2)
    with ready \<open>run ms p s ?s\<close> show ?thesis
      unfolding refines_node_def by (intro exI [of _ ?n'] exI [of _ ?s]) simp
  qed
qed

lemma find_commit_plain:
  assumes "log n = plain es" "indexed es" "\<not> commit_any_term n" "i \<le> length es"
  shows "\<exists>r. find_commit n i = Inr r \<and> (\<forall>j. r = Some j \<longrightarrow>
      1 \<le> j \<and> j \<le> i \<and> commit_index n < j \<and> term_of es j = current_term n \<and> quorum n \<le> holders n j)"
  using assms(4)
proof (induction i)
  case 0
  then show ?case by simp
next
  case (Suc i)
  then obtain r where "find_commit n i = Inr r" "\<forall>j. r = Some j \<longrightarrow>
      1 \<le> j \<and> j \<le> i \<and> commit_index n < j \<and> term_of es j = current_term n \<and> quorum n \<le> holders n j"
    by auto
  with Suc.prems assms(1-3) show ?case
    by (auto simp: plain_log not_le)
qed

text \<open>Committing leaves the log, the role and the term alone.\<close>

lemma advance_commit_keeps:
  assumes "advance_commit n = Inr n'" "log n = plain es" "indexed es"
  shows "log n' = log n" "role n' = role n" "current_term n' = current_term n"
proof -
  have ready: "log m' = log m \<and> role m' = role m \<and> current_term m' = current_term m"
    if "apply_ready m = Inr m'" "log m = plain es" for m m'
    using apply_committed_plain [OF that(2) assms(3)] that(1) by (auto simp: apply_ready_def)
  define n1 where "n1 = n\<lparr>match_index := (match_index n)(name n \<mapsto> last_index (log n))\<rparr>"
  have n1: "log n1 = log n" "role n1 = role n" "current_term n1 = current_term n" by (simp_all add: n1_def)
  show "log n' = log n" "role n' = role n" "current_term n' = current_term n"
  proof (atomize (full), cases "role n = LEADER")
    case False
    then show "log n' = log n \<and> role n' = role n \<and> current_term n' = current_term n"
      using assms(1) by (simp add: advance_commit_def)
  next
    case True
    then have "rbind (find_commit n1 (last_index (log n1))) (\<lambda>found. case found of None \<Rightarrow> Inr n1
        | Some i \<Rightarrow> apply_ready (n1\<lparr>commit_index := i\<rparr>)) = Inr n'"
      using assms(1) unfolding advance_commit_def n1_def Let_def by simp
    then obtain found where found: "(case found of None \<Rightarrow> Inr n1
        | Some i \<Rightarrow> apply_ready (n1\<lparr>commit_index := i\<rparr>)) = Inr n'" by (auto simp: rbind_eq_Inr)
    show "log n' = log n \<and> role n' = role n \<and> current_term n' = current_term n"
    proof (cases found)
      case None
      with found n1 show ?thesis by simp
    next
      case (Some i)
      with found ready [of "n1\<lparr>commit_index := i\<rparr>" n'] n1 assms(2) show ?thesis by simp
    qed
  qed
qed

lemma holders_majority:
  assumes "distinct ms" "members n = ms" "\<forall>q. mget (match_index n) q 0 \<le> a q" "quorum n \<le> holders n i"
  shows "is_majority ms {v. i \<le> a v}"
proof -
  have "holders n i = card (set (filter (\<lambda>q. i \<le> mget (match_index n) q 0) ms))"
    unfolding holders_def NO_INDEX_def assms(2)
    by (rule distinct_card [symmetric]) (use assms(1) in simp)
  also have "\<dots> \<le> card ({v. i \<le> a v} \<inter> set ms)"
    using assms(3) by (intro card_mono) (auto intro: order_trans)
  finally show ?thesis
    using assms(2,4) by (simp add: is_majority_def quorum_def)
qed

lemma advance_commit_sim:
  assumes inv: "inv ms s" and sim: "node_sim b ms p n s" and d: "distinct ms"
  shows "refines_node b ms p s n (advance_commit n)"
proof (cases "role n = LEADER")
  case False
  with sim show ?thesis
    unfolding refines_node_def advance_commit_def by (auto intro: run_refl)
next
  case True
  define n1 where "n1 = n\<lparr>match_index := (match_index n)(name n \<mapsto> last_index (log n))\<rparr>"
  have last: "last_index (log n) = length (alog s p)"
    using inv_log(1) [OF inv] sim by (simp add: plain_log node_simD)
  have sim1: "node_sim b ms p n1 s"
    using sim True last by (auto simp: node_sim_def n1_def mget_def)
  then obtain r where r: "find_commit n1 (length (alog s p)) = Inr r" "\<And>j. r = Some j \<Longrightarrow>
      1 \<le> j \<and> j \<le> length (alog s p) \<and> commit_index n1 < j \<and>
      term_of (alog s p) j = current_term n1 \<and> quorum n1 \<le> holders n1 j"
    using find_commit_plain [of n1 "alog s p" "length (alog s p)"] inv_log(1) [OF inv]
    by (auto simp: node_simD)
  have eq: "advance_commit n = (case r of None \<Rightarrow> Inr n1 | Some i \<Rightarrow> apply_ready (n1\<lparr>commit_index := i\<rparr>))"
  proof -
    have "last_index (log n1) = length (alog s p)" using last by (simp add: n1_def)
    moreover have "advance_commit n = rbind (find_commit n1 (last_index (log n1))) (\<lambda>found.
        case found of None \<Rightarrow> Inr n1 | Some i \<Rightarrow> apply_ready (n1\<lparr>commit_index := i\<rparr>))"
      using True unfolding advance_commit_def n1_def Let_def by simp
    ultimately show ?thesis using r(1) by simp
  qed
  show ?thesis
  proof (cases r)
    case None
    with eq sim1 run_refl [of ms p s] show ?thesis
      unfolding refines_node_def by (intro exI [of _ n1] exI [of _ s]) (simp add: n1_def)
  next
    case (Some i)
    have i: "1 \<le> i" "i \<le> length (alog s p)" "commit_index n1 < i"
      "term_of (alog s p) i = aterm s p" "quorum n1 \<le> holders n1 i"
      using r(2) [OF Some] sim1 by (simp_all add: node_simD)
    have lead: "lead s (aterm s p) = Some p" "alog s p = llog s (aterm s p)"
      "\<forall>q. mget (match_index n1) q 0 \<le> ack s (aterm s p) q"
      using node_sim_leaderD [OF sim1] True by (simp_all add: n1_def)
    let ?s = "s\<lparr>com := insert (aterm s p, i) (com s)\<rparr>"
    have "is_majority ms {v. i \<le> ack s (aterm s p) v}"
      using holders_majority [OF d _ lead(3) i(5)] sim1 by (simp add: node_simD)
    then have "run ms p s ?s"
      using lead i by (intro run_one [OF pstep.commit]) (auto simp: frame_def)
    moreover have "node_sim b ms p n1 ?s" using sim1 by (simp add: node_sim_def)
    moreover have "covered ?s (aterm s p) (alog s p) i"
      using i lead(2) by (auto simp: covered_def intro!: agree_refl)
    ultimately have "refines_node b ms p ?s n1 (apply_ready (n1\<lparr>commit_index := i\<rparr>))"
      using i by (intro learn_sim run_inv [OF _ inv]) auto
    then obtain n' s' where "apply_ready (n1\<lparr>commit_index := i\<rparr>) = Inr n'" "run ms p ?s s'"
      "node_sim b ms p n' s'" "role n' = role n1" "alog s' = alog s" "aterm s' = aterm s" "ack s' = ack s"
      unfolding refines_node_def by auto
    with Some eq run_trans [OF \<open>run ms p s ?s\<close>] show ?thesis
      unfolding refines_node_def by (intro exI [of _ n'] exI [of _ s']) (auto simp: n1_def)
  qed
qed

section \<open>Sending entries\<close>

lemma replicate_one_sim:
  assumes inv: "inv ms s" and sim: "node_sim b ms p n s" and lead: "role n = LEADER"
    and q: "q \<in> set ms" "q \<noteq> p" and p: "p \<in> set ms"
  shows "\<exists>m. replicate_one n q = Inr m \<and> msg_ok b ms s m"
proof -
  let ?l = "alog s p" and ?t = "aterm s p"
  note L = node_sim_leaderD [OF sim lead]
  have ix: "indexed ?l" using inv_log(1) [OF inv] .
  have log: "log n = plain ?l" and f: "name n = p" "current_term n = ?t" "1 \<le> ?t"
    using node_simD [OF sim] by simp_all
  define start where "start = min (mget (next_index n) q (length ?l + 1)) (length ?l + 1)"
  have start: "1 \<le> start" "start - 1 \<le> length ?l"
    using L(4) [of q] by (auto simp: start_def mget_def split: option.splits)
  define es where "es = take (min (start + MAX_BATCH - 1) (length ?l) - (start - 1)) (drop (start - 1) ?l)"
  have slice: "log_slice (plain ?l) start (Some (start + MAX_BATCH - 1)) = Inr es"
    using slice_plain [OF ix start(1)] by (simp add: es_def)
  have pt: "term_at (plain ?l) (start - 1) = Inr (term_of ?l (start - 1))"
    using ix start(2) by (rule term_at_plain)
  let ?m = "\<lparr>sender = p, recipient = q, m_term = ?t,
    body = Append (start - 1) (term_of ?l (start - 1)) es (commit_index n) 0\<rparr>"
  have lst: "last_index (log n) = length ?l" using log ix by (simp add: plain_log)
  have "replicate_one n q = Inr ?m"
    unfolding replicate_one_def Let_def lst start_def [symmetric]
    using f q(2) slice pt start by (simp add: log Message_def)
  moreover have "msg_ok b ms s ?m"
  proof -
    have "covered s ?t ?l (acommit s p)"
      using inv unfolding pinv_def learnt_ok_def by blast
    then have "covered s ?t (llog s ?t) (commit_index n)" if b
      using that sim L(2) by (simp add: node_sim_def)
    moreover have "start - 1 + length es \<le> length ?l" using start by (simp add: es_def)
    moreover have "es = take (length es) (drop (start - 1) ?l)" by (simp add: es_def)
    ultimately show ?thesis
      using L(1,2) p q f(3) by (simp add: msg_ok_def)
  qed
  ultimately show ?thesis by blast
qed

lemma rmap_all: "(\<And>x. x \<in> set xs \<Longrightarrow> \<exists>y. f x = Inr y \<and> P y) \<Longrightarrow> \<exists>ys. rmap f xs = Inr ys \<and> (\<forall>y\<in>set ys. P y)"
proof (induction xs)
  case (Cons x xs)
  then obtain y ys where "f x = Inr y" "P y" "rmap f xs = Inr ys" "\<forall>y\<in>set ys. P y"
    by (metis list.set_intros(1) list.set_intros(2))
  then show ?case by simp
qed simp

lemma replicate_sim:
  assumes inv: "inv ms s" and sim: "node_sim b ms p n s" and lead: "role n = LEADER"
    and p: "p \<in> set ms" and to: "case to of None \<Rightarrow> True | Some q \<Rightarrow> q \<in> set ms \<and> q \<noteq> p"
  shows "\<exists>out. replicate_to n to = Inr out \<and> (\<forall>m\<in>set out. msg_ok b ms s m)"
proof -
  have "set (case to of None \<Rightarrow> peers n | Some q \<Rightarrow> if q = [] then peers n else [q]) \<subseteq> set ms - {p}"
    using set_peers [OF sim] to by (auto split: option.splits if_splits)
  then show ?thesis
    unfolding replicate_to_def
    by (intro rmap_all replicate_one_sim [OF inv sim lead _ _ p]) auto
qed

text \<open>A leader that sends after committing.\<close>

lemma refines_replicate:
  assumes inv: "inv ms s" and r: "refines_node b ms p s n r" and lead: "role n = LEADER"
    and p: "p \<in> set ms" and to: "\<And>n'. case f n' of None \<Rightarrow> True | Some q \<Rightarrow> q \<in> set ms \<and> q \<noteq> p"
  shows "refines b ms p s (rbind r (\<lambda>n1. rbind (replicate_to n1 (f n1)) (\<lambda>out. Inr (n1, out))))"
proof -
  from r obtain n' s' where *: "r = Inr n'" "run ms p s s'" "node_sim b ms p n' s'" "role n' = role n"
    unfolding refines_node_def by blast
  then obtain out where "replicate_to n' (f n') = Inr out" "\<forall>m\<in>set out. msg_ok b ms s' m"
    using replicate_sim [OF run_inv [OF *(2) inv] *(3) _ p to] lead by auto
  with * show ?thesis by (intro refinesI [of _ n' out ms p s s']) auto
qed

section \<open>Taking office\<close>

lemma votes_majority:
  assumes "members n = ms" "V \<subseteq> {v \<in> set ms. P v}" "quorum n \<le> card V"
  shows "is_majority ms {v. P v}"
proof -
  have "card V \<le> card ({v. P v} \<inter> set ms)"
    using assms(2) by (intro card_mono) auto
  with assms show ?thesis by (simp add: is_majority_def quorum_def)
qed

lemma become_leader_sim:
  assumes inv: "inv ms s" and sim: "node_sim b ms p n s" and d: "distinct ms" and p: "p \<in> set ms"
    and role: "role n = CANDIDATE" and won: "is_majority ms {v. vote s (aterm s p) v = Some p}"
  shows "refines b ms p s (become_leader n)"
proof -
  let ?l = "alog s p" and ?t = "aterm s p"
  have ix: "indexed ?l" using inv_log(1) [OF inv] .
  have f: "name n = p" "members n = ms" "log n = plain ?l" "current_term n = ?t" "1 \<le> ?t"
    using node_simD [OF sim] by simp_all
  have cand: "cand s ?t p = Some ?l" "lead s ?t \<noteq> Some p" using sim role by (simp_all add: node_sim_def)
  have none: "lead s ?t = None"
  proof (rule ccontr)
    assume "lead s ?t \<noteq> None"
    then obtain c where "lead s ?t = Some c" "is_majority ms {v. vote s ?t v = Some c}"
      using inv leads_SomeD(1) unfolding pinv_def by (metis option.exhaust)
    with won cand(2) show False using majorities.one_winner by metis
  qed
  define e where "e = \<lparr>e_term = ?t, e_index = length ?l + 1, command = PNone\<rparr>"
  define l where "l = plain (?l @ [e])"
  let ?s = "s\<lparr>lead := (lead s)(?t := Some p), llog := (llog s)(?t := ?l @ [e]),
    alog := (alog s)(p := ?l @ [e]), ack := (ack s)(?t := (ack s ?t)(p := length ?l + 1))\<rparr>"
  have step: "pstep (is_majority ms) (is_majority ms) s ?s"
    using cand none won by (intro pstep.elect) (auto simp: e_def)
  have fr: "frame p s ?s" using none by (auto simp: frame_def)
  have runs: "run ms p s ?s" using step fr by (rule run_one)
  have inv': "inv ms ?s" using run_inv [OF runs inv] .
  have entry: "Entry ?t (last_index (log n) + 1) PNone = Inr e"
    using f ix by (simp add: Entry_def plain_log e_def)
  have app: "append1 (log n) e = Inr l"
    using f ix inv_last_term [OF inv, of p] by (simp add: append1_plain e_def l_def)
  have last: "last_index l = length ?l + 1"
    unfolding l_def by (subst last_index_plain) (use ix in \<open>auto simp: indexed_append1 e_def\<close>)
  define n2 where "n2 = n\<lparr>role := LEADER, leader := Some p, votes := {},
    next_index := (\<lambda>q. if q \<in> set (peers n) then Some (last_index (log n) + 1) else None),
    log := l, match_index := (\<lambda>q. if q \<in> set (peers n) then Some NO_INDEX else None)(p \<mapsto> last_index l),
    heartbeat_due := now n + HEARTBEAT_INTERVAL\<rparr>"
  have eq: "become_leader n = rbind (if length (members n2) = 1 then advance_commit n2 else Inr n2) (\<lambda>n3.
        rbind (replicate_to n3 None) (\<lambda>out. Inr (n3, out)))"
    using f entry app by (simp add: become_leader_def Let_def n2_def peers_def)
  have sim2: "node_sim b ms p n2 ?s"
    using sim f last by (auto simp: node_sim_def n2_def l_def mget_def NO_INDEX_def)
  have "refines_node b ms p ?s n2 (if length (members n2) = 1 then advance_commit n2 else Inr n2)"
  proof (cases "length (members n2) = 1")
    case True
    then show ?thesis using advance_commit_sim [OF inv' sim2 d] by simp
  next
    case False
    then show ?thesis using sim2 unfolding refines_node_def by (auto intro: run_refl)
  qed
  then have "refines b ms p ?s (become_leader n)"
    unfolding eq by (rule refines_replicate [OF inv' _ _ p]) (simp_all add: n2_def)
  with runs show ?thesis by (rule refines_run)
qed

section \<open>Standing, proposing and the clock\<close>

lemma become_candidate_sim:
  assumes inv: "inv ms s" and sim: "node_sim b ms p n s" and d: "distinct ms" and p: "p \<in> set ms"
  shows "refines b ms p s (become_candidate n)"
proof -
  let ?l = "alog s p" and ?t = "aterm s p + 1"
  have ix: "indexed ?l" using inv_log(1) [OF inv] .
  have f: "name n = p" "members n = ms" "log n = plain ?l" "current_term n = aterm s p" "1 \<le> aterm s p"
    using node_simD [OF sim] by simp_all
  let ?s = "s\<lparr>aterm := (aterm s)(p := ?t), vote := (vote s)(?t := (vote s ?t)(p := Some p)),
    cand := (cand s)(?t := (cand s ?t)(p := Some ?l))\<rparr>"
  define n1 where "n1 = reset_election_timer (n\<lparr>current_term := current_term n + 1, role := CANDIDATE,
    voted_for := Some (name n), leader := None, votes := {name n}, pre_votes := {}\<rparr>)"
  have runs: "run ms p s ?s"
    by (rule run_one [OF pstep.stand]) (auto simp: frame_def)
  have inv': "inv ms ?s" using run_inv [OF runs inv] .
  have "lead s ?t \<noteq> Some p"
  proof
    assume "lead s ?t = Some p"
    then obtain l where "cand s ?t p = Some l"
      using inv leads_SomeD(2) unfolding pinv_def by metis
    then have "?t \<le> aterm s p" using inv unfolding pinv_def cands_ok_def by blast
    then show False by simp
  qed
  then have sim1: "node_sim b ms p n1 ?s"
    using sim f p unfolding n1_def unseen by (auto simp: node_sim_def)
  have f1: "role n1 = CANDIDATE" "members n1 = ms" "name n1 = p" "current_term n1 = ?t" "log n1 = plain ?l"
    using f by (simp_all add: n1_def unseen)
  show ?thesis
  proof (cases "length ms = 1")
    case True
    then have "is_majority ms {v. vote ?s ?t v = Some p}"
      using p by (cases ms) (auto simp: is_majority_def)
    then have "refines b ms p ?s (become_leader n1)"
      using become_leader_sim [OF inv' sim1 d p f1(1)] by simp
    moreover have "become_candidate n = become_leader n1"
      using True f1(2) unfolding become_candidate_def Let_def n1_def [symmetric] by simp
    ultimately show ?thesis using runs by (simp add: refines_run)
  next
    case False
    let ?m = "\<lambda>q. \<lparr>sender = p, recipient = q, m_term = ?t,
      body = RequestVote (last_index (log n1)) (last_term (log n1)) False\<rparr>"
    have "rmap (\<lambda>q. Message (name n1) q (current_term n1)
        (RequestVote (last_index (log n1)) (last_term (log n1)) False)) (peers n1) = Inr (map ?m (peers n1))"
      using f1 set_peers [OF sim1] by (intro post_all) auto
    then have "become_candidate n = Inr (n1, map ?m (peers n1))"
      using False f1(2) unfolding become_candidate_def Let_def n1_def [symmetric] by simp
    moreover have "msg_ok b ms ?s m" if "m \<in> set (map ?m (peers n1))" for m
    proof -
      from that obtain q where q: "m = ?m q" "q \<in> set (peers n1)" by auto
      have "q \<in> set ms" "q \<noteq> p" using q(2) set_peers [OF sim1] by auto
      moreover have "last_index (log n1) = length ?l" "last_term (log n1) = term_of ?l (length ?l)"
        using f1(5) ix by (simp_all add: plain_log)
      ultimately show ?thesis using q(1) p by (simp add: msg_ok_def)
    qed
    ultimately show ?thesis using runs sim1 by (intro refinesI)
  qed
qed

lemma stand_sim:
  assumes inv: "inv ms s" and sim: "node_sim b ms p n s" and d: "distinct ms" and p: "p \<in> set ms"
  shows "refines b ms p s (stand n)"
proof (cases "pre_vote n \<and> length (members n) > 1")
  case False
  then have "stand n = become_candidate n" unfolding stand_def by (rule if_not_P)
  with become_candidate_sim [OF assms] show ?thesis by simp
next
  case True
  define n1 where "n1 = reset_election_timer (n\<lparr>pre_votes := {name n}\<rparr>)"
  have sim1: "node_sim b ms p n1 s" using sim by (simp add: n1_def unseen)
  let ?m = "\<lambda>q. \<lparr>sender = p, recipient = q, m_term = current_term n1 + 1,
      body = RequestVote (last_index (log n1)) (last_term (log n1)) True\<rparr>"
  have "rmap (\<lambda>q. Message (name n1) q (current_term n1 + 1)
      (RequestVote (last_index (log n1)) (last_term (log n1)) True)) (peers n1) = Inr (map ?m (peers n1))"
    using set_peers [OF sim1] node_simD(1) [OF sim1] by (intro post_all) auto
  then have "stand n = Inr (n1, map ?m (peers n1))"
    using True unfolding stand_def become_pre_candidate_def Let_def n1_def [symmetric] by simp
  moreover have "msg_ok b ms s m" if "m \<in> set (map ?m (peers n1))" for m
  proof -
    from that obtain q where q: "m = ?m q" "q \<in> set (peers n1)" by auto
    have "q \<in> set ms" "q \<noteq> p" using q(2) set_peers [OF sim1] by auto
    with q(1) p show ?thesis by (simp add: msg_ok_def)
  qed
  ultimately show ?thesis using run_refl sim1 by (intro refinesI)
qed

lemma tick_sim:
  assumes inv: "inv ms s" and sim: "node_sim b ms p n s" and d: "distinct ms" and p: "p \<in> set ms"
  shows "refines b ms p s (tick n t)"
proof -
  define n1 where "n1 = n\<lparr>now := t\<rparr>"
  have sim1: "node_sim b ms p n1 s" using sim by (simp add: n1_def unseen)
  show ?thesis
  proof (cases "role n1 = LEADER")
    case True
    define n2 where "n2 = n1\<lparr>heartbeat_due := t + HEARTBEAT_INTERVAL\<rparr>"
    have sim2: "node_sim b ms p n2 s" "role n2 = LEADER"
      using sim1 True by (simp_all add: n2_def unseen)
    obtain out where "replicate_to n2 None = Inr out" "\<forall>m\<in>set out. msg_ok b ms s m"
      using replicate_sim [OF inv sim2 p, of None] by auto
    moreover from this have "refines b ms p s (rbind (replicate_to n2 None) (\<lambda>out. Inr (n2, out)))"
      using run_refl sim2 by (intro refinesI [of _ n2 out]) auto
    ultimately show ?thesis
      using True refines_quiet [OF sim1] unfolding tick_def n1_def [symmetric] n2_def [symmetric] Let_def
      by simp
  next
    case False
    then show ?thesis
      using stand_sim [OF inv sim1 d p] refines_quiet [OF sim1]
      unfolding tick_def n1_def [symmetric] Let_def by simp
  qed
qed

lemma propose_sim:
  assumes inv: "inv ms s" and sim: "node_sim b ms p n s" and d: "distinct ms"
    and lead: "role n = LEADER"
  shows "\<exists>n' s'. propose n c = Inr (n', length (alog s p) + 1) \<and> run ms p s s' \<and>
    node_sim b ms p n' s' \<and> role n' = LEADER"
proof -
  let ?l = "alog s p" and ?t = "aterm s p"
  have ix: "indexed ?l" using inv_log(1) [OF inv] .
  have f: "name n = p" "members n = ms" "log n = plain ?l" "current_term n = ?t" "1 \<le> ?t"
    using node_simD [OF sim] by simp_all
  note L = node_sim_leaderD [OF sim lead]
  define e where "e = \<lparr>e_term = ?t, e_index = length ?l + 1, command = c\<rparr>"
  define l where "l = plain (?l @ [e])"
  let ?s = "s\<lparr>llog := (llog s)(?t := ?l @ [e]), alog := (alog s)(p := ?l @ [e]),
    ack := (ack s)(?t := (ack s ?t)(p := length ?l + 1))\<rparr>"
  have step: "pstep (is_majority ms) (is_majority ms) s ?s"
    using L(1,2) by (intro pstep.extend) (auto simp: e_def)
  have runs: "run ms p s ?s"
    using step by (rule run_one) (use L(1) in \<open>auto simp: frame_def\<close>)
  have inv': "inv ms ?s" using run_inv [OF runs inv] .
  have entry: "Entry ?t (last_index (log n) + 1) c = Inr e"
    using f ix by (simp add: Entry_def plain_log e_def)
  have app: "append1 (log n) e = Inr l"
    using f ix inv_last_term [OF inv, of p] by (simp add: append1_plain e_def l_def)
  have last: "last_index l = length ?l + 1"
    unfolding l_def by (subst last_index_plain) (use ix in \<open>auto simp: indexed_append1 e_def\<close>)
  define n1 where "n1 = n\<lparr>log := l, match_index := (match_index n)(p \<mapsto> last_index l)\<rparr>"
  have eq: "propose n c = rbind (if length (members n1) = 1 then advance_commit n1 else Inr n1)
      (\<lambda>n2. Inr (n2, e_index e))"
    using f entry app lead by (simp add: propose_def is_leader_def Let_def n1_def)
  have acks: "ack s ?t p \<le> length ?l"
    using inv L(2) unfolding pinv_def acks_ok_def by metis
  have sim1: "node_sim b ms p n1 ?s"
    using sim f last lead L acks by (auto simp: node_sim_def n1_def l_def mget_def)
  have "refines_node b ms p ?s n1 (if length (members n1) = 1 then advance_commit n1 else Inr n1)"
  proof (cases "length (members n1) = 1")
    case True
    then show ?thesis using advance_commit_sim [OF inv' sim1 d] by simp
  next
    case False
    then show ?thesis using sim1 unfolding refines_node_def by (auto intro: run_refl)
  qed
  then obtain n' s' where "(if length (members n1) = 1 then advance_commit n1 else Inr n1) = Inr n'"
    "run ms p ?s s'" "node_sim b ms p n' s'" "role n' = role n1"
    unfolding refines_node_def by blast
  with eq run_trans [OF runs] lead show ?thesis
    by (intro exI [of _ n'] exI [of _ s']) (simp add: e_def n1_def)
qed

end
