(* ===== verification/Node_Handlers.thy ===== *)
theory Node_Handlers
  imports Node_Refines
begin

text \<open>
  The message handlers of \<open>src/rsm/node.py\<close>, one by one and then \<open>step\<close> as a whole, refine the
  protocol in the sense of \<open>Node_Refines\<close>: on a node that stands for its part of a protocol state
  and a message that state accounts for, they raise nothing, take protocol steps of that node and
  answer with messages the new state accounts for.
\<close>

section \<open>Handlers\<close>

text \<open>A message delivered to the node it is for, and accounted for.\<close>

lemma reply_sim:
  assumes sim: "node_sim b ms p n s" and m: "msg_ok b ms s m" "recipient m = p" and p: "p \<in> set ms"
    and ok: "msg_ok b ms s \<lparr>sender = p, recipient = sender m, m_term = aterm s p, body = r\<rparr>"
  shows "refines b ms p s (reply n m r)"
proof -
  have "p \<noteq> sender m" using m by (auto simp: msg_ok_def)
  then have "reply n m r = Inr (n, [\<lparr>sender = p, recipient = sender m, m_term = aterm s p, body = r\<rparr>])"
    using node_simD [OF sim] by (simp add: reply_def Message_def)
  then show ?thesis
    by (rule refinesI [OF _ run_refl sim]) (use ok in simp)
qed

lemma refuse_sim:
  assumes sim: "node_sim b ms p n s" and m: "msg_ok b ms s m" "recipient m = p" and p: "p \<in> set ms"
  shows "refines b ms p s (refuse n m)"
proof -
  have s: "sender m \<in> set ms" "sender m \<noteq> p" "1 \<le> aterm s p"
    using m node_simD [OF sim] by (auto simp: msg_ok_def)
  show ?thesis
  proof (cases "body m")
    case (RequestVote li lt pv)
    then show ?thesis
      using reply_sim [OF sim m p, of "Vote False False"] s p by (auto simp: refuse_def msg_ok_def)
  next
    case (Append pi pt es lc rid)
    then show ?thesis
      using reply_sim [OF sim m p, of "Appended False NO_INDEX NO_TERM NO_INDEX 0"] s p
      by (auto simp: refuse_def msg_ok_def)
  qed (use refines_quiet [OF sim] in \<open>simp_all add: refuse_def\<close>)
qed

lemma up_to_date_plain:
  assumes "indexed own"
  shows "is_up_to_date (plain own) (length l) (term_of l (length l)) \<longleftrightarrow> as_good l own"
  using assms by (auto simp: is_up_to_date_def as_good_def plain_log)

lemma on_request_vote_sim:
  assumes inv: "inv ms s" and sim: "node_sim b ms p n s" and p: "p \<in> set ms"
    and m: "msg_ok b ms s m" "recipient m = p" and bd: "body m = RequestVote li lt pv"
    and t: "pv \<or> m_term m = aterm s p"
  shows "refines b ms p s (on_request_vote n m li lt pv)"
proof -
  let ?c = "sender m" and ?t = "aterm s p"
  have c: "?c \<in> set ms" "?c \<noteq> p" "1 \<le> ?t"
    using m node_simD [OF sim] by (auto simp: msg_ok_def)
  show ?thesis
  proof (cases pv)
    case True
    then show ?thesis
      using reply_sim [OF sim m p] c p by (auto simp: on_request_vote_def msg_ok_def Let_def)
  next
    case False
    with t have mt: "m_term m = ?t" by simp
    have f: "log n = plain (alog s p)" "voted_for n = vote s ?t p" using node_simD [OF sim] by simp_all
    define current where "current = is_up_to_date (log n) li lt"
    show ?thesis
    proof (cases "(voted_for n = None \<or> voted_for n = Some ?c) \<and> current")
      case False
      then have "on_request_vote n m li lt pv = reply n m (Vote False False)"
        using \<open>\<not> pv\<close> unfolding on_request_vote_def Let_def current_def [symmetric] by auto
      then show ?thesis using reply_sim [OF sim m p] c p by (simp add: msg_ok_def)
    next
      case True
      from m bd \<open>\<not> pv\<close> mt obtain l where l: "cand s ?t ?c = Some l" "li = length l" "lt = term_of l (length l)"
        by (auto simp: msg_ok_def)
      have good: "as_good l (alog s p)"
        using True up_to_date_plain [OF inv_log(1) [OF inv]] by (simp add: current_def f l)
      let ?s = "s\<lparr>vote := (vote s)(?t := (vote s ?t)(p := Some ?c))\<rparr>"
      define n1 where "n1 = reset_election_timer (n\<lparr>voted_for := Some ?c\<rparr>)"
      have runs: "run ms p s ?s"
        using True f l(1) good by (intro run_one [OF pstep.grant]) (auto simp: frame_def)
      have "role n \<noteq> CANDIDATE"
      proof
        assume "role n = CANDIDATE"
        with sim have "cand s ?t p = Some (alog s p)" by (simp add: node_sim_def)
        with inv have "vote s ?t p = Some p" unfolding pinv_def cands_ok_def by blast
        with True f(2) c(2) show False by simp
      qed
      then have sim1: "node_sim b ms p n1 ?s"
        using sim unfolding n1_def unseen by (simp add: node_sim_def)
      have eq: "on_request_vote n m li lt pv = reply n1 m (Vote True False)"
        using \<open>\<not> pv\<close> True unfolding on_request_vote_def Let_def current_def [symmetric] n1_def by auto
      have "msg_ok b ms ?s m" using msg_ok_ahead [OF m(1) run_ahead [OF runs inv]] by simp
      then have "refines b ms p ?s (reply n1 m (Vote True False))"
        using reply_sim [OF sim1 _ m(2) p, of "Vote True False"] c p by (simp add: msg_ok_def)
      with eq runs show ?thesis by (simp add: refines_run)
    qed
  qed
qed

lemma on_vote_sim:
  assumes inv: "inv ms s" and sim: "node_sim b ms p n s" and d: "distinct ms" and p: "p \<in> set ms"
    and m: "msg_ok b ms s m" "recipient m = p" and bd: "body m = Vote g pv"
    and t: "pv \<or> m_term m = aterm s p"
  shows "refines b ms p s (on_vote n m g pv)"
proof (cases pv)
  case True
  define n1 where "n1 = n\<lparr>pre_votes := insert (sender m) (pre_votes n)\<rparr>"
  have sim1: "node_sim b ms p n1 s" using sim by (simp add: n1_def unseen)
  show ?thesis
    using become_candidate_sim [OF inv sim1 d p] refines_quiet [OF sim] refines_quiet [OF sim1] True
    unfolding on_vote_def on_pre_vote_def n1_def [symmetric] Let_def by simp
next
  case False
  define n1 where "n1 = n\<lparr>votes := insert (sender m) (votes n)\<rparr>"
  show ?thesis
  proof (cases "role n \<noteq> CANDIDATE \<or> \<not> g")
    case True
    with \<open>\<not> pv\<close> refines_quiet [OF sim] show ?thesis unfolding on_vote_def by simp
  next
    case cand: False
    with m bd \<open>\<not> pv\<close> t have "vote s (aterm s p) (sender m) = Some p" "sender m \<in> set ms"
      by (auto simp: msg_ok_def)
    then have sim1: "node_sim b ms p n1 s" and role: "role n1 = CANDIDATE"
      using sim cand by (auto simp: node_sim_def n1_def)
    have "refines b ms p s (become_leader n1)" if "quorum n1 \<le> card (votes n1)"
    proof (rule become_leader_sim [OF inv sim1 d p role])
      show "is_majority ms {v. vote s (aterm s p) v = Some p}"
        using sim1 role that by (intro votes_majority [of n1 ms "votes n1"]) (auto simp: node_sim_def)
    qed
    with cand \<open>\<not> pv\<close> refines_quiet [OF sim1] show ?thesis
      unfolding on_vote_def n1_def [symmetric] Let_def by simp
  qed
qed

text \<open>Where a run of one term begins is always found on an uncompacted log.\<close>

lemma run_start_plain:
  "indexed es \<Longrightarrow> i \<le> length es \<Longrightarrow> \<exists>j. run_start (plain es) c i = Inr j"
proof (induction "plain es" c i rule: run_start.induct)
  case (1 c first)
  show ?case
  proof (cases "first > 1")
    case False
    with 1 show ?thesis by (subst run_start.simps) (simp add: plain_log)
  next
    case True
    have at: "term_at (plain es) (first - 1) = Inr (term_of es (first - 1))"
      using 1 by (intro term_at_plain) auto
    show ?thesis
    proof (cases "term_of es (first - 1) = c")
      case c: True
      have "\<exists>j. run_start (plain es) c (first - 1) = Inr j"
        using 1 True c at by (intro "1.hyps" [of "term_of es (first - 1)"]) (auto simp: plain_log)
      then show ?thesis
        using True c at by (subst run_start.simps) (simp add: plain_log)
    next
      case False
      then show ?thesis
        using True at by (subst run_start.simps) (simp add: plain_log)
    qed
  qed
qed

lemma conflict_sim:
  assumes inv: "inv ms s" and sim: "node_sim b ms p n s" and p: "p \<in> set ms"
    and m: "msg_ok b ms s m" "recipient m = p"
  shows "refines b ms p s (conflict n m i rid)"
proof -
  have c: "sender m \<in> set ms" "sender m \<noteq> p" "1 \<le> aterm s p"
    using m node_simD [OF sim] by (auto simp: msg_ok_def)
  have log: "log n = plain (alog s p)" and ix: "indexed (alog s p)"
    using node_simD [OF sim] inv_log(1) [OF inv] by simp_all
  have send: "refines b ms p s (reply n m (Appended False a ct ci rid))" for a ct ci
    using reply_sim [OF sim m p] c p by (simp add: msg_ok_def)
  show ?thesis
  proof (cases "i > last_index (log n)")
    case True
    with send show ?thesis unfolding conflict_def by simp
  next
    case False
    then have i: "i \<le> length (alog s p)" using log ix by (simp add: plain_log)
    obtain j where "run_start (log n) (term_of (alog s p) i) i = Inr j"
      using run_start_plain [OF ix i] log by auto
    moreover have "term_at (log n) i = Inr (term_of (alog s p) i)"
      using term_at_plain [OF ix i] log by simp
    ultimately show ?thesis using False send unfolding conflict_def by simp
  qed
qed

text \<open>
  Taking a slice of the leader's log that starts where the two logs agree: what is held already
  is skipped, the first difference cuts the tail, the rest is appended.
\<close>

lemma adopt_prefix: "length own \<le> q \<Longrightarrow> q \<le> length theirs \<Longrightarrow> own = take (length own) theirs \<Longrightarrow>
    adopt own theirs q = take q theirs"
  unfolding adopt_def by (metis agree_length(1) le_antisym)

lemma adopt_differs: "\<not> agree q own theirs \<Longrightarrow> adopt own theirs q = take q theirs"
  by (simp add: adopt_def)

lemma take_entries_plain:
  assumes "indexed own" "indexed theirs" "agree j own theirs" "j + k \<le> length theirs"
    and matching: "\<And>i. 1 \<le> i \<Longrightarrow> i \<le> length own \<Longrightarrow> i \<le> length theirs \<Longrightarrow>
      term_of own i = term_of theirs i \<Longrightarrow> agree i own theirs"
  shows "take_entries (plain own) (take k (drop j theirs)) = Inr (plain (adopt own theirs (j + k)))"
  using assms
proof (induction k arbitrary: j own)
  case 0
  then show ?case by (simp add: adopt_def)
next
  case (Suc k)
  define e where "e = theirs ! j"
  have j: "j < length theirs" "j \<le> length own" using Suc.prems(3,4) by (auto simp: agree_def)
  have slice: "take (Suc k) (drop j theirs) = e # take k (drop (Suc j) theirs)"
    using j by (simp add: Cons_nth_drop_Suc [symmetric] e_def)
  have ei: "e_index e = Suc j" "e_term e = term_of theirs (Suc j)"
    using Suc.prems(2) j by (auto simp: indexed_def e_def term_of_def)
  have rest: "take_entries (plain (take (Suc j) theirs)) (take k (drop (Suc j) theirs)) =
      Inr (plain (take (j + Suc k) theirs))"
  proof -
    let ?o = "take (Suc j) theirs"
    have "take_entries (plain ?o) (take k (drop (Suc j) theirs)) = Inr (plain (adopt ?o theirs (Suc j + k)))"
    proof (rule Suc.IH)
      show "agree (Suc j) ?o theirs" using j by (simp add: agree_def)
      show "agree i ?o theirs" if "1 \<le> i" "i \<le> length ?o" "i \<le> length theirs" for i
        using that by (simp add: agree_def min_def split: if_splits)
    qed (use Suc.prems(2,4) j in \<open>simp_all add: indexed_take\<close>)
    moreover have "adopt ?o theirs (Suc j + k) = take (Suc j + k) theirs"
      using Suc.prems(4) j by (intro adopt_prefix) auto
    ultimately show ?thesis by simp
  qed
  show ?case
  proof (cases "Suc j \<le> length own")
    case True
    have at: "term_at (plain own) (Suc j) = Inr (term_of own (Suc j))"
      using Suc.prems(1) True by (rule term_at_plain)
    show ?thesis
    proof (cases "term_of own (Suc j) = term_of theirs (Suc j)")
      case eq: True
      with Suc.prems(5) True j have "agree (Suc j) own theirs" by auto
      then have "take_entries (plain own) (take k (drop (Suc j) theirs)) =
          Inr (plain (adopt own theirs (Suc j + k)))"
        using Suc.prems by (intro Suc.IH) auto
      with slice True at eq ei Suc.prems(1) show ?thesis by (simp add: plain_log)
    next
      case neq: False
      have "\<not> agree (j + Suc k) own theirs"
        using neq agree_term_of [of "j + Suc k" own theirs "Suc j"] by auto
      then have res: "adopt own theirs (j + Suc k) = take (j + Suc k) theirs" by (rule adopt_differs)
      have "place (plain (take j own)) e = plain (take (Suc j) theirs)"
        using Suc.prems(1,3) True j ei
        using last_index_plain [OF indexed_take [OF Suc.prems(2), of j]]
        by (simp add: place_def plain_log agree_def e_def take_Suc_conv_app_nth)
      with slice True at neq ei Suc.prems(1) rest res show ?thesis
        by (simp add: plain_log)
    qed
  next
    case False
    with j have len: "length own = j" by simp
    then have own: "own = take j theirs" using Suc.prems(3) by (simp add: agree_def)
    have "\<not> agree (j + Suc k) own theirs" using len by (simp add: agree_def)
    then have res: "adopt own theirs (j + Suc k) = take (j + Suc k) theirs" by (rule adopt_differs)
    have "place (plain own) e = plain (take (Suc j) theirs)"
      using Suc.prems(1) len ei own j
      by (simp add: place_def plain_log e_def take_Suc_conv_app_nth)
    with slice False ei Suc.prems(1) rest res len show ?thesis by (simp add: plain_log)
  qed
qed

text \<open>The state an append leaves before it answers.\<close>

lemma follow_same:
  assumes "node_sim b ms p n s" "t \<le> aterm s p"
  shows "node_sim b ms p (become_follower n t l) s"
  using assms node_simD(4) [OF assms(1)]
  by (simp add: become_follower_def unseen) (simp add: node_sim_def)

lemma heard_sim:
  assumes sim: "node_sim b ms p n s" and t: "m_term m = aterm s p"
  obtains n3 where "node_sim b ms p n3 s" "role n3 = FOLLOWER"
    "\<And>pi pt es lc rid. on_append n m pi pt es lc rid =
       rbind (matches (log n3) pi pt) (\<lambda>ok.
         if \<not> ok then conflict n3 m pi rid
         else rbind (take_entries (log n3) es) (\<lambda>l.
           let n4 = n3\<lparr>log := l\<rparr> in
           rbind (if lc > commit_index n4
                  then apply_ready (n4\<lparr>commit_index := min lc (last_index (log n4))\<rparr>)
                  else Inr n4) (\<lambda>n5.
           reply n5 m (Appended True (append_last_index pi es) NO_TERM NO_INDEX rid))))"
proof -
  define n1 where "n1 = n\<lparr>leader := Some (sender m)\<rparr>"
  define n2 where "n2 = (if role n1 \<noteq> FOLLOWER
    then (become_follower n1 (m_term m) (Some (sender m)))\<lparr>leader := Some (sender m)\<rparr> else n1)"
  define n3 where "n3 = reset_election_timer n2"
  have sim1: "node_sim b ms p n1 s" using sim by (simp add: n1_def unseen)
  have "node_sim b ms p n2 s"
    using sim1 follow_same [OF sim1] t by (simp add: n2_def unseen)
  moreover have "role n2 = FOLLOWER" by (simp add: n2_def become_follower_def unseen)
  ultimately have "node_sim b ms p n3 s" "role n3 = FOLLOWER" by (simp_all add: n3_def unseen)
  then show thesis
    by (rule that)
      (simp only: on_append_def n1_def [symmetric] n2_def [symmetric] n3_def [symmetric] Let_def)
qed

lemma on_append_sim:
  assumes inv: "inv ms s" and sim: "node_sim b ms p n s" and p: "p \<in> set ms"
    and m: "msg_ok b ms s m" "recipient m = p" and bd: "body m = Append pi pt es lc rid"
    and t: "m_term m = aterm s p" and tight: "b \<longrightarrow> snug m"
  shows "refines b ms p s (on_append n m pi pt es lc rid)"
proof -
  let ?c = "sender m" and ?t = "aterm s p" and ?own = "alog s p"
  let ?theirs = "llog s ?t" and ?q = "pi + length es"
  have c: "?c \<in> set ms" "?c \<noteq> p" "1 \<le> ?t" using m node_simD [OF sim] by (auto simp: msg_ok_def)
  have M: "lead s ?t = Some ?c" "?q \<le> length ?theirs" "pt = term_of ?theirs pi"
    "b \<Longrightarrow> covered s ?t ?theirs lc"
    using m(1) bd t by (simp_all add: msg_ok_def)
  have slice: "es = take (length es) (drop pi ?theirs)" using m(1) bd t by (simp add: msg_ok_def)
  obtain n3 where sim3: "node_sim b ms p n3 s" and role3: "role n3 = FOLLOWER"
    and eq: "on_append n m pi pt es lc rid =
       rbind (matches (log n3) pi pt) (\<lambda>ok.
         if \<not> ok then conflict n3 m pi rid
         else rbind (take_entries (log n3) es) (\<lambda>l.
           let n4 = n3\<lparr>log := l\<rparr> in
           rbind (if lc > commit_index n4
                  then apply_ready (n4\<lparr>commit_index := min lc (last_index (log n4))\<rparr>)
                  else Inr n4) (\<lambda>n5.
           reply n5 m (Appended True (append_last_index pi es) NO_TERM NO_INDEX rid))))"
    by (rule heard_sim [OF sim t]) blast
  have log3: "log n3 = plain ?own" by (rule node_simD(6) [OF sim3])
  note ix = inv_log(1) [OF inv, of p] inv_log(5) [OF inv, of ?t]
  note gd = inv_log(3) [OF inv, of p] inv_log(6) [OF inv, of ?t]
  have matching: "agree i ?own ?theirs"
    if "1 \<le> i" "i \<le> length ?own" "i \<le> length ?theirs" "term_of ?own i = term_of ?theirs i" for i
    using that by (rule majorities.log_matching [OF inv gd])
  show ?thesis
  proof (cases "pi = 0 \<or> pi \<le> length ?own \<and> term_of ?own pi = pt")
    case False
    then have "matches (log n3) pi pt = Inr False" using matches_plain [OF ix(1)] log3 by auto
    with conflict_sim [OF inv sim3 p m] show ?thesis unfolding eq by simp
  next
    case True
    then have ok: "matches (log n3) pi pt = Inr True" using matches_plain [OF ix(1)] log3 by auto
    have "agree pi ?own ?theirs"
      using True M(2,3) matching [of pi] by (cases "pi = 0") auto
    then have "take_entries (plain ?own) (take (length es) (drop pi ?theirs)) =
        Inr (plain (adopt ?own ?theirs ?q))"
      using take_entries_plain [OF ix _ M(2)] matching by blast
    then have taken: "take_entries (log n3) es = Inr (plain (adopt ?own ?theirs ?q))"
      using log3 slice by simp
    define l where "l = adopt ?own ?theirs ?q"
    let ?s = "s\<lparr>alog := (alog s)(p := l), ack := (ack s)(?t := (ack s ?t)(p := max (ack s ?t p) ?q))\<rparr>"
    define n4 where "n4 = n3\<lparr>log := plain l\<rparr>"
    have runs: "run ms p s ?s"
      unfolding l_def by (rule run_one [OF pstep.accept]) (use M in \<open>auto simp: frame_def\<close>)
    have inv': "inv ms ?s" using run_inv [OF runs inv] .
    have kept: "agree (acommit s p) l ?own"
      unfolding l_def using majorities.adopt_keeps_commit [OF inv refl M(1)] .
    have sim4: "node_sim b ms p n4 ?s"
      using sim3 role3 kept unfolding n4_def node_sim_def by (simp add: agree_def)
    have upto: "agree ?q l ?theirs" unfolding l_def using adopt_agree [OF M(2)] .
    have ixl: "indexed l" using inv_log(1) [OF inv', of p] by simp
    have len: "?q \<le> length l" using agree_length(1) [OF upto] .
    have "refines_node b ms p ?s n4 (if lc > commit_index n4
        then apply_ready (n4\<lparr>commit_index := min lc (last_index (log n4))\<rparr>) else Inr n4)"
    proof (cases "lc > commit_index n4")
      case False
      then show ?thesis using sim4 unfolding refines_node_def by (auto intro: run_refl)
    next
      case True
      have "b \<longrightarrow> covered ?s (aterm ?s p) (alog ?s p) (min lc (last_index (log n4))) \<and>
          min lc (last_index (log n4)) \<le> length (alog ?s p) \<and>
          commit_index n4 \<le> min lc (last_index (log n4))"
      proof
        assume b
        then have "lc \<le> ?q" using tight bd by simp
        then have "agree lc l ?theirs" "lc \<le> length l" using upto len agree_mono by auto
        moreover have "covered ?s ?t ?theirs lc" using M(4) [OF \<open>b\<close>] by (simp add: covered_def)
        ultimately have "covered ?s ?t l lc" using covered_agrees by blast
        moreover have "min lc (last_index (log n4)) = lc"
          using \<open>lc \<le> length l\<close> ixl by (simp add: n4_def plain_log)
        ultimately show "covered ?s (aterm ?s p) (alog ?s p) (min lc (last_index (log n4))) \<and>
          min lc (last_index (log n4)) \<le> length (alog ?s p) \<and>
          commit_index n4 \<le> min lc (last_index (log n4))"
          using True \<open>lc \<le> length l\<close> by simp
      qed
      then have "refines_node b ms p ?s n4
          (apply_ready (n4\<lparr>commit_index := min lc (last_index (log n4))\<rparr>))"
        by (rule learn_sim [OF inv' sim4])
      with True show ?thesis by simp
    qed
    then obtain n5 s5 where n5: "(if lc > commit_index n4
        then apply_ready (n4\<lparr>commit_index := min lc (last_index (log n4))\<rparr>) else Inr n4) = Inr n5"
      and r5: "run ms p ?s s5" and sim5: "node_sim b ms p n5 s5"
      and same: "aterm s5 = aterm ?s" "ack s5 = ack ?s"
      unfolding refines_node_def by blast
    have "in_place pi es" using indexed_slice [OF ix(2)] slice by metis
    then have li: "append_last_index pi es = ?q" by (rule append_last_index_indexed)
    have "msg_ok b ms s5 m"
      using msg_ok_ahead [OF m(1) run_ahead [OF run_trans [OF runs r5] inv]] by simp
    then have "refines b ms p s5 (reply n5 m (Appended True ?q NO_TERM NO_INDEX rid))"
      using reply_sim [OF sim5 _ m(2) p, of "Appended True ?q NO_TERM NO_INDEX rid"] c p same
      by (simp add: msg_ok_def)
    moreover have "on_append n m pi pt es lc rid = reply n5 m (Appended True ?q NO_TERM NO_INDEX rid)"
      unfolding eq ok taken l_def [symmetric] Let_def rbind.simps n4_def [symmetric] n5 li by simp
    ultimately show ?thesis using refines_run [OF run_trans [OF runs r5]] by simp
  qed
qed

section \<open>Answers to an append\<close>

lemma find_term_plain: "indexed es \<Longrightarrow> i \<le> length es \<Longrightarrow> \<exists>r. find_term (plain es) t i = Inr r"
  by (induction i) (auto simp: plain_log)

lemma skip_term_plain:
  assumes "log n = plain es" "indexed es"
  shows "\<exists>i. skip_term n ct ci = Inr i \<and> 1 \<le> i"
proof -
  obtain r where "find_term (plain es) ct (length es) = Inr r"
    using find_term_plain [OF assms(2) order_refl] by auto
  then show ?thesis
    using assms by (cases r) (simp_all add: skip_term_def plain_log)
qed

lemma record_match_sim:
  assumes "node_sim b ms p n s" "i \<le> ack s (aterm s p) q"
  shows "node_sim b ms p (record_match n q i) s"
  using assms unfolding record_match_def Let_def node_sim_def
  by (auto simp: mget_def NO_INDEX_def split: option.splits)

lemma record_match_role: "role (record_match n q i) = role n"
  by (simp add: record_match_def Let_def)

lemma retry_sim:
  assumes inv: "inv ms s" and sim: "node_sim b ms p n s" and p: "p \<in> set ms" and lead: "role n = LEADER"
    and q: "q \<in> set ms" "q \<noteq> p" and i: "1 \<le> i"
  shows "refines b ms p s (let n1 = n\<lparr>next_index := (next_index n)(q \<mapsto> i)\<rparr> in
           rbind (replicate_to n1 (Some q)) (\<lambda>out. Inr (n1, out)))"
proof -
  define n1 where "n1 = n\<lparr>next_index := (next_index n)(q \<mapsto> i)\<rparr>"
  have sim1: "node_sim b ms p n1 s" "role n1 = LEADER"
    using sim lead i unfolding node_sim_def n1_def by auto
  obtain out where out: "replicate_to n1 (Some q) = Inr out" "\<forall>m\<in>set out. msg_ok b ms s m"
    using replicate_sim [OF inv sim1 p, of "Some q"] q by auto
  then have "refines b ms p s (Inr (n1, out))"
    by (intro refinesI [OF refl run_refl sim1(1)]) blast
  then show ?thesis unfolding n1_def [symmetric] Let_def using out(1) by simp
qed

lemma on_appended_sim:
  assumes inv: "inv ms s" and sim: "node_sim b ms p n s" and d: "distinct ms" and p: "p \<in> set ms"
    and m: "msg_ok b ms s m" "recipient m = p" and bd: "body m = Appended ok mi ct ci rid"
    and t: "m_term m = aterm s p"
  shows "refines b ms p s (on_appended n m ok mi ct ci)"
proof (cases "role n = LEADER")
  case False
  with refines_quiet [OF sim] show ?thesis by (simp add: on_appended_def)
next
  case lead: True
  let ?q = "sender m"
  have q: "?q \<in> set ms" "?q \<noteq> p" using m by (auto simp: msg_ok_def)
  show ?thesis
  proof (cases ok)
    case True
    have "mi \<le> ack s (aterm s p) ?q" using m(1) bd t True by (simp add: msg_ok_def)
    then have sim1: "node_sim b ms p (record_match n ?q mi) s" by (rule record_match_sim [OF sim])
    have "refines_node b ms p s (record_match n ?q mi) (advance_commit (record_match n ?q mi))"
      by (rule advance_commit_sim [OF inv sim1 d])
    then obtain n1 s1 where n1: "advance_commit (record_match n ?q mi) = Inr n1" "run ms p s s1"
      "node_sim b ms p n1 s1" "role n1 = LEADER"
      using lead unfolding refines_node_def record_match_role by auto
    then obtain out where out: "replicate_to n1 (Some ?q) = Inr out" "\<forall>m\<in>set out. msg_ok b ms s1 m"
      using replicate_sim [OF run_inv [OF n1(2) inv] n1(3,4) p, of "Some ?q"] q by auto
    have "refines b ms p s (Inr (n1, out))" "refines b ms p s (Inr (n1, []))"
      by (rule refinesI [OF refl n1(2,3)], use out(2) in simp)+
    then show ?thesis using lead True n1(1) out(1) by (simp add: on_appended_def)
  next
    case False
    obtain i where i: "(if ct \<noteq> NO_TERM then skip_term n ct ci
        else Inr (max ci (first_index (log n)))) = Inr i" "1 \<le> i"
      using skip_term_plain [OF node_simD(6) [OF sim] inv_log(1) [OF inv]] node_simD(6) [OF sim]
      by (cases "ct \<noteq> NO_TERM") (auto simp: plain_log)
    have "on_appended n m ok mi ct ci = (let n1 = n\<lparr>next_index := (next_index n)(?q \<mapsto> i)\<rparr> in
           rbind (replicate_to n1 (Some ?q)) (\<lambda>out. Inr (n1, out)))"
      unfolding on_appended_def i(1) using lead False by simp
    with retry_sim [OF inv sim p lead q i(2)] show ?thesis by simp
  qed
qed

section \<open>The whole step\<close>

lemma dispatch_sim:
  assumes inv: "inv ms s" and sim: "node_sim b ms p n s" and d: "distinct ms" and p: "p \<in> set ms"
    and m: "msg_ok b ms s m" "recipient m = p"
    and t: "asks_pre_vote (body m) \<or> m_term m = aterm s p" and tight: "b \<longrightarrow> snug m"
  shows "refines b ms p s (dispatch n m)"
proof (cases "body m")
  case (RequestVote li lt pv)
  with on_request_vote_sim [OF inv sim p m RequestVote] t show ?thesis by (simp add: dispatch_def)
next
  case (Vote g pv)
  with on_vote_sim [OF inv sim d p m Vote] t show ?thesis by (simp add: dispatch_def)
next
  case (Append pi pt es lc rid)
  with on_append_sim [OF inv sim p m Append _ tight] t show ?thesis by (simp add: dispatch_def)
next
  case (Appended ok mi ct ci rid)
  with on_appended_sim [OF inv sim d p m Appended] t show ?thesis by (simp add: dispatch_def)
qed (use m in \<open>simp_all add: msg_ok_def\<close>)

theorem step_sim:
  assumes inv: "inv ms s" and sim: "node_sim b ms p n s" and d: "distinct ms" and p: "p \<in> set ms"
    and m: "msg_ok b ms s m" "recipient m = p" and tight: "b \<longrightarrow> snug m"
  shows "refines b ms p s (step n m)"
proof -
  have ct: "current_term n = aterm s p" by (rule node_simD(4) [OF sim])
  consider "m_term m < aterm s p" | "asks_pre_vote (body m)" | "m_term m = aterm s p"
    | "\<not> asks_pre_vote (body m)" "aterm s p < m_term m"
    by linarith
  then show ?thesis
  proof cases
    case 1
    then show ?thesis using refuse_sim [OF sim m p] ct by (auto simp: step_def)
  next
    case 2
    then show ?thesis
      using refuse_sim [OF sim m p] dispatch_sim [OF inv sim d p m _ tight] by (simp add: step_def)
  next
    case 3
    then show ?thesis
      using dispatch_sim [OF inv sim d p m _ tight] ct by (simp add: step_def)
  next
    case 4
    let ?n = "become_follower n (m_term m) None"
    have "1 \<le> m_term m" using m(1) by (simp add: msg_ok_def)
    then obtain s' where s': "run ms p s s'" "node_sim b ms p ?n s'" "aterm s' p = max (m_term m) (aterm s p)"
      using become_follower_sim [OF inv sim] by blast
    have "msg_ok b ms s' m" using msg_ok_ahead [OF m(1) run_ahead [OF s'(1) inv]] by simp
    then have "refines b ms p s' (dispatch ?n m)"
      using s'(3) 4(2) by (intro dispatch_sim [OF run_inv [OF s'(1) inv] s'(2) d p _ m(2) _ tight]) auto
    with refines_run [OF s'(1)] show ?thesis using 4 ct by (simp add: step_def)
  qed
qed

end
