(* ===== verification/Raft_Net.thy ===== *)
theory Raft_Net
  imports Raft_Rpc
begin

text \<open>
  \<open>src/rsm/net.py\<close>: the simulated network. A message's fate is drawn when it is sent: cut off by a
  partition, lost, or put in flight with the tick it lands on. A float is exactly an integer over
  a power of two, which is how a loss rate is kept. The counters are kept; the float that only
  reports a rate is not.
\<close>

section \<open>State\<close>

record in_flight =
  packet :: message
  sent_at :: nat
  due_at :: nat
  sequence :: nat

definition latency :: "in_flight \<Rightarrow> nat" where
  "latency f = due_at f - sent_at f"

fun dyadic_less :: "dyadic \<Rightarrow> dyadic \<Rightarrow> bool" where
  "dyadic_less (m, k) (n, j) = (m * 2 ^ j < n * 2 ^ k)"

record conditions =
  loss :: dyadic
  min_delay :: nat
  max_delay :: nat

definition BASE_DELAY :: nat where "BASE_DELAY = 1"

definition Conditions :: "dyadic \<Rightarrow> nat \<Rightarrow> nat \<Rightarrow> conditions result" where
  "Conditions l lo hi =
     (if dyadic_less l (0, 0) \<or> dyadic_less (1, 0) l then Inl ConfigError
      else if lo < 1 then Inl ConfigError
      else if hi < lo then Inl ConfigError
      else Inr \<lparr>loss = l, min_delay = lo, max_delay = hi\<rparr>)"

definition default_conditions :: conditions where
  "default_conditions = \<lparr>loss = (0, 0), min_delay = BASE_DELAY, max_delay = BASE_DELAY\<rparr>"

definition jitter :: "conditions \<Rightarrow> nat" where
  "jitter c = max_delay c - min_delay c"

definition reliable :: "conditions \<Rightarrow> bool" where
  "reliable c \<longleftrightarrow> fst (loss c) = 0 \<and> jitter c = 0"

datatype kind = REQUEST_VOTE | VOTE | APPEND_CALL | APPENDED | INSTALL_SNAPSHOT | INSTALLED

fun kind_of :: "payload \<Rightarrow> kind" where
  "kind_of (RequestVote li lt pv) = REQUEST_VOTE"
| "kind_of (Vote g pv) = VOTE"
| "kind_of (Append prev pt es lc rid) = APPEND_CALL"
| "kind_of (Appended ok mi ct ci rid) = APPENDED"
| "kind_of (InstallSnapshot li lt st ms) = INSTALL_SNAPSHOT"
| "kind_of (Installed li) = INSTALLED"

record counts =
  n_sent :: nat
  n_delivered :: nat
  dropped_by_loss :: nat
  dropped_by_partition :: nat
  by_kind :: "kind \<Rightarrow> nat"
  bytes_estimate :: nat

definition no_counts :: counts where
  "no_counts = \<lparr>n_sent = 0, n_delivered = 0, dropped_by_loss = 0, dropped_by_partition = 0,
     by_kind = (\<lambda>k. 0), bytes_estimate = 0\<rparr>"

definition dropped :: "counts \<Rightarrow> nat" where
  "dropped c = dropped_by_loss c + dropped_by_partition c"

definition record_message :: "counts \<Rightarrow> message \<Rightarrow> counts" where
  "record_message c m =
     c\<lparr>by_kind := (by_kind c)(kind_of (body m) := by_kind c (kind_of (body m)) + 1),
       bytes_estimate := bytes_estimate c +
         (64 + (case body m of Append prev pt es lc rid \<Rightarrow> length es | _ \<Rightarrow> 0) * 32)\<rparr>"

record network =
  on_net :: "name list"
  links :: conditions
  net_rng :: draws
  net_now :: nat
  counts :: counts
  flight :: "in_flight list"
  net_sequence :: nat
  sides :: "name set list"
  delivered :: "message list"

section \<open>Operations\<close>

definition Network :: "name list \<Rightarrow> draws \<Rightarrow> conditions option \<Rightarrow> network result" where
  "Network ms g c =
     (if \<not> distinct ms then Inl ConfigError
      else if ms = [] then Inl ConfigError
      else Inr \<lparr>on_net = ms, links = (case c of None \<Rightarrow> default_conditions | Some c \<Rightarrow> c),
        net_rng = g, net_now = 0, counts = no_counts, flight = [], net_sequence = 0, sides = [],
        delivered = []\<rparr>)"

definition net_add :: "network \<Rightarrow> name \<Rightarrow> network result" where
  "net_add net p =
     (if p \<in> set (on_net net) then Inl ConfigError else Inr (net\<lparr>on_net := on_net net @ [p]\<rparr>))"

fun same_side :: "name set list \<Rightarrow> name \<Rightarrow> name \<Rightarrow> bool" where
  "same_side [] s r = False"
| "same_side (side # rest) s r = (if s \<in> side then r \<in> side else same_side rest s r)"

definition reachable :: "network \<Rightarrow> name \<Rightarrow> name \<Rightarrow> bool" where
  "reachable net s r = (if sides net = [] then True else same_side (sides net) s r)"

definition net_partition :: "network \<Rightarrow> name list list \<Rightarrow> network result" where
  "net_partition net ss =
     (let named = concat ss in
      if filter (\<lambda>p. p \<notin> set (on_net net)) named \<noteq> [] then Inl UnknownNode
      else if \<not> distinct named then Inl ConfigError
      else if filter (\<lambda>p. p \<notin> set named) (on_net net) \<noteq> [] then Inl ConfigError
      else Inr (net\<lparr>sides := map set ss\<rparr>))"

definition net_heal :: "network \<Rightarrow> network" where
  "net_heal net = net\<lparr>sides := []\<rparr>"

definition net_send :: "network \<Rightarrow> message \<Rightarrow> (bool \<times> network) result" where
  "net_send net m =
     (if sender m \<notin> set (on_net net) then Inl UnknownNode
      else if recipient m \<notin> set (on_net net) then Inl UnknownNode
      else let c1 = record_message (counts net\<lparr>n_sent := n_sent (counts net) + 1\<rparr>) m;
               net1 = net\<lparr>counts := c1, net_sequence := net_sequence net + 1\<rparr>
           in if \<not> reachable net1 (sender m) (recipient m)
              then Inr (False, net1\<lparr>counts := c1\<lparr>dropped_by_partition := dropped_by_partition c1 + 1\<rparr>\<rparr>)
              else let (x, g) = random_draw (net_rng net1) in
                   if dyadic_less x (loss (links net1))
                   then Inr (False, net1\<lparr>net_rng := g,
                     counts := c1\<lparr>dropped_by_loss := dropped_by_loss c1 + 1\<rparr>\<rparr>)
                   else let (delay, g') = randint (min_delay (links net1)) (max_delay (links net1)) g
                        in Inr (True, net1\<lparr>net_rng := g',
                             flight := flight net1 @ [\<lparr>packet = m, sent_at = net_now net1,
                               due_at = net_now net1 + delay, sequence = net_sequence net1\<rparr>]\<rparr>))"

definition net_tick :: "network \<Rightarrow> message list \<times> network" where
  "net_tick net =
     (let now = net_now net + 1;
          landed = sort_key sequence (filter (\<lambda>f. due_at f \<le> now) (flight net));
          out = map packet landed
      in (out, net\<lparr>net_now := now, flight := filter (\<lambda>f. due_at f > now) (flight net),
                   counts := counts net\<lparr>n_delivered := n_delivered (counts net) + length landed\<rparr>,
                   delivered := delivered net @ out\<rparr>))"

definition quiet :: "network \<Rightarrow> bool" where
  "quiet net \<longleftrightarrow> flight net = []"

section \<open>Conservation\<close>

text \<open>Every message sent is delivered, dropped for a reason, or still on the wire.\<close>

definition conserved :: "network \<Rightarrow> bool" where
  "conserved net \<longleftrightarrow>
     n_sent (counts net) = n_delivered (counts net) + dropped (counts net) + length (flight net) \<and>
     n_delivered (counts net) = length (delivered net)"

text \<open>
  What is in flight was sent no later than now, lands after now, in the order the sequence
  numbers say.
\<close>

definition timely :: "network \<Rightarrow> bool" where
  "timely net \<longleftrightarrow>
     1 \<le> min_delay (links net) \<and> min_delay (links net) \<le> max_delay (links net) \<and>
     sorted (map sequence (flight net)) \<and> distinct (map sequence (flight net)) \<and>
     (\<forall>f\<in>set (flight net). sequence f \<le> net_sequence net \<and> sent_at f \<le> net_now net \<and>
        net_now net < due_at f \<and> latency f \<le> max_delay (links net))"

lemmas count_simps = record_message_def dropped_def no_counts_def

lemma net_send_total:
  "sender m \<in> set (on_net net) \<Longrightarrow> recipient m \<in> set (on_net net) \<Longrightarrow>
   \<exists>ok net'. net_send net m = Inr (ok, net')"
  by (auto simp: net_send_def Let_def split: prod.split)

lemma net_send_keeps:
  assumes "net_send net m = Inr (ok, net')"
  shows "on_net net' = on_net net" "links net' = links net" "sides net' = sides net"
    "net_now net' = net_now net" "delivered net' = delivered net"
    "net_sequence net' = net_sequence net + 1"
  using assms by (auto simp: net_send_def Let_def split: if_splits prod.splits)

lemma net_send_flight:
  assumes "net_send net m = Inr (ok, net')"
  shows "ok = False \<and> flight net' = flight net \<or>
    (\<exists>delay. ok = True \<and> reachable net (sender m) (recipient m) \<and>
       flight net' = flight net @ [\<lparr>packet = m, sent_at = net_now net, due_at = net_now net + delay,
         sequence = net_sequence net + 1\<rparr>] \<and>
       (min_delay (links net) \<le> max_delay (links net) \<longrightarrow>
          min_delay (links net) \<le> delay \<and> delay \<le> max_delay (links net)))"
  using assms randint_bounds [of "min_delay (links net)" "max_delay (links net)"]
  by (auto simp: net_send_def Let_def reachable_def random_draw_def randint_def split: if_splits prod.splits)

lemma net_send_packets:
  "net_send net m = Inr (ok, net') \<Longrightarrow>
   packet ` set (flight net') \<subseteq> insert m (packet ` set (flight net))"
  by (drule net_send_flight) auto

lemma conserved_send: "conserved net \<Longrightarrow> net_send net m = Inr (ok, net') \<Longrightarrow> conserved net'"
  by (auto simp: net_send_def Let_def conserved_def count_simps split: if_splits prod.splits)

lemma timely_send:
  assumes "timely net" "net_send net m = Inr (ok, net')"
  shows "timely net'"
proof -
  from net_send_flight [OF assms(2)] consider "flight net' = flight net"
    | delay where "flight net' = flight net @ [\<lparr>packet = m, sent_at = net_now net,
        due_at = net_now net + delay, sequence = net_sequence net + 1\<rparr>]"
        "min_delay (links net) \<le> delay" "delay \<le> max_delay (links net)"
    using assms(1) unfolding timely_def by blast
  then show ?thesis
  proof cases
    case 1
    with assms(1) net_send_keeps [OF assms(2)] show ?thesis
      unfolding timely_def by (auto intro: le_SucI)
  next
    case 2
    with assms(1) net_send_keeps [OF assms(2)] show ?thesis
      unfolding timely_def by (auto simp: sorted_append latency_def le_SucI Suc_n_not_le_n)
  qed
qed

lemma net_tick_keeps:
  assumes "net_tick net = (out, net')"
  shows "on_net net' = on_net net" "links net' = links net" "sides net' = sides net"
    "net_now net' = net_now net + 1" "delivered net' = delivered net @ out"
    "net_sequence net' = net_sequence net" "flight net' = filter (\<lambda>f. due_at f > net_now net + 1) (flight net)"
    "set out = packet ` {f \<in> set (flight net). due_at f \<le> net_now net + 1}"
  using assms by (auto simp: net_tick_def Let_def)

lemma conserved_tick: "conserved net \<Longrightarrow> net_tick net = (out, net') \<Longrightarrow> conserved net'"
  using sum_length_filter_compl [of "\<lambda>f. due_at f \<le> net_now net + 1" "flight net"]
  by (auto simp: net_tick_def Let_def conserved_def dropped_def not_le)

lemma timely_tick: "timely net \<Longrightarrow> net_tick net = (out, net') \<Longrightarrow> timely net'"
  by (auto simp: net_tick_def Let_def timely_def sorted_filter distinct_map_filter le_SucI)

end
