(* ===== verification/Raft_Cluster.thy ===== *)
theory Raft_Cluster
  imports Raft_Node Raft_Net
begin

text \<open>
  \<open>src/rsm/cluster.py\<close>: the driver. Nodes on one network, advanced a tick at a time: deliver what
  has landed, ask every running node what the new time requires, put the answers on the wire, and
  check the safety properties. Which raw draws a seed gives is the standard library's business:
  \<open>net_seed\<close> and \<open>node_seed\<close> stand for \<open>random.Random(seed)\<close> and
  \<open>random.Random(f"{seed}:{name}")\<close>.

  The dictionary of nodes is only read at members, so it is a function.
\<close>

section \<open>State\<close>

record moment =
  at_tick :: nat
  roles :: "(name \<times> role) list"
  terms :: "(name \<times> nat) list"
  commits :: "(name \<times> nat) list"
  applied_commands :: "(name \<times> pyobj list) list"

definition moment_leaders :: "moment \<Rightarrow> name list" where
  "moment_leaders m = map fst (filter (\<lambda>(p, r). r = LEADER) (roles m))"

fun add_under :: "nat \<Rightarrow> name \<Rightarrow> (nat \<times> name list) list \<Rightarrow> (nat \<times> name list) list" where
  "add_under t p [] = [(t, [p])]"
| "add_under t p ((u, ps) # rest) =
     (if u = t then (u, ps @ [p]) # rest else (u, ps) # add_under t p rest)"

definition leaders_by_term :: "moment \<Rightarrow> (nat \<times> name list) list" where
  "leaders_by_term m =
     fold (\<lambda>p out. add_under (the (map_of (terms m) p)) p out) (moment_leaders m) []"

record cluster =
  cmembers :: "name list"
  seed :: int
  cpre_vote :: bool
  net :: network
  nodes :: "name \<Rightarrow> node"
  cnow :: nat
  down :: "name set"
  check :: bool
  history :: "moment list"
  elections :: nat
  last_leader :: "name option"

definition Cluster ::
  "(int \<Rightarrow> draws) \<Rightarrow> (int \<Rightarrow> name \<Rightarrow> draws) \<Rightarrow>
   nat \<Rightarrow> int \<Rightarrow> conditions option \<Rightarrow> bool \<Rightarrow> bool \<Rightarrow> cluster result" where
  "Cluster net_seed node_seed k sd c chk pv =
     (if k < 1 then Inl ConfigError
      else let ms = map (\<lambda>i. CHR ''n'' # decimal i) [0..<k] in
           rbind (Network ms (net_seed sd) c) (\<lambda>w.
           rbind (rmap (\<lambda>p. Node p ms (node_seed sd p) pv False) ms) (\<lambda>ns.
           Inr \<lparr>cmembers = ms, seed = sd, cpre_vote = pv, net = w,
             nodes = (\<lambda>p. the (map_of (zip ms ns) p)), cnow = 0, down = {}, check = chk,
             history = [], elections = 0, last_leader = None\<rparr>)))"

section \<open>Reading the cluster\<close>

definition up :: "cluster \<Rightarrow> name list" where
  "up c = filter (\<lambda>p. p \<notin> down c) (cmembers c)"

definition cluster_leader :: "cluster \<Rightarrow> node option" where
  "cluster_leader c =
     (let claiming = filter (\<lambda>n. role n = LEADER) (map (nodes c) (up c)) in
      if claiming = [] then None
      else let best = Max (set (map current_term claiming));
               top = filter (\<lambda>n. current_term n = best) claiming
           in if length top = 1 then Some (hd top) else None)"

definition take_moment :: "cluster \<Rightarrow> moment" where
  "take_moment c =
     \<lparr>at_tick = cnow c,
      roles = map (\<lambda>p. (p, role (nodes c p))) (up c),
      terms = map (\<lambda>p. (p, current_term (nodes c p))) (up c),
      commits = map (\<lambda>p. (p, commit_index (nodes c p))) (up c),
      applied_commands = map (\<lambda>p. (p, map command (applied (nodes c p)))) (up c)\<rparr>"

definition committed :: "cluster \<Rightarrow> pyobj list" where
  "committed c = (case cluster_leader c of None \<Rightarrow> []
     | Some n \<Rightarrow> filter (\<lambda>v. v \<noteq> PNone) (map command (applied n)))"

definition committed_count :: "cluster \<Rightarrow> nat" where
  "committed_count c = length (committed c)"

definition shortest :: "cluster \<Rightarrow> nat" where
  "shortest c = (if up c = [] then 0
     else Min (set (map (\<lambda>p. length (applied (nodes c p))) (up c))))"

definition agreed :: "cluster \<Rightarrow> bool" where
  "agreed c \<longleftrightarrow>
     card (set (map (\<lambda>p. map e_index (take (shortest c) (applied (nodes c p)))) (up c))) \<le> 1"

section \<open>The safety checks\<close>

fun check_entries :: "entry list \<Rightarrow> (nat \<Rightarrow> (nat \<times> pyobj) option) \<Rightarrow> (nat \<Rightarrow> (nat \<times> pyobj) option) result" where
  "check_entries [] seen = Inr seen"
| "check_entries (e # es) seen =
     (case seen (e_index e) of
        None \<Rightarrow> check_entries es (seen(e_index e \<mapsto> (e_term e, command e)))
      | Some (t, v) \<Rightarrow> if t = e_term e \<and> \<not> py_eq v (command e) then Inl LogMatching
                      else check_entries es seen)"

text \<open>Python's set of some values: one of each class of equal ones.\<close>

fun py_set :: "pyobj list \<Rightarrow> pyobj list" where
  "py_set [] = []"
| "py_set (v # vs) = v # filter (\<lambda>w. \<not> py_eq v w) (py_set vs)"

definition verify :: "cluster \<Rightarrow> moment \<Rightarrow> unit result" where
  "verify c made =
     (if filter (\<lambda>(t, ps). length ps > 1) (leaders_by_term made) \<noteq> [] then Inl ElectionSafety
      else rbind (rfold (\<lambda>p. check_entries (entries (log (nodes c p)))) (up c) Map.empty) (\<lambda>seen.
           if filter (\<lambda>i. length (py_set (map (\<lambda>p. command (applied (nodes c p) ! i)) (up c))) > 1)
                [0..<shortest c] \<noteq> []
           then Inl StateMachineSafety
           else Inr ()))"

section \<open>Driving it\<close>

definition send1 :: "message \<Rightarrow> cluster \<Rightarrow> cluster result" where
  "send1 m c =
     (if sender m \<in> down c then Inr c
      else rbind (net_send (net c) m) (\<lambda>(ok, w). Inr (c\<lparr>net := w\<rparr>)))"

definition send_all :: "cluster \<Rightarrow> message list \<Rightarrow> cluster result" where
  "send_all c ms = rfold send1 ms c"

definition put_node :: "cluster \<Rightarrow> name \<Rightarrow> node \<Rightarrow> cluster" where
  "put_node c p n = c\<lparr>nodes := (nodes c)(p := n)\<rparr>"

definition deliver :: "message \<Rightarrow> cluster \<Rightarrow> cluster result" where
  "deliver m c =
     (if recipient m \<in> down c then Inr c
      else rbind (step (nodes c (recipient m)) m) (\<lambda>(n, out).
           send_all (put_node c (recipient m) n) out))"

definition time_node :: "name \<Rightarrow> cluster \<Rightarrow> cluster result" where
  "time_node p c =
     rbind (tick (nodes c p) (cnow c)) (\<lambda>(n, out). send_all (put_node c p n) out)"

text \<open>\<open>tick\<close>, up to the check.\<close>

definition advance :: "cluster \<Rightarrow> cluster result" where
  "advance c =
     (let (landed, w) = net_tick (net c);
          c1 = c\<lparr>cnow := cnow c + 1, net := w\<rparr>
      in rbind (rfold deliver landed c1) (\<lambda>c2.
         rbind (rfold time_node (up c2) c2) (\<lambda>c3.
         let c4 = (case cluster_leader c3 of
                     Some n \<Rightarrow> if Some (name n) \<noteq> last_leader c3
                               then c3\<lparr>elections := elections c3 + 1, last_leader := Some (name n)\<rparr>
                               else c3
                   | None \<Rightarrow> c3)
         in Inr (c4\<lparr>history := history c4 @ [take_moment c4]\<rparr>))))"

definition cluster_tick :: "cluster \<Rightarrow> cluster result" where
  "cluster_tick c =
     rbind (advance c) (\<lambda>c'.
       if check c' then rbind (verify c' (take_moment c')) (\<lambda>u. Inr c') else Inr c')"

fun cluster_run :: "nat \<Rightarrow> cluster \<Rightarrow> cluster result" where
  "cluster_run 0 c = Inr c"
| "cluster_run (Suc k) c = rbind (cluster_tick c) (cluster_run k)"

fun settle :: "nat \<Rightarrow> cluster \<Rightarrow> cluster result" where
  "settle 0 c = Inr c"
| "settle (Suc k) c =
     rbind (cluster_tick c) (\<lambda>c'.
       if cluster_leader c' \<noteq> None \<and> quiet (net c') then Inr c' else settle k c')"

definition cluster_propose :: "cluster \<Rightarrow> pyobj \<Rightarrow> (nat \<times> cluster) result" where
  "cluster_propose c v =
     (case cluster_leader c of
        None \<Rightarrow> Inl NoLeader
      | Some f \<Rightarrow>
          rbind (propose f v) (\<lambda>(n, i).
          rbind (replicate_to n None) (\<lambda>out.
          rbind (send_all (put_node c (name f) n) out) (\<lambda>c'. Inr (i, c')))))"

definition crash :: "cluster \<Rightarrow> name \<Rightarrow> cluster result" where
  "crash c p =
     (if p \<notin> set (cmembers c) then Inl UnknownNode else Inr (c\<lparr>down := insert p (down c)\<rparr>))"

definition restart :: "(int \<Rightarrow> name \<Rightarrow> draws) \<Rightarrow> cluster \<Rightarrow> name \<Rightarrow> cluster result" where
  "restart node_seed c p =
     (if p \<notin> down c then Inl ConfigError
      else let old = nodes c p in
           rbind (Node p (cmembers c) (node_seed (seed c + int (cnow c)) p) (cpre_vote c) False) (\<lambda>fresh.
           rbind (Log (entries (log old)) (snapshot_index (log old)) (snapshot_term (log old))) (\<lambda>l.
           Inr ((put_node c p (reset_election_timer
                  (fresh\<lparr>current_term := current_term old, voted_for := voted_for old,
                         log := l, now := cnow c\<rparr>)))\<lparr>down := down c - {p}\<rparr>))))"

definition cluster_partition :: "cluster \<Rightarrow> name list list \<Rightarrow> cluster result" where
  "cluster_partition c ss = rbind (net_partition (net c) ss) (\<lambda>w. Inr (c\<lparr>net := w\<rparr>))"

definition cluster_heal :: "cluster \<Rightarrow> cluster" where
  "cluster_heal c = c\<lparr>net := net_heal (net c)\<rparr>"

text \<open>What a scenario does to a cluster: any sequence of these calls.\<close>

datatype event = Tick | Propose pyobj | Crash name | Restart name | Partition "name list list" | Heal

fun perform :: "(int \<Rightarrow> name \<Rightarrow> draws) \<Rightarrow> cluster \<Rightarrow> event \<Rightarrow> cluster result" where
  "perform node_seed c Tick = cluster_tick c"
| "perform node_seed c (Propose v) = rbind (cluster_propose c v) (\<lambda>(i, c'). Inr c')"
| "perform node_seed c (Crash p) = crash c p"
| "perform node_seed c (Restart p) = restart node_seed c p"
| "perform node_seed c (Partition ss) = cluster_partition c ss"
| "perform node_seed c Heal = Inr (cluster_heal c)"

definition scenario :: "(int \<Rightarrow> name \<Rightarrow> draws) \<Rightarrow> event list \<Rightarrow> cluster \<Rightarrow> cluster result" where
  "scenario node_seed evs = rfold (\<lambda>ev c. perform node_seed c ev) evs"

end
