(* ===== verification/Cluster_Safety.thy ===== *)
theory Cluster_Safety
  imports Node_Handlers Raft_Cluster
begin

text \<open>
  Every state a cluster reaches stands for a reachable state of the protocol, so the safety
  argument made there holds for \<open>src/rsm/cluster.py\<close> driving \<open>src/rsm/node.py\<close> over
  \<open>src/rsm/net.py\<close>: whatever is lost, delayed, cut off, crashed and restarted.
\<close>

section \<open>The invariant of a cluster\<close>

text \<open>
  \<open>M\<close> holds messages taken off the network and not handled yet.
\<close>

definition cluster_ok ::
  "bool \<Rightarrow> name list \<Rightarrow> message set \<Rightarrow> cluster \<Rightarrow> name protocol \<Rightarrow> bool" where
  "cluster_ok b ms M c s \<longleftrightarrow>
     cmembers c = ms \<and> distinct ms \<and> on_net (net c) = ms \<and> inv ms s \<and>
     (\<forall>p\<in>set ms. node_sim b ms p (nodes c p) s) \<and>
     (\<forall>m \<in> M \<union> packet ` set (flight (net c)). msg_ok b ms s m)"

definition tight :: "cluster \<Rightarrow> bool" where
  "tight c \<longleftrightarrow> (\<forall>m\<in>set (delivered (net c)). snug m)"

text \<open>What handling a message or a timer leaves alone.\<close>

definition beside :: "cluster \<Rightarrow> cluster \<Rightarrow> bool" where
  "beside c c' \<longleftrightarrow> delivered (net c') = delivered (net c) \<and> down c' = down c \<and>
     cmembers c' = cmembers c \<and> cnow c' = cnow c \<and> check c' = check c"

lemma beside_refl: "beside c c"
  by (simp add: beside_def)

lemma beside_trans: "beside c c' \<Longrightarrow> beside c' c'' \<Longrightarrow> beside c c''"
  by (simp add: beside_def)

lemma send1_ok:
  assumes "cluster_ok b ms M c s" "msg_ok b ms s m"
  shows "\<exists>c'. send1 m c = Inr c' \<and> cluster_ok b ms M c' s \<and> beside c c'"
proof (cases "sender m \<in> down c")
  case True
  with assms show ?thesis by (simp add: send1_def beside_refl)
next
  case False
  have "sender m \<in> set (on_net (net c))" "recipient m \<in> set (on_net (net c))"
    using assms by (simp_all add: cluster_ok_def msg_ok_def)
  then obtain ok w where w: "net_send (net c) m = Inr (ok, w)" using net_send_total by blast
  have "cluster_ok b ms M (c\<lparr>net := w\<rparr>) s"
    using assms net_send_packets [OF w] net_send_keeps [OF w] unfolding cluster_ok_def by auto
  moreover have "beside c (c\<lparr>net := w\<rparr>)"
    using net_send_keeps [OF w] by (simp add: beside_def)
  ultimately show ?thesis using False w by (simp add: send1_def)
qed

lemma send_all_ok:
  assumes "cluster_ok b ms M c s" "\<forall>m\<in>set out. msg_ok b ms s m"
  shows "\<exists>c'. send_all c out = Inr c' \<and> cluster_ok b ms M c' s \<and> beside c c'"
  unfolding send_all_def
proof (rule rfold_total)
  show "cluster_ok b ms M c s \<and> beside c c" using assms(1) beside_refl by blast
  show "\<exists>c'. send1 m d = Inr c' \<and> cluster_ok b ms M c' s \<and> beside c c'"
    if "m \<in> set out" "cluster_ok b ms M d s \<and> beside c d" for m d
    using send1_ok [of b ms M d s m] that assms(2) beside_trans by blast
qed

lemma put_node_ok:
  assumes ok: "cluster_ok b ms M c s" and "run ms p s s'" "node_sim b ms p n s'"
  shows "cluster_ok b ms M (put_node c p n) s'"
proof -
  have inv: "inv ms s" using ok by (simp add: cluster_ok_def)
  have ahead: "ahead s s'" and frame: "frame p s s'"
    using run_ahead [OF assms(2) inv] assms(2) by (simp_all add: run_def)
  have "node_sim b ms q (nodes (put_node c p n) q) s'" if "q \<in> set ms" for q
    using ok that node_sim_frame [OF _ frame ahead] assms(3)
    by (cases "q = p") (auto simp: cluster_ok_def put_node_def)
  moreover have "msg_ok b ms s' m" if "m \<in> M \<union> packet ` set (flight (net (put_node c p n)))" for m
  proof -
    have "msg_ok b ms s m" using ok that by (simp add: cluster_ok_def put_node_def)
    from msg_ok_ahead [OF this ahead] show ?thesis by simp
  qed
  ultimately show ?thesis
    using ok run_inv [OF assms(2) inv] by (simp add: cluster_ok_def put_node_def)
qed

lemma handled_ok:
  assumes "cluster_ok b ms M c s" "refines b ms p s r"
  shows "\<exists>c' s'. rbind r (\<lambda>(n, out). send_all (put_node c p n) out) = Inr c' \<and>
    cluster_ok b ms M c' s' \<and> beside c c'"
proof -
  from assms(2) obtain n out s' where r: "r = Inr (n, out)" "run ms p s s'" "node_sim b ms p n s'"
    "\<forall>m\<in>set out. msg_ok b ms s' m" unfolding refines_def by blast
  have "cluster_ok b ms M (put_node c p n) s'" using put_node_ok [OF assms(1) r(2,3)] .
  with r obtain c' where c': "send_all (put_node c p n) out = Inr c'" "cluster_ok b ms M c' s'"
    "beside (put_node c p n) c'"
    using send_all_ok by blast
  have "beside c c'" using c'(3) by (simp add: beside_def put_node_def)
  with c' r(1) show ?thesis by auto
qed

lemma deliver_ok:
  assumes ok: "cluster_ok b ms M c s" and m: "m \<in> M" and tight: "b \<longrightarrow> snug m"
  shows "\<exists>c' s'. deliver m c = Inr c' \<and> cluster_ok b ms M c' s' \<and> beside c c'"
proof (cases "recipient m \<in> down c")
  case True
  with ok show ?thesis using beside_refl by (auto simp: deliver_def)
next
  case False
  have *: "msg_ok b ms s m" "inv ms s" "distinct ms" using ok m by (simp_all add: cluster_ok_def)
  then have p: "recipient m \<in> set ms" by (simp add: msg_ok_def)
  with ok have sim: "node_sim b ms (recipient m) (nodes c (recipient m)) s" by (simp add: cluster_ok_def)
  show ?thesis
    using handled_ok [OF ok step_sim [OF *(2) sim *(3) p *(1) refl tight]] False
    by (simp add: deliver_def)
qed

lemma time_ok:
  assumes ok: "cluster_ok b ms M c s" and p: "p \<in> set ms"
  shows "\<exists>c' s'. time_node p c = Inr c' \<and> cluster_ok b ms M c' s' \<and> beside c c'"
proof -
  have "refines b ms p s (tick (nodes c p) (cnow c))"
    by (rule tick_sim) (use ok p in \<open>simp_all add: cluster_ok_def\<close>)
  from handled_ok [OF ok this] show ?thesis by (simp add: time_node_def)
qed

lemma cluster_ok_weaken:
  assumes "cluster_ok b ms M c s" "b' \<longrightarrow> b" "N \<subseteq> M"
  shows "cluster_ok b' ms N c s"
proof -
  have "node_sim b' ms p n s" if "node_sim b ms p n s" for p n
    using that assms(2) by (auto simp: node_sim_def)
  moreover have "msg_ok b' ms s m" if "msg_ok b ms s m" for m
    using msg_ok_ahead [OF that ahead_refl assms(2)] .
  ultimately show ?thesis using assms unfolding cluster_ok_def by blast
qed

lemma cluster_ok_same:
  "cluster_ok b ms M c s \<Longrightarrow> cmembers c' = cmembers c \<Longrightarrow> net c' = net c \<Longrightarrow> nodes c' = nodes c \<Longrightarrow>
   cluster_ok b ms M c' s"
  by (simp add: cluster_ok_def)

text \<open>A tick raises nothing before its check.\<close>

lemma advance_ok:
  assumes ok: "cluster_ok (tight c) ms {} c s"
  shows "\<exists>c' s'. advance c = Inr c' \<and> cluster_ok (tight c') ms {} c' s' \<and> down c' = down c"
proof -
  obtain landed w where w: "net_tick (net c) = (landed, w)" by fastforce
  note kept = net_tick_keeps [OF w]
  define c1 where "c1 = c\<lparr>cnow := cnow c + 1, net := w\<rparr>"
  let ?b = "tight c1" and ?M = "set landed"
  have weaker: "?b \<longrightarrow> tight c" and snug: "m \<in> ?M \<Longrightarrow> ?b \<longrightarrow> snug m" for m
    using kept(5) by (auto simp: tight_def c1_def)
  have "cluster_ok (tight c) ms ?M c1 s"
    using ok kept(1,7,8) unfolding cluster_ok_def c1_def by auto
  then have ok1: "cluster_ok ?b ms ?M c1 s" by (rule cluster_ok_weaken [OF _ weaker order_refl])
  let ?P = "\<lambda>d. (\<exists>u. cluster_ok ?b ms ?M d u) \<and> beside c1 d"
  have "\<exists>d. rfold deliver landed c1 = Inr d \<and> ?P d"
  proof (rule rfold_total)
    show "?P c1" using ok1 beside_refl by blast
    show "\<exists>d'. deliver m d = Inr d' \<and> ?P d'" if "m \<in> ?M" "?P d" for m d
      using that(2) deliver_ok [OF _ that(1) snug [OF that(1)]] beside_trans by meson
  qed
  then obtain c2 where c2: "rfold deliver landed c1 = Inr c2" "?P c2" by blast
  have "\<exists>d. rfold time_node (up c2) c2 = Inr d \<and> ?P d"
  proof (rule rfold_total)
    show "?P c2" using c2(2) .
    have "set (up c2) \<subseteq> set ms" using c2(2) by (auto simp: up_def cluster_ok_def)
    then show "\<exists>d'. time_node p d = Inr d' \<and> ?P d'" if "p \<in> set (up c2)" "?P d" for p d
      using that time_ok beside_trans by (meson subsetD)
  qed
  then obtain c3 where c3: "rfold time_node (up c2) c2 = Inr c3" "?P c3" by blast
  define c4 where "c4 = (case cluster_leader c3 of
       Some n \<Rightarrow> if Some (name n) \<noteq> last_leader c3
                 then c3\<lparr>elections := elections c3 + 1, last_leader := Some (name n)\<rparr> else c3
     | None \<Rightarrow> c3)"
  define c5 where "c5 = c4\<lparr>history := history c4 @ [take_moment c4]\<rparr>"
  have same: "cmembers c5 = cmembers c3" "net c5 = net c3" "nodes c5 = nodes c3" "down c5 = down c3"
    by (simp_all add: c5_def c4_def split: option.split)
  have "advance c = Inr c5"
    unfolding advance_def w Let_def prod.case c1_def [symmetric] c2(1) rbind.simps c3(1)
      c4_def [symmetric] c5_def ..
  moreover from c3(2) obtain u where "cluster_ok ?b ms ?M c3 u" "beside c1 c3" by blast
  moreover from this have "tight c5 = ?b" using same by (simp add: tight_def beside_def)
  ultimately show ?thesis
    using cluster_ok_same [OF cluster_ok_weaken [of ?b ms ?M c3 u ?b "{}"] same(1,2,3)] same(4)
    by (intro exI [of _ c5] exI [of _ u]) (simp add: beside_def c1_def)
qed

section \<open>Every operation keeps it\<close>

lemma cluster_names_distinct: "distinct (map (\<lambda>i. CHR ''n'' # decimal i) [0..<k])"
  by (simp add: distinct_map inj_on_def)

lemma rmap_map_of:
  assumes "rmap f xs = Inr ys" "distinct xs" "x \<in> set xs"
  shows "f x = Inr (the (map_of (zip xs ys) x))"
  using assms by (induction xs arbitrary: ys) (auto simp: raises)

lemma pinv_init: "inv ms init_protocol"
  using majorities.pinv_reach preach.start by blast

lemma Node_sim:
  assumes "Node p ms g pv False = Inr n"
  shows "node_sim b ms p n init_protocol"
proof -
  from assms obtain n0 where "n = reset_election_timer n0" "n0 =
    \<lparr>name = p, members = ms, pre_vote = pv, commit_any_term = False,
         current_term = 1, voted_for = None, log = empty_log,
         role = FOLLOWER, leader = None, commit_index = NO_INDEX, last_applied = NO_INDEX,
         next_index = Map.empty, match_index = Map.empty, votes = {}, pre_votes = {},
         now = 0, election_deadline = 0, heartbeat_due = 0, applied = [], state = [],
         rng = g\<rparr>"
    by (auto simp: Node_def split: if_splits)
  then show ?thesis
    by (simp add: unseen) (simp add: node_sim_def init_protocol_def plain_empty NO_INDEX_def replay_def)
qed

lemma Cluster_ok:
  assumes "Cluster net_seed node_seed k sd cs chk pv = Inr c"
  shows "cluster_ok (tight c) (cmembers c) {} c init_protocol" "down c = {}"
proof -
  define ms where "ms = map (\<lambda>i. CHR ''n'' # decimal i) [0..<k]"
  from assms obtain w ns where w: "Network ms (net_seed sd) cs = Inr w"
    and ns: "rmap (\<lambda>p. Node p ms (node_seed sd p) pv False) ms = Inr ns"
    and c: "c = \<lparr>cmembers = ms, seed = sd, cpre_vote = pv, net = w,
             nodes = (\<lambda>p. the (map_of (zip ms ns) p)), cnow = 0, down = {}, check = chk,
             history = [], elections = 0, last_leader = None\<rparr>"
    unfolding Cluster_def ms_def [symmetric] by (auto simp: raises split: if_splits)
  have d: "distinct ms" unfolding ms_def by (rule cluster_names_distinct)
  have "node_sim (tight c) ms p (nodes c p) init_protocol" if "p \<in> set ms" for p
    using Node_sim [OF rmap_map_of [OF ns d that]] c by simp
  moreover have "on_net w = ms" "flight w = []" using w by (auto simp: Network_def split: if_splits)
  ultimately show "cluster_ok (tight c) (cmembers c) {} c init_protocol" "down c = {}"
    using c d pinv_init by (simp_all add: cluster_ok_def)
qed

lemma leader_of_cluster:
  assumes "cluster_leader c = Some n"
  shows "\<exists>p. p \<in> set (up c) \<and> n = nodes c p \<and> role n = LEADER"
proof -
  define claiming where "claiming = filter (\<lambda>n. role n = LEADER) (map (nodes c) (up c))"
  define top where "top = filter (\<lambda>n. current_term n = Max (set (map current_term claiming))) claiming"
  have "length top = 1" "n = hd top"
    using assms unfolding cluster_leader_def Let_def claiming_def [symmetric] top_def [symmetric]
    by (auto split: if_splits)
  then have "n \<in> set top" by (cases top) auto
  then show ?thesis by (auto simp: top_def claiming_def)
qed

lemma cluster_propose_ok:
  assumes ok: "cluster_ok (tight c) ms {} c s"
  shows "cluster_leader c = None \<and> cluster_propose c v = Inl NoLeader \<or>
    (\<exists>i c' s'. cluster_propose c v = Inr (i, c') \<and> cluster_ok (tight c') ms {} c' s' \<and> down c' = down c)"
proof (cases "cluster_leader c")
  case None
  then show ?thesis by (simp add: cluster_propose_def)
next
  case (Some f)
  then obtain p where p: "p \<in> set (up c)" "f = nodes c p" "role f = LEADER"
    using leader_of_cluster by blast
  then have pm: "p \<in> set ms" using ok by (auto simp: up_def cluster_ok_def)
  then have sim: "node_sim (tight c) ms p f s" and inv: "inv ms s" and d: "distinct ms"
    using ok p(2) by (simp_all add: cluster_ok_def)
  obtain n' s' i where n': "propose f v = Inr (n', i)" "run ms p s s'" "node_sim (tight c) ms p n' s'"
    "role n' = LEADER"
    using propose_sim [OF inv sim d p(3), of v] by blast
  obtain out where out: "replicate_to n' None = Inr out" "\<forall>m\<in>set out. msg_ok (tight c) ms s' m"
    using replicate_sim [OF run_inv [OF n'(2) inv] n'(3,4) pm, of None] by auto
  obtain c' where c': "send_all (put_node c p n') out = Inr c'" "cluster_ok (tight c) ms {} c' s'"
    "beside (put_node c p n') c'"
    using send_all_ok [OF put_node_ok [OF ok n'(2,3)] out(2)] by blast
  have "name f = p" by (rule node_simD(1) [OF sim])
  then have "cluster_propose c v = Inr (i, c')"
    using Some n'(1) out(1) c'(1) by (simp add: cluster_propose_def)
  moreover have "tight c' = tight c" "down c' = down c"
    using c'(3) by (simp_all add: tight_def beside_def put_node_def)
  ultimately show ?thesis using c'(2) by auto
qed

lemma Log_plain: "indexed es \<Longrightarrow> sorted (map e_term es) \<Longrightarrow> Log es 0 0 = Inr (plain es)"
  by (simp add: Log_ok log_ok_def indexed_in_place terms_ascend_iff plain_def)

lemma restart_ok:
  assumes ok: "cluster_ok (tight c) ms {} c s" and down: "down c \<subseteq> set ms" and p: "p \<in> down c"
  shows "\<exists>c' s'. restart node_seed c p = Inr c' \<and> cluster_ok (tight c') ms {} c' s' \<and> down c' = down c - {p}"
proof -
  have pm: "p \<in> set ms" using p down by auto
  let ?old = "nodes c p" and ?s = "s\<lparr>acommit := (acommit s)(p := 0)\<rparr>"
  have *: "inv ms s" "distinct ms" "cmembers c = ms" "node_sim (tight c) ms p ?old s"
    using ok pm by (simp_all add: cluster_ok_def)
  obtain fresh where fresh: "Node p ms (node_seed (seed c + int (cnow c)) p) (cpre_vote c) False = Inr fresh"
    using pm *(2) by (simp add: Node_def)
  have log: "Log (entries (log ?old)) (snapshot_index (log ?old)) (snapshot_term (log ?old)) =
      Inr (plain (alog s p))"
    using Log_plain [OF inv_log(1,2) [OF *(1)]] node_simD(6) [OF *(4)] by simp
  define n where "n = reset_election_timer (fresh\<lparr>current_term := current_term ?old,
    voted_for := voted_for ?old, log := plain (alog s p), now := cnow c\<rparr>)"
  define c' where "c' = (put_node c p n)\<lparr>down := down c - {p}\<rparr>"
  have eq: "restart node_seed c p = Inr c'"
    using p fresh log *(3) by (simp add: restart_def n_def c'_def Let_def)
  have runs: "run ms p s ?s"
    by (intro run_one [OF pstep.learn]) (auto simp: covered_def frame_def)
  have "node_sim (tight c) ms p n ?s"
  proof -
    have "role fresh = FOLLOWER" "commit_index fresh = 0" "last_applied fresh = 0" "applied fresh = []"
        "state fresh = []" "name fresh = p" "members fresh = ms" "\<not> commit_any_term fresh"
      using fresh by (auto simp: Node_def unseen NO_INDEX_def split: if_splits)
    then show ?thesis
      using node_simD [OF *(4)] unfolding n_def by (simp add: unseen) (simp add: node_sim_def replay_def)
  qed
  then have "cluster_ok (tight c) ms {} (put_node c p n) ?s" by (rule put_node_ok [OF ok runs])
  moreover have "tight c' = tight c" by (simp add: tight_def c'_def put_node_def)
  ultimately have "cluster_ok (tight c') ms {} c' ?s"
    using cluster_ok_same [of "tight c" ms "{}" "put_node c p n" ?s c'] by (simp add: c'_def)
  with eq show ?thesis unfolding c'_def by auto
qed

lemma cluster_net_ok:
  assumes ok: "cluster_ok (tight c) ms {} c s"
    and w: "on_net w = on_net (net c)" "flight w = flight (net c)" "delivered w = delivered (net c)"
  shows "cluster_ok (tight (c\<lparr>net := w\<rparr>)) ms {} (c\<lparr>net := w\<rparr>) s"
  using ok w by (simp add: cluster_ok_def tight_def)

lemma cluster_partition_ok:
  assumes "cluster_ok (tight c) ms {} c s" "cluster_partition c ss = Inr c'"
  shows "cluster_ok (tight c') ms {} c' s" "down c' = down c"
proof -
  from assms(2) obtain w where "net_partition (net c) ss = Inr w" "c' = c\<lparr>net := w\<rparr>"
    by (auto simp: cluster_partition_def raises)
  moreover from this(1) have "on_net w = on_net (net c)" "flight w = flight (net c)"
    "delivered w = delivered (net c)"
    by (auto simp: net_partition_def Let_def split: if_splits)
  ultimately show "cluster_ok (tight c') ms {} c' s" "down c' = down c"
    using cluster_net_ok [OF assms(1)] by simp_all
qed

lemma cluster_heal_ok:
  assumes "cluster_ok (tight c) ms {} c s"
  shows "cluster_ok (tight (cluster_heal c)) ms {} (cluster_heal c) s"
  unfolding cluster_heal_def by (rule cluster_net_ok [OF assms]) (simp_all add: net_heal_def)

section \<open>Reachable clusters\<close>

inductive cluster_reach ::
  "(int \<Rightarrow> draws) \<Rightarrow> (int \<Rightarrow> name \<Rightarrow> draws) \<Rightarrow> cluster \<Rightarrow> bool"
  for net_seed :: "int \<Rightarrow> draws" and node_seed :: "int \<Rightarrow> name \<Rightarrow> draws" where
  made: "Cluster net_seed node_seed k sd cs chk pv = Inr c \<Longrightarrow> cluster_reach net_seed node_seed c"
| performed: "cluster_reach net_seed node_seed c \<Longrightarrow> perform node_seed c ev = Inr c' \<Longrightarrow>
    cluster_reach net_seed node_seed c'"

definition cluster_inv :: "cluster \<Rightarrow> bool" where
  "cluster_inv c \<longleftrightarrow> down c \<subseteq> set (cmembers c) \<and> (\<exists>s. cluster_ok (tight c) (cmembers c) {} c s)"

lemma cluster_invI:
  "cluster_ok (tight c') (cmembers c) {} c' s \<Longrightarrow> down c' \<subseteq> set (cmembers c) \<Longrightarrow> cluster_inv c'"
  unfolding cluster_inv_def by (auto simp: cluster_ok_def)

lemma cluster_inv_step:
  assumes inv: "cluster_inv c" and step: "perform node_seed c ev = Inr c'"
  shows "cluster_inv c'"
proof -
  from inv obtain s where down: "down c \<subseteq> set (cmembers c)" and ok: "cluster_ok (tight c) (cmembers c) {} c s"
    by (auto simp: cluster_inv_def)
  show ?thesis
  proof (cases ev)
    case Tick
    with step obtain u where "advance c = Inr c'"
      by (auto simp: cluster_tick_def raises split: if_splits)
    with advance_ok [OF ok] down show ?thesis by (auto intro: cluster_invI)
  next
    case (Propose v)
    with step obtain i where "cluster_propose c v = Inr (i, c')" by (auto simp: raises)
    with cluster_propose_ok [OF ok, of v] down show ?thesis by (auto intro: cluster_invI)
  next
    case (Crash p)
    with step have "p \<in> set (cmembers c)" "c' = c\<lparr>down := insert p (down c)\<rparr>"
      by (auto simp: crash_def split: if_splits)
    moreover from this(2) have "tight c' = tight c" by (simp add: tight_def)
    ultimately show ?thesis
      using cluster_ok_same [OF ok, of c'] down by (intro cluster_invI [of c' c s]) simp_all
  next
    case (Restart p)
    then have "p \<in> down c" using step by (auto simp: restart_def split: if_splits)
    from restart_ok [OF ok down this, of node_seed] Restart step down show ?thesis
      by (auto intro: cluster_invI)
  next
    case (Partition ss)
    with step have "cluster_partition c ss = Inr c'" by simp
    from cluster_partition_ok [OF ok this] down show ?thesis by (auto intro: cluster_invI)
  next
    case Heal
    with step cluster_heal_ok [OF ok] down show ?thesis
      by (auto intro!: cluster_invI simp: cluster_heal_def)
  qed
qed

lemma cluster_inv_reach: "cluster_reach net_seed node_seed c \<Longrightarrow> cluster_inv c"
proof (induction rule: cluster_reach.induct)
  case (made k sd cs chk pv c)
  from Cluster_ok [OF this] show ?case by (auto simp: cluster_inv_def)
qed (rule cluster_inv_step)

lemma cluster_okD:
  assumes "cluster_ok b ms M c s"
  shows "inv ms s" "p \<in> set ms \<Longrightarrow> node_sim b ms p (nodes c p) s" "distinct ms"
  using assms by (simp_all add: cluster_ok_def)

lemma cluster_invE:
  assumes "cluster_inv c"
  obtains s where "cluster_ok (tight c) (cmembers c) {} c s" "down c \<subseteq> set (cmembers c)"
  using assms unfolding cluster_inv_def cluster_ok_def by blast

section \<open>What the checks see\<close>

lemma add_under_groups:
  assumes "\<forall>(u, ps)\<in>set out. distinct ps \<and> p \<notin> set ps \<and> (\<forall>q\<in>set ps. P u q)" "P t p"
  shows "\<forall>(u, ps)\<in>set (add_under t p out). distinct ps \<and> (\<forall>q\<in>set ps. P u q)"
  using assms by (induction t p out rule: add_under.induct) auto

lemma add_under_names:
  "(u, ps) \<in> set (add_under t p out) \<Longrightarrow> set ps \<subseteq> insert p (\<Union> (set ` snd ` set out))"
  by (induction t p out rule: add_under.induct) (fastforce split: if_splits)+

lemma grouped_leaders:
  assumes "distinct xs" "\<forall>x\<in>set xs. P (f x) x"
    "\<forall>(u, ps)\<in>set out. distinct ps \<and> set ps \<inter> set xs = {} \<and> (\<forall>q\<in>set ps. P u q)"
    "(u, ps) \<in> set (fold (\<lambda>p. add_under (f p) p) xs out)"
  shows "distinct ps \<and> (\<forall>q\<in>set ps. P u q)"
  using assms
proof (induction xs arbitrary: out)
  case Nil
  then show ?case by auto
next
  case (Cons x xs)
  let ?out = "add_under (f x) x out"
  have groups: "\<forall>(u, ps)\<in>set ?out. distinct ps \<and> (\<forall>q\<in>set ps. P u q)"
    by (rule add_under_groups) (use Cons.prems(2,3) in auto)
  have "set ps \<inter> set xs = {}" if "(u, ps) \<in> set ?out" for u ps
    using add_under_names [OF that] Cons.prems(1,3) by fastforce
  with groups have "\<forall>(u, ps)\<in>set ?out. distinct ps \<and> set ps \<inter> set xs = {} \<and> (\<forall>q\<in>set ps. P u q)"
    by fast
  then show ?case using Cons.prems by (intro Cons.IH [of ?out]) auto
qed

lemma map_of_pairs: "p \<in> set ps \<Longrightarrow> map_of (map (\<lambda>p. (p, f p)) ps) p = Some (f p)"
  by (induction ps) auto

lemma leaders_by_term_groups:
  assumes "distinct (cmembers c)" "(t, ps) \<in> set (leaders_by_term (take_moment c))"
  shows "distinct ps \<and> (\<forall>p\<in>set ps. p \<in> set (up c) \<and> role (nodes c p) = LEADER \<and>
    current_term (nodes c p) = t)"
proof (rule grouped_leaders [where out = "[]" and xs = "moment_leaders (take_moment c)"
      and f = "\<lambda>p. the (map_of (terms (take_moment c)) p)" and
      P = "\<lambda>t p. p \<in> set (up c) \<and> role (nodes c p) = LEADER \<and> current_term (nodes c p) = t"])
  have ml: "moment_leaders (take_moment c) = filter (\<lambda>p. role (nodes c p) = LEADER) (up c)"
    by (simp add: moment_leaders_def take_moment_def filter_map o_def)
  have "distinct (up c)" using assms(1) by (simp add: up_def)
  then show "distinct (moment_leaders (take_moment c))" by (simp add: ml)
  show "\<forall>p\<in>set (moment_leaders (take_moment c)). p \<in> set (up c) \<and> role (nodes c p) = LEADER \<and>
      current_term (nodes c p) = the (map_of (terms (take_moment c)) p)"
    unfolding ml by (simp add: take_moment_def map_of_pairs)
qed (use assms(2) in \<open>simp_all add: leaders_by_term_def\<close>)

definition seen_in :: "entry set \<Rightarrow> (nat \<Rightarrow> (nat \<times> pyobj) option) \<Rightarrow> bool" where
  "seen_in E seen \<longleftrightarrow> (\<forall>i t v. seen i = Some (t, v) \<longrightarrow> \<lparr>e_term = t, e_index = i, command = v\<rparr> \<in> E)"

lemma check_entries_ok:
  assumes "\<And>e f. e \<in> E \<Longrightarrow> f \<in> E \<Longrightarrow> e_index e = e_index f \<Longrightarrow> e_term e = e_term f \<Longrightarrow> e = f"
    "set es \<subseteq> E" "seen_in E seen"
  shows "\<exists>seen'. check_entries es seen = Inr seen' \<and> seen_in E seen'"
  using assms(2,3)
proof (induction es seen rule: check_entries.induct)
  case (1 seen)
  then show ?case by simp
next
  case (2 e es seen)
  show ?case
  proof (cases "seen (e_index e)")
    case None
    have "seen_in E (seen(e_index e \<mapsto> (e_term e, command e)))"
      using "2.prems" by (cases e) (auto simp: seen_in_def)
    with "2.IH"(1) [OF None] "2.prems"(1) None show ?thesis by (simp del: fun_upd_apply)
  next
    case (Some tv)
    obtain t v where tv: "tv = (t, v)" by fastforce
    have "v = command e" if "t = e_term e"
      using assms(1) [of "\<lparr>e_term = t, e_index = e_index e, command = v\<rparr>" e] "2.prems" Some tv that
      by (cases e) (auto simp: seen_in_def)
    then have "\<not> (t = e_term e \<and> \<not> py_eq v (command e))" by auto
    with 2 Some tv show ?thesis by auto
  qed
qed

lemma py_set_same: "(\<And>v w. v \<in> set vs \<Longrightarrow> w \<in> set vs \<Longrightarrow> py_eq v w) \<Longrightarrow> length (py_set vs) \<le> 1"
proof (cases vs)
  case (Cons v ws)
  assume *: "\<And>v w. v \<in> set vs \<Longrightarrow> w \<in> set vs \<Longrightarrow> py_eq v w"
  have "set (py_set ws) \<subseteq> set ws" by (induction ws) auto
  with * Cons have "filter (\<lambda>w. \<not> py_eq v w) (py_set ws) = []"
    by (auto simp: filter_empty_conv)
  with Cons show ?thesis by simp
qed simp

lemma verify_ok:
  assumes "distinct (cmembers c)"
    and one: "\<And>p q. p \<in> set (up c) \<Longrightarrow> q \<in> set (up c) \<Longrightarrow> role (nodes c p) = LEADER \<Longrightarrow>
      role (nodes c q) = LEADER \<Longrightarrow> current_term (nodes c p) = current_term (nodes c q) \<Longrightarrow> p = q"
    and same: "\<And>p q e f. p \<in> set (up c) \<Longrightarrow> q \<in> set (up c) \<Longrightarrow> e \<in> set (entries (log (nodes c p))) \<Longrightarrow>
      f \<in> set (entries (log (nodes c q))) \<Longrightarrow> e_index e = e_index f \<Longrightarrow> e_term e = e_term f \<Longrightarrow> e = f"
  shows "verify c (take_moment c) = Inr () \<or> verify c (take_moment c) = Inl StateMachineSafety"
    and "(\<And>i p q. p \<in> set (up c) \<Longrightarrow> q \<in> set (up c) \<Longrightarrow> i < shortest c \<Longrightarrow>
        applied (nodes c p) ! i = applied (nodes c q) ! i) \<Longrightarrow> verify c (take_moment c) = Inr ()"
proof -
  define E where "E = (\<Union>p\<in>set (up c). set (entries (log (nodes c p))))"
  have leaders: "filter (\<lambda>(t, ps). length ps > 1) (leaders_by_term (take_moment c)) = []"
  proof -
    have "\<not> 1 < length ps" if "(t, ps) \<in> set (leaders_by_term (take_moment c))" for t ps
    proof
      assume "1 < length ps"
      then have "ps ! 0 \<in> set ps" "ps ! 1 \<in> set ps" by (auto intro!: nth_mem)
      moreover have "distinct ps" "\<forall>p\<in>set ps. p \<in> set (up c) \<and> role (nodes c p) = LEADER \<and>
          current_term (nodes c p) = t"
        using leaders_by_term_groups [OF assms(1) that] by blast+
      ultimately have "ps ! 0 = ps ! 1" using one by metis
      with \<open>distinct ps\<close> \<open>1 < length ps\<close> show False
        unfolding distinct_conv_nth by (metis less_trans zero_less_one zero_neq_one)
    qed
    then show ?thesis by (auto simp: filter_empty_conv)
  qed
  have "\<exists>seen. rfold (\<lambda>p. check_entries (entries (log (nodes c p)))) (up c) Map.empty = Inr seen \<and> seen_in E seen"
  proof (rule rfold_total)
    show "\<exists>s'. check_entries (entries (log (nodes c p))) s = Inr s' \<and> seen_in E s'"
      if "p \<in> set (up c)" "seen_in E s" for p s
      using check_entries_ok [of E "entries (log (nodes c p))" s] same that
      unfolding E_def by blast
  qed (simp add: seen_in_def)
  then obtain seen where "rfold (\<lambda>p. check_entries (entries (log (nodes c p)))) (up c) Map.empty = Inr seen"
    by blast
  then have eq: "verify c (take_moment c) =
      (if filter (\<lambda>i. length (py_set (map (\<lambda>p. command (applied (nodes c p) ! i)) (up c))) > 1)
          [0..<shortest c] \<noteq> [] then Inl StateMachineSafety else Inr ())"
    by (simp only: verify_def leaders rbind.simps simp_thms if_False)
  then show "verify c (take_moment c) = Inr () \<or> verify c (take_moment c) = Inl StateMachineSafety"
    by (simp split: if_split)
  assume agree: "\<And>i p q. p \<in> set (up c) \<Longrightarrow> q \<in> set (up c) \<Longrightarrow> i < shortest c \<Longrightarrow>
        applied (nodes c p) ! i = applied (nodes c q) ! i"
  have "length (py_set (map (\<lambda>p. command (applied (nodes c p) ! i)) (up c))) \<le> 1" if "i < shortest c" for i
  proof (rule py_set_same)
    fix v w assume v: "v \<in> set (map (\<lambda>p. command (applied (nodes c p) ! i)) (up c))"
      and w: "w \<in> set (map (\<lambda>p. command (applied (nodes c p) ! i)) (up c))"
    from v w obtain p q where pq: "p \<in> set (up c)" "v = command (applied (nodes c p) ! i)"
      "q \<in> set (up c)" "w = command (applied (nodes c q) ! i)" by auto
    have "applied (nodes c p) ! i = applied (nodes c q) ! i" by (rule agree [OF pq(1,3) that])
    then show "py_eq v w" unfolding pq(2,4) by simp
  qed
  then have "\<not> filter (\<lambda>i. length (py_set (map (\<lambda>p. command (applied (nodes c p) ! i)) (up c))) > 1)
      [0..<shortest c] \<noteq> []"
    by (simp add: filter_empty_conv not_less)
  then show "verify c (take_moment c) = Inr ()" unfolding eq by (rule if_not_P)
qed

section \<open>Safety of every reachable cluster\<close>

lemma one_leader:
  assumes "cluster_inv c" "p \<in> set (cmembers c)" "q \<in> set (cmembers c)"
    "role (nodes c p) = LEADER" "role (nodes c q) = LEADER"
    "current_term (nodes c p) = current_term (nodes c q)"
  shows "p = q"
proof -
  from assms(1) obtain s where ok: "cluster_ok (tight c) (cmembers c) {} c s"
    by (rule cluster_invE)
  note sim = cluster_okD(2) [OF ok]
  have "aterm s p = aterm s q"
    using node_simD(4) [OF sim [OF assms(2)]] node_simD(4) [OF sim [OF assms(3)]] assms(6) by simp
  moreover have "lead s (aterm s p) = Some p" by (rule node_sim_leaderD(1) [OF sim [OF assms(2)] assms(4)])
  moreover have "lead s (aterm s q) = Some q" by (rule node_sim_leaderD(1) [OF sim [OF assms(3)] assms(5)])
  ultimately show ?thesis by (metis option.inject)
qed

lemma reached_log:
  assumes "cluster_inv c" "p \<in> set (cmembers c)"
  obtains es where "log (nodes c p) = plain es" "indexed es"
proof -
  from assms(1) obtain s where ok: "cluster_ok (tight c) (cmembers c) {} c s"
    by (rule cluster_invE)
  show thesis
    using that node_simD(6) [OF cluster_okD(2) [OF ok assms(2)]] inv_log(1) [OF cluster_okD(1) [OF ok]]
    by blast
qed

lemma logs_match:
  assumes "cluster_inv c" "p \<in> set (cmembers c)" "q \<in> set (cmembers c)"
    "e \<in> set (entries (log (nodes c p)))" "f \<in> set (entries (log (nodes c q)))"
    "e_index e = e_index f" "e_term e = e_term f"
  shows "agree (e_index e) (entries (log (nodes c p))) (entries (log (nodes c q)))" "e = f"
proof -
  from assms(1) obtain s where ok: "cluster_ok (tight c) (cmembers c) {} c s"
    by (rule cluster_invE)
  note inv = cluster_okD(1) [OF ok]
  note sim = cluster_okD(2) [OF ok]
  have logs: "entries (log (nodes c p)) = alog s p" "entries (log (nodes c q)) = alog s q"
    using node_simD(6) [OF sim] assms(2,3) by simp_all
  obtain i j where i: "i < length (alog s p)" "e = alog s p ! i"
    and j: "j < length (alog s q)" "f = alog s q ! j"
    using assms(4,5) unfolding logs in_set_conv_nth by blast
  have ix: "e_index e = Suc i" "e_index f = Suc j"
    using inv_log(1) [OF inv, of p] inv_log(1) [OF inv, of q] i j by (simp_all add: indexed_def)
  with assms(6) have ij: "i = j" by simp
  have "agree (Suc i) (alog s p) (alog s q)"
    using i j ij assms(7)
    by (intro majorities.log_matching [OF inv inv_log(3) [OF inv] inv_log(3) [OF inv]])
      (auto simp: term_of_def)
  then show "agree (e_index e) (entries (log (nodes c p))) (entries (log (nodes c q)))" "e = f"
    unfolding logs using ix i j ij agree_nth [of "Suc i" "alog s p" "alog s q" i] by simp_all
qed

lemma applied_prefix:
  assumes "cluster_inv c" "tight c" "p \<in> set (cmembers c)"
  shows "applied (nodes c p) = take (commit_index (nodes c p)) (entries (log (nodes c p)))"
    "last_applied (nodes c p) = commit_index (nodes c p)"
    "length (applied (nodes c p)) = commit_index (nodes c p)"
    "state (nodes c p) = replay (applied (nodes c p))"
proof -
  from assms(1) obtain s where ok: "cluster_ok (tight c) (cmembers c) {} c s"
    by (rule cluster_invE)
  note * = cluster_okD(2) [OF ok]
  have "node_sim True (cmembers c) p (nodes c p) s" using * [OF assms(3)] assms(2) by simp
  then show "applied (nodes c p) = take (commit_index (nodes c p)) (entries (log (nodes c p)))"
    "last_applied (nodes c p) = commit_index (nodes c p)"
    "length (applied (nodes c p)) = commit_index (nodes c p)"
    "state (nodes c p) = replay (applied (nodes c p))"
    by (simp_all add: node_sim_def)
qed

lemma applied_agree:
  assumes "cluster_inv c" "tight c" "p \<in> set (cmembers c)" "q \<in> set (cmembers c)"
  shows "agree (min (length (applied (nodes c p))) (length (applied (nodes c q))))
    (applied (nodes c p)) (applied (nodes c q))"
proof -
  from assms(1) obtain s where ok: "cluster_ok (tight c) (cmembers c) {} c s"
    by (rule cluster_invE)
  note inv = cluster_okD(1) [OF ok]
  note * = cluster_okD(2) [OF ok]
  have sim: "node_sim True (cmembers c) p (nodes c p) s" if "p \<in> set (cmembers c)" for p
    using * [OF that] assms(2) by simp
  have "covered s (aterm s r) (alog s r) (acommit s r)" for r
    using inv unfolding pinv_def learnt_ok_def by blast
  then have "agree (min (acommit s p) (acommit s q)) (alog s p) (alog s q)"
    using majorities.covered_agree [OF inv] by blast
  moreover have "applied (nodes c r) = take (acommit s r) (alog s r)" "acommit s r \<le> length (alog s r)"
    if "r \<in> set (cmembers c)" for r
    using sim [OF that] by (simp_all add: node_sim_def)
  ultimately show ?thesis
    using agree_mono [of "min (acommit s p) (acommit s q)" "alog s p" "alog s q"] assms(3,4)
    by (simp add: agree_def min.absorb2)
qed

text \<open>
  Everything a tick does before its check succeeds, and the check finds nothing wrong with
  leaders or logs; it finds nothing wrong at all as long as every append delivered was tight.
\<close>

lemma verify_verdict:
  assumes inv: "cluster_inv c"
  shows "verify c (take_moment c) = Inr () \<or>
    \<not> tight c \<and> verify c (take_moment c) = Inl StateMachineSafety"
proof -
  have d: "distinct (cmembers c)" using inv by (auto elim: cluster_invE dest: cluster_okD(3))
  have sub: "p \<in> set (up c) \<Longrightarrow> p \<in> set (cmembers c)" for p by (simp add: up_def)
  have *: "verify c (take_moment c) = Inr () \<or> verify c (take_moment c) = Inl StateMachineSafety"
    by (rule verify_ok(1) [OF d])
      (use one_leader [OF inv] logs_match(2) [OF inv] sub in blast)+
  have "verify c (take_moment c) = Inr ()" if "tight c"
  proof (rule verify_ok(2) [OF d])
    fix i p q assume "p \<in> set (up c)" "q \<in> set (up c)" "i < shortest c"
    moreover from this have "i < length (applied (nodes c p))" "i < length (applied (nodes c q))"
      by (auto simp: shortest_def split: if_splits)
    ultimately show "applied (nodes c p) ! i = applied (nodes c q) ! i"
      using agree_nth [OF applied_agree [OF inv that]] sub by simp
  qed (use one_leader [OF inv] logs_match(2) [OF inv] sub in blast)+
  with * show ?thesis by blast
qed

lemma tick_verdict:
  assumes "cluster_inv c"
  shows "\<exists>c'. advance c = Inr c' \<and> cluster_inv c' \<and>
    (verify c' (take_moment c') = Inr () \<or>
     \<not> tight c' \<and> verify c' (take_moment c') = Inl StateMachineSafety)"
proof -
  from assms obtain s where ok: "cluster_ok (tight c) (cmembers c) {} c s"
    and down: "down c \<subseteq> set (cmembers c)"
    by (rule cluster_invE)
  obtain c' s' where c': "advance c = Inr c'" "cluster_ok (tight c') (cmembers c) {} c' s'" "down c' = down c"
    using advance_ok [OF ok] by blast
  then have "cluster_inv c'" using cluster_invI [OF c'(2)] down by simp
  with c'(1) verify_verdict show ?thesis by blast
qed

lemma leader_holds_applied:
  assumes "cluster_inv c" "tight c" "p \<in> set (cmembers c)" "q \<in> set (cmembers c)"
    "role (nodes c p) = LEADER" "current_term (nodes c q) \<le> current_term (nodes c p)"
  shows "agree (commit_index (nodes c q)) (entries (log (nodes c p))) (applied (nodes c q))"
proof -
  from assms(1) obtain s where ok: "cluster_ok (tight c) (cmembers c) {} c s"
    by (rule cluster_invE)
  note inv = cluster_okD(1) [OF ok]
  note * = cluster_okD(2) [OF ok]
  have sim: "node_sim True (cmembers c) r (nodes c r) s" if "r \<in> set (cmembers c)" for r
    using * [OF that] assms(2) by simp
  have T: "lead s (aterm s p) = Some p" "alog s p = llog s (aterm s p)"
    using node_sim_leaderD [OF sim [OF assms(3)] assms(5)] by simp_all
  have logs: "entries (log (nodes c p)) = alog s p" using node_simD(6) [OF sim [OF assms(3)]] by simp
  have q: "commit_index (nodes c q) = acommit s q" "applied (nodes c q) = take (acommit s q) (alog s q)"
    "acommit s q \<le> length (alog s q)"
    using sim [OF assms(4)] by (simp_all add: node_sim_def)
  have le: "aterm s q \<le> aterm s p"
    using assms(6) node_simD(4) [OF sim [OF assms(3)]] node_simD(4) [OF sim [OF assms(4)]] by simp
  have "agree (acommit s q) (alog s p) (alog s q)"
  proof (cases "acommit s q = 0")
    case False
    have "covered s (aterm s q) (alog s q) (acommit s q)"
      using inv unfolding pinv_def learnt_ok_def by blast
    with False obtain u i where ui: "(u, i) \<in> com s" "u \<le> aterm s q" "acommit s q \<le> i"
      "agree (acommit s q) (alog s q) (llog s u)" by (auto simp: covered_def)
    have "agree i (llog s (aterm s p)) (llog s u)"
      using T(1) ui le by (intro majorities.com_agree [OF inv ui(1)]) auto
    then show ?thesis using T(2) ui(3,4) by (metis agree_mono agree_sym agree_trans)
  qed simp
  then show ?thesis unfolding logs q using q(3) by (simp add: agree_def)
qed

end
