(* ===== verification/Demo_Run.thy ===== *)
theory Demo_Run
  imports Cluster_Safety
begin

text \<open>
  A run of a cluster of \<open>src/rsm/cluster.py\<close> that the safety properties are applied to: three nodes;
  one is stopped and comes back, \<open>n0\<close> is elected, takes a write and commits it.
\<close>

section \<open>A run\<close>

definition demo_net :: "int \<Rightarrow> draws" where
  "demo_net sd = (\<lambda>i. 0)"

definition demo_node :: "int \<Rightarrow> name \<Rightarrow> draws" where
  "demo_node sd p = (\<lambda>i. if p = ''n0'' then 0 else 7)"

definition demo_events :: "event list" where
  "demo_events = replicate 3 Tick @ [Crash ''n2'', Tick, Restart ''n2''] @ replicate 8 Tick @
     [Propose (PTuple [PStr ''set'', PStr ''a'', PInt 1])] @ replicate 5 Tick"

definition demo :: "cluster result" where
  "demo = rbind (Cluster demo_net demo_node 3 0 None True False) (scenario demo_node demo_events)"

definition demo_view :: "cluster \<Rightarrow> bool" where
  "demo_view c \<longleftrightarrow> cmembers c = [''n0'', ''n1'', ''n2''] \<and> role (nodes c ''n0'') = LEADER \<and>
     current_term (nodes c ''n0'') = 2 \<and> current_term (nodes c ''n1'') = 2 \<and>
     map command (entries (log (nodes c ''n0''))) = [PNone, PTuple [PStr ''set'', PStr ''a'', PInt 1]] \<and>
     map e_index (entries (log (nodes c ''n0''))) = [1, 2] \<and>
     map e_index (entries (log (nodes c ''n1''))) = [1, 2] \<and>
     map e_term (entries (log (nodes c ''n0''))) = [2, 2] \<and>
     map e_term (entries (log (nodes c ''n1''))) = [2, 2] \<and>
     commit_index (nodes c ''n0'') = 2 \<and> commit_index (nodes c ''n1'') = 2 \<and>
     state (nodes c ''n0'') = [(PStr ''a'', PInt 1)] \<and>
     (\<forall>m\<in>set (delivered (net c)). snug m)"

lemma demo_runs: "case demo of Inr c \<Rightarrow> demo_view c | Inl e \<Rightarrow> False"
  by code_simp

lemma scenario_reach:
  "rfold (\<lambda>ev c. perform nd c ev) evs c = Inr c' \<Longrightarrow> cluster_reach ns nd c \<Longrightarrow> cluster_reach ns nd c'"
  by (induction evs arbitrary: c) (auto simp: raises intro: cluster_reach.performed)

lemma demo_reached: "\<exists>c. cluster_reach demo_net demo_node c \<and> demo_view c"
proof -
  obtain c where c: "demo = Inr c" "demo_view c" using demo_runs by (auto split: sum.splits)
  then obtain c0 where "Cluster demo_net demo_node 3 0 None True False = Inr c0"
    "rfold (\<lambda>ev c. perform demo_node c ev) demo_events c0 = Inr c"
    by (auto simp: demo_def scenario_def raises)
  with scenario_reach [OF _ cluster_reach.made] c(2) show ?thesis by blast
qed

lemma demo_tight: "demo_view c \<Longrightarrow> tight c"
  by (simp add: demo_view_def tight_def)

end
