(* ===== verification/Membership.thy ===== *)
theory Membership
  imports Protocol_Safety Raft_Rpc
begin

text \<open>
  \<open>src/rsm/membership.py\<close> and \<open>src/rsm/learner.py\<close>: steady and joint configurations, the search
  for majorities that share nobody, and the roster that keeps nodes which receive the log and do
  not vote. A configuration's quorums are an instance of the quorum interface, so the protocol's
  safety holds for a cluster that decides by it.
\<close>

section \<open>Configurations\<close>

datatype stage = STEADY | JOINT | NEW

record configuration =
  conf_members :: "name list"
  conf_old :: "name list"

definition Configuration :: "name list \<Rightarrow> name list \<Rightarrow> configuration result" where
  "Configuration ms old =
     (if ms = [] then Inl ConfigError
      else if \<not> distinct ms then Inl ConfigError
      else Inr \<lparr>conf_members = ms, conf_old = old\<rparr>)"

definition joint :: "configuration \<Rightarrow> bool" where
  "joint c \<longleftrightarrow> conf_old c \<noteq> []"

definition stage_of :: "configuration \<Rightarrow> stage" where
  "stage_of c = (if joint c then JOINT else STEADY)"

definition voters :: "configuration \<Rightarrow> name list" where
  "voters c = (if \<not> joint c then conf_members c else from_keys (conf_old c @ conf_members c))"

definition conf_quorum :: "configuration \<Rightarrow> name set \<Rightarrow> bool" where
  "conf_quorum c votes =
     (if \<not> joint c then card (votes \<inter> set (conf_members c)) \<ge> length (conf_members c) div 2 + 1
      else let new_side = card (votes \<inter> set (conf_members c)) \<ge> length (conf_members c) div 2 + 1;
               old_side = card (votes \<inter> set (conf_old c)) \<ge> length (conf_old c) div 2 + 1
           in new_side \<and> old_side)"

definition with_member :: "configuration \<Rightarrow> name \<Rightarrow> configuration result" where
  "with_member c p =
     (if p \<in> set (conf_members c) then Inl ConfigError
      else Configuration (conf_members c @ [p]) (conf_members c))"

definition without_member :: "configuration \<Rightarrow> name \<Rightarrow> configuration result" where
  "without_member c p =
     (if p \<notin> set (conf_members c) then Inl ConfigError
      else let remaining = filter (\<lambda>q. q \<noteq> p) (conf_members c) in
           if remaining = [] then Inl ConfigError
           else Configuration remaining (conf_members c))"

definition settled :: "configuration \<Rightarrow> configuration result" where
  "settled c = Configuration (conf_members c) []"

section \<open>Majorities that share nobody\<close>

fun build :: "nat \<Rightarrow> 'a list \<Rightarrow> 'a set \<Rightarrow> 'a set list" where
  "build need ms chosen =
     (if card chosen = need then [chosen]
      else case ms of [] \<Rightarrow> [] | m # rest \<Rightarrow> build need rest (insert m chosen) @ build need rest chosen)"

declare build.simps [simp del]

definition majorities_of :: "'a list \<Rightarrow> 'a set list" where
  "majorities_of ms = build (length ms div 2 + 1) ms {}"

definition disjoint_majorities :: "'a list \<Rightarrow> 'a list \<Rightarrow> ('a set \<times> 'a set) list" where
  "disjoint_majorities old new =
     concat (map (\<lambda>l. map (\<lambda>r. (l, r)) (filter (\<lambda>r. l \<inter> r = {}) (majorities_of new))) (majorities_of old))"

lemma build_sound:
  "V \<in> set (build need ms chosen) \<Longrightarrow> finite chosen \<Longrightarrow>
   chosen \<subseteq> V \<and> V \<subseteq> chosen \<union> set ms \<and> card V = need"
proof (induction ms arbitrary: chosen)
  case Nil
  then show ?case by (subst (asm) build.simps) (auto split: if_splits)
next
  case (Cons m ms)
  from Cons.prems(1) consider "V = chosen" "card chosen = need"
    | "V \<in> set (build need ms (insert m chosen))" | "V \<in> set (build need ms chosen)"
    by (subst (asm) build.simps) (auto split: if_splits)
  then show ?case
  proof cases
    case 2
    with Cons.IH [OF 2] Cons.prems(2) show ?thesis by auto
  next
    case 3
    with Cons.IH [OF 3] Cons.prems(2) show ?thesis by auto
  qed auto
qed

lemma build_complete:
  "distinct ms \<Longrightarrow> finite chosen \<Longrightarrow> set ms \<inter> chosen = {} \<Longrightarrow> chosen \<subseteq> V \<Longrightarrow>
   V \<subseteq> chosen \<union> set ms \<Longrightarrow> card V = need \<Longrightarrow> V \<in> set (build need ms chosen)"
proof (induction ms arbitrary: chosen)
  case Nil
  then have "V = chosen" by auto
  with Nil show ?case by (subst build.simps) simp
next
  case (Cons m ms)
  have fin: "finite V" using Cons.prems(2,5) by (meson List.finite_set finite_UnI finite_subset)
  show ?case
  proof (cases "card chosen = need")
    case True
    then have "V = chosen" using Cons.prems(4,6) fin by (metis card_subset_eq)
    with True show ?thesis by (subst build.simps) simp
  next
    case False
    have "V \<in> set (build need ms (insert m chosen))" if "m \<in> V"
      using Cons.prems that by (intro Cons.IH) auto
    moreover have "V \<in> set (build need ms chosen)" if "m \<notin> V"
      using Cons.prems that by (intro Cons.IH) auto
    ultimately show ?thesis using False by (subst build.simps) auto
  qed
qed

lemma set_majorities_of:
  "distinct ms \<Longrightarrow> set (majorities_of ms) = {V. V \<subseteq> set ms \<and> card V = length ms div 2 + 1}"
proof (intro set_eqI iffI)
  fix V assume "V \<in> set (majorities_of ms)"
  then have "V \<subseteq> {} \<union> set ms \<and> card V = length ms div 2 + 1"
    using build_sound [of V "length ms div 2 + 1" ms "{}"] by (simp add: majorities_of_def)
  then show "V \<in> {V. V \<subseteq> set ms \<and> card V = length ms div 2 + 1}" by simp
next
  fix V assume "distinct ms" "V \<in> {V. V \<subseteq> set ms \<and> card V = length ms div 2 + 1}"
  then show "V \<in> set (majorities_of ms)"
    using build_complete [of ms "{}" V "length ms div 2 + 1"] by (simp add: majorities_of_def)
qed

lemma set_disjoint_majorities:
  "(l, r) \<in> set (disjoint_majorities old new) \<longleftrightarrow>
   l \<in> set (majorities_of old) \<and> r \<in> set (majorities_of new) \<and> l \<inter> r = {}"
  by (auto simp: disjoint_majorities_def)

section \<open>Rosters\<close>

datatype voting_role = VOTER | LEARNER

record roster =
  roster_voters :: "name list"
  learners :: "name list"

definition Roster :: "name list \<Rightarrow> name list \<Rightarrow> roster result" where
  "Roster vs ls =
     (if vs = [] then Inl ConfigError
      else if set vs \<inter> set ls \<noteq> {} then Inl ConfigError
      else if \<not> distinct (vs @ ls) then Inl ConfigError
      else Inr \<lparr>roster_voters = vs, learners = ls\<rparr>)"

definition roster_members :: "roster \<Rightarrow> name list" where
  "roster_members r = roster_voters r @ learners r"

definition roster_quorum :: "roster \<Rightarrow> nat" where
  "roster_quorum r = length (roster_voters r) div 2 + 1"

definition roster_role :: "roster \<Rightarrow> name \<Rightarrow> voting_role result" where
  "roster_role r p =
     (if p \<in> set (roster_voters r) then Inr VOTER
      else if p \<in> set (learners r) then Inr LEARNER
      else Inl ConfigError)"

definition promote :: "roster \<Rightarrow> name \<Rightarrow> roster result" where
  "promote r p =
     (if p \<notin> set (learners r) then Inl ConfigError
      else Roster (roster_voters r @ [p]) (filter (\<lambda>q. q \<noteq> p) (learners r)))"

definition with_learner :: "roster \<Rightarrow> name \<Rightarrow> roster result" where
  "with_learner r p =
     (if p \<in> set (roster_members r) then Inl ConfigError
      else Roster (roster_voters r) (learners r @ [p]))"

section \<open>Quorums of a configuration\<close>

lemma conf_quorum_majority:
  "conf_quorum c = (if joint c then (\<lambda>V. is_majority (conf_members c) V \<and> is_majority (conf_old c) V)
                    else is_majority (conf_members c))"
  by (auto simp: conf_quorum_def is_majority_def Let_def fun_eq_iff)

lemma conf_quorum_new: "conf_quorum c V \<Longrightarrow> is_majority (conf_members c) V"
  by (simp add: conf_quorum_majority split: if_splits)

lemma conf_quorum_old: "conf_quorum c V \<Longrightarrow> joint c \<Longrightarrow> is_majority (conf_old c) V"
  by (simp add: conf_quorum_majority)

lemma conf_quorum_mono: "conf_quorum c A \<Longrightarrow> A \<subseteq> B \<Longrightarrow> conf_quorum c B"
  using majorities_mono unfolding conf_quorum_majority by (auto split: if_splits)

lemma conf_quorum_seen: "conf_quorum c A \<Longrightarrow> is_majority (conf_members c) B \<Longrightarrow> A \<inter> B \<noteq> {}"
  by (rule majorities_meet [OF conf_quorum_new])

lemma conf_quorums_meet: "conf_quorum c A \<Longrightarrow> conf_quorum c B \<Longrightarrow> A \<inter> B \<noteq> {}"
  by (rule conf_quorum_seen [OF _ conf_quorum_new])

interpretation by_configuration: quorum_pair "conf_quorum c" "conf_quorum c"
  by unfold_locales (fact conf_quorums_meet conf_quorum_mono)+

interpretation into_joint: quorum_pair "conf_quorum c" "is_majority (conf_members c)"
  by unfold_locales (fact conf_quorums_meet conf_quorum_seen conf_quorum_mono majorities_mono)+

lemma single_change_overlaps:
  assumes "distinct ms" "p \<notin> set ms" "A \<subseteq> set ms" "card A = length ms div 2 + 1"
    "B \<subseteq> set (ms @ [p])" "card B = length (ms @ [p]) div 2 + 1"
  shows "A \<inter> B \<noteq> {}"
proof
  assume "A \<inter> B = {}"
  have fin: "finite A" "finite B" using assms(3,5) finite_subset by blast+
  have "card A + card B = card (A \<union> B)" using card_Un_disjoint [OF fin \<open>A \<inter> B = {}\<close>] by simp
  also have "\<dots> \<le> card (set (ms @ [p]))" using assms(3,5) by (intro card_mono) auto
  also have "\<dots> = length ms + 1" using assms(1,2) by (simp add: distinct_card)
  finally show False using assms(4,6) by simp
qed

section \<open>Changes\<close>

definition conf_ok :: "configuration \<Rightarrow> bool" where
  "conf_ok c \<longleftrightarrow> conf_members c \<noteq> [] \<and> distinct (conf_members c)"

definition roster_ok :: "roster \<Rightarrow> bool" where
  "roster_ok r \<longleftrightarrow> roster_voters r \<noteq> [] \<and> distinct (roster_voters r @ learners r)"

lemma with_member_ok:
  assumes "conf_ok c" "p \<notin> set (conf_members c)"
  shows "\<exists>d. with_member c p = Inr d \<and> conf_ok d \<and> joint d \<and> conf_old d = conf_members c \<and>
    set (voters d) = insert p (set (conf_members c))"
  using assms by (auto simp: with_member_def Configuration_def conf_ok_def joint_def voters_def set_from_keys)

lemma without_member_ok:
  assumes "conf_ok c" "p \<in> set (conf_members c)" "conf_members c \<noteq> [p]"
  shows "\<exists>d. without_member c p = Inr d \<and> conf_ok d \<and> joint d \<and>
    set (conf_members d) = set (conf_members c) - {p} \<and> set (voters d) = set (conf_members c)"
proof -
  have "filter (\<lambda>q. q \<noteq> p) (conf_members c) \<noteq> []"
  proof
    assume "filter (\<lambda>q. q \<noteq> p) (conf_members c) = []"
    then have "\<forall>q\<in>set (conf_members c). \<not> q \<noteq> p" unfolding filter_empty_conv .
    then have "set (conf_members c) = {p}" using assms(2) by blast
    moreover have "length (conf_members c) = card (set (conf_members c))"
      using assms(1) by (simp add: conf_ok_def distinct_card)
    ultimately have "length (conf_members c) = 1" by simp
    then obtain x where x: "conf_members c = [x]" by (auto simp: length_Suc_conv)
    then have "x = p" using assms(2) by simp
    with x assms(3) show False by simp
  qed
  then show ?thesis
    using assms by (auto simp: without_member_def Configuration_def conf_ok_def joint_def voters_def set_from_keys)
qed

lemma with_learner_ok:
  assumes "roster_ok r" "q \<notin> set (roster_members r)"
  shows "\<exists>s. with_learner r q = Inr s \<and> roster_ok s \<and> roster_quorum s = roster_quorum r \<and>
    roster_role s q = Inr LEARNER"
  using assms
  by (auto simp: with_learner_def Roster_def roster_ok_def roster_members_def roster_quorum_def roster_role_def)

lemma promote_ok:
  assumes "roster_ok r" "q \<in> set (learners r)"
  shows "\<exists>s. promote r q = Inr s \<and> roster_ok s \<and> roster_role s q = Inr VOTER \<and>
    set (roster_members s) = set (roster_members r) \<and> roster_voters s = roster_voters r @ [q]"
  using assms
  by (auto simp: promote_def Roster_def roster_ok_def roster_members_def roster_role_def)

lemma one_more_voter:
  assumes "distinct (ms @ [p])"
  shows "disjoint_majorities ms (ms @ [p]) = []"
proof -
  have "(l, r) \<notin> set (disjoint_majorities ms (ms @ [p]))" for l r
  proof
    assume "(l, r) \<in> set (disjoint_majorities ms (ms @ [p]))"
    then have "l \<in> set (majorities_of ms)" "r \<in> set (majorities_of (ms @ [p]))" "l \<inter> r = {}"
      unfolding set_disjoint_majorities by blast+
    moreover from this have "l \<inter> r \<noteq> {}"
      using assms set_majorities_of [of ms] set_majorities_of [OF assms]
      by (intro single_change_overlaps [of ms p]) simp_all
    ultimately show False by simp
  qed
  then show ?thesis by (metis list.set_intros(1) neq_Nil_conv surj_pair)
qed

section \<open>Properties\<close>

text \<open>
  C8. Two sets of votes that each satisfy a configuration share a node; in a joint configuration
  such a set also shares a node with every majority of the old membership and with every majority
  of the new one, so no phase of a change lets two sides decide alone.
\<close>

theorem joint_quorums_meet:
  assumes "conf_quorum c A"
  shows "(\<forall>B. conf_quorum c B \<longrightarrow> A \<inter> B \<noteq> {}) \<and>
    (\<forall>V. is_majority (conf_members c) V \<longrightarrow> A \<inter> V \<noteq> {}) \<and>
    (joint c \<longrightarrow> (\<forall>V. is_majority (conf_old c) V \<longrightarrow> A \<inter> V \<noteq> {}))"
  using by_configuration.elects_meet [OF assms] into_joint.commit_seen [OF assms]
    majorities_meet [OF conf_quorum_old [OF assms]] by blast

theorem joint_quorums_meet_witness:
  "joint \<lparr>conf_members = [''a'', ''b'', ''c''], conf_old = [''a'']\<rparr> \<and> {''a'', ''b''} \<inter> {''a'', ''c''} \<noteq> {} \<and>
   {''a'', ''b''} \<inter> {''b'', ''c''} \<noteq> {} \<and> {''a'', ''b''} \<inter> {''a''} \<noteq> {}"
proof -
  let ?c = "\<lparr>conf_members = [''a'', ''b'', ''c''], conf_old = [''a'']\<rparr>"
  have q: "joint ?c" "conf_quorum ?c {''a'', ''b''}" "conf_quorum ?c {''a'', ''c''}"
    "is_majority (conf_members ?c) {''b'', ''c''}" "is_majority (conf_old ?c) {''a''}"
    by (simp_all add: joint_def conf_quorum_def is_majority_def)
  show ?thesis using joint_quorums_meet [OF q(2)] q by blast
qed

text \<open>
  The search lists exactly the pairs of majorities, one from each membership, that share
  nobody, and adding one node to a membership of any size, or taking one away, leaves it nothing
  to list.
\<close>

theorem disjoint_majorities_exact:
  assumes "distinct old" "distinct new"
  shows "(\<forall>l r. (l, r) \<in> set (disjoint_majorities old new) \<longleftrightarrow>
      l \<subseteq> set old \<and> r \<subseteq> set new \<and> card l = length old div 2 + 1 \<and>
      card r = length new div 2 + 1 \<and> l \<inter> r = {}) \<and>
    ((\<exists>p. new = old @ [p]) \<longrightarrow> disjoint_majorities old new = [] \<and> disjoint_majorities new old = [])"
proof -
  have exact: "(l, r) \<in> set (disjoint_majorities ms ns) \<longleftrightarrow>
      l \<subseteq> set ms \<and> r \<subseteq> set ns \<and> card l = length ms div 2 + 1 \<and>
      card r = length ns div 2 + 1 \<and> l \<inter> r = {}" if "distinct ms" "distinct ns" for l r ms ns
    using that by (auto simp: set_disjoint_majorities set_majorities_of)
  have none: "xs = []" if "\<And>l r. (l, r) \<notin> set xs" for xs :: "('a set \<times> 'a set) list"
    using that by (metis list.set_intros(1) neq_Nil_conv surj_pair)
  have "disjoint_majorities old new = [] \<and> disjoint_majorities new old = []" if new: "new = old @ [p]" for p
  proof (intro conjI none)
    show "(l, r) \<notin> set (disjoint_majorities old new)" for l r
      using single_change_overlaps [of old p l r] exact [OF assms, of l r] assms by (auto simp: new)
    show "(r, l) \<notin> set (disjoint_majorities new old)" for l r
      using single_change_overlaps [of old p l r] exact [OF assms(2,1), of r l] assms by (auto simp: new)
  qed
  with exact [OF assms] show ?thesis by blast
qed

theorem disjoint_majorities_exact_witness:
  "disjoint_majorities [1::nat, 2, 3, 4, 5, 6, 7, 8] [1, 2, 3, 4, 5, 6, 7, 8, 9] = [] \<and>
   ({1, 3}, {2, 4}) \<in> set (disjoint_majorities [1::nat, 2, 3] [1, 2, 4])"
  using disjoint_majorities_exact [of "[1::nat, 2, 3, 4, 5, 6, 7, 8]" "[1, 2, 3, 4, 5, 6, 7, 8, 9]"]
    disjoint_majorities_exact [of "[1::nat, 2, 3]" "[1, 2, 4]"] by simp



text \<open>
  Adding and removing a member goes through a joint configuration that holds both memberships
  and is well formed whenever the one it leaves is; the roster's promotions keep the voters'
  majorities overlapping, and a learner changes no quorum.
\<close>

theorem membership_changes:
  assumes "conf_ok c" "roster_ok r"
  shows "(\<forall>p. p \<notin> set (conf_members c) \<longrightarrow> (\<exists>d. with_member c p = Inr d \<and> conf_ok d \<and> joint d \<and>
      conf_old d = conf_members c \<and> set (voters d) = insert p (set (conf_members c)))) \<and>
    (\<forall>p. p \<in> set (conf_members c) \<longrightarrow> conf_members c \<noteq> [p] \<longrightarrow> (\<exists>d. without_member c p = Inr d \<and> conf_ok d \<and>
      joint d \<and> set (conf_members d) = set (conf_members c) - {p} \<and> set (voters d) = set (conf_members c))) \<and>
    (\<forall>q. q \<notin> set (roster_members r) \<longrightarrow> (\<exists>s. with_learner r q = Inr s \<and> roster_ok s \<and>
      roster_quorum s = roster_quorum r \<and> roster_role s q = Inr LEARNER)) \<and>
    (\<forall>q. q \<in> set (learners r) \<longrightarrow> (\<exists>s. promote r q = Inr s \<and> roster_ok s \<and> roster_role s q = Inr VOTER \<and>
      set (roster_members s) = set (roster_members r) \<and>
      disjoint_majorities (roster_voters r) (roster_voters s) = []))"
proof (intro conjI allI impI)
  show "\<exists>d. with_member c p = Inr d \<and> conf_ok d \<and> joint d \<and> conf_old d = conf_members c \<and>
      set (voters d) = insert p (set (conf_members c))" if "p \<notin> set (conf_members c)" for p
    by (rule with_member_ok [OF assms(1) that])
  show "\<exists>d. without_member c p = Inr d \<and> conf_ok d \<and> joint d \<and>
      set (conf_members d) = set (conf_members c) - {p} \<and> set (voters d) = set (conf_members c)"
    if "p \<in> set (conf_members c)" "conf_members c \<noteq> [p]" for p
    by (rule without_member_ok [OF assms(1) that])
  show "\<exists>s. with_learner r q = Inr s \<and> roster_ok s \<and> roster_quorum s = roster_quorum r \<and>
      roster_role s q = Inr LEARNER" if "q \<notin> set (roster_members r)" for q
    by (rule with_learner_ok [OF assms(2) that])
  show "\<exists>s. promote r q = Inr s \<and> roster_ok s \<and> roster_role s q = Inr VOTER \<and>
      set (roster_members s) = set (roster_members r) \<and>
      disjoint_majorities (roster_voters r) (roster_voters s) = []" if q: "q \<in> set (learners r)" for q
  proof -
    obtain s where s: "promote r q = Inr s" "roster_ok s" "roster_role s q = Inr VOTER"
      "set (roster_members s) = set (roster_members r)" "roster_voters s = roster_voters r @ [q]"
      using promote_ok [OF assms(2) q] by blast
    have "distinct (roster_voters r @ [q])" using s(2,5) by (simp add: roster_ok_def)
    from one_more_voter [OF this] s show ?thesis by auto
  qed
qed

theorem membership_changes_witness:
  "(\<exists>d. with_member \<lparr>conf_members = [''a'', ''b''], conf_old = []\<rparr> ''c'' = Inr d \<and>
      set (voters d) = {''a'', ''b'', ''c''}) \<and>
   (\<exists>s. promote \<lparr>roster_voters = [''a''], learners = [''b'']\<rparr> ''b'' = Inr s \<and> roster_role s ''b'' = Inr VOTER)"
proof -
  have "conf_ok \<lparr>conf_members = [''a'', ''b''], conf_old = []\<rparr>"
    "roster_ok \<lparr>roster_voters = [''a''], learners = [''b'']\<rparr>" by (simp_all add: conf_ok_def roster_ok_def)
  note changes = membership_changes [OF this]
  show ?thesis
    using spec [OF conjunct1 [OF changes], of "''c''"]
      spec [OF conjunct2 [OF conjunct2 [OF conjunct2 [OF changes]]], of "''b''"] by fastforce
qed

end
