(* ===== verification/Raft_Machine.thy ===== *)
theory Raft_Machine
  imports Prelude "HOL-Library.List_Lexorder" "HOL-Library.Char_ord"
begin

text \<open>
  \<open>src/rsm/machine.py\<close>: the key value language the log replicates. Applying a command updates the
  machine and gives an answer or raises, and the machine is changed either way; the one command
  that reads a generator takes its draw from the module's own.
\<close>

section \<open>Commands\<close>

definition SET :: string where "SET = ''set''"
definition DELETE :: string where "DELETE = ''delete''"
definition INCREMENT :: string where "INCREMENT = ''increment''"
definition COMPARE_AND_SET :: string where "COMPARE_AND_SET = ''compare and set''"
definition NOW :: string where "NOW = ''now''"

definition COMMANDS :: "string list" where
  "COMMANDS = [SET, DELETE, INCREMENT, COMPARE_AND_SET, NOW]"

lemmas command_names = SET_def DELETE_def INCREMENT_def COMPARE_AND_SET_def NOW_def

record cmd =
  cname :: string
  ckey :: string
  cvalue :: pyobj
  cexpected :: pyobj

definition Command :: "string \<Rightarrow> string \<Rightarrow> pyobj \<Rightarrow> pyobj \<Rightarrow> cmd result" where
  "Command nm k v e =
     (if nm \<notin> set COMMANDS then Inl ConfigError
      else if nm \<noteq> NOW \<and> k = [] then Inl ConfigError
      else Inr \<lparr>cname = nm, ckey = k, cvalue = v, cexpected = e\<rparr>)"

definition idempotent :: "cmd \<Rightarrow> bool" where
  "idempotent c \<longleftrightarrow> cname c \<in> {SET, DELETE}"

definition deterministic :: "cmd \<Rightarrow> bool" where
  "deterministic c \<longleftrightarrow> cname c \<noteq> NOW"

section \<open>The machine\<close>

record machine =
  m_state :: dict
  m_applied :: nat
  m_results :: "pyobj list"

definition Machine :: "dict \<Rightarrow> machine" where
  "Machine d = \<lparr>m_state = d, m_applied = 0, m_results = []\<rparr>"

definition get_or :: "dict \<Rightarrow> pyobj \<Rightarrow> pyobj \<Rightarrow> pyobj" where
  "get_or d k v = (case dict_get d k of Some w \<Rightarrow> w | None \<Rightarrow> v)"

text \<open>What one command does to the state, with its answer.\<close>

definition effect :: "cmd \<Rightarrow> dict \<Rightarrow> draws \<Rightarrow> (dict \<times> pyobj) result \<times> draws" where
  "effect c d g =
     (let k = PStr (ckey c) in
      if cname c = SET then (Inr (dict_set d k (cvalue c), cvalue c), g)
      else if cname c = DELETE then (Inr (dict_del d k, get_or d k PNone), g)
      else if cname c = INCREMENT then
        (case as_int (get_or d k (PInt 0)) of
           None \<Rightarrow> Inl Refused
         | Some i \<Rightarrow> rbind (py_int (if truthy (cvalue c) then cvalue c else PInt 1)) (\<lambda>n.
                     Inr (dict_set d k (PInt (i + n)), PInt (i + n))), g)
      else if cname c = COMPARE_AND_SET then
        (if py_eq (get_or d k PNone) (cexpected c)
         then (Inr (dict_set d k (cvalue c), PBool True), g)
         else (Inr (d, PBool False), g))
      else let ((m, e), g') = random_draw g in (Inr (dict_set d k (PFloat m e), PFloat m e), g'))"

definition apply_cmd :: "machine \<Rightarrow> cmd \<Rightarrow> draws \<Rightarrow> machine \<times> pyobj result \<times> draws" where
  "apply_cmd m c g =
     (let m1 = m\<lparr>m_applied := m_applied m + 1\<rparr>; (r, g') = effect c (m_state m1) g in
      case r of
        Inl e \<Rightarrow> (m1, Inl e, g')
      | Inr (d, out) \<Rightarrow> (m1\<lparr>m_state := d, m_results := m_results m1 @ [out]\<rparr>, Inr out, g'))"

definition machine_get :: "machine \<Rightarrow> string \<Rightarrow> pyobj" where
  "machine_get m k = get_or (m_state m) (PStr k) PNone"

text \<open>
  \<open>digest\<close> pairs every key with the \<open>repr\<close> of its value, in key order. \<open>repr\<close> tells apart exactly
  the values that are not the same object by type and content, so the pair keeps the value.
\<close>

fun key_text :: "pyobj \<Rightarrow> string" where
  "key_text (PStr s) = s"
| "key_text _ = []"

definition digest :: "dict \<Rightarrow> (pyobj \<times> pyobj) list" where
  "digest d = sort_key (\<lambda>(k, v). key_text k) d"

fun replay_cmds :: "cmd list \<Rightarrow> machine \<Rightarrow> draws \<Rightarrow> machine result" where
  "replay_cmds [] m g = Inr m"
| "replay_cmds (c # cs) m g =
     (case apply_cmd m c g of
        (m', Inl e, g') \<Rightarrow> Inl e
      | (m', Inr out, g') \<Rightarrow> replay_cmds cs m' g')"

section \<open>Two states with the same contents\<close>

text \<open>Equal up to the order the keys were first written in.\<close>

definition same_dict :: "dict \<Rightarrow> dict \<Rightarrow> bool" where
  "same_dict d e \<longleftrightarrow> (\<forall>k. dict_get d k = dict_get e k)"

definition text_keys :: "dict \<Rightarrow> bool" where
  "text_keys d \<longleftrightarrow> dict_keys_distinct d \<and> (\<forall>(k, v)\<in>set d. \<exists>s. k = PStr s)"

lemma same_dict_get_or: "same_dict d e \<Longrightarrow> get_or d k v = get_or e k v"
  by (simp add: same_dict_def get_or_def)

lemma same_dict_set: "same_dict d e \<Longrightarrow> same_dict (dict_set d k v) (dict_set e k v)"
  by (simp add: same_dict_def dict_get_set)

lemma same_dict_del:
  "same_dict d e \<Longrightarrow> dict_keys_distinct d \<Longrightarrow> dict_keys_distinct e \<Longrightarrow> same_dict (dict_del d k) (dict_del e k)"
  by (simp add: same_dict_def dict_get_del)

lemma set_dict_set: "set (dict_set d k v) \<subseteq> insert (k, v) ((\<lambda>(k', w). (k', v)) ` set d \<union> set d)"
  by (induction d k v rule: dict_set.induct) auto

lemma keys_dict_set: "fst ` set (dict_set d k v) \<subseteq> insert k (fst ` set d)"
  using set_dict_set [of d k v] by force

lemma set_dict_del: "set (dict_del d k) \<subseteq> set d"
  by (induction d k rule: dict_del.induct) auto

lemma text_keys_iff: "text_keys d \<longleftrightarrow> dict_keys_distinct d \<and> (\<forall>k\<in>fst ` set d. \<exists>s. k = PStr s)"
  by (auto simp: text_keys_def)

lemma text_keys_set: "text_keys d \<Longrightarrow> text_keys (dict_set d (PStr k) v)"
  unfolding text_keys_iff
proof (elim conjE, intro conjI ballI)
  assume d: "dict_keys_distinct d" "\<forall>k\<in>fst ` set d. \<exists>s. k = PStr s"
  show "dict_keys_distinct (dict_set d (PStr k) v)" using d(1) by (rule dict_keys_distinct_set)
  fix x assume "x \<in> fst ` set (dict_set d (PStr k) v)"
  then have "x = PStr k \<or> x \<in> fst ` set d" using keys_dict_set [of d "PStr k" v] by blast
  with d(2) show "\<exists>s. x = PStr s" by blast
qed

lemma text_keys_del: "text_keys d \<Longrightarrow> text_keys (dict_del d k)"
  using set_dict_del [of d k] by (force simp: text_keys_iff dict_keys_distinct_del)

lemma effect_text_keys: "effect c d g = (Inr (e, out), g') \<Longrightarrow> text_keys d \<Longrightarrow> text_keys e"
  by (auto simp: effect_def Let_def raises text_keys_set text_keys_del
      split: if_splits option.splits prod.splits)

text \<open>
  The answer and the contents of the new state depend on the contents of the old one alone, not
  on the order of its keys.
\<close>

lemma effect_same:
  assumes "same_dict d e" "text_keys d" "text_keys e"
  shows "(\<exists>x g'. effect c d g = (Inl x, g') \<and> effect c e g = (Inl x, g')) \<or>
    (\<exists>d' e' out g'. effect c d g = (Inr (d', out), g') \<and> effect c e g = (Inr (e', out), g') \<and> same_dict d' e')"
proof -
  have d: "dict_keys_distinct d" "dict_keys_distinct e" using assms(2,3) by (simp_all add: text_keys_def)
  show ?thesis
  proof (cases "cname c = INCREMENT")
    case True
    show ?thesis
    proof (cases "as_int (get_or d (PStr (ckey c)) (PInt 0))")
      case None
      with True show ?thesis
        by (simp add: effect_def Let_def command_names same_dict_get_or [OF assms(1), symmetric])
    next
      case (Some i)
      then show ?thesis
        using True same_dict_set [OF assms(1)]
        by (cases "py_int (if truthy (cvalue c) then cvalue c else PInt 1)")
          (auto simp: effect_def Let_def command_names same_dict_get_or [OF assms(1), symmetric])
    qed
  next
    case False
    then show ?thesis
      using same_dict_set [OF assms(1)] same_dict_del [OF assms(1) d] same_dict_get_or [OF assms(1)] assms(1)
      by (auto simp: effect_def Let_def split: prod.split)
  qed
qed

lemma dict_get_Some_in: "dict_get d k = Some v \<Longrightarrow> \<exists>k'. py_eq k' k \<and> (k', v) \<in> set d"
  by (induction d k rule: dict_get.induct) (auto split: if_splits)

lemma dict_get_in: "dict_keys_distinct d \<Longrightarrow> (k, v) \<in> set d \<Longrightarrow> dict_get d k = Some v"
proof (induction d)
  case (Cons kv d)
  obtain k1 v1 where kv: "kv = (k1, v1)" by fastforce
  show ?case
  proof (cases "(k, v) = kv")
    case True
    with kv show ?thesis by simp
  next
    case False
    with Cons kv have get: "dict_get d k = Some v" "dict_get d k1 = None" by auto
    then have "\<not> py_eq k1 k" using dict_get_cong_key [of k1 k d] by auto
    with get kv show ?thesis by simp
  qed
qed simp

lemma text_keys_items:
  assumes "text_keys d"
  shows "(PStr s, v) \<in> set d \<longleftrightarrow> dict_get d (PStr s) = Some v"
proof
  assume "dict_get d (PStr s) = Some v"
  then obtain k where k: "py_eq k (PStr s)" "(k, v) \<in> set d" using dict_get_Some_in by blast
  then obtain t where "k = PStr t" using assms by (fastforce simp: text_keys_def)
  with k show "(PStr s, v) \<in> set d" by (simp add: py_eq_def)
qed (use assms dict_get_in in \<open>simp add: text_keys_def\<close>)

lemma distinct_keys: "dict_keys_distinct d \<Longrightarrow> distinct d \<and> inj_on fst (set d)"
proof (induction d rule: dict_keys_distinct.induct)
  case (2 k v d)
  have "(k, w) \<notin> set d" for w using 2 dict_get_in [of d k w] by auto
  with 2 show ?case by (auto simp: inj_on_def)
qed simp

text \<open>Equal digests are equal contents, which is what lets a search recognise a state.\<close>

lemma digest_same_dict:
  assumes "text_keys d" "text_keys e" "digest d = digest e"
  shows "same_dict d e"
proof -
  have "set d = set e" using assms(3) by (metis digest_def set_sort)
  then have texts: "dict_get d (PStr s) = dict_get e (PStr s)" for s
    using text_keys_items [OF assms(1), of s] text_keys_items [OF assms(2), of s]
    by (cases "dict_get d (PStr s)"; cases "dict_get e (PStr s)") auto
  have others: "dict_get d k = None" if "\<forall>s. \<not> py_eq (PStr s) k" "text_keys d" for k and d :: dict
  proof (cases "dict_get d k")
    case (Some v)
    then obtain k' where "py_eq k' k" "(k', v) \<in> set d" using dict_get_Some_in by blast
    with that show ?thesis by (fastforce simp: text_keys_def)
  qed
  have "dict_get d k = dict_get e k" for k
  proof (cases "\<exists>s. py_eq (PStr s) k")
    case True
    then obtain s where s: "py_eq (PStr s) k" by blast
    show ?thesis
      using texts [of s] dict_get_cong_key [OF s, of d] dict_get_cong_key [OF s, of e] by simp
  next
    case False
    then have none: "\<forall>s. \<not> py_eq (PStr s) k" by blast
    show ?thesis using others [OF none assms(1)] others [OF none assms(2)] by simp
  qed
  then show ?thesis by (simp add: same_dict_def)
qed

section \<open>Properties\<close>

lemma effect_deterministic:
  "cname c \<in> set COMMANDS \<Longrightarrow> deterministic c \<Longrightarrow> effect c d g = (fst (effect c d g'), g)"
  by (auto simp: effect_def deterministic_def Let_def COMMANDS_def command_names split: option.split)

lemma apply_deterministic:
  assumes "cname c \<in> set COMMANDS" "deterministic c"
  shows "\<exists>m' r. \<forall>g. apply_cmd m c g = (m', r, g)"
proof -
  obtain r where r: "\<And>g. effect c (m_state m) g = (r, g)"
    using effect_deterministic [OF assms] by metis
  show ?thesis by (cases r) (auto simp: apply_cmd_def Let_def r split: prod.split)
qed

lemma dict_set_twice: "dict_set (dict_set d k v) k v = dict_set d k v"
  by (induction d k v rule: dict_set.induct) auto

lemma dict_del_twice: "dict_keys_distinct d \<Longrightarrow> dict_del (dict_del d k) k = dict_del d k"
proof (induction d k rule: dict_del.induct)
  case (2 k' v d k)
  have "dict_del d k = d" if "py_eq k' k" "dict_get d k' = None"
    proof -
    have "dict_get d k = None" using that dict_get_cong_key [OF that(1), of d] by simp
    then show ?thesis by (induction d k rule: dict_del.induct) (auto split: if_splits)
  qed
  with 2 show ?case by auto
qed simp

text \<open>
  A sequence of deterministic commands takes a machine to one state and one list of answers
  whatever draws the machines around it have left, and the one command that is not deterministic
  takes it to different ones.
\<close>

theorem replicas_agree:
  assumes "\<forall>c\<in>set cs. cname c \<in> set COMMANDS \<and> deterministic c"
  shows "replay_cmds cs m g = replay_cmds cs m g' \<and>
    (\<exists>g g'. replay_cmds [\<lparr>cname = NOW, ckey = k, cvalue = v, cexpected = e\<rparr>] m g \<noteq>
      replay_cmds [\<lparr>cname = NOW, ckey = k, cvalue = v, cexpected = e\<rparr>] m g')"
proof
  show "replay_cmds cs m g = replay_cmds cs m g'"
    using assms
  proof (induction cs arbitrary: m g g')
    case (Cons c cs)
    then obtain m' r where "\<And>g. apply_cmd m c g = (m', r, g)"
      using apply_deterministic [of c m] by auto
    with Cons show ?case by (cases r) auto
  qed simp
  let ?c = "\<lparr>cname = NOW, ckey = k, cvalue = v, cexpected = e\<rparr>"
  have "map_sum id m_results (replay_cmds [?c] m (\<lambda>i. 0)) \<noteq> map_sum id m_results (replay_cmds [?c] m (\<lambda>i. 1))"
    by (simp add: apply_cmd_def effect_def command_names random_draw_def Let_def)
  then show "\<exists>g g'. replay_cmds [?c] m g \<noteq> replay_cmds [?c] m g'" by metis
qed

theorem replicas_agree_witness:
  "replay_cmds [\<lparr>cname = SET, ckey = ''a'', cvalue = PInt 1, cexpected = PNone\<rparr>,
      \<lparr>cname = INCREMENT, ckey = ''a'', cvalue = PInt 4, cexpected = PNone\<rparr>] (Machine []) (\<lambda>i. i) =
    Inr \<lparr>m_state = [(PStr ''a'', PInt 5)], m_applied = 2, m_results = [PInt 1, PInt 5]\<rparr>"
proof -
  let ?cs = "[\<lparr>cname = SET, ckey = ''a'', cvalue = PInt 1, cexpected = PNone\<rparr>,
      \<lparr>cname = INCREMENT, ckey = ''a'', cvalue = PInt 4, cexpected = PNone\<rparr>]"
  have "\<forall>c\<in>set ?cs. cname c \<in> set COMMANDS \<and> deterministic c"
    by (simp add: COMMANDS_def deterministic_def command_names)
  note same = replicas_agree [OF this, of "Machine []" "\<lambda>i. i" "\<lambda>i. 0"]
  have "replay_cmds ?cs (Machine []) (\<lambda>i. 0) =
    Inr \<lparr>m_state = [(PStr ''a'', PInt 5)], m_applied = 2, m_results = [PInt 1, PInt 5]\<rparr>"
    by code_simp
  with same show ?thesis by metis
qed

text \<open>
  The commands called idempotent are: applied a second time they leave the state as the first
  application left it. An increment is not: a second application moves the number again, by what
  its operand says, or by one when the operand is missing or zero.
\<close>

theorem idempotent_twice:
  assumes "text_keys (m_state m)" "apply_cmd m c g = (m1, Inr out, g1)"
  shows "(idempotent c \<longrightarrow> (\<exists>m2 out2. apply_cmd m1 c g1 = (m2, Inr out2, g1) \<and> m_state m2 = m_state m1)) \<and>
    (\<forall>i n. cname c = INCREMENT \<longrightarrow> out = PInt i \<longrightarrow>
       py_int (if truthy (cvalue c) then cvalue c else PInt 1) = Inr n \<longrightarrow>
       (\<exists>m2. apply_cmd m1 c g1 = (m2, Inr (PInt (i + n)), g1)))"
proof (intro conjI impI allI)
  assume "idempotent c"
  then show "\<exists>m2 out2. apply_cmd m1 c g1 = (m2, Inr out2, g1) \<and> m_state m2 = m_state m1"
    using assms by (auto simp: apply_cmd_def effect_def Let_def idempotent_def command_names
        dict_set_twice dict_del_twice text_keys_def)
next
  fix i n
  assume c: "cname c = INCREMENT" and out: "out = PInt i"
    and n: "py_int (if truthy (cvalue c) then cvalue c else PInt 1) = Inr n"
  from c assms(2) n out obtain j where "m_state m1 = dict_set (m_state m) (PStr (ckey c)) (PInt (j + n))" "i = j + n"
    by (auto simp: apply_cmd_def effect_def Let_def command_names split: option.splits)
  then show "\<exists>m2. apply_cmd m1 c g1 = (m2, Inr (PInt (i + n)), g1)"
    using c n by (simp add: apply_cmd_def effect_def Let_def command_names get_or_def dict_get_set)
qed

theorem idempotent_twice_witness:
  "\<exists>m1 m2. apply_cmd (Machine [(PStr ''a'', PInt 3)])
      \<lparr>cname = INCREMENT, ckey = ''a'', cvalue = PInt 0, cexpected = PNone\<rparr> (\<lambda>i. 0) = (m1, Inr (PInt 4), \<lambda>i. 0) \<and>
    apply_cmd m1 \<lparr>cname = INCREMENT, ckey = ''a'', cvalue = PInt 0, cexpected = PNone\<rparr> (\<lambda>i. 0) =
      (m2, Inr (PInt 5), \<lambda>i. 0)"
proof -
  let ?c = "\<lparr>cname = INCREMENT, ckey = ''a'', cvalue = PInt 0, cexpected = PNone\<rparr>"
  have keys: "text_keys (m_state (Machine [(PStr ''a'', PInt 3)]))" by (simp add: text_keys_def Machine_def)
  obtain m1 where m1: "apply_cmd (Machine [(PStr ''a'', PInt 3)]) ?c (\<lambda>i. 0) = (m1, Inr (PInt 4), \<lambda>i. 0)"
    by (simp add: apply_cmd_def effect_def Let_def command_names Machine_def get_or_def)
  have "\<exists>m2. apply_cmd m1 ?c (\<lambda>i. 0) = (m2, Inr (PInt (4 + 1)), \<lambda>i. 0)"
    using idempotent_twice [OF keys m1] by simp
  with m1 show ?thesis by auto
qed

end
