(* ===== verification/Client.thy ===== *)
theory Client
  imports Raft_Machine Cluster_Safety "HOL-Library.AList"
begin

text \<open>
  \<open>src/rsm/client.py\<close>: requests with an identity, the session table that answers a repeat from
  memory, and the client that waits for a leader. What the table needs of the machine is an
  interface of one operation; the exactly once argument is made against that interface.
\<close>

section \<open>Requests and sessions\<close>

record request =
  client :: string
  req_sequence :: int
  req_command :: cmd

definition Request :: "string \<Rightarrow> int \<Rightarrow> cmd \<Rightarrow> request result" where
  "Request who n c =
     (if who = [] then Inl ConfigError
      else if n < 1 then Inl ConfigError
      else Inr \<lparr>client = who, req_sequence = n, req_command = c\<rparr>)"

definition req_key :: "request \<Rightarrow> string \<times> int" where
  "req_key r = (client r, req_sequence r)"

record 'v sessions =
  last_seen :: "(string \<times> int) list"
  answers :: "((string \<times> int) \<times> 'v) list"
  run_count :: nat
  deduplicated :: nat

definition Sessions :: "'v sessions" where
  "Sessions = \<lparr>last_seen = [], answers = [], run_count = 0, deduplicated = 0\<rparr>"

definition seen :: "'v sessions \<Rightarrow> request \<Rightarrow> bool" where
  "seen s r \<longleftrightarrow> map_of (answers s) (req_key r) \<noteq> None"

text \<open>\<open>run\<close>, for any machine: \<open>app\<close> applies a command and answers or raises.\<close>

definition run_request ::
  "('m \<Rightarrow> cmd \<Rightarrow> 'm \<times> ('e + 'v)) \<Rightarrow> 'v sessions \<Rightarrow> request \<Rightarrow> 'm \<Rightarrow> 'v sessions \<times> 'm \<times> ('e + 'v)" where
  "run_request app s r m =
     (case map_of (answers s) (req_key r) of
        Some v \<Rightarrow> (s\<lparr>deduplicated := deduplicated s + 1\<rparr>, m, Inr v)
      | None \<Rightarrow>
         (case app m (req_command r) of
            (m', Inl e) \<Rightarrow> (s, m', Inl e)
          | (m', Inr v) \<Rightarrow>
              (s\<lparr>answers := AList.update (req_key r) v (answers s),
                 last_seen := AList.update (client r)
                   (max (case map_of (last_seen s) (client r) of None \<Rightarrow> 0 | Some n \<Rightarrow> n) (req_sequence r))
                   (last_seen s),
                 run_count := run_count s + 1\<rparr>, m', Inr v)))"

definition forget :: "'v sessions \<Rightarrow> string \<Rightarrow> nat \<times> 'v sessions" where
  "forget s who =
     (let going = map fst (filter (\<lambda>(k, v). fst k = who) (answers s)) in
      (length going, s\<lparr>answers := filter (\<lambda>(k, v). fst k \<noteq> who) (answers s),
                       last_seen := AList.delete who (last_seen s)\<rparr>))"

definition remembered :: "'v sessions \<Rightarrow> nat" where
  "remembered s = length (answers s)"

fun run_requests ::
  "('m \<Rightarrow> cmd \<Rightarrow> 'm \<times> ('e + 'v)) \<Rightarrow> 'v sessions \<Rightarrow> request list \<Rightarrow> 'm \<Rightarrow> 'v sessions \<times> 'm \<times> ('e + 'v) list" where
  "run_requests app s [] m = (s, m, [])"
| "run_requests app s (r # rs) m =
     (let (s1, m1, out) = run_request app s r m; (s2, m2, outs) = run_requests app s1 rs m1
      in (s2, m2, out # outs))"

text \<open>The machine of \<open>machine.py\<close>, with the draws it has left.\<close>

fun machine_app :: "machine \<times> draws \<Rightarrow> cmd \<Rightarrow> (machine \<times> draws) \<times> pyobj result" where
  "machine_app (m, g) c = (case apply_cmd m c g of (m', r, g') \<Rightarrow> ((m', g'), r))"

section \<open>The exactly once argument\<close>

text \<open>
  A machine some commands never fail on: once the table holds an answer for every request it has
  run, running a list of requests is applying each identity once, at its first appearance.
\<close>

fun firsts :: "'k set \<Rightarrow> ('a \<Rightarrow> 'k) \<Rightarrow> 'a list \<Rightarrow> 'a list" where
  "firsts K f [] = []"
| "firsts K f (x # xs) = (if f x \<in> K then firsts K f xs else x # firsts (insert (f x) K) f xs)"

fun apply_each :: "('m \<Rightarrow> cmd \<Rightarrow> 'm \<times> ('e + 'v)) \<Rightarrow> request list \<Rightarrow> 'm \<Rightarrow> 'm" where
  "apply_each app [] m = m"
| "apply_each app (r # rs) m = apply_each app rs (fst (app m (req_command r)))"

locale served =
  fixes app :: "'m \<Rightarrow> cmd \<Rightarrow> 'm \<times> ('e + 'v)"
    and good :: "'m \<Rightarrow> bool"
    and sure :: "cmd \<Rightarrow> bool"
  assumes sure_answers: "good m \<Longrightarrow> sure c \<Longrightarrow> \<exists>m' v. app m c = (m', Inr v) \<and> good m'"
begin

lemma run_request_cases:
  assumes "good m" "sure (req_command r)"
  shows "if seen s r
    then \<exists>v. map_of (answers s) (req_key r) = Some v \<and>
      run_request app s r m = (s\<lparr>deduplicated := deduplicated s + 1\<rparr>, m, Inr v)
    else \<exists>m' v s'. app m (req_command r) = (m', Inr v) \<and> good m' \<and> run_request app s r m = (s', m', Inr v) \<and>
      map_of (answers s') = (map_of (answers s))(req_key r \<mapsto> v)"
  using sure_answers [OF assms] by (auto simp: run_request_def seen_def update_conv')

lemma exactly_once:
  assumes "good m" "\<forall>r\<in>set rs. sure (req_command r)"
  shows "\<exists>s' m' outs. run_requests app s rs m = (s', m', outs) \<and>
      m' = apply_each app (firsts (dom (map_of (answers s))) req_key rs) m \<and>
      map_of (answers s) \<subseteq>\<^sub>m map_of (answers s') \<and>
      outs = map (\<lambda>r. Inr (the (map_of (answers s') (req_key r)))) rs"
  using assms
proof (induction rs arbitrary: s m)
  case Nil
  show ?case by simp
next
  case (Cons r rs)
  have sure: "sure (req_command r)" "\<forall>r\<in>set rs. sure (req_command r)" using Cons.prems(2) by auto
  show ?case
  proof (cases "seen s r")
    case True
    then obtain v where v: "map_of (answers s) (req_key r) = Some v"
      "run_request app s r m = (s\<lparr>deduplicated := deduplicated s + 1\<rparr>, m, Inr v)"
      using run_request_cases [OF Cons.prems(1) sure(1), of s] by auto
    let ?s = "s\<lparr>deduplicated := deduplicated s + 1\<rparr>"
    obtain s' m' outs where ih: "run_requests app ?s rs m = (s', m', outs)"
      "m' = apply_each app (firsts (dom (map_of (answers ?s))) req_key rs) m"
      "map_of (answers ?s) \<subseteq>\<^sub>m map_of (answers s')"
      "outs = map (\<lambda>r. Inr (the (map_of (answers s') (req_key r)))) rs"
      using Cons.IH [OF Cons.prems(1) sure(2), of ?s] by blast
    have "map_of (answers s') (req_key r) = Some v"
    proof -
      have "map_of (answers s) \<subseteq>\<^sub>m map_of (answers s')" using ih(3) by simp
      then show ?thesis using v(1) unfolding map_le_def by (metis domI)
    qed
    then show ?thesis using ih v by (auto simp: dom_def)
  next
    case False
    then obtain m1 v s1 where v: "app m (req_command r) = (m1, Inr v)" "good m1"
      "run_request app s r m = (s1, m1, Inr v)"
      "map_of (answers s1) = (map_of (answers s))(req_key r \<mapsto> v)"
      using run_request_cases [OF Cons.prems(1) sure(1), of s] by auto
    obtain s' m' outs where ih: "run_requests app s1 rs m1 = (s', m', outs)"
      "m' = apply_each app (firsts (dom (map_of (answers s1))) req_key rs) m1"
      "map_of (answers s1) \<subseteq>\<^sub>m map_of (answers s')"
      "outs = map (\<lambda>r. Inr (the (map_of (answers s') (req_key r)))) rs"
      using Cons.IH [OF v(2) sure(2), of s1] by blast
    have new: "req_key r \<notin> dom (map_of (answers s))" using False by (simp add: seen_def dom_def)
    have at: "map_of (answers s') (req_key r) = Some v"
      using ih(3) v(4) by (simp add: map_le_def)
    have "map_of (answers s) \<subseteq>\<^sub>m map_of (answers s')"
    proof -
      have "map_of (answers s) \<subseteq>\<^sub>m map_of (answers s1)"
        unfolding v(4) using new by (auto simp: map_le_def)
      then show ?thesis using ih(3) by (rule map_le_trans)
    qed
    moreover have "dom (map_of (answers s1)) = insert (req_key r) (dom (map_of (answers s)))"
      unfolding v(4) by simp
    ultimately show ?thesis using ih v(1,3) at new by simp
  qed
qed

end

text \<open>
  Increments are never refused where every value held is a number and so is every operand.
\<close>

definition numbers :: "machine \<times> draws \<Rightarrow> bool" where
  "numbers mg \<longleftrightarrow> (\<forall>v\<in>snd ` set (m_state (fst mg)). as_int v \<noteq> None)"

definition counting :: "cmd \<Rightarrow> bool" where
  "counting c \<longleftrightarrow> cname c \<in> {SET, DELETE, INCREMENT, COMPARE_AND_SET} \<and> as_int (cvalue c) \<noteq> None"

lemma as_int_py_int: "as_int v = Some i \<Longrightarrow> py_int v = Inr i"
  by (cases v) auto

lemma values_dict_set: "snd ` set (dict_set d k v) \<subseteq> insert v (snd ` set d)"
  by (induction d k v rule: dict_set.induct) auto

lemma get_or_value: "get_or d k v \<in> insert v (snd ` set d)"
  using dict_get_Some_in [of d k] by (auto simp: get_or_def image_iff split: option.split) force

lemma counting_answers:
  assumes "numbers (m, g)" "counting c"
  shows "\<exists>d out. effect c (m_state m) g = (Inr (d, out), g) \<and> (\<forall>v\<in>snd ` set d. as_int v \<noteq> None)"
proof -
  let ?d = "m_state m" and ?k = "PStr (ckey c)"
  have set_ok: "\<forall>v\<in>snd ` set (dict_set ?d ?k w). as_int v \<noteq> None" if "as_int w \<noteq> None" for w
    using values_dict_set [of ?d ?k w] assms(1) that unfolding numbers_def fst_conv by blast
  obtain n where n: "as_int (cvalue c) = Some n" using assms(2) by (auto simp: counting_def)
  obtain i where i: "as_int (get_or ?d ?k (PInt 0)) = Some i"
    using get_or_value [of ?d ?k "PInt 0"] assms(1) unfolding numbers_def by fastforce
  consider "cname c = SET" | "cname c = DELETE" | "cname c = INCREMENT" | "cname c = COMPARE_AND_SET"
    using assms(2) by (auto simp: counting_def)
  then show ?thesis
  proof cases
    case 1
    then show ?thesis using set_ok n by (auto simp: effect_def)
  next
    case 2
    have "set (dict_del ?d ?k) \<subseteq> set ?d" by (rule set_dict_del)
    then have "\<forall>v\<in>snd ` set (dict_del ?d ?k). as_int v \<noteq> None"
      using assms(1) unfolding numbers_def fst_conv by blast
    then show ?thesis using 2 by (simp add: effect_def command_names Let_def)
  next
    case 3
    obtain j where "py_int (if truthy (cvalue c) then cvalue c else PInt 1) = Inr j"
      using as_int_py_int [OF n] by (cases "truthy (cvalue c)") auto
    with 3 i set_ok [of "PInt (i + j)"] show ?thesis by (auto simp: effect_def command_names)
  next
    case 4
    then show ?thesis
      using set_ok n assms(1) by (auto simp: effect_def numbers_def command_names Let_def)
  qed
qed

interpretation counters: served machine_app numbers counting
proof
  fix mg c assume "numbers mg" "counting c"
  moreover obtain m g where mg: "mg = (m, g)" by fastforce
  ultimately obtain d out where "effect c (m_state m) g = (Inr (d, out), g)" "\<forall>v\<in>snd ` set d. as_int v \<noteq> None"
    using counting_answers by blast
  then show "\<exists>m' v. machine_app mg c = (m', Inr v) \<and> numbers m'"
    by (auto simp: mg apply_cmd_def numbers_def)
qed

section \<open>The client\<close>

record client_state =
  client_name :: string
  client_sequence :: nat
  client_sent :: nat
  client_retries :: nat

definition Client :: "string \<Rightarrow> client_state result" where
  "Client nm = (if nm = [] then Inl ConfigError
     else Inr \<lparr>client_name = nm, client_sequence = 0, client_sent = 0, client_retries = 0\<rparr>)"

definition next_request :: "client_state \<Rightarrow> cmd \<Rightarrow> (request \<times> client_state) result" where
  "next_request k c =
     (let k' = k\<lparr>client_sequence := client_sequence k + 1\<rparr> in
      rbind (Request (client_name k') (int (client_sequence k')) c) (\<lambda>r. Inr (r, k')))"

text \<open>The request travels as the command of a log entry.\<close>

definition cmd_obj :: "cmd \<Rightarrow> pyobj" where
  "cmd_obj c = PObj ''Command'' [PStr (cname c), PStr (ckey c), cvalue c, cexpected c]"

definition request_obj :: "request \<Rightarrow> pyobj" where
  "request_obj r = PObj ''Request'' [PStr (client r), PInt (req_sequence r), cmd_obj (req_command r)]"

fun client_send :: "nat \<Rightarrow> client_state \<Rightarrow> request \<Rightarrow> cluster \<Rightarrow> (nat \<times> client_state \<times> cluster) result" where
  "client_send 0 k r c = Inl Timeout"
| "client_send (Suc patience) k r c =
     (case cluster_leader c of
        Some f \<Rightarrow> rbind (cluster_propose c (request_obj r)) (\<lambda>(i, c').
                  Inr (i, k\<lparr>client_sent := client_sent k + 1\<rparr>, c'))
      | None \<Rightarrow> rbind (cluster_tick c) (client_send patience k r))"

definition PATIENCE :: nat where "PATIENCE = 200"

definition client_retry :: "client_state \<Rightarrow> request \<Rightarrow> cluster \<Rightarrow> (nat \<times> client_state \<times> cluster) result" where
  "client_retry k r c = client_send PATIENCE (k\<lparr>client_retries := client_retries k + 1\<rparr>) r c"

section \<open>Properties\<close>



lemma propose_writes:
  assumes "propose n v = Inr (n', i)" "log n = plain es" "indexed es"
  shows "role n' = LEADER \<and> (\<exists>e. log_at (log n') i = Inr e \<and> command e = v \<and> e_term e = current_term n')"
proof -
  let ?e = "\<lparr>e_term = current_term n, e_index = length es + 1, command = v\<rparr>"
  from assms obtain l n1 where l: "is_leader n" "append1 (log n) ?e = Inr l" "i = length es + 1"
    "n1 = n\<lparr>log := l, match_index := (match_index n)(name n \<mapsto> last_index l)\<rparr>"
    "(if length (members n1) = 1 then advance_commit n1 else Inr n1) = Inr n'"
    by (auto simp: propose_def Entry_def plain_log raises Let_def split: if_splits)
  have plain: "l = plain (es @ [?e])" using l(2) assms(2) by (auto simp: append1_Inr)
  have ix: "indexed (es @ [?e])" using assms(3) by (simp add: indexed_append1)
  have log1: "log n1 = plain (es @ [?e])" using l(4) plain by simp
  have "log n' = log n1 \<and> role n' = role n1 \<and> current_term n' = current_term n1"
    using advance_commit_keeps [OF _ log1 ix] l(5) by (auto split: if_splits)
  moreover have "log_at (plain (es @ [?e])) i = Inr ?e"
    using log_at_plain [OF ix, of i] l(3) by (simp add: nth_append)
  ultimately show ?thesis using l(1,4) log1 by (auto simp: is_leader_def)
qed

lemma send_all_keeps: "send_all c ms = Inr c' \<Longrightarrow> nodes c' = nodes c \<and> cmembers c' = cmembers c"
  unfolding send_all_def
proof (induction ms arbitrary: c)
  case (Cons m ms)
  then show ?case by (auto simp: raises send1_def split: if_splits)
qed simp

lemma cluster_propose_writes:
  assumes "cluster_inv c" "cluster_propose c v = Inr (i, c')"
  shows "\<exists>p\<in>set (cmembers c'). role (nodes c' p) = LEADER \<and>
    (\<exists>e. log_at (log (nodes c' p)) i = Inr e \<and> command e = v \<and> e_term e = current_term (nodes c' p))"
proof -
  from assms(2) obtain f n out where f: "cluster_leader c = Some f" "propose f v = Inr (n, i)"
    "send_all (put_node c (name f) n) out = Inr c'"
    by (auto simp: cluster_propose_def raises split: option.splits)
  obtain p where p: "p \<in> set (up c)" "f = nodes c p" using leader_of_cluster [OF f(1)] by blast
  then have pm: "p \<in> set (cmembers c)" by (simp add: up_def)
  from assms(1) obtain s where ok: "cluster_ok (tight c) (cmembers c) {} c s" by (rule cluster_invE)
  have "name f = p" using node_simD(1) [OF cluster_okD(2) [OF ok pm]] p(2) by simp
  moreover obtain es where "log f = plain es" "indexed es"
    using reached_log [OF assms(1) pm] p(2) by metis
  ultimately show ?thesis
    using propose_writes [OF f(2)] send_all_keeps [OF f(3)] pm by (auto simp: put_node_def)
qed

lemma cluster_tick_inv: "cluster_inv c \<Longrightarrow> cluster_tick c = Inr c' \<Longrightarrow> cluster_inv c'"
  using cluster_inv_step [of c "\<lambda>s p. (\<lambda>i. 0)" Tick c'] by simp

text \<open>
  A client that sends a request to a reachable cluster either times out, or stops because the
  cluster's own check failed, or gets an index; and then a node that leads holds the request at
  that index, in an entry of its own term.
\<close>

theorem client_write_lands:
  assumes "cluster_reach net_seed node_seed c"
  shows "case client_send patience k r c of
      Inl e \<Rightarrow> e = Timeout \<or> e = StateMachineSafety
    | Inr (i, k', c') \<Rightarrow> client_sent k' = client_sent k + 1 \<and>
        (\<exists>p\<in>set (cmembers c'). role (nodes c' p) = LEADER \<and>
           (\<exists>e. log_at (log (nodes c' p)) i = Inr e \<and> command e = request_obj r \<and>
              e_term e = current_term (nodes c' p)))"
proof -
  have "cluster_inv c" by (rule cluster_inv_reach [OF assms])
  then show ?thesis
  proof (induction patience arbitrary: c)
    case 0
    then show ?case by simp
  next
    case (Suc patience)
    show ?case
    proof (cases "cluster_leader c")
      case None
      show ?thesis
      proof (cases "cluster_tick c")
        case (Inl e)
        then have "e = StateMachineSafety"
          using tick_verdict [OF Suc.prems] by (auto simp: cluster_tick_def split: if_splits)
        with None Inl show ?thesis by simp
      next
        case (Inr c1)
        with Suc.IH [OF cluster_tick_inv [OF Suc.prems Inr]] None show ?thesis by simp
      qed
    next
      case (Some f)
      from Suc.prems obtain s where "cluster_ok (tight c) (cmembers c) {} c s" by (rule cluster_invE)
      then obtain i c' where c': "cluster_propose c (request_obj r) = Inr (i, c')"
        using cluster_propose_ok [of c "cmembers c" s "request_obj r"] Some by auto
      with cluster_propose_writes [OF Suc.prems c'] Some show ?thesis by simp
    qed
  qed
qed

definition lone_client :: "(nat \<times> client_state \<times> cluster) result" where
  "lone_client = rbind (Cluster (\<lambda>s i. 0) (\<lambda>s p i. 0) 1 0 None True False)
     (client_send 12 \<lparr>client_name = ''a'', client_sequence = 1, client_sent = 0, client_retries = 0\<rparr>
        \<lparr>client = ''a'', req_sequence = 1,
          req_command = \<lparr>cname = SET, ckey = ''x'', cvalue = PInt 2, cexpected = PNone\<rparr>\<rparr>)"

lemma lone_client_runs: "case lone_client of Inr (i, k, c) \<Rightarrow> i = 2 \<and> cmembers c = [''n0''] | Inl e \<Rightarrow> False"
  by code_simp

theorem client_write_lands_witness:
  "\<exists>k c e. lone_client = Inr (2, k, c) \<and> client_sent k = 1 \<and>
     log_at (log (nodes c ''n0'')) 2 = Inr e \<and>
     command e = request_obj \<lparr>client = ''a'', req_sequence = 1,
       req_command = \<lparr>cname = SET, ckey = ''x'', cvalue = PInt 2, cexpected = PNone\<rparr>\<rparr>"
proof -
  obtain k c where lone: "lone_client = Inr (2, k, c)" "cmembers c = [''n0'']"
    using lone_client_runs by (auto split: sum.splits)
  then obtain c0 where c0: "Cluster (\<lambda>s i. 0) (\<lambda>s p i. 0) 1 0 None True False = Inr c0"
    "client_send 12 \<lparr>client_name = ''a'', client_sequence = 1, client_sent = 0, client_retries = 0\<rparr>
        \<lparr>client = ''a'', req_sequence = 1,
          req_command = \<lparr>cname = SET, ckey = ''x'', cvalue = PInt 2, cexpected = PNone\<rparr>\<rparr> c0 = Inr (2, k, c)"
    by (auto simp: lone_client_def raises)
  note lands = client_write_lands [OF cluster_reach.made [OF c0(1)], where patience = 12 and
        k = "\<lparr>client_name = ''a'', client_sequence = 1, client_sent = 0, client_retries = 0\<rparr>" and
        r = "\<lparr>client = ''a'', req_sequence = 1,
          req_command = \<lparr>cname = SET, ckey = ''x'', cvalue = PInt 2, cexpected = PNone\<rparr>\<rparr>"]
  have "client_sent k = 0 + 1 \<and> (\<exists>p\<in>set (cmembers c). role (nodes c p) = LEADER \<and>
      (\<exists>e. log_at (log (nodes c p)) 2 = Inr e \<and>
        command e = request_obj \<lparr>client = ''a'', req_sequence = 1,
          req_command = \<lparr>cname = SET, ckey = ''x'', cvalue = PInt 2, cexpected = PNone\<rparr>\<rparr> \<and>
        e_term e = current_term (nodes c p)))"
    using lands unfolding c0(2) by simp
  with lone show ?thesis by auto
qed

end
