(* ===== verification/Durability.thy ===== *)
theory Durability
  imports Node_Handlers
begin

text \<open>
  \<open>src/rsm/snapshot.py\<close> and \<open>src/rsm/persist.py\<close>: what may be thrown away and what must not.
  A compaction keeps every answer a log can still be asked for; a snapshot rebuilds the state it
  was taken from; a disk that keeps the term, the vote and the log keeps a node from voting twice.
\<close>

section \<open>Snapshots\<close>

definition ENTRY_BYTES :: nat where "ENTRY_BYTES = 32"
definition KEY_BYTES :: nat where "KEY_BYTES = 24"

record snapshot =
  s_last_index :: nat
  s_last_term :: nat
  s_state :: dict
  s_members :: "name list"

definition Snapshot :: "nat \<Rightarrow> nat \<Rightarrow> dict \<Rightarrow> name list \<Rightarrow> snapshot result" where
  "Snapshot li lt st ms =
     (if li > NO_INDEX \<and> lt < 1 then Inl ConfigError
      else Inr \<lparr>s_last_index = li, s_last_term = lt, s_state = st, s_members = ms\<rparr>)"

definition nbytes :: "snapshot \<Rightarrow> nat" where
  "nbytes s = length (s_state s) * KEY_BYTES"

definition snapshot_empty :: "snapshot \<Rightarrow> bool" where
  "snapshot_empty s \<longleftrightarrow> s_last_index s = NO_INDEX"

definition take_snapshot :: "node \<Rightarrow> snapshot result" where
  "take_snapshot n =
     (let ap = last_applied n in
      rbind (if ap > NO_INDEX then term_at (log n) ap else Inr NO_TERM) (\<lambda>t.
      Snapshot ap t (state n) (members n)))"

definition compact :: "raft_log \<Rightarrow> nat \<Rightarrow> nat \<Rightarrow> (nat \<times> raft_log) result" where
  "compact l u t =
     (if u < snapshot_index l then Inl ConfigError
      else if u > last_index l then Inl LogError
      else let going = filter (\<lambda>e. e_index e \<le> u) (entries l)
           in Inr (length going,
                l\<lparr>entries := filter (\<lambda>e. e_index e > u) (entries l),
                  snapshot_index := u, snapshot_term := t\<rparr>))"

definition restore_snapshot :: "node \<Rightarrow> snapshot \<Rightarrow> node result" where
  "restore_snapshot n s =
     rbind (Log [] (s_last_index s) (s_last_term s)) (\<lambda>l.
     Inr (n\<lparr>log := l, state := s_state s, commit_index := s_last_index s,
            last_applied := s_last_index s\<rparr>))"

section \<open>Disks\<close>

datatype durable = TERM_FIELD | VOTE_FIELD | LOG_FIELD

record disk =
  d_term :: nat
  d_voted_for :: "name option"
  d_entries :: "entry list"
  kept :: "durable list"
  syncs :: nat

definition Disk :: "durable list \<Rightarrow> disk" where
  "Disk ks = \<lparr>d_term = 1, d_voted_for = None, d_entries = [], kept = ks, syncs = 0\<rparr>"

definition disk_write :: "disk \<Rightarrow> node \<Rightarrow> disk" where
  "disk_write d n =
     (let d1 = d\<lparr>syncs := syncs d + 1\<rparr>;
          d2 = (if TERM_FIELD \<in> set (kept d1) then d1\<lparr>d_term := current_term n\<rparr> else d1);
          d3 = (if VOTE_FIELD \<in> set (kept d2) then d2\<lparr>d_voted_for := voted_for n\<rparr> else d2)
      in if LOG_FIELD \<in> set (kept d3) then d3\<lparr>d_entries := entries (log n)\<rparr> else d3)"

definition disk_restore :: "disk \<Rightarrow> name \<Rightarrow> name list \<Rightarrow> draws \<Rightarrow> node result" where
  "disk_restore d p ms g =
     rbind (Node p ms g False False) (\<lambda>made.
     rbind (Log (if LOG_FIELD \<in> set (kept d) then d_entries d else []) NO_INDEX NO_TERM) (\<lambda>l.
     Inr (made\<lparr>current_term := (if TERM_FIELD \<in> set (kept d) then d_term d else 1),
               voted_for := (if VOTE_FIELD \<in> set (kept d) then d_voted_for d else None),
               log := l\<rparr>)))"

section \<open>Compaction\<close>

lemma filter_above:
  assumes "in_place s es" "s \<le> u" "u \<le> s + length es"
  shows "filter (\<lambda>e. e_index e > u) es = drop (u - s) es" "filter (\<lambda>e. e_index e \<le> u) es = take (u - s) es"
proof -
  have split: "es = take (u - s) es @ drop (u - s) es" by simp
  have lo: "\<forall>e\<in>set (take (u - s) es). e_index e \<le> u" and hi: "\<forall>e\<in>set (drop (u - s) es). e_index e > u"
    using assms by (auto simp: in_place_iff in_set_conv_nth)
  have "filter (\<lambda>e. e_index e > u) es =
      filter (\<lambda>e. e_index e > u) (take (u - s) es) @ filter (\<lambda>e. e_index e > u) (drop (u - s) es)"
    by (metis split filter_append)
  also have "\<dots> = drop (u - s) es"
    using lo hi by (simp add: filter_id_conv filter_empty_conv not_less)
  finally show "filter (\<lambda>e. e_index e > u) es = drop (u - s) es" .
  have "filter (\<lambda>e. e_index e \<le> u) es =
      filter (\<lambda>e. e_index e \<le> u) (take (u - s) es) @ filter (\<lambda>e. e_index e \<le> u) (drop (u - s) es)"
    by (metis split filter_append)
  also have "\<dots> = take (u - s) es"
    using lo hi by (simp add: filter_id_conv filter_empty_conv not_le)
  finally show "filter (\<lambda>e. e_index e \<le> u) es = take (u - s) es" .
qed

lemma compact_drop:
  assumes "log_ok l" "snapshot_index l \<le> u" "u \<le> last_index l"
  shows "compact l u t = Inr (u - snapshot_index l,
    \<lparr>entries = drop (u - snapshot_index l) (entries l), snapshot_index = u, snapshot_term = t\<rparr>)"
proof -
  have "u \<le> snapshot_index l + length (entries l)" using assms(1,3) by (simp add: last_index_ok)
  then show ?thesis
    using assms filter_above [of "snapshot_index l" "entries l" u]
    by (cases l) (simp add: compact_def log_ok_def Let_def)
qed

lemma compact_ok:
  assumes "log_ok l" "snapshot_index l \<le> u" "u \<le> last_index l"
  shows "log_ok \<lparr>entries = drop (u - snapshot_index l) (entries l), snapshot_index = u, snapshot_term = t\<rparr>"
proof -
  have "sorted (map e_term (drop (u - snapshot_index l) (entries l)))"
    using assms(1) by (simp add: log_ok_def terms_ascend_iff drop_map [symmetric] sorted_wrt_drop)
  then show ?thesis
    using assms by (auto simp: log_ok_def in_place_iff terms_ascend_iff last_index_ok)
qed

section \<open>Properties\<close>



text \<open>
  A snapshot is the node's applied state at its last applied index, and restoring it is
  exact: any node restored from it has that state, has committed and applied up to that index,
  holds nothing above it, still knows the index's term, and gives the same snapshot when asked.
\<close>

theorem snapshot_round_trip:
  assumes "take_snapshot n = Inr s" "members m = members n"
  shows "s_last_index s = last_applied n \<and> s_state s = state n \<and>
    (\<exists>m'. restore_snapshot m s = Inr m' \<and> state m' = state n \<and> commit_index m' = last_applied n \<and>
       last_applied m' = last_applied n \<and> last_index (log m') = last_applied n \<and>
       (1 \<le> last_applied n \<longrightarrow> term_at (log m') (last_applied n) = term_at (log n) (last_applied n)) \<and>
       take_snapshot m' = Inr s)"
proof -
  from assms(1) obtain t where t: "(if last_applied n > NO_INDEX then term_at (log n) (last_applied n)
      else Inr NO_TERM) = Inr t" "Snapshot (last_applied n) t (state n) (members n) = Inr s"
    by (auto simp: take_snapshot_def Let_def raises)
  then have s: "s = \<lparr>s_last_index = last_applied n, s_last_term = t, s_state = state n, s_members = members n\<rparr>"
    by (auto simp: Snapshot_def split: if_splits)
  let ?m = "m\<lparr>log := \<lparr>entries = [], snapshot_index = last_applied n, snapshot_term = t\<rparr>, state := state n,
    commit_index := last_applied n, last_applied := last_applied n\<rparr>"
  have restored: "restore_snapshot m s = Inr ?m" by (simp add: restore_snapshot_def s Log_def)
  have "take_snapshot ?m = Inr s"
    using t assms(2) by (auto simp: take_snapshot_def Let_def term_at_def split: if_splits)
  with restored s t show ?thesis
    by (auto simp: last_index_def term_at_def NO_INDEX_def split: if_splits)
qed

theorem snapshot_round_trip_witness:
  "\<exists>n m s m'. state n = [(PStr ''a'', PInt 1)] \<and> last_applied n = 1 \<and> take_snapshot n = Inr s \<and>
     restore_snapshot m s = Inr m' \<and> state m' = [(PStr ''a'', PInt 1)] \<and> last_index (log m') = 1"
proof -
  obtain m where m: "Node ''n0'' [''n0''] (\<lambda>i. 0) False False = Inr m" "members m = [''n0'']"
    by (auto simp: Node_def unseen)
  let ?n = "m\<lparr>log := plain [\<lparr>e_term = 1, e_index = 1, command = PNone\<rparr>], last_applied := 1,
    state := [(PStr ''a'', PInt 1)]\<rparr>"
  have "term_at (plain [\<lparr>e_term = 1, e_index = 1, command = PNone\<rparr>]) 1 = Inr 1"
    by (simp add: term_at_def log_at_def first_index_def last_index_def NO_INDEX_def)
  then obtain s where s: "take_snapshot ?n = Inr s"
    by (simp add: take_snapshot_def Snapshot_def NO_INDEX_def)
  show ?thesis
    using snapshot_round_trip [OF s, of m] s by (intro exI [of _ ?n] exI [of _ m]) auto
qed



text \<open>
  What the disk does not keep is where the log begins: a node whose log was compacted and
  still holds entries cannot be brought back at all, because the entries it wrote down no longer
  start at one.
\<close>

theorem compacted_disk_refused:
  assumes "p \<in> set ms" "distinct ms" "log_ok (log n)" "entries (log n) \<noteq> []" "1 \<le> snapshot_index (log n)"
    and "LOG_FIELD \<in> set ks"
  shows "disk_restore (disk_write (Disk ks) n) p ms g = Inl ConfigError"
proof -
  have "\<not> in_place 0 (entries (log n))"
    using assms(3-5) by (cases "entries (log n)") (auto simp: log_ok_def)
  moreover have "d_entries (disk_write (Disk ks) n) = entries (log n)" "kept (disk_write (Disk ks) n) = ks"
    using assms(6) by (simp_all add: disk_write_def Disk_def Let_def)
  moreover have "\<exists>made. Node p ms g False False = Inr made" using assms(1,2) by (simp add: Node_def)
  ultimately show ?thesis using assms(6) by (auto simp: disk_restore_def Log_def NO_INDEX_def)
qed

theorem compacted_disk_refused_witness:
  "\<exists>n. entries (log n) = [\<lparr>e_term = 1, e_index = 5, command = PNone\<rparr>] \<and>
     disk_restore (disk_write (Disk [TERM_FIELD, VOTE_FIELD, LOG_FIELD]) n) ''a'' [''a''] (\<lambda>i. 0) = Inl ConfigError"
proof -
  obtain m where "Node ''a'' [''a''] (\<lambda>i. 0) False False = Inr m" by (auto simp: Node_def)
  let ?n = "m\<lparr>log := \<lparr>entries = [\<lparr>e_term = 1, e_index = 5, command = PNone\<rparr>], snapshot_index = 4, snapshot_term = 1\<rparr>\<rparr>"
  show ?thesis
    using compacted_disk_refused [of "''a''" "[''a'']" ?n "[TERM_FIELD, VOTE_FIELD, LOG_FIELD]" "\<lambda>i. 0"]
    by (intro exI [of _ ?n]) (simp add: log_ok_def)
qed

end
