(* ===== verification/Log_Reconcile.thy ===== *)
theory Log_Reconcile
  imports Raft_Log
begin

text \<open>
  The two ways \<open>src/rsm/log.py\<close> finds where a follower's log stops agreeing with a leader's, on
  logs that were not compacted: walking back one index a trip, and jumping over whole terms.
\<close>

section \<open>Where two logs match\<close>

definition matched :: "entry list \<Rightarrow> entry list \<Rightarrow> nat \<Rightarrow> bool" where
  "matched ls fs i \<longleftrightarrow> i = 0 \<or> i \<le> length ls \<and> i \<le> length fs \<and> term_of ls i = term_of fs i"

text \<open>The last index at or below \<open>p\<close> that matches.\<close>

fun last_match :: "entry list \<Rightarrow> entry list \<Rightarrow> nat \<Rightarrow> nat" where
  "last_match ls fs 0 = 0"
| "last_match ls fs (Suc p) = (if matched ls fs (Suc p) then Suc p else last_match ls fs p)"

lemma last_match_le: "last_match ls fs p \<le> p"
  by (induction p) auto

lemma last_match_matched: "matched ls fs (last_match ls fs p)"
  by (induction p) (auto simp: matched_def)

lemma last_match_max: "matched ls fs i \<Longrightarrow> i \<le> p \<Longrightarrow> i \<le> last_match ls fs p"
  by (induction p) (auto simp: le_Suc_eq)

lemma last_match_eq: "last_match ls fs p \<le> q \<Longrightarrow> q \<le> p \<Longrightarrow> last_match ls fs q = last_match ls fs p"
  by (meson last_match_le last_match_matched last_match_max le_antisym le_trans)

text \<open>What log matching gives: a match extends to everything below it.\<close>

definition matching :: "entry list \<Rightarrow> entry list \<Rightarrow> bool" where
  "matching ls fs \<longleftrightarrow> (\<forall>i j. matched ls fs i \<longrightarrow> j \<le> i \<longrightarrow> matched ls fs j)"

lemma agree_down_plain:
  assumes "indexed ls" "indexed fs"
  shows "i \<le> min (length ls) (length fs) \<Longrightarrow> agree_down (plain ls) (plain fs) i = Inr (last_match ls fs i)"
proof (induction i)
  case 0
  then show ?case by (simp add: NO_INDEX_def)
next
  case (Suc i)
  then have "term_at (plain ls) (Suc i) = Inr (term_of ls (Suc i))"
    "term_at (plain fs) (Suc i) = Inr (term_of fs (Suc i))"
    using term_at_plain assms by simp_all
  with Suc assms show ?case by (auto simp: plain_log matched_def)
qed

lemma leader_term:
  "indexed ls \<Longrightarrow> p \<le> length ls \<Longrightarrow>
   (if holds (plain ls) p then term_at (plain ls) p else Inr 0) = Inr (term_of ls p)"
  by (auto simp: plain_log term_of_def)

lemma follower_matches:
  "indexed fs \<Longrightarrow> p \<le> length ls \<Longrightarrow> matches (plain fs) p (term_of ls p) = Inr (matched ls fs p)"
  by (auto simp: matches_plain matched_def)

lemma walk_back_plain:
  assumes "indexed ls" "indexed fs"
  shows "p \<le> length ls \<Longrightarrow> walk_back (plain ls) (plain fs) (Suc p) t = Inr (t + (p - last_match ls fs p) + 1)"
proof (induction p arbitrary: t)
  case 0
  then show ?case using leader_term [OF assms(1), of 0] follower_matches [OF assms(2), of 0 ls]
    by (simp add: matched_def)
next
  case (Suc p)
  have m: "matches (plain fs) (Suc p) (term_of ls (Suc p)) = Inr (matched ls fs (Suc p))"
    by (rule follower_matches [OF assms(2) Suc.prems])
  have "walk_back (plain ls) (plain fs) (Suc (Suc p)) t =
      (if matched ls fs (Suc p) then Inr (t + 1) else walk_back (plain ls) (plain fs) (Suc p) (t + 1))"
    using leader_term [OF assms(1) Suc.prems] m by (simp add: NO_INDEX_def)
  with Suc.IH [of "t + 1"] Suc.prems last_match_le [of ls fs p] show ?case
    by (simp add: Suc_diff_le del: walk_back.simps)
qed

lemma run_start_range:
  "indexed es \<Longrightarrow> 1 \<le> i \<Longrightarrow> i \<le> length es \<Longrightarrow> \<exists>j. run_start (plain es) c i = Inr j \<and> 1 \<le> j \<and> j \<le> i"
proof (induction i rule: less_induct)
  case (less i)
  show ?case
  proof (cases "i > 1")
    case False
    with less.prems show ?thesis by (subst run_start.simps) (simp add: plain_log)
  next
    case True
    have at: "term_at (plain es) (i - 1) = Inr (term_of es (i - 1))"
      using less.prems by (intro term_at_plain) auto
    obtain j where "run_start (plain es) c (i - 1) = Inr j" "1 \<le> j" "j \<le> i - 1"
    proof -
      have "i - 1 < i" "1 \<le> i - 1" "i - 1 \<le> length es" using less.prems True by linarith+
      then show thesis using less.IH [of "i - 1"] less.prems(1) that by blast
    qed
    with True at show ?thesis by (subst run_start.simps) (auto simp: plain_log)
  qed
qed

lemma jump_back_plain:
  assumes "indexed ls" "indexed fs" "matching ls fs"
  shows "p \<le> length ls \<Longrightarrow> \<exists>k. jump_back (plain ls) (plain fs) (Suc p) t = Some (Inr k) \<and>
    t + 1 \<le> k \<and> k \<le> t + (p - last_match ls fs p) + 1"
proof (induction p arbitrary: t rule: less_induct)
  case (less p)
  note lt = leader_term [OF assms(1) less.prems, folded NO_TERM_def]
  note fm = follower_matches [OF assms(2) less.prems]
  show ?case
  proof (cases "matched ls fs p")
    case True
    then have "jump_turn (plain ls) (plain fs) p = Return" using lt fm by (simp add: jump_turn_def)
    then show ?thesis by (subst jump_back.simps) (simp add: NO_INDEX_def)
  next
    case False
    then have p: "1 \<le> p" by (cases p) (auto simp: matched_def)
    have below: "last_match ls fs p < p"
      using False p last_match_le [of ls fs p] last_match_matched [of ls fs p] by (metis le_neq_implies_less)
    obtain q where q: "jump_turn (plain ls) (plain fs) p = Again (Suc q)" "q < p"
    proof (cases "p \<le> length fs")
      case True
      obtain j where "run_start (plain fs) (term_of fs p) p = Inr j" "1 \<le> j" "j \<le> p"
        using run_start_range [OF assms(2) p True] by blast
      then show thesis
        using that [of "j - 1"] False p lt fm True assms(2) by (simp add: jump_turn_def plain_log NO_INDEX_def)
    next
      case False
      then show thesis
        using that [of "length fs"] \<open>\<not> matched ls fs p\<close> p lt fm assms(2)
        by (simp add: jump_turn_def plain_log NO_INDEX_def)
    qed
    have step: "jump_back (plain ls) (plain fs) (Suc p) t = jump_back (plain ls) (plain fs) (Suc q) (t + 1)"
      by (subst jump_back.simps) (simp add: q(1) NO_INDEX_def)
    obtain k where k: "jump_back (plain ls) (plain fs) (Suc q) (t + 1) = Some (Inr k)" "t + 1 + 1 \<le> k"
      "k \<le> t + 1 + (q - last_match ls fs q) + 1"
      using less.IH [OF q(2), of "t + 1"] less.prems q(2) by auto
    have "k \<le> t + (p - last_match ls fs p) + 1"
    proof (cases "last_match ls fs p \<le> q")
      case True
      then have "last_match ls fs q = last_match ls fs p" using q(2) by (simp add: last_match_eq)
      with k(3) q(2) True show ?thesis by simp
    next
      case False
      then have "matched ls fs q"
        using assms(3) last_match_matched [of ls fs p] unfolding matching_def by (meson nat_le_linear)
      then have "last_match ls fs q = q" using last_match_max last_match_le by (metis le_antisym order_refl)
      with k(3) below show ?thesis by simp
    qed
    with step k show ?thesis by auto
  qed
qed

lemma reconciliation_place:
  assumes "indexed ls" "indexed fs"
  shows "agree_up_to (plain ls) (plain fs) = Inr (last_match ls fs (length ls))"
proof -
  have "last_match ls fs (length ls) \<le> min (length ls) (length fs)"
    using last_match_matched [of ls fs "length ls"] last_match_le [of ls fs "length ls"]
    by (auto simp: matched_def)
  then have "last_match ls fs (min (length ls) (length fs)) = last_match ls fs (length ls)"
    by (intro last_match_eq) auto
  then show ?thesis
    unfolding agree_up_to_def
    using agree_down_plain [OF assms, of "min (length ls) (length fs)"] assms by (simp add: plain_log)
qed

section \<open>Properties\<close>



end
