(* ===== verification/Histories.thy ===== *)
theory Histories
  imports Raft_Machine
begin

text \<open>
  \<open>src/rsm/verify/history.py\<close>: what clients asked for and what they were told, with the times, and
  \<open>src/rsm/verify/reference.py\<close>: one machine that runs the same commands one at a time, and the
  comparison of its answers with somebody else's.

  An operation is an object the history holds and its client keeps a reference to, so completing
  it changes it in place: a reference is the position the operation has in its history, or an
  operation of no history at all.
\<close>

section \<open>Operations\<close>

record operation =
  o_client :: string
  o_command :: cmd
  called_at :: int
  returned_at :: "int option"
  o_result :: pyobj

definition Operation :: "string \<Rightarrow> cmd \<Rightarrow> int \<Rightarrow> int option \<Rightarrow> pyobj \<Rightarrow> operation result" where
  "Operation who c t r v =
     (if t < 0 then Inl ConfigError
      else if (case r of None \<Rightarrow> False | Some u \<Rightarrow> u < t) then Inl ConfigError
      else Inr \<lparr>o_client = who, o_command = c, called_at = t, returned_at = r, o_result = v\<rparr>)"

definition op_complete :: "operation \<Rightarrow> bool" where
  "op_complete x \<longleftrightarrow> returned_at x \<noteq> None"

datatype op_state = CALLED | RETURNED | PENDING

definition op_state :: "operation \<Rightarrow> op_state" where
  "op_state x = (if op_complete x then RETURNED else PENDING)"

definition span :: "operation \<Rightarrow> int \<times> int option" where
  "span x = (called_at x, returned_at x)"

definition overlaps :: "operation \<Rightarrow> operation \<Rightarrow> bool" where
  "overlaps x y =
     (if (case returned_at x of None \<Rightarrow> False | Some r \<Rightarrow> called_at y > r) then False
      else \<not> (case returned_at y of None \<Rightarrow> False | Some r \<Rightarrow> called_at x > r))"

text \<open>Equality of two operations compares the fields, commands by theirs.\<close>

definition cmd_eq :: "cmd \<Rightarrow> cmd \<Rightarrow> bool" where
  "cmd_eq c d \<longleftrightarrow> cname c = cname d \<and> ckey c = ckey d \<and> py_eq (cvalue c) (cvalue d) \<and>
     py_eq (cexpected c) (cexpected d)"

definition op_eq :: "operation \<Rightarrow> operation \<Rightarrow> bool" where
  "op_eq x y \<longleftrightarrow> o_client x = o_client y \<and> cmd_eq (o_command x) (o_command y) \<and>
     called_at x = called_at y \<and> returned_at x = returned_at y \<and> py_eq (o_result x) (o_result y)"

section \<open>Histories\<close>

record history =
  operations :: "operation list"
  clock :: int

definition History :: history where
  "History = \<lparr>operations = [], clock = 0\<rparr>"

datatype op_ref = Own nat | Foreign operation

definition h_call :: "history \<Rightarrow> string \<Rightarrow> cmd \<Rightarrow> (op_ref \<times> history) result" where
  "h_call h who c =
     (let h1 = h\<lparr>clock := clock h + 1\<rparr> in
      rbind (Operation who c (clock h1) None PNone) (\<lambda>made.
      Inr (Own (length (operations h1)), h1\<lparr>operations := operations h1 @ [made]\<rparr>)))"

definition h_complete :: "history \<Rightarrow> op_ref \<Rightarrow> pyobj \<Rightarrow> history result" where
  "h_complete h ref v =
     (case ref of
        Own i \<Rightarrow>
          (if i \<ge> length (operations h) then Inl ConfigError
           else let t = clock h + 1 in
                Inr (h\<lparr>clock := t,
                  operations := (operations h)[i := (operations h ! i)\<lparr>returned_at := Some t, o_result := v\<rparr>]\<rparr>))
      | Foreign x \<Rightarrow>
          (if \<not> (\<exists>y\<in>set (operations h). op_eq y x) then Inl ConfigError
           else Inr (h\<lparr>clock := clock h + 1\<rparr>)))"

definition h_pending :: "history \<Rightarrow> operation list" where
  "h_pending h = filter (\<lambda>x. \<not> op_complete x) (operations h)"

definition h_completed :: "history \<Rightarrow> operation list" where
  "h_completed h = filter op_complete (operations h)"

definition h_clients :: "history \<Rightarrow> string list" where
  "h_clients h = from_keys (map o_client (operations h))"

definition h_of :: "history \<Rightarrow> string \<Rightarrow> operation list" where
  "h_of h who = filter (\<lambda>x. o_client x = who) (operations h)"

fun pairs_overlapping :: "operation list \<Rightarrow> nat" where
  "pairs_overlapping [] = 0"
| "pairs_overlapping (x # xs) = length (filter (overlaps x) xs) + pairs_overlapping xs"

definition concurrent_pairs :: "history \<Rightarrow> nat" where
  "concurrent_pairs h = pairs_overlapping (operations h)"

definition sequential :: "history \<Rightarrow> bool" where
  "sequential h \<longleftrightarrow> concurrent_pairs h = 0"

text \<open>The two sample histories the module's measurements and the checker's use.\<close>

definition sequential_history :: "nat \<Rightarrow> history result" where
  "sequential_history many = rfold (\<lambda>one h.
     rbind (Command SET ''k'' (PInt (int one)) PNone) (\<lambda>c.
     rbind (h_call h ''c1'' c) (\<lambda>(x, h1).
     h_complete h1 x (PInt (int one))))) [0..<many] History"

definition concurrent_history :: "nat \<Rightarrow> nat \<Rightarrow> history result" where
  "concurrent_history clients each = rfold (\<lambda>round h.
     rbind (rfold (\<lambda>who (open_ones, h).
        rbind (Command INCREMENT ''k'' (PInt 1) PNone) (\<lambda>c.
        rbind (h_call h (''c'' @ decimal who) c) (\<lambda>(x, h1). Inr (open_ones @ [x], h1))))
       [0..<clients] ([], h)) (\<lambda>(open_ones, h1).
     rfold (\<lambda>x h. h_complete h x (PInt (int round + 1))) open_ones h1)) [0..<each] History"

section \<open>The reference machine\<close>

record reference =
  r_machine :: machine
  r_answers :: "pyobj list"

definition Reference :: reference where
  "Reference = \<lparr>r_machine = Machine [], r_answers = []\<rparr>"

definition ref_apply :: "reference \<Rightarrow> cmd \<Rightarrow> draws \<Rightarrow> reference \<times> pyobj result \<times> draws" where
  "ref_apply r c g =
     (case apply_cmd (r_machine r) c g of
        (m, Inl e, g') \<Rightarrow> (r\<lparr>r_machine := m\<rparr>, Inl e, g')
      | (m, Inr out, g') \<Rightarrow> (r\<lparr>r_machine := m, r_answers := r_answers r @ [out]\<rparr>, Inr out, g'))"

fun ref_run :: "reference \<Rightarrow> cmd list \<Rightarrow> draws \<Rightarrow> reference \<times> pyobj list result" where
  "ref_run r [] g = (r, Inr [])"
| "ref_run r (c # cs) g =
     (case ref_apply r c g of
        (r', Inl e, g') \<Rightarrow> (r', Inl e)
      | (r', Inr out, g') \<Rightarrow>
          (case ref_run r' cs g' of
             (r'', Inl e) \<Rightarrow> (r'', Inl e)
           | (r'', Inr outs) \<Rightarrow> (r'', Inr (out # outs))))"

definition ref_state :: "reference \<Rightarrow> dict" where
  "ref_state r = m_state (r_machine r)"

definition ref_digest :: "reference \<Rightarrow> (pyobj \<times> pyobj) list" where
  "ref_digest r = digest (m_state (r_machine r))"

record difference =
  d_position :: nat
  d_command :: cmd
  d_reference :: pyobj
  d_other :: pyobj

record agreement =
  commands :: nat
  differences :: "difference list"
  reference_state :: "(pyobj \<times> pyobj) list"
  other_state :: "(pyobj \<times> pyobj) list"

definition states_agree :: "agreement \<Rightarrow> bool" where
  "states_agree a \<longleftrightarrow> reference_state a = other_state a"

definition agreement_holds :: "agreement \<Rightarrow> bool" where
  "agreement_holds a \<longleftrightarrow> differences a = [] \<and> reference_state a = other_state a"

definition first_difference :: "agreement \<Rightarrow> difference option" where
  "first_difference a = (if differences a \<noteq> [] then Some (differences a ! 0) else None)"

definition compare_runs :: "cmd list \<Rightarrow> pyobj list \<Rightarrow> (pyobj \<times> pyobj) list \<Rightarrow> draws \<Rightarrow> agreement result" where
  "compare_runs cs as st g =
     (if length as \<noteq> length cs then Inl ConfigError
      else case ref_run Reference cs g of
        (r, Inl e) \<Rightarrow> Inl e
      | (r, Inr expected) \<Rightarrow>
          Inr \<lparr>commands = length cs,
               differences = map (\<lambda>(i, l, w). \<lparr>d_position = i, d_command = cs ! i, d_reference = l, d_other = w\<rparr>)
                 (filter (\<lambda>(i, l, w). \<not> py_eq l w) (zip [0..<length cs] (zip expected as))),
               reference_state = ref_digest r, other_state = st\<rparr>)"

definition from_history :: "history \<Rightarrow> cmd list result" where
  "from_history h = (if \<not> sequential h then Inl ConfigError else Inr (map o_command (operations h)))"

section \<open>Well-formed histories\<close>

text \<open>
  Calls are stamped in order, every window lies inside the clock and is not empty, and a client
  that heard an answer heard it after it asked.
\<close>

definition op_ok :: "int \<Rightarrow> operation \<Rightarrow> bool" where
  "op_ok t x \<longleftrightarrow> 1 \<le> called_at x \<and> called_at x \<le> t \<and>
     (case returned_at x of None \<Rightarrow> True | Some r \<Rightarrow> called_at x < r \<and> r \<le> t)"

definition history_ok :: "history \<Rightarrow> bool" where
  "history_ok h \<longleftrightarrow> 0 \<le> clock h \<and> (\<forall>x\<in>set (operations h). op_ok (clock h) x) \<and>
     sorted_wrt (\<lambda>x y. called_at x < called_at y) (operations h)"

lemma op_ok_later: "op_ok t x \<Longrightarrow> t \<le> u \<Longrightarrow> op_ok u x"
  by (auto simp: op_ok_def split: option.splits)

lemma history_ok_empty: "history_ok History"
  by (simp add: history_ok_def History_def)

lemma h_call_ok:
  assumes "history_ok h"
  shows "\<exists>h' x. h_call h who c = Inr (Own (length (operations h)), h') \<and> history_ok h' \<and>
    operations h' = operations h @ [x] \<and> o_client x = who \<and> o_command x = c \<and> \<not> op_complete x \<and>
    clock h' = clock h + 1"
  using assms
  by (auto simp: h_call_def Operation_def Let_def history_ok_def op_complete_def sorted_wrt_append op_ok_def
      split: option.splits)

lemma sorted_wrt_map_cong: "map f xs = map f ys \<Longrightarrow> sorted_wrt (\<lambda>x y. f x < f y) xs = sorted_wrt (\<lambda>x y. f x < (f y :: int)) ys"
  by (metis sorted_wrt_map)

lemma h_complete_own:
  assumes "history_ok h" "i < length (operations h)"
  shows "\<exists>h'. h_complete h (Own i) v = Inr h' \<and> history_ok h' \<and> clock h' = clock h + 1 \<and>
    operations h' = (operations h)[i := (operations h ! i)\<lparr>returned_at := Some (clock h + 1), o_result := v\<rparr>]"
proof -
  let ?x = "(operations h ! i)\<lparr>returned_at := Some (clock h + 1), o_result := v\<rparr>"
  let ?ops = "(operations h)[i := ?x]"
  have "op_ok (clock h) (operations h ! i)" using assms by (auto simp: history_ok_def)
  then have "op_ok (clock h + 1) ?x" by (auto simp: op_ok_def)
  moreover have "\<forall>x\<in>set (operations h). op_ok (clock h + 1) x"
    using assms(1) op_ok_later by (force simp: history_ok_def)
  ultimately have "\<forall>x\<in>set ?ops. op_ok (clock h + 1) x"
    using set_update_subset_insert [of "operations h" i ?x] by blast
  moreover have "map called_at ?ops = map called_at (operations h)"
    using assms(2) by (simp add: map_update list_update_same_conv)
  then have "sorted_wrt (\<lambda>x y. called_at x < called_at y) ?ops"
    using sorted_wrt_map_cong assms(1) by (force simp: history_ok_def)
  ultimately show ?thesis
    using assms by (simp add: h_complete_def Let_def history_ok_def)
qed

lemma h_complete_foreign: "history_ok h \<Longrightarrow> h_complete h (Foreign x) v = Inr h' \<Longrightarrow>
    history_ok h' \<and> operations h' = operations h \<and> clock h' = clock h + 1"
  using op_ok_later by (fastforce simp: h_complete_def history_ok_def split: if_splits)

text \<open>
  In a well-formed history two operations overlap exactly when the earlier one had not returned by
  the time the later one was called.
\<close>

lemma overlaps_sym: "overlaps x y = overlaps y x"
  by (auto simp: overlaps_def split: option.splits)

lemma overlaps_iff:
  assumes "history_ok h" "i < j" "j < length (operations h)"
  shows "overlaps (operations h ! i) (operations h ! j) \<longleftrightarrow>
    (case returned_at (operations h ! i) of None \<Rightarrow> True | Some r \<Rightarrow> called_at (operations h ! j) \<le> r)"
proof -
  have "called_at (operations h ! i) < called_at (operations h ! j)"
    using assms by (simp add: history_ok_def sorted_wrt_iff_nth_less)
  moreover have "op_ok (clock h) (operations h ! j)" using assms(1,3) by (auto simp: history_ok_def)
  ultimately show ?thesis by (auto simp: overlaps_def op_ok_def split: option.splits)
qed

lemma pairs_overlapping_0: "pairs_overlapping xs = 0 \<longleftrightarrow> sorted_wrt (\<lambda>x y. \<not> overlaps x y) xs"
  by (induction xs) (auto simp: filter_empty_conv)

lemma sequential_iff: "sequential h \<longleftrightarrow> sorted_wrt (\<lambda>x y. \<not> overlaps x y) (operations h)"
  by (simp add: sequential_def concurrent_pairs_def pairs_overlapping_0)

section \<open>Properties\<close>

text \<open>
  Recording keeps a history well formed: a call is added with the next stamp and no answer, an
  answer is stamped after everything so far and changes that one operation, answering an operation
  the history does not hold is refused, and two operations overlap exactly when the earlier one
  had not returned when the later was called.
\<close>

theorem history_recorded:
  assumes "history_ok h"
  shows "(\<exists>h' x. h_call h who c = Inr (Own (length (operations h)), h') \<and> history_ok h' \<and>
      operations h' = operations h @ [x] \<and> o_client x = who \<and> o_command x = c \<and>
      called_at x = clock h + 1 \<and> \<not> op_complete x) \<and>
    (\<forall>i<length (operations h). \<exists>h'. h_complete h (Own i) v = Inr h' \<and> history_ok h' \<and>
      length (operations h') = length (operations h) \<and>
      returned_at (operations h' ! i) = Some (clock h + 1) \<and> o_result (operations h' ! i) = v \<and>
      (\<forall>j. j \<noteq> i \<longrightarrow> operations h' ! j = operations h ! j)) \<and>
    (\<forall>x. \<not> (\<exists>y\<in>set (operations h). op_eq y x) \<longrightarrow> h_complete h (Foreign x) v = Inl ConfigError) \<and>
    (\<forall>i j. i < j \<longrightarrow> j < length (operations h) \<longrightarrow>
      (overlaps (operations h ! i) (operations h ! j) \<longleftrightarrow>
        (case returned_at (operations h ! i) of None \<Rightarrow> True | Some r \<Rightarrow> called_at (operations h ! j) \<le> r)))"
proof (intro conjI allI impI)
  show "\<exists>h' x. h_call h who c = Inr (Own (length (operations h)), h') \<and> history_ok h' \<and>
      operations h' = operations h @ [x] \<and> o_client x = who \<and> o_command x = c \<and>
      called_at x = clock h + 1 \<and> \<not> op_complete x"
  proof -
    obtain h' x where x: "h_call h who c = Inr (Own (length (operations h)), h')" "history_ok h'"
      "operations h' = operations h @ [x]" "o_client x = who" "o_command x = c" "\<not> op_complete x"
      using h_call_ok [OF assms, of who c] by blast
    moreover from this(1,3) have "called_at x = clock h + 1"
      by (auto simp: h_call_def Operation_def Let_def split: if_splits)
    ultimately show ?thesis by blast
  qed
next
  fix i assume "i < length (operations h)"
  with h_complete_own [OF assms this, of v]
  show "\<exists>h'. h_complete h (Own i) v = Inr h' \<and> history_ok h' \<and>
      length (operations h') = length (operations h) \<and>
      returned_at (operations h' ! i) = Some (clock h + 1) \<and> o_result (operations h' ! i) = v \<and>
      (\<forall>j. j \<noteq> i \<longrightarrow> operations h' ! j = operations h ! j)" by force
next
  fix x assume "\<not> (\<exists>y\<in>set (operations h). op_eq y x)"
  then show "h_complete h (Foreign x) v = Inl ConfigError" by (simp add: h_complete_def)
next
  fix i j assume "i < j" "j < length (operations h)"
  then show "overlaps (operations h ! i) (operations h ! j) \<longleftrightarrow>
      (case returned_at (operations h ! i) of None \<Rightarrow> True | Some r \<Rightarrow> called_at (operations h ! j) \<le> r)"
    by (rule overlaps_iff [OF assms])
qed

theorem history_recorded_witness:
  "\<exists>h'. h_call History ''c1'' \<lparr>cname = SET, ckey = ''k'', cvalue = PInt 1, cexpected = PNone\<rparr> = Inr (Own 0, h') \<and>
     history_ok h'"
  using history_recorded [OF history_ok_empty] by (fastforce simp: History_def)

end
