(* ===== verification/Linearize.thy ===== *)
theory Linearize
  imports Histories "HOL-Library.Product_Lexorder" "HOL-Library.Multiset"
begin

text \<open>
  \<open>src/rsm/verify/linearize.py\<close>: the search for an order of a history's operations, consistent with
  real time, that one machine running them one at a time would have answered the same way.

  The search walks \<open>(identity, operation)\<close> pairs, the identity of an operation being its position
  in the history. The loop over the operations that remain keeps them split into those it has
  passed and those to come, so leaving the current one out is joining the two parts.
\<close>

section \<open>The search\<close>

definition BUDGET :: nat where "BUDGET = 200000"

datatype verdict_answer = LINEARIZABLE | NOT_LINEARIZABLE | UNKNOWN

record verdict =
  answer :: verdict_answer
  v_states :: nat
  longest_prefix :: nat
  v_operations :: nat
  failed_at :: "operation option"

definition verdict_holds :: "verdict \<Rightarrow> bool" where
  "verdict_holds v \<longleftrightarrow> answer v = LINEARIZABLE"

definition decided :: "verdict \<Rightarrow> bool" where
  "decided v \<longleftrightarrow> answer v \<noteq> UNKNOWN"

type_synonym position = "nat set \<times> (pyobj \<times> pyobj) list"

record search =
  budget :: nat
  states :: nat
  longest :: nat
  deepest :: "operation option"
  visited :: "position set"

definition Search :: "nat \<Rightarrow> search" where
  "Search b = \<lparr>budget = b, states = 0, longest = 0, deepest = None, visited = {}\<rparr>"

definition exhausted :: "search \<Rightarrow> bool" where
  "exhausted s \<longleftrightarrow> states s \<ge> budget s"

definition minimal :: "history \<Rightarrow> (nat \<times> operation) list" where
  "minimal h = sort_key (\<lambda>(i, x). (called_at x, o_client x)) (zip [0..<length (operations h)] (operations h))"

text \<open>Whether an operation may come next, with \<open>others\<close> the rest of the remaining ones.\<close>

definition allowed :: "operation \<Rightarrow> (nat \<times> operation) list \<Rightarrow> bool" where
  "allowed x others \<longleftrightarrow>
     \<not> (\<exists>(i, y)\<in>set others. case returned_at y of None \<Rightarrow> False | Some r \<Rightarrow> r < called_at x)"

definition search_key :: "nat list \<Rightarrow> dict \<Rightarrow> position" where
  "search_key placed d = (set placed, digest d)"

text \<open>What \<open>walk\<close> counts and remembers on entry.\<close>

definition enter :: "nat list \<Rightarrow> (nat \<times> operation) list \<Rightarrow> search \<Rightarrow> search" where
  "enter placed remaining s =
     (let s1 = s\<lparr>states := states s + 1\<rparr> in
      if length placed > longest s1
      then s1\<lparr>longest := length placed,
              deepest := (case remaining of [] \<Rightarrow> None | (i, x) # _ \<Rightarrow> Some x)\<rparr>
      else s1)"

function (sequential) walk ::
    "nat list \<Rightarrow> (nat \<times> operation) list \<Rightarrow> machine \<Rightarrow> search \<Rightarrow> draws \<Rightarrow> bool \<times> search \<times> draws" and
  attempts :: "nat list \<Rightarrow> (nat \<times> operation) list \<Rightarrow> (nat \<times> operation) list \<Rightarrow> machine \<Rightarrow> search \<Rightarrow> draws \<Rightarrow>
    bool \<times> search \<times> draws" where
  "walk placed remaining m s g =
     (let s1 = enter placed remaining s in
      if remaining = [] then (True, s1, g)
      else if exhausted s1 then (False, s1, g)
      else let position = search_key placed (m_state m) in
      if position \<in> visited s1 then (False, s1, g)
      else attempts placed [] remaining m (s1\<lparr>visited := insert position (visited s1)\<rparr>) g)"
| "attempts placed passed [] m s g = (False, s, g)"
| "attempts placed passed ((i, one) # coming) m s g =
     (if \<not> allowed one (passed @ coming) then attempts placed (passed @ [(i, one)]) coming m s g
      else case apply_cmd (Machine (m_state m)) (o_command one) g of
        (attempt, Inl e, g') \<Rightarrow> attempts placed (passed @ [(i, one)]) coming m s g'
      | (attempt, Inr ans, g') \<Rightarrow>
          (if op_complete one \<and> \<not> py_eq ans (o_result one)
           then attempts placed (passed @ [(i, one)]) coming m s g'
           else case walk (placed @ [i]) (passed @ coming) attempt s g' of
             (True, s', g'') \<Rightarrow> (True, s', g'')
           | (False, s', g'') \<Rightarrow> attempts placed (passed @ [(i, one)]) coming m s' g''))"
  by pat_completeness auto

text \<open>Every recursive walk has one operation fewer left, and the loop one fewer to come.\<close>

termination
  by (relation "measures [\<lambda>x. case x of Inl (d, r, m, s, g) \<Rightarrow> length r | Inr (d, p, c, m, s, g) \<Rightarrow> length p + length c,
                          \<lambda>x. case x of Inl (d, r, m, s, g) \<Rightarrow> Suc (length r) | Inr (d, p, c, m, s, g) \<Rightarrow> length c]") auto

declare walk.simps [simp del]

definition check_history :: "history \<Rightarrow> nat \<Rightarrow> draws \<Rightarrow> verdict result" where
  "check_history h b g =
     (if b < 1 then Inl ConfigError
      else let ops = minimal h in
      case walk [] ops (Machine []) (Search b) g of (found, s, g') \<Rightarrow>
        Inr \<lparr>answer = (if found then LINEARIZABLE else if exhausted s then UNKNOWN else NOT_LINEARIZABLE),
             v_states = states s, longest_prefix = longest s, v_operations = length ops,
             failed_at = (if found then None else deepest s)\<rparr>)"

section \<open>What the search decides\<close>

text \<open>
  An order of operations is an explanation when no operation stands before one that returned
  before it was called, and one machine running them in that order succeeds and gives every answer
  that was heard.
\<close>

definition before :: "operation \<Rightarrow> operation \<Rightarrow> bool" where
  "before x y \<longleftrightarrow> (case returned_at x of None \<Rightarrow> False | Some r \<Rightarrow> r < called_at y)"

definition real_time :: "operation list \<Rightarrow> bool" where
  "real_time xs \<longleftrightarrow> sorted_wrt (\<lambda>x y. \<not> before y x) xs"

definition takes :: "dict \<Rightarrow> operation \<Rightarrow> dict option" where
  "takes d x =
     (case fst (effect (o_command x) d (\<lambda>i. 0)) of
        Inl e \<Rightarrow> None
      | Inr (d', out) \<Rightarrow> if op_complete x \<and> \<not> py_eq out (o_result x) then None else Some d')"

fun explains :: "dict \<Rightarrow> operation list \<Rightarrow> bool" where
  "explains d [] = True"
| "explains d (x # xs) = (case takes d x of None \<Rightarrow> False | Some d' \<Rightarrow> explains d' xs)"

definition completable :: "(nat \<times> operation) list \<Rightarrow> dict \<Rightarrow> bool" where
  "completable xs d \<longleftrightarrow> (\<exists>os. mset os = mset xs \<and> real_time (map snd os) \<and> explains d (map snd os))"

definition starts :: "nat \<times> operation \<Rightarrow> (nat \<times> operation) list \<Rightarrow> dict \<Rightarrow> bool" where
  "starts x others d \<longleftrightarrow> allowed (snd x) others \<and>
     (\<exists>d'. takes d (snd x) = Some d' \<and> completable others d')"

definition steady :: "operation \<Rightarrow> bool" where
  "steady x \<longleftrightarrow> cname (o_command x) \<in> set COMMANDS \<and> deterministic (o_command x)"

lemma allowed_before: "allowed x others \<longleftrightarrow> (\<forall>y\<in>snd ` set others. \<not> before y x)"
  by (auto simp: allowed_def before_def split: option.splits)

lemma completable_Nil [simp]: "completable [] d"
  by (simp add: completable_def real_time_def)

lemma completable_mset: "mset xs = mset ys \<Longrightarrow> completable xs d = completable ys d"
  by (simp add: completable_def)

lemma completable_step:
  assumes "xs \<noteq> []"
  shows "completable xs d \<longleftrightarrow> (\<exists>passed x coming. xs = passed @ x # coming \<and> starts x (passed @ coming) d)"
proof
  assume "completable xs d"
  then obtain os where os: "mset os = mset xs" "real_time (map snd os)" "explains d (map snd os)"
    by (auto simp: completable_def)
  with assms obtain x rest where x: "os = x # rest" by (cases os) auto
  then have "x \<in> set xs" using os(1) by (metis list.set_intros(1) set_mset_mset)
  then obtain passed coming where xs: "xs = passed @ x # coming" by (auto simp: in_set_conv_decomp)
  have rest: "mset rest = mset (passed @ coming)" using os(1) x xs by simp
  then have "set rest = set (passed @ coming)" by (metis set_mset_mset)
  then have "allowed (snd x) (passed @ coming)"
    using os(2) x unfolding allowed_before by (auto simp: real_time_def)
  moreover obtain d' where "takes d (snd x) = Some d'" "explains d' (map snd rest)"
    using os(3) x by (auto split: option.splits)
  ultimately have "starts x (passed @ coming) d"
    using rest os(2) x by (auto simp: starts_def completable_def real_time_def)
  with xs show "\<exists>passed x coming. xs = passed @ x # coming \<and> starts x (passed @ coming) d" by blast
next
  assume "\<exists>passed x coming. xs = passed @ x # coming \<and> starts x (passed @ coming) d"
  then obtain passed x coming d' os where xs: "xs = passed @ x # coming"
    and x: "allowed (snd x) (passed @ coming)" "takes d (snd x) = Some d'"
    and os: "mset os = mset (passed @ coming)" "real_time (map snd os)" "explains d' (map snd os)"
    by (auto simp: starts_def completable_def)
  have "set os = set (passed @ coming)" using os(1) by (metis set_mset_mset)
  then have "real_time (map snd (x # os))" "explains d (map snd (x # os))"
    using x os(2,3) unfolding allowed_before by (auto simp: real_time_def)
  moreover have "mset (x # os) = mset xs" using os(1) xs by simp
  ultimately show "completable xs d" unfolding completable_def by blast
qed

text \<open>Only the contents of the state matter, so a digest seen before need not be searched again.\<close>

lemma takes_same:
  assumes "same_dict d e" "text_keys d" "text_keys e" "takes d x = Some d'"
  shows "\<exists>e'. takes e x = Some e' \<and> same_dict d' e' \<and> text_keys d' \<and> text_keys e'"
proof -
  let ?g = "\<lambda>i::nat. 0 :: nat"
  obtain out g' where d: "effect (o_command x) d ?g = (Inr (d', out), g')"
    "\<not> (op_complete x \<and> \<not> py_eq out (o_result x))"
    using assms(4) by (auto simp: takes_def split: sum.splits prod.splits if_splits)
      (metis (no_types) fst_conv surj_pair)+
  then obtain e' g'' where e: "effect (o_command x) e ?g = (Inr (e', out), g'')" "same_dict d' e'"
    using effect_same [OF assms(1-3), of "o_command x" ?g] by auto
  then have "takes e x = Some e'" using d(2) by (auto simp: takes_def)
  then show ?thesis
    using e effect_text_keys [OF d(1) assms(2)] effect_text_keys [OF e(1) assms(3)] by blast
qed

lemma explains_same:
  "explains d xs \<Longrightarrow> same_dict d e \<Longrightarrow> text_keys d \<Longrightarrow> text_keys e \<Longrightarrow> explains e xs"
proof (induction xs arbitrary: d e)
  case (Cons x xs)
  then obtain d' where d': "takes d x = Some d'" "explains d' xs" by (auto split: option.splits)
  with takes_same [OF Cons.prems(2-4)] Cons.IH show ?case by fastforce
qed simp

lemma completable_same:
  "completable xs d \<Longrightarrow> same_dict d e \<Longrightarrow> text_keys d \<Longrightarrow> text_keys e \<Longrightarrow> completable xs e"
  unfolding completable_def using explains_same by blast

lemma takes_apply:
  assumes "steady x"
  shows "takes d x = (case apply_cmd (Machine d) (o_command x) g of
      (m, Inl e, g') \<Rightarrow> None
    | (m, Inr ans, g') \<Rightarrow> if op_complete x \<and> \<not> py_eq ans (o_result x) then None else Some (m_state m))"
proof -
  have "effect (o_command x) d g = (fst (effect (o_command x) d (\<lambda>i. 0)), g)"
    using effect_deterministic assms unfolding steady_def by blast
  then show ?thesis
    by (auto simp: takes_def apply_cmd_def Machine_def Let_def split: sum.splits prod.splits)
qed

lemma takes_text_keys: "takes d x = Some d' \<Longrightarrow> text_keys d \<Longrightarrow> text_keys d'"
  using takes_same [of d d x d'] by (auto simp: same_dict_def)

text \<open>
  Every position the search has left is one no order starts from; the ones it is still inside are
  open, and have placed fewer operations than the one it is at.
\<close>

definition left_of :: "nat set \<Rightarrow> (nat \<times> operation) list \<Rightarrow> (nat \<times> operation) list" where
  "left_of K all_ops = filter (\<lambda>x. fst x \<notin> K) all_ops"

definition hopeless :: "(nat \<times> operation) list \<Rightarrow> position \<Rightarrow> bool" where
  "hopeless all_ops = (\<lambda>(K, dg). \<forall>d. text_keys d \<longrightarrow> digest d = dg \<longrightarrow> \<not> completable (left_of K all_ops) d)"

definition settled_but :: "(nat \<times> operation) list \<Rightarrow> position set \<Rightarrow> search \<Rightarrow> bool" where
  "settled_but all_ops opened s \<longleftrightarrow> exhausted s \<or> (\<forall>pos\<in>visited s. pos \<in> opened \<or> hopeless all_ops pos)"

definition open_below :: "nat \<Rightarrow> position set \<Rightarrow> bool" where
  "open_below n opened \<longleftrightarrow> (\<forall>(K, dg)\<in>opened. card K < n)"

definition later :: "search \<Rightarrow> search \<Rightarrow> bool" where
  "later s s' \<longleftrightarrow> states s \<le> states s' \<and> budget s' = budget s"

lemma later_refl [simp]: "later s s"
  by (simp add: later_def)

lemma later_trans: "later s s' \<Longrightarrow> later s' s'' \<Longrightarrow> later s s''"
  by (auto simp: later_def)

lemma later_enter [simp]: "later s (enter placed xs s)"
  by (simp add: later_def enter_def Let_def)

lemma later_visited [simp]: "later s (s'\<lparr>visited := V\<rparr>) \<longleftrightarrow> later s s'"
  by (simp add: later_def)

lemma visited_enter [simp]: "visited (enter placed xs s) = visited s"
  by (simp add: enter_def Let_def)

lemma exhausted_later: "exhausted s \<Longrightarrow> later s s' \<Longrightarrow> exhausted s'"
  by (simp add: exhausted_def later_def)

lemma hopelessI:
  assumes "text_keys d" "\<not> completable (left_of K all_ops) d"
  shows "hopeless all_ops (K, digest d)"
  unfolding hopeless_def prod.case
proof (intro allI impI)
  fix e assume e: "text_keys e" "digest e = digest d"
  show "\<not> completable (left_of K all_ops) e"
    using completable_same [of _ e d] digest_same_dict [OF e(1) assms(1) e(2)] assms e(1) by blast
qed

lemma hopelessD: "hopeless all_ops (K, digest d) \<Longrightarrow> text_keys d \<Longrightarrow> \<not> completable (left_of K all_ops) d"
  by (auto simp: hopeless_def)

lemma left_of_insert:
  assumes "left_of K all_ops = passed @ (i, x) # coming" "distinct (map fst all_ops)"
  shows "left_of (insert i K) all_ops = passed @ coming"
proof -
  have "left_of (insert i K) all_ops = filter (\<lambda>y. fst y \<noteq> i) (left_of K all_ops)"
    by (auto simp: left_of_def intro: filter_cong)
  moreover have "distinct (map fst (left_of K all_ops))"
    using assms(2) by (simp add: left_of_def distinct_map_filter)
  then have "\<forall>y\<in>set (passed @ coming). fst y \<noteq> i" using assms(1) by force
  then have "filter (\<lambda>y. fst y \<noteq> i) (passed @ coming) = passed @ coming" by simp
  ultimately show ?thesis using assms(1) by simp
qed

definition found_right :: "(nat \<times> operation) list \<Rightarrow> position set \<Rightarrow> search \<Rightarrow> bool \<Rightarrow> bool \<times> search \<times> draws \<Rightarrow> bool" where
  "found_right all_ops opened s possible r \<longleftrightarrow> later s (fst (snd r)) \<and>
     (fst r \<longrightarrow> possible) \<and>
     (\<not> fst r \<longrightarrow> exhausted (fst (snd r)) \<or> \<not> possible \<and> settled_but all_ops opened (fst (snd r)))"

lemma found_right_outer:
  "found_right A inner s P r \<Longrightarrow> later t s \<Longrightarrow>
   (\<And>s'. settled_but A inner s' \<Longrightarrow> \<not> P \<Longrightarrow> settled_but A opened s') \<Longrightarrow> found_right A opened t P r"
  unfolding found_right_def using later_trans by blast

lemma found_right_either:
  "found_right A opened s beyond r \<Longrightarrow> later t s \<Longrightarrow> (here \<Longrightarrow> exhausted s) \<Longrightarrow>
   found_right A opened t (here \<or> beyond) r"
  unfolding found_right_def using later_trans exhausted_later by blast

lemma starts_passed:
  assumes "steady x" "text_keys d"
  shows "starts (i, x) others d \<longleftrightarrow> allowed x others \<and>
    (case apply_cmd (Machine d) (o_command x) g of
       (m, Inl e, g') \<Rightarrow> False
     | (m, Inr ans, g') \<Rightarrow> \<not> (op_complete x \<and> \<not> py_eq ans (o_result x)) \<and> completable others (m_state m))"
  using takes_apply [OF assms(1), of d g]
  by (auto simp: starts_def split: prod.splits sum.splits if_splits)

lemma split_first:
  "(\<exists>p x c. y # ys = p @ x # c \<and> P p x c) \<longleftrightarrow> P [] y ys \<or> (\<exists>p x c. ys = p @ x # c \<and> P (y # p) x c)"
proof
  assume "\<exists>p x c. y # ys = p @ x # c \<and> P p x c"
  then obtain p x c where "y # ys = p @ x # c" "P p x c" by blast
  then show "P [] y ys \<or> (\<exists>p x c. ys = p @ x # c \<and> P (y # p) x c)" by (cases p) auto
next
  assume "P [] y ys \<or> (\<exists>p x c. ys = p @ x # c \<and> P (y # p) x c)"
  then show "\<exists>p x c. y # ys = p @ x # c \<and> P p x c" by (metis append_Cons append_Nil)
qed

text \<open>The loop and the walk, together.\<close>

lemma search_right:
  assumes "distinct (map fst all_ops)" "\<forall>x\<in>set all_ops. steady (snd x)"
  shows "text_keys (m_state m) \<Longrightarrow> distinct placed \<Longrightarrow> remaining = left_of (set placed) all_ops \<Longrightarrow>
      settled_but all_ops opened s \<Longrightarrow> open_below (length placed) opened \<Longrightarrow>
      found_right all_ops opened s (completable remaining (m_state m)) (walk placed remaining m s g)"
    and "text_keys (m_state m) \<Longrightarrow> distinct placed \<Longrightarrow> passed @ coming = left_of (set placed) all_ops \<Longrightarrow>
      settled_but all_ops opened s \<Longrightarrow> open_below (Suc (length placed)) opened \<Longrightarrow>
      found_right all_ops opened s
        (\<exists>p x c. coming = p @ x # c \<and> starts x (passed @ p @ c) (m_state m)) (attempts placed passed coming m s g)"
proof (induction placed remaining m s g and placed passed coming m s g arbitrary: opened and opened
       rule: walk_attempts.induct)
  case (1 placed remaining m s g)
  let ?s1 = "enter placed remaining s" and ?pos = "search_key placed (m_state m)"
  let ?s2 = "?s1\<lparr>visited := insert ?pos (visited ?s1)\<rparr>"
  show ?case
  proof (cases "remaining = [] \<or> exhausted ?s1")
    case True
    then show ?thesis by (auto simp: walk.simps found_right_def Let_def)
  next
    case False
    then have going: "\<not> exhausted s" using exhausted_later later_enter by blast
    show ?thesis
    proof (cases "?pos \<in> visited ?s1")
      case True
      have "?pos \<notin> opened"
        using "1.prems"(2,5) by (auto simp: open_below_def search_key_def distinct_card)
      then have "hopeless all_ops ?pos" using True going "1.prems"(4) by (auto simp: settled_but_def)
      then have "\<not> completable remaining (m_state m)"
        using hopelessD "1.prems"(1,3) by (simp add: search_key_def)
      then show ?thesis using True False going "1.prems"(4) by (simp add: walk.simps found_right_def Let_def settled_but_def)
    next
      case new: False
      let ?r = "attempts placed [] remaining m ?s2 g"
      have "settled_but all_ops (insert ?pos opened) ?s2"
        using going "1.prems"(4) by (auto simp: settled_but_def)
      moreover have "open_below (Suc (length placed)) (insert ?pos opened)"
        using "1.prems"(2,5) by (fastforce simp: open_below_def search_key_def distinct_card)
      ultimately have r: "found_right all_ops (insert ?pos opened) ?s2
          (\<exists>p x c. remaining = p @ x # c \<and> starts x (p @ c) (m_state m)) ?r"
        using "1.IH" [OF refl _ _ refl] False new "1.prems"(1-3) by simp
      then have r: "found_right all_ops (insert ?pos opened) ?s2 (completable remaining (m_state m)) ?r"
        using completable_step [of remaining "m_state m"] False by simp
      have run: "walk placed remaining m s g = ?r" using False new by (simp add: walk.simps Let_def)
      have "settled_but all_ops opened s'"
        if "settled_but all_ops (insert ?pos opened) s'" "\<not> completable remaining (m_state m)" for s'
        using that hopelessI [OF "1.prems"(1)] "1.prems"(3) by (auto simp: settled_but_def search_key_def)
      moreover have "later s ?s2" by simp
      ultimately show ?thesis unfolding run by (rule found_right_outer [OF r, rotated])
    qed
  qed
next
  case (2 placed passed m s g)
  then show ?case by (simp add: found_right_def)
next
  case (3 placed passed i one coming m s g)
  let ?rest = "\<lambda>s g. attempts placed (passed @ [(i, one)]) coming m s g"
  let ?more = "\<exists>p x c. coming = p @ x # c \<and> starts x ((passed @ [(i, one)]) @ p @ c) (m_state m)"
  let ?here = "starts (i, one) (passed @ coming) (m_state m)"
  have cases_of: "(\<exists>p x c. (i, one) # coming = p @ x # c \<and> starts x (passed @ p @ c) (m_state m)) \<longleftrightarrow> ?here \<or> ?more"
    unfolding split_first by simp
  have eqs: "(passed @ [(i, one)]) @ coming = left_of (set placed) all_ops"
    "left_of (set placed) all_ops = passed @ (i, one) # coming" using "3.prems"(3) by simp_all
  then have "(i, one) \<in> set (left_of (set placed) all_ops)" by simp
  then have i: "i \<notin> set placed" "steady one" using assms(2) by (auto simp: left_of_def)
  obtain attempt r g' where a: "apply_cmd (Machine (m_state m)) (o_command one) g = (attempt, r, g')"
    by (metis surj_pair)
  note here = starts_passed [OF i(2) "3.prems"(1), of i "passed @ coming" g, unfolded a prod.case]
  show ?case
  proof (cases "allowed one (passed @ coming)")
    case False
    then have "\<not> ?here" "attempts placed passed ((i, one) # coming) m s g = ?rest s g"
      using here by simp_all
    then show ?thesis
      unfolding cases_of using "3.IH"(1) [OF False "3.prems"(1,2) eqs(1) "3.prems"(4,5)]
      by (simp add: found_right_either)
  next
    case allowed: True
    then have goes: "\<not> \<not> allowed one (passed @ coming)" by simp
    show ?thesis
    proof (cases r)
      case (Inl e)
      then have "\<not> ?here" "attempts placed passed ((i, one) # coming) m s g = ?rest s g'"
        using here allowed a by simp_all
      then show ?thesis
        unfolding cases_of
        using "3.IH"(2) [OF goes a [symmetric] refl Inl "3.prems"(1,2) eqs(1) "3.prems"(4,5)]
        by (simp add: found_right_either)
    next
      case (Inr ans)
      show ?thesis
      proof (cases "op_complete one \<and> \<not> py_eq ans (o_result one)")
        case True
        then have "\<not> ?here" "attempts placed passed ((i, one) # coming) m s g = ?rest s g'"
          using here allowed a Inr by simp_all
        then show ?thesis
          unfolding cases_of
          using "3.IH"(3) [OF goes a [symmetric] refl Inr True "3.prems"(1,2) eqs(1) "3.prems"(4,5)]
          by (simp add: found_right_either)
      next
        case matching: False
        let ?w = "walk (placed @ [i]) (passed @ coming) attempt s g'"
        obtain b s' g'' where w: "?w = (b, s', g'')" by (metis surj_pair)
        have "takes (m_state m) one = Some (m_state attempt)"
          using takes_apply [OF i(2), of "m_state m" g] a Inr matching by simp
        then have keys: "text_keys (m_state attempt)" using takes_text_keys "3.prems"(1) by blast
        have "distinct (placed @ [i])" using "3.prems"(2) i(1) by simp
        moreover have "passed @ coming = left_of (set (placed @ [i])) all_ops"
          using left_of_insert [OF eqs(2) assms(1)] by simp
        moreover have "open_below (length (placed @ [i])) opened" using "3.prems"(5) by simp
        ultimately have wr: "found_right all_ops opened s (completable (passed @ coming) (m_state attempt)) ?w"
          using "3.IH"(4) [OF goes a [symmetric] refl Inr matching keys] "3.prems"(4) by simp
        have here': "?here \<longleftrightarrow> completable (passed @ coming) (m_state attempt)"
          using here Inr allowed matching by simp
        show ?thesis
        proof (cases b)
          case True
          then have "attempts placed passed ((i, one) # coming) m s g = ?w"
            unfolding attempts.simps if_not_P [OF goes] a prod.case Inr sum.case if_not_P [OF matching] w
            by simp
          then show ?thesis
            unfolding cases_of using wr w here' True by (simp add: found_right_def)
        next
          case False
          then have bF: "b = False" by simp
          have run: "attempts placed passed ((i, one) # coming) m s g = ?rest s' g''"
            unfolding attempts.simps if_not_P [OF goes] a prod.case Inr sum.case if_not_P [OF matching] w
            using False by simp
          have w': "later s s'" "exhausted s' \<or> \<not> ?here" "settled_but all_ops opened s'"
            using wr w False here' by (auto simp: found_right_def settled_but_def)
          have "found_right all_ops opened s' ?more (?rest s' g'')"
            using "3.IH"(5) [OF goes a [symmetric] refl Inr matching w [symmetric] bF refl "3.prems"(1,2) eqs(1) w'(3) "3.prems"(5)] .
          then show ?thesis
            unfolding run cases_of by (rule found_right_either) (use w' in blast)+
        qed
      qed
    qed
  qed
qed

section \<open>What the search costs\<close>

text \<open>
  Once the budget is spent every walk returns at once, but each loop the search is inside still
  tries the operations it has left.
\<close>

fun overrun_of :: "nat \<Rightarrow> nat" where
  "overrun_of 0 = 0"
| "overrun_of (Suc r) = Suc r + overrun_of r"

lemma overrun_of_eq: "2 * overrun_of r = r * (r + 1)"
  by (induction r) auto

lemma states_enter [simp]: "states (enter placed remaining s) = states s + 1"
  by (simp add: enter_def Let_def)

lemma budget_enter [simp]: "budget (enter placed remaining s) = budget s"
  by (simp add: enter_def Let_def)

lemma search_cost:
  "states (fst (snd (walk placed remaining m s g))) \<le> max (states s + 1) (budget s + overrun_of (length remaining)) \<and>
   budget (fst (snd (walk placed remaining m s g))) = budget s"
  "states (fst (snd (attempts placed passed coming m s g))) \<le>
     max (states s + length coming) (budget s + length coming + overrun_of (length passed + length coming - 1)) \<and>
   budget (fst (snd (attempts placed passed coming m s g))) = budget s"
proof (induction placed remaining m s g and placed passed coming m s g rule: walk_attempts.induct)
  case (1 placed remaining m s g)
  show ?case
  proof (cases "remaining = [] \<or> exhausted (enter placed remaining s) \<or>
      search_key placed (m_state m) \<in> visited (enter placed remaining s)")
    case True
    then show ?thesis by (auto simp: walk.simps Let_def)
  next
    case False
    then obtain r where r: "length remaining = Suc r" by (cases remaining) auto
    from False have "states s + 1 < budget s" by (simp add: exhausted_def)
    with "1.IH" [OF refl _ _ refl] False r show ?thesis by (simp add: walk.simps Let_def)
  qed
next
  case (3 placed passed i one coming m s g)
  let ?rest = "\<lambda>s g. attempts placed (passed @ [(i, one)]) coming m s g"
  let ?k = "overrun_of (length passed + length coming)"
  have goal: "?case \<longleftrightarrow>
      states (fst (snd (attempts placed passed ((i, one) # coming) m s g)))
        \<le> max (states s + Suc (length coming)) (budget s + Suc (length coming) + ?k) \<and>
      budget (fst (snd (attempts placed passed ((i, one) # coming) m s g))) = budget s"
    by simp
  have lift: "states t \<le> max (states s + length coming) (budget s + length coming + ?k) \<Longrightarrow>
      states t \<le> max (states s + Suc (length coming)) (budget s + Suc (length coming) + ?k)" for t :: search
    by simp
  obtain attempt r g' where a: "apply_cmd (Machine (m_state m)) (o_command one) g = (attempt, r, g')"
    by (metis surj_pair)
  show ?case
  proof (cases "allowed one (passed @ coming)")
    case False
    then show ?thesis using "3.IH"(1) lift unfolding goal by simp
  next
    case allowed: True
    then have goes: "\<not> \<not> allowed one (passed @ coming)" by simp
    show ?thesis
    proof (cases r)
      case (Inl e)
      then show ?thesis
        using "3.IH"(2) [OF goes a [symmetric] refl Inl] lift allowed a unfolding goal by simp
    next
      case (Inr ans)
      note step = attempts.simps(2) [of placed passed i one coming m s g, unfolded if_not_P [OF goes] a prod.case Inr sum.case]
      show ?thesis
      proof (cases "op_complete one \<and> \<not> py_eq ans (o_result one)")
        case True
        then have "attempts placed passed ((i, one) # coming) m s g = ?rest s g'" unfolding step by simp
        then show ?thesis
          using "3.IH"(3) [OF goes a [symmetric] refl Inr True] lift unfolding goal by simp
      next
        case matching: False
        obtain b s' g'' where w: "walk (placed @ [i]) (passed @ coming) attempt s g' = (b, s', g'')"
          by (metis surj_pair)
        have child: "states s' \<le> max (states s + 1) (budget s + ?k)" "budget s' = budget s"
          using "3.IH"(4) [OF goes a [symmetric] refl Inr matching] w by simp_all
        show ?thesis
        proof (cases b)
          case True
          then have run: "attempts placed passed ((i, one) # coming) m s g = (True, s', g'')"
            unfolding step if_not_P [OF matching] w by simp
          show ?thesis using child unfolding goal run by auto
        next
          case False
          then have run: "attempts placed passed ((i, one) # coming) m s g = ?rest s' g''"
            unfolding step if_not_P [OF matching] w by simp
          have "states (fst (snd (?rest s' g''))) \<le>
                max (states s' + length coming) (budget s' + length coming + ?k) \<and>
              budget (fst (snd (?rest s' g''))) = budget s'"
            using "3.IH"(5) [OF goes a [symmetric] refl Inr matching w [symmetric] _ refl] False by simp
          then show ?thesis using child unfolding goal run by auto
        qed
      qed
    qed
  qed
qed simp

section \<open>Every order there is\<close>

definition explained :: "history \<Rightarrow> bool" where
  "explained h \<longleftrightarrow> (\<exists>os. mset os = mset (operations h) \<and> real_time os \<and> explains [] os)"

text \<open>
  The textbook's question: the operations that were never answered may be placed or left out.
\<close>

definition linearizable :: "history \<Rightarrow> bool" where
  "linearizable h \<longleftrightarrow> (\<exists>os. mset (h_completed h) \<subseteq># mset os \<and> mset os \<subseteq># mset (operations h) \<and>
     real_time os \<and> explains [] os)"

lemma map_snd_indexed: "map snd (zip [0..<length xs] xs) = xs"
  by simp

lemma minimal_parts:
  "distinct (map fst (minimal h))" "mset (map snd (minimal h)) = mset (operations h)"
  "set (map snd (minimal h)) = set (operations h)" "length (minimal h) = length (operations h)"
proof -
  let ?xs = "zip [0..<length (operations h)] (operations h)"
  have m: "mset (minimal h) = mset ?xs" by (simp add: minimal_def)
  then have "mset (map fst (minimal h)) = mset (map fst ?xs)" by (simp only: mset_map)
  then show "distinct (map fst (minimal h))"
    by (metis distinct_upt length_upt map_fst_zip minus_nat.diff_0 mset_eq_imp_distinct_iff)
  have "mset (map snd (minimal h)) = mset (map snd ?xs)" using m by (simp only: mset_map)
  then show s: "mset (map snd (minimal h)) = mset (operations h)" by (simp only: map_snd_indexed)
  then show "set (map snd (minimal h)) = set (operations h)" by (metis set_mset_mset)
  show "length (minimal h) = length (operations h)" using m by (metis length_map map_snd_indexed size_mset)
qed

lemma pick_pairs: "mset ys = mset (map f xs) \<Longrightarrow> \<exists>zs. map f zs = ys \<and> mset zs = mset xs"
proof (induction ys arbitrary: xs)
  case (Cons y ys)
  then have "y \<in> set (map f xs)" by (metis list.set_intros(1) set_mset_mset)
  then obtain a x b where xs: "xs = a @ x # b" "f x = y" by (auto simp: in_set_conv_decomp)
  with Cons.prems have "mset ys = mset (map f (a @ b))" by simp
  with Cons.IH obtain zs where "map f zs = ys" "mset zs = mset (a @ b)" by blast
  with xs have "map f (x # zs) = y # ys \<and> mset (x # zs) = mset xs" by simp
  then show ?case by (rule exI)
qed simp

lemma completable_minimal: "completable (minimal h) [] \<longleftrightarrow> explained h"
proof
  assume "completable (minimal h) []"
  then obtain os where "mset os = mset (minimal h)" "real_time (map snd os)" "explains [] (map snd os)"
    by (auto simp: completable_def)
  then show "explained h"
    unfolding explained_def using minimal_parts(2) by (metis mset_map)
next
  assume "explained h"
  then obtain os where os: "mset os = mset (map snd (minimal h))" "real_time os" "explains [] os"
    unfolding explained_def minimal_parts(2) by blast
  with pick_pairs [OF os(1)] show "completable (minimal h) []" unfolding completable_def by blast
qed

lemma check_search:
  assumes "\<forall>x\<in>set (operations h). steady x" "1 \<le> b"
  shows "\<exists>v. check_history h b g = Inr v \<and> (answer v = LINEARIZABLE \<longrightarrow> explained h) \<and>
    (answer v = NOT_LINEARIZABLE \<longrightarrow> \<not> explained h) \<and> (answer v = UNKNOWN \<longrightarrow> b \<le> v_states v)"
proof -
  obtain found s g' where w: "walk [] (minimal h) (Machine []) (Search b) g = (found, s, g')" by (metis surj_pair)
  have "\<forall>x\<in>set (minimal h). steady (snd x)" using assms(1) minimal_parts(3) [of h] by auto
  moreover have "text_keys (m_state (Machine []))" by (simp add: Machine_def text_keys_def)
  ultimately have "found_right (minimal h) {} (Search b) (completable (minimal h) (m_state (Machine [])))
      (walk [] (minimal h) (Machine []) (Search b) g)"
    by (intro search_right(1) minimal_parts(1))
      (simp_all add: left_of_def settled_but_def open_below_def Search_def)
  then have "found_right (minimal h) {} (Search b) (explained h) (found, s, g')"
    by (simp add: w [unfolded Machine_def] Machine_def completable_minimal)
  then show ?thesis
    using assms(2) w by (auto simp: check_history_def found_right_def exhausted_def later_def Search_def)
qed

section \<open>Properties\<close>


definition two_writers :: history where
  "two_writers = \<lparr>operations =
     [\<lparr>o_client = ''c1'', o_command = \<lparr>cname = SET, ckey = ''k'', cvalue = PInt 1, cexpected = PNone\<rparr>,
       called_at = 1, returned_at = Some 3, o_result = PInt 1\<rparr>,
      \<lparr>o_client = ''c2'', o_command = \<lparr>cname = COMPARE_AND_SET, ckey = ''k'', cvalue = PInt 2, cexpected = PInt 1\<rparr>,
       called_at = 2, returned_at = Some 4, o_result = PBool True\<rparr>], clock = 4\<rparr>"


text \<open>
  The budget is kept up to the loops the search is inside when it runs out: a check of \<open>n\<close>
  operations visits at most \<open>n (n + 1) / 2\<close> positions more than its budget and then answers, on
  every history, and a budget of none is refused.
\<close>

theorem check_cost:
  "case check_history h b g of
     Inl e \<Rightarrow> b = 0 \<and> e = ConfigError
   | Inr v \<Rightarrow> 0 < b \<and> v_operations v = length (operations h) \<and>
       2 * v_states v \<le> 2 * b + length (operations h) * (length (operations h) + 1)"
proof -
  obtain found s g' where w: "walk [] (minimal h) (Machine []) (Search b) g = (found, s, g')" by (metis surj_pair)
  have "states s \<le> max (states (Search b) + 1) (budget (Search b) + overrun_of (length (minimal h)))"
    using search_cost(1) [of "[]" "minimal h" "Machine []" "Search b" g] w by simp
  then have "1 \<le> b \<longrightarrow> states s \<le> b + overrun_of (length (operations h))"
    by (auto simp: Search_def minimal_parts(4))
  then have "1 \<le> b \<longrightarrow> 2 * states s \<le> 2 * b + length (operations h) * (length (operations h) + 1)"
    using overrun_of_eq [of "length (operations h)"] by linarith
  then show ?thesis by (simp add: check_history_def w minimal_parts(4))
qed

text \<open>
  An operation without an answer can always be placed last, provided its command cannot fail.
\<close>

definition cannot_fail :: "cmd \<Rightarrow> bool" where
  "cannot_fail c \<longleftrightarrow> cname c \<in> {SET, DELETE, COMPARE_AND_SET}"

lemma takes_unanswered:
  "\<not> op_complete x \<Longrightarrow> cannot_fail (o_command x) \<Longrightarrow> \<exists>d'. takes d x = Some d'"
  by (auto simp: takes_def effect_def cannot_fail_def command_names Let_def)

lemma explains_more:
  assumes "explains d xs" "\<forall>y\<in>set ys. \<not> op_complete y \<and> cannot_fail (o_command y)"
  shows "explains d (xs @ ys)"
proof -
  have "explains d ys" for d
    using assms(2)
  proof (induction ys arbitrary: d)
    case (Cons y ys)
    then show ?case using takes_unanswered [of y d] by auto
  qed simp
  with assms(1) show ?thesis
    by (induction xs arbitrary: d) (auto split: option.splits)
qed

lemma explained_linearizable:
  assumes "\<forall>x\<in>set (h_pending h). cannot_fail (o_command x)"
  shows "explained h \<longleftrightarrow> linearizable h"
proof
  assume "explained h"
  then show "linearizable h"
    unfolding explained_def linearizable_def h_completed_def mset_filter
    by (metis multiset_filter_subset subset_mset.order_refl)
next
  assume "linearizable h"
  then obtain os where os: "mset (h_completed h) \<subseteq># mset os" "mset os \<subseteq># mset (operations h)"
    "real_time os" "explains [] os"
    unfolding linearizable_def by blast
  obtain ys where ys: "mset ys = mset (operations h) - mset os" by (metis ex_mset)
  have "mset ys \<subseteq># mset (operations h) - mset (h_completed h)"
    unfolding ys using os(1) by (auto simp: subseteq_mset_def intro: diff_le_mono2)
  moreover have "mset (operations h) - mset (h_completed h) = mset (h_pending h)"
    by (simp add: h_completed_def h_pending_def) (metis add_diff_cancel_left' multiset_partition)
  ultimately have "set ys \<subseteq> set (h_pending h)" by (metis set_mset_mono set_mset_mset)
  then have y: "\<forall>y\<in>set ys. \<not> op_complete y \<and> cannot_fail (o_command y)"
    using assms by (auto simp: h_pending_def)
  have last: "\<not> before y x" if "y \<in> set ys" for x y
    using y that by (auto simp: before_def op_complete_def)
  then have "sorted_wrt (\<lambda>x y. \<not> before y x) ys" by (simp add: sorted_wrt_iff_nth_less)
  with os(3) last have "real_time (os @ ys)" by (simp add: real_time_def sorted_wrt_append)
  moreover have "explains [] (os @ ys)" by (rule explains_more [OF os(4) y])
  moreover have "mset (os @ ys) = mset (operations h)" using ys os(2) by simp
  ultimately show "explained h" unfolding explained_def by blast
qed

text \<open>
  When every operation that was never answered is one that cannot fail, the check's verdict is
  the textbook's: such operations may be placed or left out.
\<close>

theorem pending_dropped:
  assumes "\<forall>x\<in>set (operations h). cname (o_command x) \<in> set COMMANDS \<and> deterministic (o_command x)"
    and "\<forall>x\<in>set (h_pending h). cname (o_command x) \<in> {SET, DELETE, COMPARE_AND_SET}"
    and "check_history h b g = Inr v" "decided v"
  shows "verdict_holds v \<longleftrightarrow> linearizable h"
proof -
  have "1 \<le> b" using assms(3) by (cases b) (simp_all add: check_history_def)
  moreover have "\<forall>x\<in>set (operations h). steady x" using assms(1) by (simp add: steady_def)
  ultimately have "(answer v = LINEARIZABLE \<longrightarrow> explained h) \<and> (answer v = NOT_LINEARIZABLE \<longrightarrow> \<not> explained h)"
    using check_search [of h b g] assms(3) by auto
  moreover have "explained h \<longleftrightarrow> linearizable h"
    using assms(2) by (intro explained_linearizable) (simp add: cannot_fail_def)
  ultimately show ?thesis using assms(4) by (cases "answer v") (auto simp: decided_def verdict_holds_def)
qed

lemma two_writers_checked:
  "case check_history two_writers 10 (\<lambda>i. 0) of Inl e \<Rightarrow> False | Inr v \<Rightarrow> answer v = LINEARIZABLE"
  by code_simp

theorem pending_dropped_witness: "linearizable two_writers"
proof -
  obtain v where v: "check_history two_writers 10 (\<lambda>i. 0) = Inr v" "answer v = LINEARIZABLE"
    using two_writers_checked by (auto split: sum.splits)
  have "\<forall>x\<in>set (operations two_writers). cname (o_command x) \<in> set COMMANDS \<and> deterministic (o_command x)"
    "\<forall>x\<in>set (h_pending two_writers). cname (o_command x) \<in> {SET, DELETE, COMPARE_AND_SET}"
    by (simp_all add: two_writers_def COMMANDS_def deterministic_def command_names h_pending_def op_complete_def)
  from pending_dropped [OF this v(1)] v(2) show ?thesis by (simp add: decided_def verdict_holds_def)
qed

text \<open>An increment of a key that holds text, never answered: it cannot take effect anywhere.\<close>

definition stray_increment :: history where
  "stray_increment = \<lparr>operations =
     [\<lparr>o_client = ''c1'', o_command = \<lparr>cname = SET, ckey = ''k'', cvalue = PStr ''s'', cexpected = PNone\<rparr>,
       called_at = 1, returned_at = Some 2, o_result = PStr ''s''\<rparr>,
      \<lparr>o_client = ''c2'', o_command = \<lparr>cname = INCREMENT, ckey = ''k'', cvalue = PInt 1, cexpected = PNone\<rparr>,
       called_at = 3, returned_at = None, o_result = PNone\<rparr>], clock = 3\<rparr>"

text \<open>
  A pending operation is placed or the history is rejected; it is never left out. An increment
  of a text that was refused, and so never answered, gets a history called not linearizable that
  is linearizable without it.
\<close>

theorem pending_increment_rejected:
  "(\<exists>v. check_history stray_increment BUDGET (\<lambda>i. 0) = Inr v \<and> answer v = NOT_LINEARIZABLE) \<and>
   linearizable stray_increment"
proof
  have "case check_history stray_increment BUDGET (\<lambda>i. 0) of Inl e \<Rightarrow> False | Inr v \<Rightarrow> answer v = NOT_LINEARIZABLE"
    by code_simp
  then show "\<exists>v. check_history stray_increment BUDGET (\<lambda>i. 0) = Inr v \<and> answer v = NOT_LINEARIZABLE"
    by (auto split: sum.splits)
  let ?x = "operations stray_increment ! 0"
  have "mset (h_completed stray_increment) \<subseteq># mset [?x]" "mset [?x] \<subseteq># mset (operations stray_increment)"
    by (simp_all add: h_completed_def op_complete_def stray_increment_def)
  moreover have "real_time [?x]" by (simp add: real_time_def)
  moreover have "explains [] [?x]"
    by (simp add: stray_increment_def takes_def effect_def command_names py_eq_def op_complete_def)
  ultimately show "linearizable stray_increment" unfolding linearizable_def by blast
qed

text \<open>One order, when nothing overlaps.\<close>

lemma one_order:
  assumes "history_ok h" "sequential h" "h_pending h = []" "mset os = mset (operations h)" "real_time os"
  shows "os = operations h"
proof -
  have ok: "before x y \<longleftrightarrow> called_at x < called_at y" if xy: "x \<in> set (operations h)" "y \<in> set (operations h)" for x y
  proof -
    obtain i j where ij: "i < length (operations h)" "operations h ! i = x" "j < length (operations h)" "operations h ! j = y"
      using xy by (meson in_set_conv_nth)
    obtain r where r: "returned_at x = Some r" "called_at x < r"
      using xy(1) assms(1,3) by (auto simp: history_ok_def op_ok_def h_pending_def filter_empty_conv op_complete_def split: option.splits)
    obtain q where q: "returned_at y = Some q" "called_at y < q"
      using xy(2) assms(1,3) by (auto simp: history_ok_def op_ok_def h_pending_def filter_empty_conv op_complete_def split: option.splits)
    have "\<not> overlaps x y" if "i \<noteq> j"
      using assms(2) ij that overlaps_sym by (metis nat_neq_iff sequential_iff sorted_wrt_nth_less)
    then have "i \<noteq> j \<longrightarrow> r < called_at y \<or> q < called_at x"
      using r q by (auto simp: overlaps_def split: if_splits)
    moreover have "i = j \<longrightarrow> x = y" using ij by auto
    ultimately show ?thesis using r q by (auto simp: before_def)
  qed
  have inj: "inj_on called_at (set (operations h))"
    using assms(1) by (auto simp: history_ok_def inj_on_def in_set_conv_nth sorted_wrt_iff_nth_less) (metis less_irrefl linorder_less_linear)
  have s: "set os = set (operations h)" using assms(4) by (metis set_mset_mset)
  have "sorted_wrt (\<lambda>x y. called_at x \<le> called_at y) os"
    using assms(5) ok s unfolding real_time_def by (auto intro!: sorted_wrt_mono_rel [of os "\<lambda>x y. \<not> before y x"])
  then have "sorted (map called_at os)" by (simp add: sorted_wrt_map)
  moreover have "sorted (map called_at (operations h))"
    using assms(1) by (auto simp: history_ok_def sorted_wrt_map intro: sorted_wrt_mono_rel [rotated])
  ultimately have "map called_at os = map called_at (operations h)"
    using assms(4) by (metis mset_map properties_for_sort)
  moreover have "inj_on called_at (set os \<union> set (operations h))" unfolding s Un_absorb by (rule inj)
  ultimately show ?thesis by (rule map_inj_on)
qed

text \<open>Running the reference on commands gives the answers an explanation needs, in order.\<close>

lemma ref_run_explains:
  assumes "\<forall>x\<in>set xs. steady x \<and> op_complete x"
  shows "explains (ref_state r) xs \<longleftrightarrow>
    (\<exists>outs r'. ref_run r (map o_command xs) g = (r', Inr outs) \<and> list_all2 py_eq outs (map o_result xs))"
  using assms
proof (induction xs arbitrary: r g)
  case (Cons x xs)
  obtain m a g' where a: "apply_cmd (r_machine r) (o_command x) g = (m, a, g')" by (metis surj_pair)
  have "apply_cmd (Machine (ref_state r)) (o_command x) g =
      (case a of Inl e \<Rightarrow> (Machine (ref_state r)\<lparr>m_applied := 1\<rparr>, Inl e, g')
       | Inr out \<Rightarrow> (\<lparr>m_state = m_state m, m_applied = 1, m_results = [out]\<rparr>, Inr out, g'))"
    using a by (auto simp: apply_cmd_def ref_state_def Machine_def Let_def split: prod.splits sum.splits)
  then have t: "takes (ref_state r) x =
      (case a of Inl e \<Rightarrow> None | Inr out \<Rightarrow> if py_eq out (o_result x) then Some (m_state m) else None)"
    using takes_apply [of x "ref_state r" g] Cons.prems by (cases a) auto
  show ?case
  proof (cases a)
    case (Inl e)
    then show ?thesis using t by (simp add: ref_apply_def a)
  next
    case (Inr out)
    let ?r = "r\<lparr>r_machine := m, r_answers := r_answers r @ [out]\<rparr>"
    have "ref_state ?r = m_state m" by (simp add: ref_state_def)
    then show ?thesis
      using t Inr Cons.IH [of ?r g'] Cons.prems
      by (auto simp: ref_apply_def a list_all2_Cons1 list_all2_Cons2 split: prod.splits sum.splits)
  qed
qed simp

lemma no_differences:
  "length is = length xs \<Longrightarrow> length xs = length ys \<Longrightarrow>
   filter (\<lambda>(i, l, w). \<not> py_eq l w) (zip is (zip xs ys)) = [] \<longleftrightarrow> list_all2 py_eq xs ys"
proof (induction xs arbitrary: "is" ys)
  case (Cons x xs)
  then obtain i is' y ys' where "is = i # is'" "ys = y # ys'" by (metis length_Suc_conv)
  with Cons show ?case by auto
qed auto

lemma ref_run_length: "ref_run r cs g = (r', Inr outs) \<Longrightarrow> length outs = length cs"
  by (induction r cs g arbitrary: r' outs rule: ref_run.induct) (auto split: prod.splits sum.splits)

text \<open>
  On a history in which nothing overlaps and everything was answered, the search and the
  reference machine agree: it is linearizable exactly when running its commands one after another
  on one machine raises nothing and gives every answer that was heard.
\<close>

theorem sequential_reference:
  assumes "history_ok h" "sequential h" "h_pending h = []"
    and "\<forall>x\<in>set (operations h). cname (o_command x) \<in> set COMMANDS \<and> deterministic (o_command x)"
    and "check_history h b g = Inr v" "decided v"
  shows "verdict_holds v \<longleftrightarrow>
    (\<exists>a. rbind (from_history h) (\<lambda>cs. compare_runs cs (map o_result (operations h)) st g') = Inr a \<and>
         differences a = [])"
proof -
  have all: "\<forall>x\<in>set (operations h). steady x \<and> op_complete x"
    using assms(3,4) by (auto simp: steady_def h_pending_def filter_empty_conv)
  have sorted: "real_time (operations h)"
  proof -
    have "\<not> before y x" if "called_at x < called_at y" "op_ok (clock h) y" for x y
      using that by (auto simp: before_def op_ok_def split: option.splits)
    then show ?thesis
      using assms(1) unfolding real_time_def history_ok_def
      by (auto simp: sorted_wrt_iff_nth_less)
  qed
  have "verdict_holds v \<longleftrightarrow> linearizable h"
    by (rule pending_dropped [OF assms(4) _ assms(5,6)]) (simp add: assms(3))
  also have "\<dots> \<longleftrightarrow> explained h" using explained_linearizable [of h] assms(3) by simp
  also have "\<dots> \<longleftrightarrow> explains [] (operations h)"
    using one_order [OF assms(1-3)] sorted unfolding explained_def by metis
  also have "\<dots> \<longleftrightarrow> (\<exists>outs r'. ref_run Reference (map o_command (operations h)) g' = (r', Inr outs) \<and>
      list_all2 py_eq outs (map o_result (operations h)))"
    using ref_run_explains [OF all, of Reference g'] by (simp add: ref_state_def Reference_def Machine_def)
  also have "\<dots> \<longleftrightarrow> (\<exists>a. compare_runs (map o_command (operations h)) (map o_result (operations h)) st g' = Inr a \<and>
      differences a = [])"
    by (auto simp: compare_runs_def no_differences ref_run_length split: prod.splits sum.splits)
  finally show ?thesis using assms(2) by (simp add: from_history_def)
qed

theorem sequential_reference_witness:
  "\<exists>h a. sequential_history 2 = Inr h \<and>
     rbind (from_history h) (\<lambda>cs. compare_runs cs (map o_result (operations h)) [] (\<lambda>i. 0)) = Inr a \<and>
     differences a = []"
proof -
  let ?c = "\<lambda>n. \<lparr>cname = SET, ckey = ''k'', cvalue = PInt n, cexpected = PNone\<rparr>"
  let ?x = "\<lambda>n t. \<lparr>o_client = ''c1'', o_command = ?c n, called_at = t, returned_at = Some (t + 1), o_result = PInt n\<rparr>"
  let ?h = "\<lparr>operations = [?x 0 1, ?x 1 3], clock = 4\<rparr>"
  have made: "sequential_history 2 = Inr ?h"
    by (simp add: sequential_history_def upt_rec numeral_2_eq_2 Command_def COMMANDS_def h_call_def h_complete_def
        Operation_def History_def Let_def)
  have hyps: "history_ok ?h" "sequential ?h" "h_pending ?h = []"
    "\<forall>x\<in>set (operations ?h). cname (o_command x) \<in> set COMMANDS \<and> deterministic (o_command x)"
    by (simp_all add: history_ok_def op_ok_def sequential_iff overlaps_def h_pending_def op_complete_def
        COMMANDS_def deterministic_def command_names)
  have "case check_history ?h 10 (\<lambda>i. 0) of Inl e \<Rightarrow> False | Inr v \<Rightarrow> answer v = LINEARIZABLE"
    by code_simp
  then obtain v where "check_history ?h 10 (\<lambda>i. 0) = Inr v" "verdict_holds v" "decided v"
    by (auto simp: verdict_holds_def decided_def split: sum.splits)
  with sequential_reference [OF hyps] made show ?thesis by blast
qed

end
