(* ===== verification/Bytes.thy ===== *)
theory Bytes
  imports Prelude "HOL-Library.Word"
begin

text \<open>
  What \<open>src/rsm/wire.py\<close> takes from the standard library: \<open>struct\<close>'s big-endian integers and the
  UTF-8 encoding, and the contract every reader and writer of the codec keeps.

  A buffer is a list of bytes and a reader is given the buffer and the place to read at. A text
  is the list of its code points.
\<close>

type_synonym byte = "8 word"
type_synonym text_points = "nat list"

section \<open>Big-endian integers\<close>

fun big_endian :: "nat \<Rightarrow> int \<Rightarrow> byte list" where
  "big_endian 0 v = []"
| "big_endian (Suc n) v = big_endian n (v div 256) @ [word_of_int v]"

definition from_big_endian :: "byte list \<Rightarrow> int" where
  "from_big_endian bs = foldl (\<lambda>a b. a * 256 + uint b) 0 bs"

definition signed64 :: "int \<Rightarrow> int" where
  "signed64 v = (if v < 2 ^ 63 then v else v - 2 ^ 64)"

definition fits64 :: "int \<Rightarrow> bool" where
  "fits64 v \<longleftrightarrow> - (2 ^ 63) \<le> v \<and> v < 2 ^ 63"

lemma length_big_endian [simp]: "length (big_endian n v) = n"
  by (induction n arbitrary: v) auto

lemma from_big_endian_snoc: "from_big_endian (bs @ [b]) = from_big_endian bs * 256 + uint b"
  by (simp add: from_big_endian_def)

lemma from_big_endian [simp]: "from_big_endian (big_endian n v) = v mod 256 ^ n"
proof (induction n arbitrary: v)
  case 0
  show ?case by (simp add: from_big_endian_def)
next
  case (Suc n)
  have "v mod (256 * 256 ^ n) = 256 * (v div 256 mod 256 ^ n) + v mod 256"
    by (rule zmod_zmult2_eq) simp
  moreover have "uint (word_of_int v :: byte) = v mod 256" by (simp add: uint_word_of_int)
  ultimately show ?case using Suc [of "v div 256"] by (simp add: from_big_endian_snoc)
qed

lemma from_big_endian_nonneg: "0 \<le> from_big_endian bs"
  by (induction bs rule: rev_induct) (simp_all add: from_big_endian_snoc from_big_endian_def)

lemma signed64_mod: "fits64 v \<Longrightarrow> signed64 (v mod 256 ^ 8) = v"
proof -
  assume "fits64 v"
  then have v: "- (2 ^ 63) \<le> v" "v < 2 ^ 63" by (simp_all add: fits64_def)
  have "(256 :: int) ^ 8 = 2 ^ 64" by simp
  show ?thesis
  proof (cases "0 \<le> v")
    case True
    then show ?thesis using v by (simp add: signed64_def)
  next
    case False
    then have "(v + 2 ^ 64) mod 2 ^ 64 = v + 2 ^ 64" using v by (intro mod_pos_pos_trivial) auto
    then have "v mod 2 ^ 64 = v + 2 ^ 64" by simp
    then show ?thesis using v False by (simp add: signed64_def)
  qed
qed

section \<open>UTF-8\<close>

text \<open>The bytes of one code point; a surrogate has none.\<close>

definition utf8_point :: "nat \<Rightarrow> nat list option" where
  "utf8_point c =
     (if c < 128 then Some [c]
      else if c < 2048 then Some [192 + c div 64, 128 + c mod 64]
      else if 55296 \<le> c \<and> c < 57344 then None
      else if c < 65536 then Some [224 + c div 4096, 128 + c div 64 mod 64, 128 + c mod 64]
      else if c < 1114112 then
        Some [240 + c div 262144, 128 + c div 4096 mod 64, 128 + c div 64 mod 64, 128 + c mod 64]
      else None)"

fun utf8_encode :: "text_points \<Rightarrow> nat list option" where
  "utf8_encode [] = Some []"
| "utf8_encode (c # cs) =
     (case utf8_point c of None \<Rightarrow> None
      | Some bs \<Rightarrow> (case utf8_encode cs of None \<Rightarrow> None | Some rest \<Rightarrow> Some (bs @ rest)))"

definition follows :: "nat \<Rightarrow> bool" where
  "follows b \<longleftrightarrow> 128 \<le> b \<and> b < 192"

text \<open>Reading back refuses a stray continuation byte, an overlong form and a surrogate.\<close>

fun utf8_decode :: "nat list \<Rightarrow> text_points option" where
  "utf8_decode [] = Some []"
| "utf8_decode (b # bs) =
     (if b < 128 then map_option ((#) b) (utf8_decode bs)
      else if 194 \<le> b \<and> b < 224 then
        (case bs of
           x # r \<Rightarrow> if follows x then map_option ((#) ((b - 192) * 64 + (x - 128))) (utf8_decode r) else None
         | _ \<Rightarrow> None)
      else if 224 \<le> b \<and> b < 240 then
        (case bs of
           x # y # r \<Rightarrow>
             (let c = (b - 224) * 4096 + (x - 128) * 64 + (y - 128) in
              if follows x \<and> follows y \<and> 2048 \<le> c \<and> \<not> (55296 \<le> c \<and> c < 57344)
              then map_option ((#) c) (utf8_decode r) else None)
         | _ \<Rightarrow> None)
      else if 240 \<le> b \<and> b < 245 then
        (case bs of
           x # y # z # r \<Rightarrow>
             (let c = (b - 240) * 262144 + (x - 128) * 4096 + (y - 128) * 64 + (z - 128) in
              if follows x \<and> follows y \<and> follows z \<and> 65536 \<le> c \<and> c < 1114112
              then map_option ((#) c) (utf8_decode r) else None)
         | _ \<Rightarrow> None)
      else None)"

lemma utf8_point_bytes: "utf8_point c = Some bs \<Longrightarrow> \<forall>b\<in>set bs. b < 256"
  by (auto simp: utf8_point_def split: if_splits)

lemma utf8_encode_bytes: "utf8_encode cs = Some bs \<Longrightarrow> \<forall>b\<in>set bs. b < 256"
proof (induction cs arbitrary: bs)
  case (Cons c cs)
  then obtain b r where "utf8_point c = Some b" "utf8_encode cs = Some r" "bs = b @ r"
    by (auto split: option.splits)
  with Cons.IH [of r] utf8_point_bytes [of c b] show ?case by auto
qed simp

lemma digits64:
  "c div 64 * 64 + c mod 64 = (c :: nat)"
  "c div 4096 * 64 + c div 64 mod 64 = c div 64"
  "c div 262144 * 64 + c div 4096 mod 64 = c div 4096" for c :: nat
proof -
  have "c div 4096 = c div 64 div 64" "c div 262144 = c div 4096 div 64" by (simp_all add: div_mult2_eq [symmetric])
  then show "c div 4096 * 64 + c div 64 mod 64 = c div 64" "c div 262144 * 64 + c div 4096 mod 64 = c div 4096"
    by simp_all
qed simp

lemma utf8_decode_point:
  assumes "utf8_point c = Some bs"
  shows "utf8_decode (bs @ r) = map_option ((#) c) (utf8_decode r)"
proof -
  consider "c < 128" | "128 \<le> c" "c < 2048" | "2048 \<le> c" "c < 65536" "\<not> (55296 \<le> c \<and> c < 57344)"
    | "65536 \<le> c" "c < 1114112"
    using assms by (force simp: utf8_point_def split: if_splits)
  then show ?thesis
  proof cases
    case 1
    then show ?thesis using assms by (auto simp: utf8_point_def)
  next
    case 2
    then have "2 \<le> c div 64" "c div 64 < 32" by linarith+
    moreover have "(c div 64) * 64 + c mod 64 = c" by simp
    ultimately show ?thesis using 2 assms by (auto simp: utf8_point_def follows_def)
  next
    case 3
    then have "c div 4096 < 16" by linarith
    moreover have "(c div 4096) * 4096 + (c div 64 mod 64) * 64 + c mod 64 = c"
      using digits64(1,2) [of c] by linarith
    moreover have "bs = [224 + c div 4096, 128 + c div 64 mod 64, 128 + c mod 64]"
      using assms 3 unfolding utf8_point_def by (auto split: if_splits)
    ultimately show ?thesis using 3 by (simp add: follows_def Let_def)
  next
    case 4
    then have "c div 262144 < 5" by linarith
    moreover have "(c div 262144) * 262144 + (c div 4096 mod 64) * 4096 + (c div 64 mod 64) * 64 + c mod 64 = c"
      using digits64 [of c] by linarith
    moreover have "bs = [240 + c div 262144, 128 + c div 4096 mod 64, 128 + c div 64 mod 64, 128 + c mod 64]"
      using assms 4 unfolding utf8_point_def by (auto split: if_splits)
    ultimately show ?thesis using 4 by (simp add: follows_def Let_def)
  qed
qed

lemma utf8_decode_encode: "utf8_encode cs = Some bs \<Longrightarrow> utf8_decode bs = Some cs"
proof (induction cs arbitrary: bs)
  case (Cons c cs)
  then obtain b r where "utf8_point c = Some b" "utf8_encode cs = Some r" "bs = b @ r"
    by (auto split: option.splits)
  with Cons.IH utf8_decode_point show ?case by simp
qed simp

section \<open>Readers and writers\<close>

text \<open>
  What the codec relies on: what a writer produced for a value it accepts, a reader placed at it
  reads back, whatever stands before and after, and moves past it; a reader never moves back and
  never past the end of the buffer, and both take at least so many bytes.
\<close>

locale codec =
  fixes put :: "'a \<Rightarrow> byte list result"
    and get :: "byte list \<Rightarrow> nat \<Rightarrow> ('b \<times> nat) result"
    and view :: "'a \<Rightarrow> 'b"
    and ok :: "'a \<Rightarrow> bool"
    and least :: nat
  assumes get_put: "ok x \<Longrightarrow> put x = Inr bs \<Longrightarrow>
      get (pre @ bs @ post) (length pre) = Inr (view x, length pre + length bs)"
    and put_least: "put x = Inr bs \<Longrightarrow> least \<le> length bs"
    and get_bounds: "get raw at = Inr (v, at') \<Longrightarrow> at + least \<le> at' \<and> at' \<le> length raw"

text \<open>Values one after another, as many as a count says.\<close>

fun get_each :: "(byte list \<Rightarrow> nat \<Rightarrow> ('b \<times> nat) result) \<Rightarrow> nat \<Rightarrow> byte list \<Rightarrow> nat \<Rightarrow> ('b list \<times> nat) result" where
  "get_each get 0 raw at = Inr ([], at)"
| "get_each get (Suc n) raw at =
     rbind (get raw at) (\<lambda>(v, at1).
     rbind (get_each get n raw at1) (\<lambda>(vs, at2). Inr (v # vs, at2)))"

context codec
begin

lemma get_put_each:
  "\<forall>x\<in>set xs. ok x \<Longrightarrow> rmap put xs = Inr bss \<Longrightarrow>
   get_each get (length xs) (pre @ concat bss @ post) (length pre) =
     Inr (map view xs, length pre + length (concat bss))"
proof (induction xs arbitrary: bss pre)
  case (Cons x xs)
  then obtain bs cs where bs: "put x = Inr bs" "rmap put xs = Inr cs" "bss = bs # cs"
    by (auto simp: raises)
  then have "get (pre @ bs @ (concat cs @ post)) (length pre) = Inr (view x, length pre + length bs)"
    using Cons.prems(1) by (intro get_put) auto
  with Cons.IH [OF _ bs(2), of "pre @ bs"] Cons.prems(1) bs(3) show ?case by simp
qed simp

lemma put_least_each: "rmap put xs = Inr bss \<Longrightarrow> length xs * least \<le> length (concat bss)"
proof (induction xs arbitrary: bss)
  case (Cons x xs)
  then obtain bs cs where "put x = Inr bs" "rmap put xs = Inr cs" "bss = bs # cs" by (auto simp: raises)
  with Cons.IH put_least show ?case by (fastforce intro: add_mono)
qed simp

lemma get_bounds_each: "get_each get n raw at = Inr (vs, at') \<Longrightarrow> at \<le> length raw \<Longrightarrow>
    at + n * least \<le> at' \<and> at' \<le> length raw"
proof (induction n arbitrary: at vs)
  case (Suc n)
  then obtain v at1 ws where v: "get raw at = Inr (v, at1)" "get_each get n raw at1 = Inr (ws, at')"
    by (auto simp: raises)
  then show ?case using Suc.IH [OF v(2)] get_bounds [OF v(1)] by auto
qed simp

end

end
