(* ===== verification/Wire.thy ===== *)
theory Wire
  imports Raft_Net Bytes "HOL-Library.AList"
begin

text \<open>
  \<open>src/rsm/wire.py\<close>: the codec that frames messages as bytes. A message is written as its fields
  in declaration order; reading one back gives the class and its fields, with every command and
  every value of a snapshot's state as the text that was written for it. \<open>repr\<close>, which gives the
  text of anything but a string or nothing, is a parameter of the writers.
\<close>

section \<open>Writing\<close>

definition MAGIC :: int where "MAGIC = 0x5253"
definition VERSION :: int where "VERSION = 1"
definition HEADER_SIZE :: nat where "HEADER_SIZE = 7"
definition MAX_BODY :: nat where "MAX_BODY = 1048576"
definition ASSUMED_MESSAGE_BYTES :: nat where "ASSUMED_MESSAGE_BYTES = 64"
definition ASSUMED_ENTRY_BYTES :: nat where "ASSUMED_ENTRY_BYTES = 32"

fun kind_code :: "kind \<Rightarrow> int" where
  "kind_code REQUEST_VOTE = 0"
| "kind_code VOTE = 1"
| "kind_code APPEND_CALL = 2"
| "kind_code APPENDED = 3"
| "kind_code INSTALL_SNAPSHOT = 4"
| "kind_code INSTALLED = 5"

definition code_kind :: "int \<Rightarrow> kind option" where
  "code_kind c = map_of (map (\<lambda>k. (kind_code k, k))
     [REQUEST_VOTE, VOTE, APPEND_CALL, APPENDED, INSTALL_SNAPSHOT, INSTALLED]) c"

definition points :: "string \<Rightarrow> text_points" where
  "points s = map of_char s"

definition put_str :: "text_points \<Rightarrow> byte list result" where
  "put_str t =
     (case utf8_encode t of
        None \<Rightarrow> Inl ValueError
      | Some raw \<Rightarrow>
          if length raw > 65535 then Inl ConfigError
          else Inr (big_endian 2 (int (length raw)) @ map word_of_nat raw))"

definition put_int :: "int \<Rightarrow> byte list result" where
  "put_int v = (if fits64 v then Inr (big_endian 8 v) else Inl StructError)"

definition as_text :: "(pyobj \<Rightarrow> text_points) \<Rightarrow> pyobj \<Rightarrow> text_points" where
  "as_text rp v = (case v of PNone \<Rightarrow> [] | PStr s \<Rightarrow> points s | _ \<Rightarrow> rp v)"

definition str_text :: "(pyobj \<Rightarrow> text_points) \<Rightarrow> pyobj \<Rightarrow> text_points" where
  "str_text rp k = (case k of PStr s \<Rightarrow> points s | _ \<Rightarrow> rp k)"

definition put_entry :: "(pyobj \<Rightarrow> text_points) \<Rightarrow> entry \<Rightarrow> byte list result" where
  "put_entry rp e =
     rbind (put_int (int (e_index e))) (\<lambda>a. rbind (put_int (int (e_term e))) (\<lambda>b.
     rbind (put_str (as_text rp (command e))) (\<lambda>c. Inr (a @ b @ c))))"

definition put_item :: "(pyobj \<Rightarrow> text_points) \<Rightarrow> pyobj \<times> pyobj \<Rightarrow> byte list result" where
  "put_item rp = (\<lambda>(k, v).
     rbind (put_str (str_text rp k)) (\<lambda>a. rbind (put_str (as_text rp v)) (\<lambda>b. Inr (a @ b))))"

text \<open>The types a field of a message can have.\<close>

datatype wire_value = WBool bool | WInt int | WStr text_points
  | WEntries "entry list" | WTexts "pyobj list" | WDict dict

definition put_counted :: "('a \<Rightarrow> byte list result) \<Rightarrow> 'a list \<Rightarrow> byte list result" where
  "put_counted put xs =
     rbind (rmap put xs) (\<lambda>parts.
     if length xs > 65535 then Inl StructError
     else Inr (big_endian 2 (int (length xs)) @ concat parts))"

fun put_value :: "(pyobj \<Rightarrow> text_points) \<Rightarrow> wire_value \<Rightarrow> byte list result" where
  "put_value rp (WBool b) = Inr [if b then 1 else 0]"
| "put_value rp (WInt v) = put_int v"
| "put_value rp (WStr t) = put_str t"
| "put_value rp (WEntries es) = put_counted (put_entry rp) es"
| "put_value rp (WTexts vs) = put_counted (\<lambda>v. put_str (as_text rp v)) vs"
| "put_value rp (WDict d) = put_counted (put_item rp) d"

text \<open>The fields of a message in declaration order, the kind left out.\<close>

fun payload_values :: "payload \<Rightarrow> wire_value list" where
  "payload_values (RequestVote li lt pv) = [WInt (int li), WInt (int lt), WBool pv]"
| "payload_values (Vote g pv) = [WBool g, WBool pv]"
| "payload_values (Append pi pt es ci rid) =
     [WInt (int pi), WInt (int pt), WEntries es, WInt (int ci), WInt (int rid)]"
| "payload_values (Appended ok mi ct ci rid) =
     [WBool ok, WInt (int mi), WInt (int ct), WInt (int ci), WInt (int rid)]"
| "payload_values (InstallSnapshot li lt st ms) =
     [WInt (int li), WInt (int lt), WDict st, WTexts (map PStr ms)]"
| "payload_values (Installed li) = [WInt (int li)]"

definition message_values :: "message \<Rightarrow> wire_value list" where
  "message_values m =
     [WStr (points (sender m)), WStr (points (recipient m)), WInt (int (m_term m))] @ payload_values (body m)"

definition encode :: "(pyobj \<Rightarrow> text_points) \<Rightarrow> message \<Rightarrow> byte list result" where
  "encode rp m =
     rbind (rmap (put_value rp) (message_values m)) (\<lambda>parts.
     let inside = word_of_int (kind_code (kind_of (body m))) # concat parts in
     if length inside > MAX_BODY then Inl ConfigError
     else Inr (big_endian 2 MAGIC @ big_endian 1 VERSION @ big_endian 4 (int (length inside)) @ inside))"

definition frame_all :: "(pyobj \<Rightarrow> text_points) \<Rightarrow> message list \<Rightarrow> byte list result" where
  "frame_all rp ms = rbind (rmap (encode rp) ms) (\<lambda>parts. Inr (concat parts))"

section \<open>Reading\<close>

definition get_int :: "byte list \<Rightarrow> nat \<Rightarrow> (int \<times> nat) result" where
  "get_int raw at =
     (if at + 8 > length raw then Inl NetworkError
      else Inr (signed64 (from_big_endian (take 8 (drop at raw))), at + 8))"

definition get_str :: "byte list \<Rightarrow> nat \<Rightarrow> (text_points \<times> nat) result" where
  "get_str raw at =
     (if at + 2 > length raw then Inl NetworkError
      else let size = nat (from_big_endian (take 2 (drop at raw))); at1 = at + 2 in
           if at1 + size > length raw then Inl NetworkError
           else case utf8_decode (map unat (take size (drop at1 raw))) of
             None \<Rightarrow> Inl ValueError
           | Some t \<Rightarrow> Inr (t, at1 + size))"

record wire_entry =
  w_index :: int
  w_term :: int
  w_command :: "text_points option"

definition get_entry :: "byte list \<Rightarrow> nat \<Rightarrow> (wire_entry \<times> nat) result" where
  "get_entry raw at =
     rbind (get_int raw at) (\<lambda>(i, at1). rbind (get_int raw at1) (\<lambda>(t, at2).
     rbind (get_str raw at2) (\<lambda>(c, at3).
     if t < 1 \<or> i < 1 then Inl NetworkError
     else Inr (\<lparr>w_index = i, w_term = t, w_command = (if c = [] then None else Some c)\<rparr>, at3))))"

definition get_item :: "byte list \<Rightarrow> nat \<Rightarrow> ((text_points \<times> text_points) \<times> nat) result" where
  "get_item raw at =
     rbind (get_str raw at) (\<lambda>(k, at1). rbind (get_str raw at1) (\<lambda>(v, at2). Inr ((k, v), at2)))"

definition get_flag :: "byte list \<Rightarrow> nat \<Rightarrow> (bool \<times> nat) result" where
  "get_flag raw at = (if at \<ge> length raw then Inl NetworkError else Inr (raw ! at \<noteq> 0, at + 1))"

definition get_count :: "byte list \<Rightarrow> nat \<Rightarrow> (nat \<times> nat) result" where
  "get_count raw at =
     (if at + 2 > length raw then Inl NetworkError
      else let many = nat (from_big_endian (take 2 (drop at raw))) in
           if many * 2 > length raw - at then Inl NetworkError else Inr (many, at + 2))"

datatype annotation = FBool | FInt | FStr | FEntries | FTexts | FDict

datatype field_value = GBool bool | GInt int | GStr text_points
  | GEntries "wire_entry list" | GTexts "text_points list" | GDict "(text_points \<times> text_points) list"

definition get_counted :: "(byte list \<Rightarrow> nat \<Rightarrow> ('b \<times> nat) result) \<Rightarrow> byte list \<Rightarrow> nat \<Rightarrow> ('b list \<times> nat) result" where
  "get_counted get raw at = rbind (get_count raw at) (\<lambda>(n, at1). get_each get n raw at1)"

definition as_dict :: "(text_points \<times> text_points) list \<Rightarrow> (text_points \<times> text_points) list" where
  "as_dict items = foldl (\<lambda>d (k, v). AList.update k v d) [] items"

fun get_value :: "byte list \<Rightarrow> nat \<Rightarrow> annotation \<Rightarrow> (field_value \<times> nat) result" where
  "get_value raw at FBool = rbind (get_flag raw at) (\<lambda>(b, at1). Inr (GBool b, at1))"
| "get_value raw at FInt = rbind (get_int raw at) (\<lambda>(v, at1). Inr (GInt v, at1))"
| "get_value raw at FStr = rbind (get_str raw at) (\<lambda>(t, at1). Inr (GStr t, at1))"
| "get_value raw at FEntries = rbind (get_counted get_entry raw at) (\<lambda>(es, at1). Inr (GEntries es, at1))"
| "get_value raw at FTexts = rbind (get_counted get_str raw at) (\<lambda>(ts, at1). Inr (GTexts ts, at1))"
| "get_value raw at FDict = rbind (get_counted get_item raw at) (\<lambda>(kvs, at1). Inr (GDict (as_dict kvs), at1))"

fun class_fields :: "kind \<Rightarrow> annotation list" where
  "class_fields REQUEST_VOTE = [FInt, FInt, FBool]"
| "class_fields VOTE = [FBool, FBool]"
| "class_fields APPEND_CALL = [FInt, FInt, FEntries, FInt, FInt]"
| "class_fields APPENDED = [FBool, FInt, FInt, FInt, FInt]"
| "class_fields INSTALL_SNAPSHOT = [FInt, FInt, FDict, FTexts]"
| "class_fields INSTALLED = [FInt]"

fun get_fields :: "annotation list \<Rightarrow> byte list \<Rightarrow> nat \<Rightarrow> (field_value list \<times> nat) result" where
  "get_fields [] raw at = Inr ([], at)"
| "get_fields (a # as) raw at =
     rbind (get_value raw at a) (\<lambda>(v, at1). rbind (get_fields as raw at1) (\<lambda>(vs, at2). Inr (v # vs, at2)))"

text \<open>A message read back: its class and the values of its fields. The constructor checks apply.\<close>

record packet =
  p_kind :: kind
  p_sender :: text_points
  p_recipient :: text_points
  p_term :: int
  p_fields :: "field_value list"

fun make_packet :: "kind \<Rightarrow> field_value list \<Rightarrow> packet result" where
  "make_packet k (GStr s # GStr r # GInt t # vs) =
     (if t < 1 then Inl ConfigError
      else if s = r then Inl ConfigError
      else Inr \<lparr>p_kind = k, p_sender = s, p_recipient = r, p_term = t, p_fields = vs\<rparr>)"
| "make_packet k _ = Inl TypeError"

definition decode_one :: "byte list \<Rightarrow> (packet \<times> nat) result" where
  "decode_one raw =
     (if length raw < HEADER_SIZE then Inl NetworkError
      else let magic = from_big_endian (take 2 raw);
               version = from_big_endian (take 1 (drop 2 raw));
               size = nat (from_big_endian (take 4 (drop 3 raw)))
      in if magic \<noteq> MAGIC then Inl NetworkError
      else if version \<noteq> VERSION then Inl NetworkError
      else if size > MAX_BODY then Inl NetworkError
      else let stop = HEADER_SIZE + size
      in if length raw < stop then Inl NetworkError
      else let inside = take size (drop HEADER_SIZE raw)
      in if inside = [] then Inl StructError
      else case code_kind (uint (inside ! 0)) of
        None \<Rightarrow> Inl NetworkError
      | Some k \<Rightarrow>
          rbind (get_fields ([FStr, FStr, FInt] @ class_fields k) inside 1) (\<lambda>(vs, at).
          if at \<noteq> length inside then Inl NetworkError
          else rbind (make_packet k vs) (\<lambda>p. Inr (p, stop))))"

definition decode :: "byte list \<Rightarrow> packet result" where
  "decode raw = rbind (decode_one raw) (\<lambda>(p, used). if used \<noteq> length raw then Inl NetworkError else Inr p)"

lemma decode_one_used: "decode_one raw = Inr (p, used) \<Longrightarrow> HEADER_SIZE \<le> used \<and> used \<le> length raw"
  by (auto simp: decode_one_def Let_def raises split: if_splits option.splits)

function read_all :: "byte list \<Rightarrow> packet list result" where
  "read_all raw =
     (if raw = [] then Inr []
      else rbind (decode_one raw) (\<lambda>(p, used). rbind (read_all (drop used raw)) (\<lambda>ps. Inr (p # ps))))"
  by pat_completeness auto

termination
  by (relation "measure length") (auto dest!: decode_one_used simp: HEADER_SIZE_def)

declare read_all.simps [simp del]

section \<open>Traffic\<close>

record traffic =
  t_messages :: nat
  t_real :: nat
  t_assumed :: nat
  t_by_kind :: "(kind \<times> nat) list"

definition no_traffic :: traffic where
  "no_traffic = \<lparr>t_messages = 0, t_real = 0, t_assumed = 0, t_by_kind = []\<rparr>"

definition traffic_record :: "(pyobj \<Rightarrow> text_points) \<Rightarrow> traffic \<Rightarrow> message \<Rightarrow> traffic result" where
  "traffic_record rp t m =
     rbind (encode rp m) (\<lambda>bs.
     let size = length bs; k = kind_of (body m);
         n = (case body m of Append pi pt es ci rid \<Rightarrow> length es | _ \<Rightarrow> 0)
     in Inr (t\<lparr>t_messages := t_messages t + 1, t_real := t_real t + size,
               t_assumed := t_assumed t + (ASSUMED_MESSAGE_BYTES + n * ASSUMED_ENTRY_BYTES),
               t_by_kind := AList.update k ((case map_of (t_by_kind t) k of None \<Rightarrow> 0 | Some s \<Rightarrow> s) + size)
                 (t_by_kind t)\<rparr>))"

section \<open>The readers undo the writers\<close>

lemma take_drop_middle: "length b = n \<Longrightarrow> take n (drop (length a) (a @ b @ c)) = b"
  by simp

interpretation ints: codec put_int get_int id "\<lambda>v. True" 8
proof
  show "get_int (pre @ bs @ post) (length pre) = Inr (id v, length pre + length bs)"
    if "put_int v = Inr bs" for v bs pre post
    using that signed64_mod [of v] by (auto simp: put_int_def get_int_def split: if_splits)
qed (auto simp: put_int_def get_int_def split: if_splits)

lemma map_unat_word_of_nat: "\<forall>b\<in>set bs. b < 256 \<Longrightarrow> map unat (map word_of_nat bs :: byte list) = bs"
  by (induction bs) (auto simp: unat_of_nat)

interpretation texts: codec put_str get_str id "\<lambda>t. True" 2
proof
  fix t bs pre post
  assume "put_str t = Inr bs"
  then obtain raw where raw: "utf8_encode t = Some raw" "length raw \<le> 65535"
    "bs = big_endian 2 (int (length raw)) @ map word_of_nat raw"
    by (auto simp: put_str_def split: option.splits if_splits)
  have "map unat (map word_of_nat raw :: byte list) = raw"
    by (rule map_unat_word_of_nat [OF utf8_encode_bytes [OF raw(1)]])
  moreover have "int (length raw) mod 256 ^ 2 = int (length raw)"
    using raw(2) by (intro mod_pos_pos_trivial) auto
  ultimately show "get_str (pre @ bs @ post) (length pre) = Inr (id t, length pre + length bs)"
    using utf8_decode_encode [OF raw(1)] raw(3) by (simp add: get_str_def Let_def)
qed (auto simp: put_str_def get_str_def Let_def split: if_splits option.splits)

definition view_entry :: "(pyobj \<Rightarrow> text_points) \<Rightarrow> entry \<Rightarrow> wire_entry" where
  "view_entry rp e = \<lparr>w_index = int (e_index e), w_term = int (e_term e),
     w_command = (if as_text rp (command e) = [] then None else Some (as_text rp (command e)))\<rparr>"

definition entry_ok :: "entry \<Rightarrow> bool" where
  "entry_ok e \<longleftrightarrow> 1 \<le> e_term e \<and> 1 \<le> e_index e"

interpretation logged: codec "put_entry rp" get_entry "view_entry rp" entry_ok 18 for rp
proof
  fix e bs pre post
  assume ok: "entry_ok e" and put: "put_entry rp e = Inr bs"
  then obtain a b c where abc: "put_int (int (e_index e)) = Inr a" "put_int (int (e_term e)) = Inr b"
    "put_str (as_text rp (command e)) = Inr c" "bs = a @ b @ c"
    by (auto simp: put_entry_def raises)
  note ints.get_put [OF TrueI abc(1), of pre "b @ c @ post"] ints.get_put [OF TrueI abc(2), of "pre @ a" "c @ post"]
    texts.get_put [OF TrueI abc(3), of "pre @ a @ b" post]
  then show "get_entry (pre @ bs @ post) (length pre) = Inr (view_entry rp e, length pre + length bs)"
    using ok abc(4) by (simp add: get_entry_def view_entry_def entry_ok_def add.assoc)
next
  fix e bs
  assume "put_entry rp e = Inr bs"
  then show "18 \<le> length bs"
    by (auto simp: put_entry_def raises dest!: ints.put_least texts.put_least)
next
  fix raw at v at'
  assume "get_entry raw at = Inr (v, at')"
  then show "at + 18 \<le> at' \<and> at' \<le> length raw"
    by (auto simp: get_entry_def raises split: if_splits dest!: ints.get_bounds texts.get_bounds)
qed

definition view_item :: "(pyobj \<Rightarrow> text_points) \<Rightarrow> pyobj \<times> pyobj \<Rightarrow> text_points \<times> text_points" where
  "view_item rp = (\<lambda>(k, v). (str_text rp k, as_text rp v))"

interpretation items: codec "put_item rp" get_item "view_item rp" "\<lambda>kv. True" 4 for rp
proof
  fix kv bs pre post
  assume put: "put_item rp kv = Inr bs"
  obtain k v where kv: "kv = (k, v)" by fastforce
  with put obtain a b where ab: "put_str (str_text rp k) = Inr a" "put_str (as_text rp v) = Inr b" "bs = a @ b"
    by (auto simp: put_item_def raises)
  note texts.get_put [OF TrueI ab(1), of pre "b @ post"] texts.get_put [OF TrueI ab(2), of "pre @ a" post]
  then show "get_item (pre @ bs @ post) (length pre) = Inr (view_item rp kv, length pre + length bs)"
    using ab(3) kv by (simp add: get_item_def view_item_def add.assoc)
next
  fix kv bs
  assume "put_item rp kv = Inr bs"
  then show "4 \<le> length bs" by (auto simp: put_item_def raises split: prod.splits dest!: texts.put_least)
next
  fix raw at v at'
  assume "get_item raw at = Inr (v, at')"
  then show "at + 4 \<le> at' \<and> at' \<le> length raw" by (auto simp: get_item_def raises dest!: texts.get_bounds)
qed

interpretation worded: codec "\<lambda>v. put_str (as_text rp v)" get_str "as_text rp" "\<lambda>v. True" 2 for rp
  by unfold_locales (auto dest: texts.get_put [OF TrueI] texts.put_least texts.get_bounds)

text \<open>A counted sequence, for any reader and writer whose values take at least two bytes.\<close>

context codec
begin

lemma get_put_counted:
  assumes "2 \<le> least" "\<forall>x\<in>set xs. ok x" "put_counted put xs = Inr bs"
  shows "get_counted get (pre @ bs @ post) (length pre) = Inr (map view xs, length pre + length bs)"
proof -
  obtain parts where parts: "rmap put xs = Inr parts" "length xs \<le> 65535"
    "bs = big_endian 2 (int (length xs)) @ concat parts"
    using assms(3) by (auto simp: put_counted_def raises split: if_splits)
  have n: "int (length xs) mod 256 ^ 2 = int (length xs)"
    using parts(2) by (intro mod_pos_pos_trivial) auto
  have "length xs * 2 \<le> length xs * least" using assms(1) by simp
  also have "\<dots> \<le> length (concat parts)" by (rule put_least_each [OF parts(1)])
  finally have "get_count (pre @ bs @ post) (length pre) = Inr (length xs, length pre + 2)"
    using n parts(3) by (simp add: get_count_def Let_def)
  moreover have "get_each get (length xs) ((pre @ big_endian 2 (int (length xs))) @ concat parts @ post)
      (length (pre @ big_endian 2 (int (length xs)))) =
      Inr (map view xs, length (pre @ big_endian 2 (int (length xs))) + length (concat parts))"
    by (rule get_put_each [OF assms(2) parts(1)])
  ultimately show ?thesis using parts(3) by (simp add: get_counted_def)
qed

lemma counted_bounds:
  "get_counted get raw at = Inr (vs, at') \<Longrightarrow> at + 2 \<le> at' \<and> at' \<le> length raw"
  using get_bounds_each by (fastforce simp: get_counted_def get_count_def Let_def raises split: if_splits)

end

fun annotation_of :: "wire_value \<Rightarrow> annotation" where
  "annotation_of (WBool b) = FBool"
| "annotation_of (WInt v) = FInt"
| "annotation_of (WStr t) = FStr"
| "annotation_of (WEntries es) = FEntries"
| "annotation_of (WTexts vs) = FTexts"
| "annotation_of (WDict d) = FDict"

fun view_value :: "(pyobj \<Rightarrow> text_points) \<Rightarrow> wire_value \<Rightarrow> field_value" where
  "view_value rp (WBool b) = GBool b"
| "view_value rp (WInt v) = GInt v"
| "view_value rp (WStr t) = GStr t"
| "view_value rp (WEntries es) = GEntries (map (view_entry rp) es)"
| "view_value rp (WTexts vs) = GTexts (map (as_text rp) vs)"
| "view_value rp (WDict d) = GDict (as_dict (map (view_item rp) d))"

fun value_ok :: "wire_value \<Rightarrow> bool" where
  "value_ok (WEntries es) = (\<forall>e\<in>set es. entry_ok e)"
| "value_ok _ = True"

lemma get_put_value:
  assumes "value_ok v" "put_value rp v = Inr bs"
  shows "get_value (pre @ bs @ post) (length pre) (annotation_of v) = Inr (view_value rp v, length pre + length bs)"
proof (cases v)
  case (WBool b)
  with assms show ?thesis by (cases b) (auto simp: get_flag_def nth_append)
next
  case (WInt i)
  with assms ints.get_put [of i bs] show ?thesis by simp
next
  case (WStr t)
  with assms texts.get_put [of t bs] show ?thesis by simp
next
  case (WEntries es)
  with assms logged.get_put_counted [of es rp bs] show ?thesis by simp
next
  case (WTexts vs)
  with assms worded.get_put_counted [of vs rp bs] show ?thesis by simp
next
  case (WDict d)
  with assms items.get_put_counted [of d rp bs] show ?thesis by simp
qed

lemma get_put_fields:
  "\<forall>v\<in>set vs. value_ok v \<Longrightarrow> rmap (put_value rp) vs = Inr parts \<Longrightarrow>
   get_fields (map annotation_of vs) (pre @ concat parts) (length pre) =
     Inr (map (view_value rp) vs, length pre + length (concat parts))"
proof (induction vs arbitrary: parts pre)
  case (Cons v vs)
  then obtain bs cs where bs: "put_value rp v = Inr bs" "rmap (put_value rp) vs = Inr cs" "parts = bs # cs"
    by (auto simp: raises)
  have "get_value (pre @ bs @ concat cs) (length pre) (annotation_of v) = Inr (view_value rp v, length pre + length bs)"
    using Cons.prems(1) bs(1) by (intro get_put_value) auto
  with Cons.IH [OF _ bs(2), of "pre @ bs"] Cons.prems(1) bs(3) show ?case by simp
qed simp

lemma get_value_bounds:
  "get_value raw at a = Inr (v, at') \<Longrightarrow> at < at' \<and> at' \<le> length raw"
  by (cases a) (auto simp: raises get_flag_def split: if_splits
      dest!: ints.get_bounds texts.get_bounds logged.counted_bounds texts.counted_bounds items.counted_bounds)

section \<open>Frames\<close>

definition packet_of :: "(pyobj \<Rightarrow> text_points) \<Rightarrow> message \<Rightarrow> packet" where
  "packet_of rp m = \<lparr>p_kind = kind_of (body m), p_sender = points (sender m), p_recipient = points (recipient m),
     p_term = int (m_term m), p_fields = map (view_value rp) (payload_values (body m))\<rparr>"

definition message_ok :: "message \<Rightarrow> bool" where
  "message_ok m \<longleftrightarrow> 1 \<le> m_term m \<and> sender m \<noteq> recipient m \<and>
     (case body m of Append pi pt es ci rid \<Rightarrow> \<forall>e\<in>set es. entry_ok e | _ \<Rightarrow> True)"

lemma points_inject [simp]: "points s = points t \<longleftrightarrow> s = t"
  unfolding points_def by (rule inj_map_eq_map) (simp add: inj_def)

lemma points_Nil [simp]: "points s = [] \<longleftrightarrow> s = []" "[] = points s \<longleftrightarrow> s = []"
  by (auto simp: points_def)

lemma code_kind_code [simp]: "code_kind (kind_code k) = Some k"
  by (cases k) (simp_all add: code_kind_def)

lemma kind_code_range: "0 \<le> kind_code k" "kind_code k < 256"
  by (cases k; simp)+

lemma class_fields_of: "map annotation_of (message_values m) = [FStr, FStr, FInt] @ class_fields (kind_of (body m))"
  by (cases "body m") (simp_all add: message_values_def)

lemma message_values_ok: "message_ok m \<Longrightarrow> \<forall>v\<in>set (message_values m). value_ok v"
  by (cases "body m") (auto simp: message_ok_def message_values_def)

lemma make_packet_of:
  "message_ok m \<Longrightarrow> make_packet (kind_of (body m)) (map (view_value rp) (message_values m)) = Inr (packet_of rp m)"
  by (simp add: message_values_def packet_of_def message_ok_def)

lemma encode_parts:
  assumes "encode rp m = Inr bs"
  obtains parts inside where "rmap (put_value rp) (message_values m) = Inr parts"
    "inside = word_of_int (kind_code (kind_of (body m))) # concat parts" "length inside \<le> MAX_BODY"
    "bs = big_endian 2 MAGIC @ big_endian 1 VERSION @ big_endian 4 (int (length inside)) @ inside"
  using assms by (auto simp: encode_def Let_def raises split: if_splits)

text \<open>The header of a frame read from the front of a buffer.\<close>

lemma header_read:
  assumes "length inside \<le> MAX_BODY"
    and "frame = big_endian 2 MAGIC @ big_endian 1 VERSION @ big_endian 4 (int (length inside)) @ inside"
  shows "take 2 (frame @ rest) = big_endian 2 MAGIC" "take 1 (drop 2 (frame @ rest)) = big_endian 1 VERSION"
    "nat (from_big_endian (take 4 (drop 3 (frame @ rest)))) = length inside"
    "length frame = HEADER_SIZE + length inside" "take (length inside) (drop HEADER_SIZE (frame @ rest)) = inside"
proof -
  have "int (length inside) mod 256 ^ 4 = int (length inside)"
    using assms(1) by (intro mod_pos_pos_trivial) (auto simp: MAX_BODY_def)
  then show "nat (from_big_endian (take 4 (drop 3 (frame @ rest)))) = length inside"
    using assms(2) by (simp del: big_endian.simps)
qed (use assms(2) in \<open>simp_all add: HEADER_SIZE_def del: big_endian.simps\<close>)

lemma decode_encoded:
  assumes "message_ok m" "encode rp m = Inr bs"
  shows "decode_one (bs @ rest) = Inr (packet_of rp m, length bs)"
proof -
  obtain parts inside where e: "rmap (put_value rp) (message_values m) = Inr parts"
    "inside = word_of_int (kind_code (kind_of (body m))) # concat parts" "length inside \<le> MAX_BODY"
    "bs = big_endian 2 MAGIC @ big_endian 1 VERSION @ big_endian 4 (int (length inside)) @ inside"
    using encode_parts [OF assms(2)] .
  have code: "uint (word_of_int (kind_code (kind_of (body m))) :: byte) = kind_code (kind_of (body m))"
    using kind_code_range by (simp add: uint_word_of_int)
  have fields: "get_fields ([FStr, FStr, FInt] @ class_fields (kind_of (body m))) inside 1 =
      Inr (map (view_value rp) (message_values m), length inside)"
    using get_put_fields [OF message_values_ok [OF assms(1)] e(1), of "[word_of_int (kind_code (kind_of (body m)))]"]
    unfolding class_fields_of [symmetric] by (simp add: e(2) del: get_fields.simps)
  have m: "from_big_endian (big_endian 2 MAGIC) = MAGIC" "from_big_endian (big_endian 1 VERSION) = VERSION"
    by (simp_all add: MAGIC_def VERSION_def del: big_endian.simps)
  have ne: "inside \<noteq> []" "inside ! 0 = word_of_int (kind_code (kind_of (body m)))" using e(2) by simp_all
  note H = header_read [OF e(3,4)]
  show ?thesis
    unfolding decode_one_def H(1,2,3,5) Let_def m
    using H(4) e(3) ne code fields make_packet_of [OF assms(1), of rp] by simp
qed

lemma encode_length: "encode rp m = Inr bs \<Longrightarrow> HEADER_SIZE < length bs"
  by (erule encode_parts) (simp add: HEADER_SIZE_def del: big_endian.simps)

lemma decode_truncated:
  assumes "encode rp m = Inr bs" "k < length bs"
  shows "decode_one (take k bs) = Inl NetworkError"
proof -
  obtain parts inside where e: "length inside \<le> MAX_BODY"
    "bs = big_endian 2 MAGIC @ big_endian 1 VERSION @ big_endian 4 (int (length inside)) @ inside"
    using encode_parts [OF assms(1)] by metis
  note H = header_read [OF e]
  note front = H(1,2,3) [of "[]", unfolded append_Nil2]
  show ?thesis
  proof (cases "k < HEADER_SIZE")
    case True
    then show ?thesis using assms(2) by (simp add: decode_one_def)
  next
    case False
    then have "take 2 (take k bs) = take 2 bs" "take 1 (drop 2 (take k bs)) = take 1 (drop 2 bs)"
      "take 4 (drop 3 (take k bs)) = take 4 (drop 3 bs)"
      by (simp_all add: HEADER_SIZE_def min_def drop_take)
    then show ?thesis using assms(2) front(3) H(4) e(1) by (simp add: decode_one_def Let_def)
  qed
qed

section \<open>Properties\<close>

text \<open>A message whose commands are texts or nothing, and whose snapshot maps texts to texts.\<close>

definition text_items :: "dict \<Rightarrow> bool" where
  "text_items st \<longleftrightarrow> (\<forall>kv\<in>set st. \<exists>s t. kv = (PStr s, PStr t))"

definition texts_only :: "message \<Rightarrow> bool" where
  "texts_only m \<longleftrightarrow>
     (case body m of
        Append pi pt es ci rid \<Rightarrow> \<forall>e\<in>set es. command e = PNone \<or> (\<exists>s. s \<noteq> [] \<and> command e = PStr s)
      | InstallSnapshot li lt st ms \<Rightarrow> distinct (map fst st) \<and> text_items st
      | _ \<Rightarrow> True)"

lemma as_dict_distinct: "distinct (map fst items) \<Longrightarrow> as_dict items = items"
proof -
  have "foldl (\<lambda>d (k, v). AList.update k v d) done items = done @ items"
    if "distinct (map fst (done @ items))" for "done"
    using that
  proof (induction items arbitrary: "done")
    case (Cons kv items)
    obtain k v where kv: "kv = (k, v)" by fastforce
    with Cons.prems have "k \<notin> fst ` set done" by force
    then have "AList.update k v done = done @ [(k, v)]" by (induction "done") auto
    with Cons.IH [of "done @ [(k, v)]"] Cons.prems kv show ?case by simp
  qed simp
  from this [of "[]"] show "distinct (map fst items) \<Longrightarrow> as_dict items = items" by (simp add: as_dict_def)
qed

lemma text_inject:
  assumes "v = PNone \<or> (\<exists>s. s \<noteq> [] \<and> v = PStr s)" "w = PNone \<or> (\<exists>s. s \<noteq> [] \<and> w = PStr s)"
    and "as_text rp v = as_text rp w"
  shows "v = w"
  using assms by (auto simp: as_text_def)

lemma view_entry_inject:
  assumes "command e = PNone \<or> (\<exists>s. s \<noteq> [] \<and> command e = PStr s)"
    "command f = PNone \<or> (\<exists>s. s \<noteq> [] \<and> command f = PStr s)" "view_entry rp e = view_entry rp f"
  shows "e = f"
  using text_inject [OF assms(1,2), of rp] assms(3) by (auto simp: view_entry_def split: if_splits)

lemma view_entries_inject:
  "\<forall>e\<in>set es \<union> set fs. command e = PNone \<or> (\<exists>s. s \<noteq> [] \<and> command e = PStr s) \<Longrightarrow>
   map (view_entry rp) es = map (view_entry rp) fs \<Longrightarrow> es = fs"
  by (rule map_inj_on) (auto intro!: inj_onI view_entry_inject)

lemma text_itemsD: "text_items st \<Longrightarrow> kv \<in> set st \<Longrightarrow> \<exists>s t. kv = (PStr s, PStr t)"
  by (simp add: text_items_def)

lemma view_items_inject:
  assumes "text_items st" "text_items tt" "map (view_item rp) st = map (view_item rp) tt"
  shows "st = tt"
proof (rule map_inj_on [OF assms(3)], rule inj_onI)
  fix x y assume xy: "x \<in> set st \<union> set tt" "y \<in> set st \<union> set tt" "view_item rp x = view_item rp y"
  have "text_items (st @ tt)" using assms(1,2) by (simp add: text_items_def ball_Un)
  then have "\<exists>s t. x = (PStr s, PStr t)" "\<exists>s t. y = (PStr s, PStr t)"
    using xy(1,2) by (simp_all add: text_itemsD)
  then obtain s t s' t' where "x = (PStr s, PStr t)" "y = (PStr s', PStr t')" by (elim exE) simp
  with xy(3) show "x = y" by (simp add: view_item_def str_text_def as_text_def)
qed

lemma view_items_distinct:
  assumes "distinct (map fst st)" "text_items st"
  shows "distinct (map fst (map (view_item rp) st))"
proof -
  have "inj_on (str_text rp) (fst ` set st)"
  proof (rule inj_onI)
    fix x y assume xy: "x \<in> fst ` set st" "y \<in> fst ` set st" "str_text rp x = str_text rp y"
    then have "\<exists>s. x = PStr s" "\<exists>s. y = PStr s" by (auto dest!: text_itemsD [OF assms(2)])
    then obtain s s' where "x = PStr s" "y = PStr s'" by (elim exE) simp
    with xy(3) show "x = y" by (simp add: str_text_def)
  qed
  then have "distinct (map (str_text rp) (map fst st))" using assms(1) by (simp add: distinct_map comp_inj_on)
  moreover have "map fst (map (view_item rp) st) = map (str_text rp) (map fst st)"
    by (simp add: view_item_def split: prod.split)
  ultimately show ?thesis by (simp only:)
qed

lemma map_texts_inject: "map (as_text rp) (map PStr ms) = map (as_text rp) (map PStr ns) \<Longrightarrow> ms = ns"
  by (induction ms arbitrary: ns) (auto simp: as_text_def Cons_eq_map_conv)

lemma packet_inject:
  assumes "texts_only m" "texts_only n" "packet_of rp m = packet_of rp n"
  shows "m = n"
proof -
  have head: "sender m = sender n" "recipient m = recipient n" "m_term m = m_term n"
    "kind_of (body m) = kind_of (body n)"
    "map (view_value rp) (payload_values (body m)) = map (view_value rp) (payload_values (body n))"
    using assms(3) by (simp_all add: packet_of_def)
  have "body m = body n"
  proof (cases "body m")
    case (Append pi pt es ci rid)
    with head(4) obtain pi' pt' fs ci' rid' where n: "body n = Append pi' pt' fs ci' rid'" by (cases "body n") auto
    with Append assms(1,2) have "\<forall>e\<in>set es \<union> set fs. command e = PNone \<or> (\<exists>s. s \<noteq> [] \<and> command e = PStr s)"
      by (auto simp: texts_only_def)
    then have "es = fs" by (rule view_entries_inject [where rp = rp]) (use head(5) Append n in simp)
    then show ?thesis using head(5) Append n by simp
  next
    case (InstallSnapshot li lt st ms)
    with head(4) obtain li' lt' tt ns where n: "body n = InstallSnapshot li' lt' tt ns" by (cases "body n") auto
    have all: "text_items st" "distinct (map fst st)" "text_items tt" "distinct (map fst tt)"
      using assms(1,2) InstallSnapshot n by (simp_all add: texts_only_def)
    have "map (view_item rp) st = map (view_item rp) tt"
      using head(5) InstallSnapshot n
      by (simp add: as_dict_distinct [OF view_items_distinct [OF all(2,1)]] as_dict_distinct [OF view_items_distinct [OF all(4,3)]])
    then have "st = tt" by (rule view_items_inject [OF all(1,3)])
    moreover have "ms = ns" by (rule map_texts_inject [of rp]) (use head(5) InstallSnapshot n in simp)
    ultimately show ?thesis using head(5) InstallSnapshot n by simp
  qed (use head(4,5) in \<open>cases "body n"; simp\<close>)+
  with head show ?thesis by simp
qed

text \<open>
  C13. Encoding a message and decoding the frame gives back its class, its names, its term and every
  field, with commands and state values as the text written for them, and nothing is lost when
  those are texts already: two such messages with one frame are the same message.
\<close>

theorem wire_round_trip:
  assumes "message_ok m" "encode rp m = Inr bs"
  shows "decode bs = Inr (packet_of rp m) \<and>
    (\<forall>n. message_ok n \<and> texts_only m \<and> texts_only n \<and> encode rp n = Inr bs \<longrightarrow> m = n)"
proof -
  have read: "decode_one bs = Inr (packet_of rp n, length bs)" if "message_ok n" "encode rp n = Inr bs" for n
    using decode_encoded [OF that, of "[]"] by simp
  show ?thesis
  proof (intro conjI allI impI)
    show "decode bs = Inr (packet_of rp m)" using read [OF assms] by (simp add: decode_def)
    fix n assume n: "message_ok n \<and> texts_only m \<and> texts_only n \<and> encode rp n = Inr bs"
    then have "packet_of rp m = packet_of rp n" using read [OF assms] read [of n] by simp
    with n show "m = n" using packet_inject by blast
  qed
qed

definition sample_append :: message where
  "sample_append = \<lparr>sender = ''n0'', recipient = ''n1'', m_term = 3,
     body = Append 1 2 [\<lparr>e_term = 3, e_index = 2, command = PStr ''set''\<rparr>] 1 0\<rparr>"

lemma sample_encodes: "\<exists>bs. encode (\<lambda>v. []) sample_append = Inr bs \<and> length bs = 79"
proof -
  have "case encode (\<lambda>v. []) sample_append of Inr bs \<Rightarrow> length bs = 79 | Inl e \<Rightarrow> False" by code_simp
  then show ?thesis by (auto split: sum.splits)
qed

lemma sample_ok: "message_ok sample_append" "texts_only sample_append"
  by (simp_all add: sample_append_def message_ok_def texts_only_def entry_ok_def)

theorem wire_round_trip_witness:
  "\<exists>bs. encode (\<lambda>v. []) sample_append = Inr bs \<and> decode bs = Inr (packet_of (\<lambda>v. []) sample_append)"
  using sample_encodes wire_round_trip [OF sample_ok(1)] by blast

text \<open>
  C14. A stream of frames reads back as the messages in their order, and a stream whose last frame
  is cut anywhere inside is refused rather than waited on or read in part.
\<close>

theorem stream_round_trip:
  assumes "\<forall>m\<in>set ms. message_ok m" "frame_all rp ms = Inr bs" "encode rp n = Inr cs" "0 < k" "k < length cs"
  shows "read_all bs = Inr (map (packet_of rp) ms) \<and> read_all (bs @ take k cs) = Inl NetworkError"
proof -
  have step: "read_all (concat parts @ tail) = rbind (read_all tail) (\<lambda>ps. Inr (map (packet_of rp) ms @ ps))"
    if "\<forall>m\<in>set ms. message_ok m" "rmap (encode rp) ms = Inr parts" for ms parts tail
    using that
  proof (induction ms arbitrary: parts)
    case Nil
    then show ?case by (cases "read_all tail") auto
  next
    case (Cons m ms)
    then obtain b r where b: "encode rp m = Inr b" "rmap (encode rp) ms = Inr r" "parts = b # r"
      by (auto simp: raises)
    have "decode_one (b @ (concat r @ tail)) = Inr (packet_of rp m, length b)"
      using Cons.prems(1) b(1) by (intro decode_encoded) auto
    moreover have "b \<noteq> []" using encode_length [OF b(1)] by auto
    ultimately have "read_all (concat parts @ tail) =
        rbind (read_all (concat r @ tail)) (\<lambda>ps. Inr (packet_of rp m # ps))"
      using b(3) by (subst read_all.simps) simp
    with Cons.IH [OF _ b(2)] Cons.prems(1) show ?case by (simp add: rbind_assoc)
  qed
  obtain parts where parts: "rmap (encode rp) ms = Inr parts" "bs = concat parts"
    using assms(2) by (auto simp: frame_all_def raises)
  have "read_all [] = Inr []" by (simp add: read_all.simps)
  with step [OF assms(1) parts(1), of "[]"] parts(2) have "read_all bs = Inr (map (packet_of rp) ms)" by simp
  moreover have "read_all (take k cs) = Inl NetworkError"
    using decode_truncated [OF assms(3,5)] assms(4,5) by (subst read_all.simps) auto
  with step [OF assms(1) parts(1)] parts(2) have "read_all (bs @ take k cs) = Inl NetworkError" by simp
  ultimately show ?thesis ..
qed

theorem stream_round_trip_witness:
  "\<exists>bs. frame_all (\<lambda>v. []) [sample_append, sample_append] = Inr bs \<and>
     read_all bs = Inr [packet_of (\<lambda>v. []) sample_append, packet_of (\<lambda>v. []) sample_append]"
proof -
  obtain cs where cs: "encode (\<lambda>v. []) sample_append = Inr cs" "length cs = 79" using sample_encodes by blast
  then have "frame_all (\<lambda>v. []) [sample_append, sample_append] = Inr (cs @ cs)" by (simp add: frame_all_def)
  with stream_round_trip [OF _ this cs(1), of 1] cs(2) sample_ok(1) show ?thesis by simp
qed

lemma get_fields_bounds:
  "get_fields as raw at = Inr (vs, at') \<Longrightarrow> at \<le> length raw \<Longrightarrow> at \<le> at' \<and> at' \<le> length raw \<and> length vs = length as"
proof (induction "as" arbitrary: at vs)
  case (Cons a "as")
  then obtain v at1 ws where v: "get_value raw at a = Inr (v, at1)" "get_fields as raw at1 = Inr (ws, at')" "vs = v # ws"
    by (auto simp: raises)
  from get_value_bounds [OF v(1)] Cons.IH [OF v(2)] v(3) show ?case by auto
qed simp

text \<open>
  Decoding is confined to one frame: what it takes from a buffer is the header and a body of at
  most the frame limit, it lies inside the buffer, and whatever follows it changes nothing.
\<close>

theorem decode_confined:
  assumes "decode_one raw = Inr (p, used)"
  shows "HEADER_SIZE < used \<and> used \<le> length raw \<and> used \<le> HEADER_SIZE + MAX_BODY \<and>
    1 \<le> p_term p \<and> p_sender p \<noteq> p_recipient p \<and>
    (\<forall>rest. decode_one (take used raw @ rest) = Inr (p, used))"
proof -
  define size where "size = nat (from_big_endian (take 4 (drop 3 raw)))"
  let ?in = "take size (drop HEADER_SIZE raw)"
  obtain k vs at where d: "HEADER_SIZE + size \<le> length raw" "size \<le> MAX_BODY" "?in \<noteq> []"
    "from_big_endian (take 2 raw) = MAGIC" "from_big_endian (take 1 (drop 2 raw)) = VERSION"
    "code_kind (uint (?in ! 0)) = Some k" "get_fields ([FStr, FStr, FInt] @ class_fields k) ?in 1 = Inr (vs, at)"
    "at = length ?in" "make_packet k vs = Inr p" "used = HEADER_SIZE + size"
    using assms unfolding decode_one_def Let_def size_def [symmetric]
    by (auto simp: raises size_def split: if_splits option.splits)
  have "decode_one (take used raw @ rest) = Inr (p, used)" for rest
  proof -
    let ?r = "take used raw @ rest"
    have len: "HEADER_SIZE \<le> used" "used \<le> length raw" using d(1,10) by simp_all
    then have "take 2 ?r = take 2 raw" "take 1 (drop 2 ?r) = take 1 (drop 2 raw)"
      "take 4 (drop 3 ?r) = take 4 (drop 3 raw)" "take size (drop HEADER_SIZE ?r) = ?in"
      by (simp_all add: HEADER_SIZE_def drop_take min_def d(10)) auto
    then show ?thesis
      using d len unfolding decode_one_def Let_def by (simp add: size_def [symmetric] del: get_fields.simps)
  qed
  moreover have "1 \<le> p_term p \<and> p_sender p \<noteq> p_recipient p"
    using d(9) by (cases "(k, vs)" rule: make_packet.cases) (auto split: if_splits)
  moreover have "0 < size" using d(3) by (cases size) simp_all
  ultimately show ?thesis using d(1,2,10) by simp
qed

theorem decode_confined_witness:
  "\<exists>bs. encode (\<lambda>v. []) sample_append = Inr bs \<and>
     decode_one (bs @ [1, 2, 3]) = Inr (packet_of (\<lambda>v. []) sample_append, 79)"
proof -
  obtain cs where cs: "encode (\<lambda>v. []) sample_append = Inr cs" "length cs = 79" using sample_encodes by blast
  then have "decode_one cs = Inr (packet_of (\<lambda>v. []) sample_append, 79)"
    using decode_encoded [OF sample_ok(1) cs(1), of "[]"] by simp
  from decode_confined [OF this] cs show ?thesis by (metis order_refl take_all)
qed

text \<open>What a reader can raise: the frame is too short or wrong, or a text is not UTF-8.\<close>

definition bad_bytes :: "error \<Rightarrow> bool" where
  "bad_bytes e \<longleftrightarrow> e = NetworkError \<or> e = ValueError"

lemma get_raises:
  "get_int raw at = Inl e \<Longrightarrow> bad_bytes e"
  "get_str raw at = Inl e \<Longrightarrow> bad_bytes e"
  "get_flag raw at = Inl e \<Longrightarrow> bad_bytes e"
  by (auto simp: get_int_def get_str_def get_flag_def bad_bytes_def Let_def split: if_splits option.splits)

lemma get_parts_raise:
  "get_entry raw at = Inl e \<Longrightarrow> bad_bytes e"
  "get_item raw at = Inl e \<Longrightarrow> bad_bytes e"
  using get_raises by (auto simp: get_entry_def get_item_def raises bad_bytes_def split: if_splits) blast+

lemma get_each_raises:
  "(\<And>at e. get raw at = Inl e \<Longrightarrow> bad_bytes e) \<Longrightarrow> get_each get n raw at = Inl e \<Longrightarrow> bad_bytes e"
  by (induction n arbitrary: at) (auto simp: raises)

lemma get_counted_raises:
  "(\<And>at e. get raw at = Inl e \<Longrightarrow> bad_bytes e) \<Longrightarrow> get_counted get raw at = Inl e \<Longrightarrow> bad_bytes e"
  using get_each_raises [of get raw]
  by (auto simp: get_counted_def get_count_def raises Let_def bad_bytes_def split: if_splits)

lemma get_value_raises: "get_value raw at a = Inl e \<Longrightarrow> bad_bytes e"
  by (cases a) (auto simp: raises dest: get_raises intro: get_counted_raises get_parts_raise get_raises)

lemma get_fields_raises: "get_fields as raw at = Inl e \<Longrightarrow> bad_bytes e"
  by (induction "as" arbitrary: at) (auto simp: raises dest: get_value_raises)

lemma first_fields:
  "get_fields (FStr # FStr # FInt # as) raw at = Inr (vs, at') \<Longrightarrow>
   \<exists>s r t ws. vs = GStr s # GStr r # GInt t # ws"
  by (auto simp: raises)

lemma decode_one_raises:
  fixes raw :: "byte list"
  defines "room \<equiv> nat (from_big_endian (take 4 (drop 3 raw)))"
  defines "inside \<equiv> take room (drop HEADER_SIZE raw)"
  assumes "decode_one raw = Inl e"
  shows "e = NetworkError \<or> (inside = [] \<and> e = StructError \<and> HEADER_SIZE + room \<le> length raw) \<or>
    (\<exists>k. get_fields (FStr # FStr # FInt # class_fields k) inside 1 = Inl e) \<or>
    (\<exists>k vs at. get_fields (FStr # FStr # FInt # class_fields k) inside 1 = Inr (vs, at) \<and> make_packet k vs = Inl e)"
  using assms(3) unfolding decode_one_def Let_def room_def [symmetric] inside_def [symmetric]
  by (auto simp: raises simp del: get_fields.simps split: if_splits option.splits)

text \<open>
  C15. Whatever bytes arrive, decoding returns a message or raises a network error, a decoding
  error for a text that is not UTF-8, or the constructor's error for an impossible term or a
  message to its own sender; except that a frame whose body is empty escapes as the struct
  module's own error, because the kind is read before anything looks at the length.
\<close>

theorem decode_refusals:
  "(case decode_one raw of
      Inr pu \<Rightarrow> True
    | Inl e \<Rightarrow> e = NetworkError \<or> e = ValueError \<or> e = ConfigError \<or>
        (e = StructError \<and> from_big_endian (take 4 (drop 3 raw)) = 0)) \<and>
   decode_one (big_endian 2 MAGIC @ big_endian 1 VERSION @ big_endian 4 0) = Inl StructError"
proof
  have "e = NetworkError \<or> e = ValueError \<or> e = ConfigError \<or>
        (e = StructError \<and> from_big_endian (take 4 (drop 3 raw)) = 0)" if e: "decode_one raw = Inl e" for e
  proof -
    define size where "size = nat (from_big_endian (take 4 (drop 3 raw)))"
    let ?in = "take size (drop HEADER_SIZE raw)"
    consider "e = NetworkError" | "?in = []" "e = StructError" "HEADER_SIZE + size \<le> length raw"
      | k where "get_fields (FStr # FStr # FInt # class_fields k) ?in 1 = Inl e"
      | k vs at where "get_fields (FStr # FStr # FInt # class_fields k) ?in 1 = Inr (vs, at)" "make_packet k vs = Inl e"
      using decode_one_raises [OF e] unfolding size_def by blast
    then show ?thesis
    proof cases
      case 2
      then have "size = 0" by (cases "drop HEADER_SIZE raw") auto
      with 2 show ?thesis using from_big_endian_nonneg [of "take 4 (drop 3 raw)"] by (simp add: size_def)
    next
      case 3
      then show ?thesis using get_fields_raises bad_bytes_def by blast
    next
      case 4
      then obtain s r t ws where "vs = GStr s # GStr r # GInt t # ws" using first_fields [OF 4(1)] by blast
      with 4 show ?thesis by (auto split: if_splits)
    qed simp
  qed
  then show "case decode_one raw of Inr pu \<Rightarrow> True
    | Inl e \<Rightarrow> e = NetworkError \<or> e = ValueError \<or> e = ConfigError \<or>
        (e = StructError \<and> from_big_endian (take 4 (drop 3 raw)) = 0)"
    by (simp split: sum.split)
  show "decode_one (big_endian 2 MAGIC @ big_endian 1 VERSION @ big_endian 4 0) = Inl StructError"
    by code_simp
qed

end
