(* ===== verification/Repairing.thy ===== *)
theory Repairing
  imports Log_Reconcile Raft_Node
begin

text \<open>
  \<open>src/rsm/repair.py\<close>: four ways for a leader to find where a follower's log stops agreeing with
  its own, each by probing a real follower with empty appends. An index is an \<open>int\<close>, because the
  loops run it down to minus one. A probe changes the follower's timer, so the follower is
  threaded through.
\<close>

section \<open>Probes and their strategies\<close>

definition LIMIT :: int where "LIMIT = 4000"

datatype strategy = Walk_Back | Skip_Term | Bisect | Hybrid

record repair =
  r_strategy :: strategy
  probes :: int
  r_matched :: int
  divergence :: int

definition Repair :: "strategy \<Rightarrow> int \<Rightarrow> int \<Rightarrow> int \<Rightarrow> repair result" where
  "Repair s p m d =
     (if p < 0 then Inl ConfigError
      else Inr \<lparr>r_strategy = s, probes = p, r_matched = m, divergence = d\<rparr>)"

definition repair_found :: "repair \<Rightarrow> bool" where
  "repair_found r \<longleftrightarrow> r_matched r = divergence r"

definition success :: "message \<Rightarrow> bool" where
  "success r = (case body r of Appended ok mi ct ci rid \<Rightarrow> ok | _ \<Rightarrow> False)"

text \<open>A leader and a follower with given logs, as the module builds them.\<close>

definition numbered :: "nat list \<Rightarrow> (nat \<times> pyobj) list" where
  "numbered ts = zip ts (map (\<lambda>i. PStr (''c'' @ decimal (i + 1))) [0..<length ts])"

definition repair_pair :: "(int \<Rightarrow> name \<Rightarrow> draws) \<Rightarrow> nat list \<Rightarrow> nat list \<Rightarrow> nat \<Rightarrow> (node \<times> node) result" where
  "repair_pair sd lts fts t =
     (let ms = [''n0'', ''n1''] in
      rbind (Node ''n0'' ms (sd 0 ''n0'') False False) (\<lambda>l.
      rbind (Node ''n1'' ms (sd 1 ''n1'') False False) (\<lambda>f.
      rbind (written (numbered lts) 1) (\<lambda>ll.
      rbind (written (numbered fts) 1) (\<lambda>fl.
      Inr (l\<lparr>current_term := t, log := ll, role := LEADER, leader := Some ''n0'',
             next_index := [''n1'' \<mapsto> last_index ll + 1], match_index := [''n1'' \<mapsto> 0]\<rparr>,
           f\<lparr>current_term := t, log := fl, leader := Some ''n0''\<rparr>))))))"

definition probe :: "node \<Rightarrow> node \<Rightarrow> int \<Rightarrow> (message \<times> node) result" where
  "probe l f i =
     (if i < 0 then Inl ConfigError
      else rbind (if i \<noteq> 0 then term_at (log l) (nat i) else Inr 0) (\<lambda>pt.
           rbind (Message (name l) (name f) (current_term l) (Append (nat i) pt [] (commit_index l) 0)) (\<lambda>m.
           rbind (step f m) (\<lambda>(f', replies).
           case replies of [] \<Rightarrow> Inl IndexError | r # _ \<Rightarrow> Inr (r, f')))))"

function walk_probes :: "node \<Rightarrow> node \<Rightarrow> int \<Rightarrow> int \<Rightarrow> int \<Rightarrow> (repair \<times> node) result" where
  "walk_probes l f i n truth =
     (if i \<ge> 0 \<and> n < LIMIT then
        rbind (probe l f i) (\<lambda>(r, f').
        if success r then rbind (Repair Walk_Back (n + 1) i truth) (\<lambda>out. Inr (out, f'))
        else walk_probes l f' (i - 1) (n + 1) truth)
      else rbind (Repair Walk_Back n (-1) truth) (\<lambda>out. Inr (out, f)))"
  by pat_completeness auto
termination by (relation "measure (\<lambda>(l, f, i, n, truth). nat (LIMIT - n))") auto

definition walk :: "node \<Rightarrow> node \<Rightarrow> (repair \<times> node) result" where
  "walk l f = rbind (agree_up_to (log l) (log f)) (\<lambda>truth.
     walk_probes l f (int (last_index (log l))) 0 (int truth))"

definition next_probe :: "raft_log \<Rightarrow> message \<Rightarrow> int \<Rightarrow> int" where
  "next_probe l r i =
     (case body r of
        Appended ok mi ct ci rid \<Rightarrow>
          (if ct > 0 then
             (let own = map (\<lambda>e. int (e_index e)) (filter (\<lambda>e. e_term e = ct) (entries l)) in
              if own \<noteq> [] then min (Max (set own)) (i - 1)
              else min (max (int ci - 1) 0) (i - 1))
           else if ci > 0 then min (int ci - 1) (i - 1)
           else i - 1)
      | _ \<Rightarrow> i - 1)"

function skip_probes :: "node \<Rightarrow> node \<Rightarrow> int \<Rightarrow> int \<Rightarrow> int \<Rightarrow> (repair \<times> node) result" where
  "skip_probes l f i n truth =
     (if i \<ge> 0 \<and> n < LIMIT then
        rbind (probe l f i) (\<lambda>(r, f').
        if success r then rbind (Repair Skip_Term (n + 1) i truth) (\<lambda>out. Inr (out, f'))
        else skip_probes l f' (next_probe (log l) r i) (n + 1) truth)
      else rbind (Repair Skip_Term n (-1) truth) (\<lambda>out. Inr (out, f)))"
  by pat_completeness auto
termination by (relation "measure (\<lambda>(l, f, i, n, truth). nat (LIMIT - n))") auto

definition skip :: "node \<Rightarrow> node \<Rightarrow> (repair \<times> node) result" where
  "skip l f = rbind (agree_up_to (log l) (log f)) (\<lambda>truth.
     skip_probes l f (int (last_index (log l))) 0 (int truth))"

text \<open>The loop both bisecting strategies end with: the best index found, the probes, the follower.\<close>

function bisect_probes :: "node \<Rightarrow> node \<Rightarrow> int \<Rightarrow> int \<Rightarrow> int \<Rightarrow> int \<Rightarrow> (int \<times> int \<times> node) result" where
  "bisect_probes l f low high best n =
     (if low \<le> high \<and> n < LIMIT then
        let middle = (low + high) div 2 in
        rbind (probe l f middle) (\<lambda>(r, f').
        if success r then bisect_probes l f' (middle + 1) high middle (n + 1)
        else bisect_probes l f' low (middle - 1) best (n + 1))
      else Inr (best, n, f))"
  by pat_completeness auto
termination by (relation "measure (\<lambda>(l, f, low, high, best, n). nat (LIMIT - n))") (auto simp: Let_def)

definition bisect :: "node \<Rightarrow> node \<Rightarrow> (repair \<times> node) result" where
  "bisect l f = rbind (agree_up_to (log l) (log f)) (\<lambda>truth.
     rbind (bisect_probes l f 0 (int (last_index (log l))) 0 0) (\<lambda>(best, n, f').
     rbind (Repair Bisect n best (int truth)) (\<lambda>out. Inr (out, f'))))"

text \<open>The first steps of the hybrid: it has found the place, or goes on below an index.\<close>

function patient_probes :: "node \<Rightarrow> node \<Rightarrow> int \<Rightarrow> int \<Rightarrow> int \<Rightarrow> (bool \<times> int \<times> int \<times> node) result" where
  "patient_probes l f i n patience =
     (if i \<ge> 0 \<and> n < patience then
        rbind (probe l f i) (\<lambda>(r, f').
        if success r then Inr (True, i, n + 1, f')
        else patient_probes l f' (i - 1) (n + 1) patience)
      else Inr (False, i, n, f))"
  by pat_completeness auto
termination by (relation "measure (\<lambda>(l, f, i, n, patience). nat (patience - n))") auto

definition hybrid :: "node \<Rightarrow> node \<Rightarrow> int \<Rightarrow> (repair \<times> node) result" where
  "hybrid l f patience =
     (if patience < 0 then Inl ConfigError
      else rbind (agree_up_to (log l) (log f)) (\<lambda>truth.
        rbind (patient_probes l f (int (last_index (log l))) 0 patience) (\<lambda>(found, i, n, f1).
        if found then rbind (Repair Hybrid n i (int truth)) (\<lambda>out. Inr (out, f1))
        else rbind (bisect_probes l f1 0 i 0 n) (\<lambda>(best, n2, f2).
             rbind (Repair Hybrid n2 best (int truth)) (\<lambda>out. Inr (out, f2))))))"

declare walk_probes.simps [simp del] skip_probes.simps [simp del] bisect_probes.simps [simp del]
  patient_probes.simps [simp del]

section \<open>What a probe answers\<close>

text \<open>A leader and a follower whose uncompacted logs are given, with nothing new to commit.\<close>

definition paired :: "entry list \<Rightarrow> entry list \<Rightarrow> node \<Rightarrow> node \<Rightarrow> bool" where
  "paired ls fs l f \<longleftrightarrow> log l = plain ls \<and> log f = plain fs \<and> indexed ls \<and> indexed fs \<and>
     (\<forall>e\<in>set ls \<union> set fs. 1 \<le> e_term e) \<and> name l \<noteq> name f \<and> 1 \<le> current_term l \<and>
     current_term f \<le> current_term l \<and> commit_index l \<le> commit_index f"

text \<open>What a refusal says: the term the follower holds there, and where its run of it starts.\<close>

definition hints :: "entry list \<Rightarrow> nat \<Rightarrow> message \<Rightarrow> bool" where
  "hints fs i r \<longleftrightarrow>
     (if i > length fs then (\<exists>ok mi rid. body r = Appended ok mi 0 (length fs + 1) rid)
      else \<exists>ok mi j rid. body r = Appended ok mi (term_of fs i) j rid \<and> 1 \<le> j \<and> j \<le> i \<and>
             (\<forall>k. j \<le> k \<longrightarrow> k \<le> i \<longrightarrow> term_of fs k = term_of fs i))"

lemma run_start_run:
  "indexed es \<Longrightarrow> 1 \<le> i \<Longrightarrow> i \<le> length es \<Longrightarrow> term_of es i = c \<Longrightarrow>
   \<exists>j. run_start (plain es) c i = Inr j \<and> 1 \<le> j \<and> j \<le> i \<and> (\<forall>k. j \<le> k \<longrightarrow> k \<le> i \<longrightarrow> term_of es k = c)"
proof (induction i rule: less_induct)
  case (less i)
  have at: "term_at (plain es) (i - 1) = Inr (term_of es (i - 1))"
    using less.prems by (intro term_at_plain) auto
  show ?case
  proof (cases "i > 1 \<and> term_of es (i - 1) = c")
    case True
    then have "i - 1 < i" "1 \<le> i - 1" "i - 1 \<le> length es" using less.prems by linarith+
    with less.IH [of "i - 1"] less.prems True obtain j where
      j: "run_start (plain es) c (i - 1) = Inr j" "1 \<le> j" "j \<le> i - 1" "\<forall>k. j \<le> k \<longrightarrow> k \<le> i - 1 \<longrightarrow> term_of es k = c"
      by blast
    have "term_of es k = c" if "j \<le> k" "k \<le> i" for k
      using that j(4) less.prems(4) by (cases "k = i") auto
    with j True at show ?thesis by (subst run_start.simps) (auto simp: plain_log)
  next
    case False
    then have "run_start (plain es) c i = Inr i" using at by (subst run_start.simps) (auto simp: plain_log)
    with less.prems show ?thesis by auto
  qed
qed

lemma timer_fields [simp]:
  "log (reset_election_timer n) = log n" "name (reset_election_timer n) = name n"
  "current_term (reset_election_timer n) = current_term n" "commit_index (reset_election_timer n) = commit_index n"
  by (simp_all add: reset_election_timer_def split: prod.split)

lemma follower_fields [simp]:
  "log (become_follower n t p) = log n" "name (become_follower n t p) = name n"
  "current_term (become_follower n t p) = max t (current_term n)" "commit_index (become_follower n t p) = commit_index n"
  by (auto simp: become_follower_def Let_def)

text \<open>An empty append of a current term: accepted exactly where the logs match.\<close>

lemma empty_append:
  assumes "log f = plain fs" "indexed fs" "c \<le> commit_index f" "sender m \<noteq> name f" "1 \<le> current_term f"
    and "m_term m = current_term f"
  shows "\<exists>f' r. on_append f m i pt [] c 0 = Inr (f', [r]) \<and> log f' = log f \<and> name f' = name f \<and>
    current_term f' = current_term f \<and> commit_index f' = commit_index f \<and>
    (success r \<longleftrightarrow> i = 0 \<or> i \<le> length fs \<and> term_of fs i = pt) \<and> (success r \<or> hints fs i r)"
proof -
  define f3 where "f3 = reset_election_timer
    (if role (f\<lparr>leader := Some (sender m)\<rparr>) \<noteq> FOLLOWER then (become_follower (f\<lparr>leader := Some (sender m)\<rparr>) (m_term m) (Some (sender m)))
        \<lparr>leader := Some (sender m)\<rparr> else f\<lparr>leader := Some (sender m)\<rparr>)"
  have f3: "log f3 = plain fs" "name f3 = name f" "current_term f3 = current_term f" "commit_index f3 = commit_index f"
    using assms(1,6) by (simp_all add: f3_def)
  have "on_append f m i pt [] c 0 = rbind (matches (log f3) i pt) (\<lambda>ok.
      if \<not> ok then conflict f3 m i 0
      else rbind (take_entries (log f3) []) (\<lambda>l. rbind
        (if c > commit_index (f3\<lparr>log := l\<rparr>)
         then apply_ready ((f3\<lparr>log := l\<rparr>)\<lparr>commit_index := min c (last_index (log (f3\<lparr>log := l\<rparr>)))\<rparr>)
         else Inr (f3\<lparr>log := l\<rparr>)) (\<lambda>n.
        reply n m (Appended True (append_last_index i []) NO_TERM NO_INDEX 0))))"
    unfolding on_append_def f3_def Let_def by (rule refl)
  moreover have same: "f3\<lparr>log := plain fs\<rparr> = f3" using f3(1) by simp
  ultimately have run: "on_append f m i pt [] c 0 =
      (if i = 0 \<or> i \<le> length fs \<and> term_of fs i = pt
       then reply f3 m (Appended True i NO_TERM NO_INDEX 0) else conflict f3 m i 0)"
    using f3 assms(2,3) by (simp add: same matches_plain append_last_index_def not_less)
  have send: "reply f3 m b = Inr (f3, [\<lparr>sender = name f, recipient = sender m, m_term = current_term f, body = b\<rparr>])" for b
    using assms(4,5) f3 by (simp add: reply_def Message_def)
  show ?thesis
  proof (cases "i = 0 \<or> i \<le> length fs \<and> term_of fs i = pt")
    case True
    then show ?thesis using run send f3 assms(1) by (simp add: success_def)
  next
    case False
    show ?thesis
    proof (cases "i > length fs")
      case True
      then show ?thesis
        using run send f3 assms(1,2) False
        by (auto simp: conflict_def plain_log success_def hints_def NO_TERM_def NO_INDEX_def)
    next
      case short: False
      then obtain j where j: "run_start (plain fs) (term_of fs i) i = Inr j" "1 \<le> j" "j \<le> i"
        "\<forall>k. j \<le> k \<longrightarrow> k \<le> i \<longrightarrow> term_of fs k = term_of fs i"
      proof -
        have "1 \<le> i" "i \<le> length fs" using False short by simp_all
        from run_start_run [OF assms(2) this refl] that show thesis by blast
      qed
      have "conflict f3 m i 0 = reply f3 m (Appended False NO_INDEX (term_of fs i) j 0)"
        using f3 short assms(2) j(1) by (simp add: conflict_def last_index_plain term_at_plain)
      then have "on_append f m i pt [] c 0 = Inr (f3, [\<lparr>sender = name f, recipient = sender m,
          m_term = current_term f, body = Appended False NO_INDEX (term_of fs i) j 0\<rparr>])"
        unfolding run send using False by simp
      moreover have "\<exists>ok mi j' rid. Appended False NO_INDEX (term_of fs i) j 0 = Appended ok mi (term_of fs i) j' rid \<and>
          1 \<le> j' \<and> j' \<le> i \<and> (\<forall>k. j' \<le> k \<longrightarrow> k \<le> i \<longrightarrow> term_of fs k = term_of fs i)"
        using j(2-4) by blast
      then have "hints fs i \<lparr>sender = name f, recipient = sender m, m_term = current_term f,
          body = Appended False NO_INDEX (term_of fs i) j 0\<rparr>"
        unfolding hints_def using short by (simp only: if_False message.simps)
      ultimately show ?thesis using f3 assms(1) False by (simp add: success_def)
    qed
  qed
qed

lemma probe_answers:
  assumes "paired ls fs l f" "i \<le> length ls"
  shows "\<exists>r f'. probe l f (int i) = Inr (r, f') \<and> paired ls fs l f' \<and>
    (success r \<longleftrightarrow> matched ls fs i) \<and> (success r \<or> hints fs i r)"
proof -
  let ?m = "\<lparr>sender = name l, recipient = name f, m_term = current_term l,
    body = Append i (term_of ls i) [] (commit_index l) 0\<rparr>"
  let ?f = "if current_term f < current_term l then become_follower f (current_term l) None else f"
  have a: "log l = plain ls" "log f = plain fs" "indexed ls" "indexed fs" "name l \<noteq> name f" "1 \<le> current_term l"
    "current_term f \<le> current_term l" "commit_index l \<le> commit_index f" "\<forall>e\<in>set ls \<union> set fs. 1 \<le> e_term e"
    using assms(1) by (simp_all add: paired_def)
  have t: "(if int i \<noteq> 0 then term_at (log l) (nat (int i)) else Inr 0) = Inr (term_of ls i)"
    using a(1,3) assms(2) by (simp add: term_at_plain) (simp add: term_of_def)
  have s: "step f ?m = on_append ?f ?m i (term_of ls i) [] (commit_index l) 0"
    using a(7) by (auto simp: step_def dispatch_def term_check_def)
  obtain f' r where f': "on_append ?f ?m i (term_of ls i) [] (commit_index l) 0 = Inr (f', [r])"
    "log f' = plain fs" "name f' = name f" "current_term f' = current_term l" "commit_index f' = commit_index f"
    "success r \<longleftrightarrow> i = 0 \<or> i \<le> length fs \<and> term_of fs i = term_of ls i" "success r \<or> hints fs i r"
  proof -
    have F: "log ?f = plain fs" "name ?f = name f" "current_term ?f = current_term l" "commit_index ?f = commit_index f"
      using a(2,7) by simp_all
    from empty_append [OF F(1) a(4), of "commit_index l" ?m i "term_of ls i"] obtain f' r where
      "on_append ?f ?m i (term_of ls i) [] (commit_index l) 0 = Inr (f', [r]) \<and> log f' = log ?f \<and>
       name f' = name ?f \<and> current_term f' = current_term ?f \<and> commit_index f' = commit_index ?f \<and>
       (success r \<longleftrightarrow> i = 0 \<or> i \<le> length fs \<and> term_of fs i = term_of ls i) \<and> (success r \<or> hints fs i r)"
      using a(5,6,8) F(2,3,4) by force
    then show thesis by (intro that [of f' r]) (simp_all only: F simp_thms, blast)
  qed
  have "probe l f (int i) = Inr (r, f')"
    unfolding probe_def t using a(5,6) s f'(1) by (simp add: Message_def)
  moreover have "paired ls fs l f'" using a f'(2-5) by (simp add: paired_def)
  ultimately show ?thesis using f'(6,7) assms(2) by (auto simp: matched_def)
qed

section \<open>Where the searches end\<close>

abbreviation met :: "entry list \<Rightarrow> entry list \<Rightarrow> nat" where
  "met ls fs \<equiv> last_match ls fs (length ls)"

lemma matched_iff: "matching ls fs \<Longrightarrow> i \<le> length ls \<Longrightarrow> matched ls fs i \<longleftrightarrow> i \<le> met ls fs"
  by (meson last_match_matched last_match_max matching_def)

lemma matched_met: "met ls fs \<le> length ls" "met ls fs \<le> length fs"
  using last_match_le [of ls fs "length ls"] last_match_matched [of ls fs "length ls"]
  by (auto simp: matched_def)

lemma walk_probes_end:
  assumes "matching ls fs"
  shows "paired ls fs l f \<Longrightarrow> met ls fs \<le> k \<Longrightarrow> k \<le> length ls \<Longrightarrow> 0 \<le> n \<Longrightarrow>
    n + int (k - met ls fs) < LIMIT \<Longrightarrow>
    \<exists>f'. walk_probes l f (int k) n t =
      Inr (\<lparr>r_strategy = Walk_Back, probes = n + int (k - met ls fs) + 1, r_matched = int (met ls fs), divergence = t\<rparr>, f')"
proof (induction k arbitrary: f n)
  case 0
  then obtain r f' where "probe l f 0 = Inr (r, f')" "success r"
    using probe_answers [of ls fs l f 0] by (auto simp: matched_def)
  with 0 show ?case by (subst walk_probes.simps) (simp add: Repair_def)
next
  case (Suc k)
  obtain r f' where r: "probe l f (int (Suc k)) = Inr (r, f')" "paired ls fs l f'"
    "success r \<longleftrightarrow> Suc k \<le> met ls fs"
    using probe_answers [OF Suc.prems(1,3)] matched_iff [OF assms Suc.prems(3)] by auto
  show ?case
  proof (cases "success r")
    case True
    then have "Suc k = met ls fs" using r(3) Suc.prems(2) by simp
    with True r(1) Suc.prems show ?thesis by (subst walk_probes.simps) (simp add: Repair_def)
  next
    case False
    then have m: "met ls fs \<le> k" using r(3) by simp
    then have d: "n + int (Suc k - met ls fs) = n + 1 + int (k - met ls fs)" by simp
    have step: "walk_probes l f (int (Suc k)) n t = walk_probes l f' (int k) (n + 1) t"
    proof -
      have "n < LIMIT" using Suc.prems(5) by simp
      then show ?thesis using r(1) False by (subst walk_probes.simps) simp
    qed
    have "k \<le> length ls" "0 \<le> n + 1" "n + 1 + int (k - met ls fs) < LIMIT"
      using Suc.prems(3-5) unfolding d by simp_all
    then show ?thesis unfolding step d by (rule Suc.IH [OF r(2) m])
  qed
qed

lemma patient_probes_end:
  assumes "matching ls fs"
  shows "paired ls fs l f \<Longrightarrow> met ls fs \<le> k \<Longrightarrow> k \<le> length ls \<Longrightarrow> 0 \<le> n \<Longrightarrow> n \<le> patience \<Longrightarrow>
    \<exists>b i n' f'. patient_probes l f (int k) n patience = Inr (b, i, n', f') \<and> paired ls fs l f' \<and>
      0 \<le> n' \<and> n' \<le> patience \<and> int (met ls fs) \<le> i \<and> i \<le> int (length ls) \<and> (b \<longrightarrow> i = int (met ls fs))"
proof (induction k arbitrary: f n)
  case 0
  then obtain r f' where "probe l f 0 = Inr (r, f')" "success r" "paired ls fs l f'"
    using probe_answers [of ls fs l f 0] by (auto simp: matched_def)
  with 0 show ?case by (subst patient_probes.simps) auto
next
  case (Suc k)
  obtain r f' where r: "probe l f (int (Suc k)) = Inr (r, f')" "paired ls fs l f'"
    "success r \<longleftrightarrow> Suc k \<le> met ls fs"
    using probe_answers [OF Suc.prems(1,3)] matched_iff [OF assms Suc.prems(3)] by auto
  show ?case
  proof (cases "n < patience")
    case False
    with Suc.prems show ?thesis by (subst patient_probes.simps) auto
  next
    case going: True
    show ?thesis
    proof (cases "success r")
      case True
      then have "patient_probes l f (int (Suc k)) n patience = Inr (True, int (Suc k), n + 1, f')"
        using r(1) going by (subst patient_probes.simps) simp
      with r(2,3) True going Suc.prems(2-4) show ?thesis by auto
    next
      case False
      then have "patient_probes l f (int (Suc k)) n patience = patient_probes l f' (int k) (n + 1) patience"
        using r(1) going by (subst patient_probes.simps) simp
      with Suc.IH [OF r(2), of "n + 1"] Suc.prems r(3) False going show ?thesis by simp
    qed
  qed
qed

lemma bisect_probes_end:
  assumes "matching ls fs"
  shows "paired ls fs l f \<Longrightarrow> 0 \<le> low \<Longrightarrow> high \<le> int (length ls) \<Longrightarrow> low \<le> int (met ls fs) + 1 \<Longrightarrow>
    int (met ls fs) \<le> high \<Longrightarrow> low = best + 1 \<or> low = 0 \<and> best = 0 \<Longrightarrow> high - low + 1 < 2 ^ k \<Longrightarrow>
    0 \<le> n \<Longrightarrow> n + int k \<le> LIMIT \<Longrightarrow>
    \<exists>n' f'. bisect_probes l f low high best n = Inr (int (met ls fs), n', f') \<and> n \<le> n' \<and> n' \<le> n + int k"
proof (induction k arbitrary: f low high best n)
  case 0
  then have "low > high" by simp
  with 0 show ?case by (subst bisect_probes.simps) auto
next
  case (Suc k)
  show ?case
  proof (cases "low \<le> high")
    case False
    with Suc.prems show ?thesis by (subst bisect_probes.simps) auto
  next
    case True
    define q where "q = nat ((low + high) div 2)"
    have q: "(low + high) div 2 = int q" "low \<le> int q" "int q \<le> high"
      using True Suc.prems(2) by (simp_all add: q_def)
    then have "q \<le> length ls" using Suc.prems(3) by linarith
    then obtain r f' where r: "probe l f (int q) = Inr (r, f')" "paired ls fs l f'" "success r \<longleftrightarrow> q \<le> met ls fs"
      using probe_answers [OF Suc.prems(1)] matched_iff [OF assms] by blast
    have half: "high - (int q + 1) + 1 < 2 ^ k" "int q - 1 - low + 1 < 2 ^ k"
      using q(1) Suc.prems(7) by auto
    have "n < LIMIT" using Suc.prems(8,9) by simp
    then have step: "bisect_probes l f low high best n =
        (if success r then bisect_probes l f' (int q + 1) high (int q) (n + 1)
         else bisect_probes l f' low (int q - 1) best (n + 1))"
      using True q(1) r(1) by (subst bisect_probes.simps) (simp add: Let_def)
    show ?thesis
    proof (cases "success r")
      case True
      then have "q \<le> met ls fs" using r(3) by simp
      then obtain n' f'' where "bisect_probes l f' (int q + 1) high (int q) (n + 1) = Inr (int (met ls fs), n', f'')"
        "n + 1 \<le> n'" "n' \<le> n + 1 + int k"
        using Suc.IH [OF r(2), of "int q + 1" high "int q" "n + 1"] Suc.prems half(1) by auto
      with step True show ?thesis by auto
    next
      case False
      then have "int (met ls fs) \<le> int q - 1" using r(3) by simp
      then obtain n' f'' where "bisect_probes l f' low (int q - 1) best (n + 1) = Inr (int (met ls fs), n', f'')"
        "n + 1 \<le> n'" "n' \<le> n + 1 + int k"
        using Suc.IH [OF r(2), of low "int q - 1" best "n + 1"] Suc.prems q half(2) by auto
      with step False show ?thesis by auto
    qed
  qed
qed

text \<open>
  A refusal never makes the skipping leader jump past the place: up to there the two logs have the
  same terms, and terms never go backwards.
\<close>

lemma sorted_terms: "sorted (map e_term es) \<Longrightarrow> 1 \<le> i \<Longrightarrow> i \<le> j \<Longrightarrow> j \<le> length es \<Longrightarrow> term_of es i \<le> term_of es j"
  by (simp add: term_of_def sorted_iff_nth_mono)

lemma term_of_positive: "\<forall>e\<in>set es. 1 \<le> e_term e \<Longrightarrow> 1 \<le> i \<Longrightarrow> i \<le> length es \<Longrightarrow> 1 \<le> term_of es i"
  by (simp add: term_of_def)

lemma next_probe_above:
  assumes pair: "paired ls fs l f" and "matching ls fs" "sorted (map e_term ls)" "sorted (map e_term fs)"
    and "met ls fs < k" "k \<le> length ls" "hints fs k r"
  shows "\<exists>q. next_probe (log l) r (int k) = int q \<and> met ls fs \<le> q \<and> q < k"
proof (cases "k > length fs")
  case True
  then obtain ok mi rid where "body r = Appended ok mi 0 (length fs + 1) rid"
    using assms(7) by (auto simp: hints_def)
  then have "next_probe (log l) r (int k) = int (min (length fs) (k - 1))"
    using assms(5) by (simp add: next_probe_def)
  then show ?thesis using assms(5) matched_met(2) [of ls fs] by (intro exI [of _ "min (length fs) (k - 1)"]) auto
next
  case False
  have "\<exists>ok mi j rid. body r = Appended ok mi (term_of fs k) j rid \<and> 1 \<le> j \<and> j \<le> k \<and>
      (\<forall>i. j \<le> i \<longrightarrow> i \<le> k \<longrightarrow> term_of fs i = term_of fs k)"
    using assms(7) unfolding hints_def if_not_P [OF False] .
  then obtain ok mi j rid where b: "body r = Appended ok mi (term_of fs k) j rid" "1 \<le> j" "j \<le> k"
    "\<And>i. j \<le> i \<Longrightarrow> i \<le> k \<Longrightarrow> term_of fs i = term_of fs k" by blast
  define c where "c = term_of fs k"
  have ix: "log l = plain ls" "indexed ls" "\<forall>e\<in>set fs. 1 \<le> e_term e" using pair by (simp_all add: paired_def)
  have c: "1 \<le> c" unfolding c_def using term_of_positive [OF ix(3)] assms(5) False by simp
  let ?own = "map (\<lambda>e. int (e_index e)) (filter (\<lambda>e. e_term e = c) ls)"
  have own: "int i \<in> set ?own" if "1 \<le> i" "i \<le> length ls" "term_of ls i = c" for i
  proof -
    have "ls ! (i - 1) \<in> set ls" "e_term (ls ! (i - 1)) = c" "e_index (ls ! (i - 1)) = i"
      using that ix(2) by (auto simp: term_of_def indexed_def)
    then show ?thesis by force
  qed
  have m: "1 \<le> met ls fs \<Longrightarrow> term_of ls (met ls fs) = term_of fs (met ls fs)"
    using last_match_matched [of ls fs "length ls"] by (auto simp: matched_def)
  show ?thesis
  proof (cases "?own = []")
    case True
    have "met ls fs < j"
    proof (rule ccontr)
      assume "\<not> met ls fs < j"
      then have "j \<le> met ls fs" "met ls fs \<le> k" using assms(5) by simp_all
      then have "term_of fs (met ls fs) = c" "1 \<le> met ls fs"
        unfolding c_def using b(2) by (blast intro: b(4), linarith)
      then have "int (met ls fs) \<in> set ?own" using own m matched_met(1) by metis
      with True show False by (metis empty_iff empty_set)
    qed
    moreover have "next_probe (log l) r (int k) = int (min (j - 1) (k - 1))"
      using b(1,2) c True assms(5) ix(1) by (simp add: next_probe_def c_def [symmetric] Let_def)
    ultimately show ?thesis using assms(5) b(2) by (intro exI [of _ "min (j - 1) (k - 1)"]) auto
  next
    case False
    define M where "M = Max (set ?own)"
    have "set ?own \<noteq> {}" using False by (metis set_empty)
    then have "M \<in> set ?own" unfolding M_def by (intro Max_in) (simp_all only: finite_set not_False_eq_True)
    then obtain e where e: "e \<in> set ls" "e_term e = c" "M = int (e_index e)" by auto
    then obtain a where a: "a < length ls" "e = ls ! a" by (auto simp: in_set_conv_nth)
    then have i: "e_index e = Suc a" "term_of ls (Suc a) = c" using ix(2) e(2) by (simp_all add: indexed_def term_of_def)
    have "met ls fs \<le> Suc a"
    proof (rule ccontr)
      assume far: "\<not> met ls fs \<le> Suc a"
      then have "c \<le> term_of ls (met ls fs)"
        using sorted_terms [OF assms(3), of "Suc a" "met ls fs"] i(2) matched_met(1) [of ls fs] by simp
      moreover have "term_of fs (met ls fs) \<le> c"
        unfolding c_def using sorted_terms [OF assms(4)] far assms(5) \<open>\<not> k > length fs\<close> by simp
      ultimately have "term_of ls (met ls fs) = c" using m far by simp
      then have "int (met ls fs) \<in> set ?own" using own far matched_met(1) by (simp del: set_map)
      then have "int (met ls fs) \<le> M" unfolding M_def by (intro Max_ge) simp_all
      with far i(1) e(3) show False by simp
    qed
    moreover have "next_probe (log l) r (int k) = int (min (Suc a) (k - 1))"
    proof -
      have "next_probe (log l) r (int k) = min M (int k - 1)"
        using b(1) c False ix(1) by (simp add: next_probe_def c_def [symmetric] Let_def M_def)
      then show ?thesis using e(3) i(1) assms(5) by simp
    qed
    ultimately show ?thesis using assms(5) by (intro exI [of _ "min (Suc a) (k - 1)"]) auto
  qed
qed

lemma skip_probes_end:
  assumes "matching ls fs" "sorted (map e_term ls)" "sorted (map e_term fs)"
  shows "paired ls fs l f \<Longrightarrow> met ls fs \<le> k \<Longrightarrow> k \<le> length ls \<Longrightarrow> 0 \<le> n \<Longrightarrow>
    n + int (k - met ls fs) < LIMIT \<Longrightarrow>
    \<exists>n' f'. skip_probes l f (int k) n t =
      Inr (\<lparr>r_strategy = Skip_Term, probes = n', r_matched = int (met ls fs), divergence = t\<rparr>, f') \<and>
      n < n' \<and> n' \<le> n + int (k - met ls fs) + 1"
proof (induction k arbitrary: f n rule: less_induct)
  case (less k)
  obtain r f' where r: "probe l f (int k) = Inr (r, f')" "paired ls fs l f'"
    "success r \<longleftrightarrow> k \<le> met ls fs" "success r \<or> hints fs k r"
    using probe_answers [OF less.prems(1,3)] matched_iff [OF assms(1) less.prems(3)] by blast
  have n: "n < LIMIT" using less.prems(5) by simp
  show ?case
  proof (cases "success r")
    case True
    then have "k = met ls fs" using r(3) less.prems(2) by simp
    with True r(1) n less.prems(4) show ?thesis by (subst skip_probes.simps) (simp add: Repair_def)
  next
    case False
    then have k: "met ls fs < k" "hints fs k r" using r(3,4) by simp_all
    obtain q where q: "next_probe (log l) r (int k) = int q" "met ls fs \<le> q" "q < k"
      using next_probe_above [OF less.prems(1) assms k(1) less.prems(3) k(2)] by blast
    have step: "skip_probes l f (int k) n t = skip_probes l f' (int q) (n + 1) t"
      using r(1) False n q(1) by (subst skip_probes.simps) simp
    obtain n' f'' where "skip_probes l f' (int q) (n + 1) t =
        Inr (\<lparr>r_strategy = Skip_Term, probes = n', r_matched = int (met ls fs), divergence = t\<rparr>, f'')"
      "n + 1 < n'" "n' \<le> n + 1 + int (q - met ls fs) + 1"
      using less.IH [OF q(3) r(2) q(2), of "n + 1"] less.prems q(2,3) by auto
    with step q(2,3) show ?thesis by auto
  qed
qed

section \<open>Properties\<close>

text \<open>
  On two uncompacted logs that satisfy log matching all four strategies find the same place,
  the last index at which the logs agree: walking in one probe for every index above it and one
  more, skipping in no more than that, bisecting in as many probes as the leader's length has
  binary digits, and the hybrid in its patience more than that.
\<close>

theorem strategies_agree:
  assumes "paired ls fs l f" "matching ls fs" "sorted (map e_term ls)" "sorted (map e_term fs)"
    and "int (length ls) < LIMIT" "length ls + 1 < 2 ^ k" "0 \<le> patience" "patience + int k \<le> LIMIT"
  shows "\<exists>m. agree_up_to (log l) (log f) = Inr m \<and>
    (\<exists>f'. walk l f = Inr (\<lparr>r_strategy = Walk_Back, probes = int (length ls - m) + 1, r_matched = int m, divergence = int m\<rparr>, f')) \<and>
    (\<exists>n f'. skip l f = Inr (\<lparr>r_strategy = Skip_Term, probes = n, r_matched = int m, divergence = int m\<rparr>, f') \<and>
       n \<le> int (length ls - m) + 1) \<and>
    (\<exists>n f'. bisect l f = Inr (\<lparr>r_strategy = Bisect, probes = n, r_matched = int m, divergence = int m\<rparr>, f') \<and> n \<le> int k) \<and>
    (\<exists>n f'. hybrid l f patience = Inr (\<lparr>r_strategy = Hybrid, probes = n, r_matched = int m, divergence = int m\<rparr>, f') \<and>
       n \<le> patience + int k)"
proof -
  let ?m = "met ls fs"
  have ix: "log l = plain ls" "log f = plain fs" "indexed ls" "indexed fs" using assms(1) by (simp_all add: paired_def)
  have last: "last_index (log l) = length ls" using ix by (simp add: last_index_plain)
  have truth: "agree_up_to (log l) (log f) = Inr ?m"
    using reconciliation_place [OF ix(3,4)] ix(1,2) by simp
  note m = matched_met(1) [of ls fs]
  have room: "int (length ls - ?m) < LIMIT" using assms(5) by simp
  obtain f1 where 1: "walk_probes l f (int (length ls)) 0 (int ?m) =
      Inr (\<lparr>r_strategy = Walk_Back, probes = 0 + int (length ls - ?m) + 1, r_matched = int ?m, divergence = int ?m\<rparr>, f1)"
    using walk_probes_end [OF assms(2,1) m order_refl, of 0] room by auto
  obtain n2 f2 where 2: "skip_probes l f (int (length ls)) 0 (int ?m) =
      Inr (\<lparr>r_strategy = Skip_Term, probes = n2, r_matched = int ?m, divergence = int ?m\<rparr>, f2)"
    "n2 \<le> int (length ls - ?m) + 1"
    using skip_probes_end [OF assms(2-4,1) m order_refl, of 0 "int ?m"] room by auto
  have width: "int (length ls) - 0 + 1 < 2 ^ k" using assms(6) by (simp flip: of_nat_power of_nat_Suc add: algebra_simps)
  have search: "\<exists>n' f'. bisect_probes l g 0 high 0 n = Inr (int ?m, n', f') \<and> n \<le> n' \<and> n' \<le> n + int k"
    if "paired ls fs l g" "int ?m \<le> high" "high \<le> int (length ls)" "0 \<le> n" "n \<le> patience" for g high n
    using bisect_probes_end [OF assms(2) that(1), of 0 high 0 k n] that width assms(8) by simp
  obtain n3 f3 where 3: "bisect_probes l f 0 (int (length ls)) 0 0 = Inr (int ?m, n3, f3)" "0 \<le> n3" "n3 \<le> 0 + int k"
    using search [OF assms(1), of "int (length ls)" 0] m assms(7) by auto
  obtain b i n4 f4 where 4: "patient_probes l f (int (length ls)) 0 patience = Inr (b, i, n4, f4)"
    "paired ls fs l f4" "0 \<le> n4" "n4 \<le> patience" "int ?m \<le> i" "i \<le> int (length ls)" "b \<longrightarrow> i = int ?m"
    using patient_probes_end [OF assms(2,1) m order_refl, of 0 patience] assms(7) by blast
  obtain n5 f5 where 5: "bisect_probes l f4 0 i 0 n4 = Inr (int ?m, n5, f5)" "n4 \<le> n5" "n5 \<le> n4 + int k"
    using search [OF 4(2,5,6,3,4)] by blast
  have "walk l f = Inr (\<lparr>r_strategy = Walk_Back, probes = int (length ls - ?m) + 1, r_matched = int ?m, divergence = int ?m\<rparr>, f1)"
    by (simp add: walk_def truth last 1)
  moreover have "skip l f = Inr (\<lparr>r_strategy = Skip_Term, probes = n2, r_matched = int ?m, divergence = int ?m\<rparr>, f2)"
    by (simp add: skip_def truth last 2)
  moreover have "bisect l f = Inr (\<lparr>r_strategy = Bisect, probes = n3, r_matched = int ?m, divergence = int ?m\<rparr>, f3)"
    using 3(2) by (simp add: bisect_def truth last 3(1) Repair_def)
  moreover have "\<exists>n f'. hybrid l f patience =
      Inr (\<lparr>r_strategy = Hybrid, probes = n, r_matched = int ?m, divergence = int ?m\<rparr>, f') \<and> n \<le> patience + int k"
    using 4 5 assms(7) by (cases b) (simp_all add: hybrid_def truth last Repair_def)
  ultimately show ?thesis using truth 2(2) 3(3) by auto
qed

theorem strategies_agree_witness:
  "\<exists>l f n f'. repair_pair (\<lambda>s p i. 0) [1, 3] [1, 2] 9 = Inr (l, f) \<and>
     bisect l f = Inr (\<lparr>r_strategy = Bisect, probes = n, r_matched = 1, divergence = 1\<rparr>, f') \<and> n \<le> 2"
proof -
  let ?e = "\<lambda>t i. \<lparr>e_term = t, e_index = i, command = PStr (''c'' @ decimal i)\<rparr>"
  let ?l = "[?e 1 1, ?e 3 2]" and ?f = "[?e 1 1, ?e 2 2]"
  obtain l f where lf: "repair_pair (\<lambda>s p i. 0) [1, 3] [1, 2] 9 = Inr (l, f)"
    "paired ?l ?f l f"
    by (simp add: repair_pair_def numbered_def upt_rec numeral_2_eq_2 Node_def written_def Entry_def Log_def
        paired_def plain_def indexed_def less_Suc_eq reset_election_timer_def randint_def Let_def NO_INDEX_def NO_TERM_def)
  define ls fs where "ls = ?l" and "fs = ?f"
  have at: "matched ls fs i \<longleftrightarrow> i = 0 \<or> i = 1" for i
    by (cases i; cases "i - 1") (auto simp: matched_def term_of_def ls_def fs_def)
  have len: "length ls = Suc 1" and sorted: "sorted (map e_term ls)" "sorted (map e_term fs)"
    by (simp_all add: ls_def fs_def)
  have pair: "paired ls fs l f" using lf(2) by (simp only: ls_def fs_def)
  have "matching ls fs" unfolding matching_def at by auto
  from strategies_agree [OF pair this sorted, of 2 1] len obtain m n f' where
    m: "agree_up_to (log l) (log f) = Inr m"
    "bisect l f = Inr (\<lparr>r_strategy = Bisect, probes = n, r_matched = int m, divergence = int m\<rparr>, f')" "n \<le> 2"
    by (auto simp: LIMIT_def)
  have "m = last_match ls fs (Suc 1)"
    using m(1) reconciliation_place [of ls fs] pair len by (simp add: paired_def)
  also have "\<dots> = 1" unfolding last_match.simps at by (simp add: at)
  finally show ?thesis using lf(1) m(2,3) by auto
qed

end
