(* ===== verification/Cluster_Runs.thy ===== *)
theory Cluster_Runs
  imports Cluster_Safety
begin

text \<open>
  What the modules that drive a cluster rely on: what sending, delivering, timing and proposing
  leave alone, that a cluster of at least one node can be made, that a tick raises nothing but
  the cluster's own state machine check, and that a proposal raises nothing but the lack of a
  leader.
\<close>

section \<open>What an operation leaves alone\<close>

text \<open>
  Sending changes nothing of the cluster but the wire, and handling a message or a timer nothing
  but the wire and one node.
\<close>

definition aside :: "cluster \<Rightarrow> (name list \<times> name set \<times> bool \<times> nat) \<times> name set list \<times> moment list" where
  "aside c = ((cmembers c, down c, check c, cnow c), sides (net c), history c)"

lemma aside_put_node [simp]: "aside (put_node c p n) = aside c"
  by (simp add: aside_def put_node_def)

lemma send1_aside:
  assumes "send1 m c = Inr c'"
  shows "aside c' = aside c"
proof (cases "sender m \<in> down c")
  case False
  with assms obtain ok w where w: "net_send (net c) m = Inr (ok, w)" "c' = c\<lparr>net := w\<rparr>"
    by (auto simp: send1_def raises)
  from net_send_keeps(3) [OF w(1)] w(2) show ?thesis by (simp add: aside_def)
qed (use assms in \<open>simp add: send1_def\<close>)

lemma send_all_aside: "send_all c ms = Inr c' \<Longrightarrow> aside c' = aside c"
  unfolding send_all_def
  by (rule rfold_invariant [where P = "\<lambda>d. aside d = aside c"]) (auto dest: send1_aside)

lemma handled_aside:
  "rbind r (\<lambda>(n, out). send_all (put_node c p n) out) = Inr c' \<Longrightarrow> aside c' = aside c"
  by (auto simp: raises dest!: send_all_aside)

lemma deliver_aside: "deliver m c = Inr c' \<Longrightarrow> aside c' = aside c"
  unfolding deliver_def by (auto dest: handled_aside split: if_splits)

lemma time_node_aside: "time_node p c = Inr c' \<Longrightarrow> aside c' = aside c"
  unfolding time_node_def by (rule handled_aside)

text \<open>Only a tick adds a moment, and the moment shows the cluster the tick leaves.\<close>

lemma advance_aside:
  assumes "advance c = Inr c'"
  shows "aside c' = ((cmembers c, down c, check c, Suc (cnow c)), sides (net c), history c @ [take_moment c'])"
proof -
  obtain landed w where w: "net_tick (net c) = (landed, w)" by fastforce
  let ?c1 = "c\<lparr>cnow := cnow c + 1, net := w\<rparr>"
  let ?mark = "\<lambda>c3. case cluster_leader c3 of
       Some n \<Rightarrow> if Some (name n) \<noteq> last_leader c3
                 then c3\<lparr>elections := elections c3 + 1, last_leader := Some (name n)\<rparr> else c3
     | None \<Rightarrow> c3"
  from assms obtain c2 c3 where c2: "rfold deliver landed ?c1 = Inr c2"
    and c3: "rfold time_node (up c2) c2 = Inr c3"
    and c': "c' = (?mark c3)\<lparr>history := history (?mark c3) @ [take_moment (?mark c3)]\<rparr>"
    by (auto simp: advance_def w Let_def raises)
  have "aside c2 = aside ?c1"
    by (rule rfold_invariant [where P = "\<lambda>d. aside d = aside ?c1", OF _ _ c2])
      (auto dest: deliver_aside)
  moreover have "aside c3 = aside c2"
    by (rule rfold_invariant [where P = "\<lambda>d. aside d = aside c2", OF _ _ c3])
      (auto dest: time_node_aside)
  moreover have "aside (?mark d) = aside d" for d by (auto simp: aside_def split: option.split)
  ultimately have "aside (?mark c3) = aside ?c1" by simp
  moreover have "take_moment c' = take_moment (?mark c3)"
    unfolding c' by (simp add: take_moment_def up_def)
  ultimately show ?thesis unfolding c' by (simp add: aside_def net_tick_keeps [OF w])
qed

lemma propose_aside: "cluster_propose c v = Inr (i, c') \<Longrightarrow> aside c' = aside c"
proof -
  assume "cluster_propose c v = Inr (i, c')"
  then obtain f :: node and n out where "send_all (put_node c (name f) n) out = Inr c'"
    by (auto simp: cluster_propose_def raises split: option.splits)
  from send_all_aside [OF this] show ?thesis by simp
qed

lemma perform_aside:
  assumes "perform node_seed c ev = Inr c'"
  shows "cmembers c' = cmembers c \<and> history c' = history c @ (if ev = Tick then [take_moment c'] else [])"
proof (cases ev)
  case Tick
  with assms have "advance c = Inr c'"
    by (auto simp: cluster_tick_def raises split: if_splits)
  with Tick show ?thesis using advance_aside by (simp add: aside_def)
next
  case (Propose v)
  with assms obtain i where "cluster_propose c v = Inr (i, c')" by (auto simp: raises)
  with Propose show ?thesis using propose_aside by (simp add: aside_def)
next
  case (Restart p)
  with assms show ?thesis by (auto simp: restart_def raises put_node_def Let_def split: if_splits)
qed (use assms in \<open>auto simp: crash_def cluster_partition_def cluster_heal_def raises split: if_splits\<close>)

lemma rmap_total:
  "(\<And>x. x \<in> set xs \<Longrightarrow> \<exists>y. f x = Inr y \<and> P y) \<Longrightarrow> \<exists>ys. rmap f xs = Inr ys \<and> (\<forall>y\<in>set ys. P y)"
  by (induction xs) force+

section \<open>Operations on a reachable cluster\<close>

text \<open>Who is down, and whether the network is split.\<close>

type_synonym standing = "name set \<times> bool"

definition standing_of :: "cluster \<Rightarrow> standing" where
  "standing_of c = (down c, sides (net c) \<noteq> [])"

lemma reach_net:
  assumes "cluster_reach net_seed node_seed c"
  shows "on_net (net c) = cmembers c" "down c \<subseteq> set (cmembers c)"
  using cluster_inv_reach [OF assms] by (auto simp: cluster_inv_def cluster_ok_def)

lemma reach_perform:
  "cluster_reach net_seed node_seed c \<Longrightarrow> perform node_seed c ev = Inr c' \<Longrightarrow>
   cluster_reach net_seed node_seed c' \<and> cmembers c' = cmembers c"
  using cluster_reach.performed perform_aside by blast

lemma restart_standing:
  assumes "restart node_seed c p = Inr c'"
  shows "down c' = down c - {p}" "sides (net c') = sides (net c)"
  using assms by (auto simp: restart_def raises put_node_def Let_def split: if_splits)

lemma Cluster_total:
  assumes "1 \<le> k"
  shows "\<exists>c. Cluster net_seed node_seed k sd cs chk pv = Inr c \<and>
    cmembers c = map (\<lambda>i. CHR ''n'' # decimal i) [0..<k] \<and> standing_of c = ({}, False)"
proof -
  define ms where "ms = map (\<lambda>i. CHR ''n'' # decimal i) [0..<k]"
  have ms: "distinct ms" "ms \<noteq> []" using assms cluster_names_distinct by (auto simp: ms_def)
  then obtain w where w: "Network ms (net_seed sd) cs = Inr w" "sides w = []"
    by (auto simp: Network_def)
  have "\<exists>n. Node p ms (node_seed sd p) pv False = Inr n \<and> True" if "p \<in> set ms" for p
    using that ms(1) by (simp add: Node_def)
  then obtain ns where "rmap (\<lambda>p. Node p ms (node_seed sd p) pv False) ms = Inr ns"
    using rmap_total [of ms "\<lambda>p. Node p ms (node_seed sd p) pv False" "\<lambda>n. True"] by blast
  with assms w show ?thesis
    by (simp add: Cluster_def ms_def [symmetric] standing_of_def)
qed

lemma cluster_tick_ok:
  assumes "cluster_reach net_seed node_seed c"
  shows "(\<exists>c'. cluster_tick c = Inr c' \<and> cluster_reach net_seed node_seed c' \<and>
      cmembers c' = cmembers c \<and> standing_of c' = standing_of c) \<or>
    cluster_tick c = Inl StateMachineSafety"
proof -
  obtain c' where c': "advance c = Inr c'"
    "verify c' (take_moment c') = Inr () \<or> verify c' (take_moment c') = Inl StateMachineSafety"
    using tick_verdict [OF cluster_inv_reach [OF assms]] by blast
  then have "cluster_tick c = Inr c' \<or> cluster_tick c = Inl StateMachineSafety"
    by (auto simp: cluster_tick_def)
  with reach_perform [OF assms, of Tick] advance_aside [OF c'(1)] show ?thesis
    by (auto simp: aside_def standing_of_def)
qed

lemma cluster_propose_reach:
  assumes "cluster_reach net_seed node_seed c"
  shows "cluster_propose c v = Inl NoLeader \<or>
    (\<exists>i c'. cluster_propose c v = Inr (i, c') \<and> cluster_reach net_seed node_seed c' \<and>
       cmembers c' = cmembers c \<and> standing_of c' = standing_of c)"
proof -
  from cluster_inv_reach [OF assms] obtain s where ok: "cluster_ok (tight c) (cmembers c) {} c s"
    by (rule cluster_invE)
  from cluster_propose_ok [OF ok, of v] consider "cluster_propose c v = Inl NoLeader"
    | i c' where "cluster_propose c v = Inr (i, c')" by blast
  then show ?thesis
  proof cases
    case (2 i c')
    with reach_perform [OF assms, of "Propose v"] propose_aside [OF 2] show ?thesis
      by (simp add: standing_of_def aside_def)
  qed simp
qed

lemma settle_reach:
  "cluster_reach net_seed node_seed c \<Longrightarrow>
   settle k c = Inl StateMachineSafety \<or> (\<exists>c'. settle k c = Inr c' \<and> cluster_reach net_seed node_seed c')"
proof (induction k arbitrary: c)
  case (Suc k)
  from cluster_tick_ok [OF Suc.prems] show ?case
  proof
    assume "\<exists>c'. cluster_tick c = Inr c' \<and> cluster_reach net_seed node_seed c' \<and>
      cmembers c' = cmembers c \<and> standing_of c' = standing_of c"
    then obtain c' where "cluster_tick c = Inr c'" "cluster_reach net_seed node_seed c'" by blast
    with Suc.IH show ?thesis by auto
  qed simp
qed simp

text \<open>What operations that are not events of a scenario keep too.\<close>

definition moves_on :: "cluster \<Rightarrow> cluster \<Rightarrow> bool" where
  "moves_on c c' \<longleftrightarrow> cluster_inv c' \<and> cmembers c' = cmembers c \<and> down c' = down c"

lemma moves_on_trans: "moves_on c c' \<Longrightarrow> moves_on c' c'' \<Longrightarrow> moves_on c c''"
  by (simp add: moves_on_def)

lemma tick_moves_on:
  assumes "cluster_inv c"
  shows "cluster_tick c = Inl StateMachineSafety \<or>
    (\<exists>c'. cluster_tick c = Inr c' \<and> moves_on c c' \<and> cnow c' = Suc (cnow c))"
proof -
  from tick_verdict [OF assms] obtain c' where c': "advance c = Inr c'" "cluster_inv c'"
    "verify c' (take_moment c') = Inr () \<or> verify c' (take_moment c') = Inl StateMachineSafety"
    by blast
  then show ?thesis
    using advance_aside [OF c'(1)]
    by (auto simp: cluster_tick_def moves_on_def aside_def)
qed

lemma out_moves_on:
  assumes "cluster_ok (tight c) (cmembers c) {} c s" "down c \<subseteq> set (cmembers c)"
    "\<forall>m\<in>set out. msg_ok (tight c) (cmembers c) s m"
  shows "\<exists>c'. send_all c out = Inr c' \<and> moves_on c c' \<and> cnow c' = cnow c"
proof -
  obtain c' where c': "send_all c out = Inr c'" "cluster_ok (tight c) (cmembers c) {} c' s" "beside c c'"
    using send_all_ok [OF assms(1,3)] by blast
  from c'(3) have "tight c' = tight c" "down c' = down c" "cmembers c' = cmembers c" "cnow c' = cnow c"
    by (simp_all add: beside_def tight_def)
  with c' assms(2) show ?thesis
    using cluster_invI [of c' c s] by (auto simp: moves_on_def)
qed

lemma cluster_run_moves_on:
  assumes "cluster_inv c"
  shows "cluster_run k c = Inl StateMachineSafety \<or>
    (\<exists>c'. cluster_run k c = Inr c' \<and> moves_on c c' \<and> cnow c' = cnow c + k)"
  using assms
proof (induction k arbitrary: c)
  case (Suc k)
  from tick_moves_on [OF Suc.prems] show ?case
  proof
    assume "\<exists>c'. cluster_tick c = Inr c' \<and> moves_on c c' \<and> cnow c' = Suc (cnow c)"
    then obtain d where d: "cluster_tick c = Inr d" "moves_on c d" "cnow d = Suc (cnow c)" by blast
    then have "cluster_inv d" by (simp add: moves_on_def)
    from Suc.IH [OF this] d show ?thesis by (auto dest: moves_on_trans)
  qed simp
qed (simp add: moves_on_def)

text \<open>The leader of a cluster is kept under its own name.\<close>

lemma leader_name:
  assumes "cluster_inv c" "cluster_leader c = Some f"
  shows "name f \<in> set (up c)" "f = nodes c (name f)" "role f = LEADER"
proof -
  from assms(1) obtain s where ok: "cluster_ok (tight c) (cmembers c) {} c s"
    by (rule cluster_invE)
  obtain p where p: "p \<in> set (up c)" "f = nodes c p" "role f = LEADER"
    using leader_of_cluster [OF assms(2)] by blast
  then have "name f = p" using node_simD(1) [OF cluster_okD(2) [OF ok, of p]] by (simp add: up_def)
  with p show "name f \<in> set (up c)" "f = nodes c (name f)" "role f = LEADER" by simp_all
qed

lemma propose_moves_on:
  assumes "cluster_inv c" "p \<in> set (cmembers c)" "is_leader (nodes c p)"
  shows "\<exists>n i. propose (nodes c p) v = Inr (n, i) \<and> moves_on c (put_node c p n) \<and>
    cnow (put_node c p n) = cnow c"
proof -
  from assms(1) obtain s where ok: "cluster_ok (tight c) (cmembers c) {} c s"
    and down: "down c \<subseteq> set (cmembers c)"
    by (rule cluster_invE)
  from assms(3) have "role (nodes c p) = LEADER" by (simp add: is_leader_def)
  from propose_sim [OF cluster_okD(1) [OF ok] cluster_okD(2) [OF ok assms(2)] cluster_okD(3) [OF ok] this, of v]
  obtain n i s' where n: "propose (nodes c p) v = Inr (n, i)" "run (cmembers c) p s s'"
    "node_sim (tight c) (cmembers c) p n s'" by blast
  have same: "tight (put_node c p n) = tight c" "cmembers (put_node c p n) = cmembers c"
    "down (put_node c p n) = down c" "cnow (put_node c p n) = cnow c"
    by (simp_all add: tight_def put_node_def)
  have "cluster_inv (put_node c p n)"
    using cluster_invI [of "put_node c p n" c s'] put_node_ok [OF ok n(2,3)] down same by simp
  with n(1) same show ?thesis by (simp add: moves_on_def)
qed

end
