(* ===== verification/Invariant_Checks.thy ===== *)
theory Invariant_Checks
  imports Cluster_Runs "HOL-Library.List_Lexorder" "HOL-Library.Char_ord"
begin

text \<open>
  \<open>src/rsm/verify/invariants.py\<close>: the five properties as checks over a finished run, each
  returning the breaches it found, and the report that collects them.

  A breach carries a sentence; the model keeps the values the sentence is made of. Names are
  sorted by their characters, as Python sorts strings.
\<close>

section \<open>Breaches and reports\<close>

definition ELECTION_SAFETY :: string where "ELECTION_SAFETY = ''election safety''"
definition LEADER_APPEND_ONLY :: string where "LEADER_APPEND_ONLY = ''leader append only''"
definition LOG_MATCHING :: string where "LOG_MATCHING = ''log matching''"
definition LEADER_COMPLETENESS :: string where "LEADER_COMPLETENESS = ''leader completeness''"
definition STATE_MACHINE_SAFETY :: string where "STATE_MACHINE_SAFETY = ''state machine safety''"

definition PROPERTIES :: "string list" where
  "PROPERTIES = [ELECTION_SAFETY, LEADER_APPEND_ONLY, LOG_MATCHING, LEADER_COMPLETENESS,
     STATE_MACHINE_SAFETY]"

lemmas property_names = ELECTION_SAFETY_def LEADER_APPEND_ONLY_def LOG_MATCHING_def
  LEADER_COMPLETENESS_def STATE_MACHINE_SAFETY_def

datatype detail =
    All_Lead "name list" nat
  | Changed_Log name
  | Entry_Differs nat nat name
  | Agree_And_Differ name name nat nat
  | Leader_Lacks name nat nat nat
  | Position_Applied nat "pyobj list"

record breach =
  b_property :: string
  b_tick :: nat
  b_detail :: detail

definition Breach :: "string \<Rightarrow> nat \<Rightarrow> detail \<Rightarrow> breach result" where
  "Breach p t d =
     (if p \<notin> set PROPERTIES then Inl ConfigError
      else Inr \<lparr>b_property = p, b_tick = t, b_detail = d\<rparr>)"

text \<open>A breach of one of the five, which the constructor accepts.\<close>

abbreviation breach_at :: "string \<Rightarrow> nat \<Rightarrow> detail \<Rightarrow> breach" where
  "breach_at p t d \<equiv> \<lparr>b_property = p, b_tick = t, b_detail = d\<rparr>"

record report =
  r_ticks :: nat
  breaches :: "breach list"

definition report_clean :: "report \<Rightarrow> bool" where
  "report_clean r \<longleftrightarrow> breaches r = []"

definition report_held :: "report \<Rightarrow> string list" where
  "report_held r = filter (\<lambda>p. p \<notin> set (map b_property (breaches r))) PROPERTIES"

definition report_broken :: "report \<Rightarrow> string list" where
  "report_broken r = filter (\<lambda>p. list_ex (\<lambda>b. b_property b = p) (breaches r)) PROPERTIES"

text \<open>\<open>min\<close> keeps the first of several at the lowest tick.\<close>

fun earliest :: "breach list \<Rightarrow> breach option" where
  "earliest [] = None"
| "earliest (b # bs) =
     (case earliest bs of None \<Rightarrow> Some b
      | Some a \<Rightarrow> if b_tick a < b_tick b then Some a else Some b)"

definition report_first :: "report \<Rightarrow> breach option" where
  "report_first r = (if breaches r \<noteq> [] then earliest (breaches r) else None)"

definition report_of :: "report \<Rightarrow> string \<Rightarrow> breach list" where
  "report_of r p = filter (\<lambda>b. b_property b = p) (breaches r)"

section \<open>The checks\<close>

definition check_election_safety :: "cluster \<Rightarrow> breach list" where
  "check_election_safety c = concat (map (\<lambda>made.
     map (\<lambda>(t, ps). breach_at ELECTION_SAFETY (at_tick made) (All_Lead (sort ps) t))
       (filter (\<lambda>(t, ps). length ps > 1) (leaders_by_term made))) (history c))"

definition log_shape :: "cluster \<Rightarrow> name \<Rightarrow> (nat \<times> nat) list" where
  "log_shape c p = map (\<lambda>e. (e_index e, e_term e)) (entries (log (nodes c p)))"

fun watch_leader ::
  "cluster \<Rightarrow> moment \<Rightarrow> name \<times> role \<Rightarrow> (name \<Rightarrow> (nat \<times> nat) list option) \<times> breach list \<Rightarrow>
   (name \<Rightarrow> (nat \<times> nat) list option) \<times> breach list" where
  "watch_leader c made (p, r) (seen, out) =
     (let shape = log_shape c p in
      (seen(p \<mapsto> (if r = LEADER then shape
                  else case seen p of None \<Rightarrow> shape | Some s \<Rightarrow> s)),
       (case seen p of None \<Rightarrow> out
        | Some before \<Rightarrow>
           if r = LEADER \<and> (length shape < length before \<or> take (length before) shape \<noteq> before)
           then out @ [breach_at LEADER_APPEND_ONLY (at_tick made) (Changed_Log p)] else out)))"

definition check_leader_append_only :: "cluster \<Rightarrow> breach list" where
  "check_leader_append_only c =
     snd (fold (\<lambda>made. fold (watch_leader c made) (roles made)) (history c) (Map.empty, []))"

fun note_entry ::
  "nat \<Rightarrow> name \<Rightarrow> entry \<Rightarrow> (nat \<Rightarrow> (nat \<times> pyobj) option) \<times> breach list \<Rightarrow>
   (nat \<Rightarrow> (nat \<times> pyobj) option) \<times> breach list" where
  "note_entry t p e (by_index, out) =
     (case by_index (e_index e) of
        None \<Rightarrow> (by_index(e_index e \<mapsto> (e_term e, command e)), out)
      | Some (u, v) \<Rightarrow>
         (by_index,
          if u = e_term e \<and> \<not> py_eq v (command e)
          then out @ [breach_at LOG_MATCHING t (Entry_Differs (e_index e) (e_term e) p)] else out))"

definition entry_eq :: "entry \<Rightarrow> entry \<Rightarrow> bool" where
  "entry_eq e f \<longleftrightarrow> e_term e = e_term f \<and> e_index e = e_index f \<and> py_eq (command e) (command f)"

fun first_difference :: "raft_log \<Rightarrow> raft_log \<Rightarrow> nat list \<Rightarrow> nat option result" where
  "first_difference l r [] = Inr None"
| "first_difference l r (i # is) =
     (if \<not> holds l i \<or> \<not> holds r i then first_difference l r is
      else rbind (log_at l i) (\<lambda>e. rbind (log_at r i) (\<lambda>f.
             if \<not> entry_eq e f then Inr (Some i) else first_difference l r is)))"

text \<open>The outer loop, down to the highest index the two agree on, is \<open>agree_up_to\<close>'s.\<close>

definition prefixes_agree :: "cluster \<Rightarrow> name \<Rightarrow> name \<Rightarrow> breach list result" where
  "prefixes_agree c p q =
     (let l = log (nodes c p); r = log (nodes c q) in
      rbind (agree_up_to l r) (\<lambda>i.
        if i = NO_INDEX then Inr []
        else rbind (first_difference l r [max (first_index l) (first_index r)..<i]) (\<lambda>d.
          case d of None \<Rightarrow> Inr []
          | Some j \<Rightarrow> Inr [breach_at LOG_MATCHING (cnow c) (Agree_And_Differ p q i j)])))"

fun pairs_of :: "'a list \<Rightarrow> ('a \<times> 'a) list" where
  "pairs_of [] = []"
| "pairs_of (x # xs) = map (Pair x) xs @ pairs_of xs"

definition check_log_matching :: "cluster \<Rightarrow> breach list result" where
  "check_log_matching c =
     (let (by_index, out) = fold (\<lambda>p. fold (note_entry (cnow c) p) (entries (log (nodes c p))))
            (up c) (Map.empty, [])
      in rbind (rmap (\<lambda>(p, q). prefixes_agree c p q) (pairs_of (up c))) (\<lambda>bs.
         Inr (out @ concat bs)))"

text \<open>What was ever committed, each index as the first node that reported it holds it now.\<close>

fun note_commits :: "raft_log \<Rightarrow> nat list \<Rightarrow> (nat \<times> entry) list \<Rightarrow> (nat \<times> entry) list result" where
  "note_commits l [] done = Inr done"
| "note_commits l (i # is) done =
     (if holds l i
      then rbind (log_at l i) (\<lambda>e.
             note_commits l is (if map_of done i = None then done @ [(i, e)] else done))
      else note_commits l is done)"

definition ever_committed :: "cluster \<Rightarrow> (nat \<times> entry) list result" where
  "ever_committed c =
     rfold (\<lambda>made. rfold (\<lambda>(p, i). note_commits (log (nodes c p)) [NO_INDEX + 1..<i + 1]) (commits made))
       (history c) []"

fun leader_lacks :: "nat \<Rightarrow> node \<Rightarrow> name \<Rightarrow> (nat \<times> entry) list \<Rightarrow> breach list result" where
  "leader_lacks t n p [] = Inr []"
| "leader_lacks t n p ((i, e) # ies) =
     (if current_term n \<le> e_term e then leader_lacks t n p ies
      else rbind (if \<not> holds (log n) i then Inr True
                  else rbind (log_at (log n) i) (\<lambda>f. Inr (\<not> py_eq (command f) (command e)))) (\<lambda>lacks.
           rbind (leader_lacks t n p ies) (\<lambda>bs.
           Inr (if lacks
                then breach_at LEADER_COMPLETENESS t (Leader_Lacks p (current_term n) i (e_term e)) # bs
                else bs))))"

definition check_leader_completeness :: "cluster \<Rightarrow> breach list result" where
  "check_leader_completeness c =
     rbind (ever_committed c) (\<lambda>ies.
     rbind (rmap (\<lambda>p. if role (nodes c p) \<noteq> LEADER then Inr []
                      else leader_lacks (cnow c) (nodes c p) p ies) (up c)) (\<lambda>bs.
     Inr (concat bs)))"

definition applied_at :: "cluster \<Rightarrow> nat \<Rightarrow> pyobj list" where
  "applied_at c i = py_set (map (\<lambda>p. command (applied (nodes c p) ! i)) (up c))"

definition check_state_machine_safety :: "cluster \<Rightarrow> breach list" where
  "check_state_machine_safety c =
     (if up c = [] then []
      else map (\<lambda>i. breach_at STATE_MACHINE_SAFETY (cnow c) (Position_Applied i (applied_at c i)))
             (filter (\<lambda>i. length (applied_at c i) > 1) [0..<shortest c]))"

definition inspect :: "cluster \<Rightarrow> report result" where
  "inspect c =
     rbind (check_log_matching c) (\<lambda>lm.
     rbind (check_leader_completeness c) (\<lambda>lc.
     Inr \<lparr>r_ticks = cnow c,
       breaches = check_election_safety c @ check_leader_append_only c @ lm @ lc @
         check_state_machine_safety c\<rparr>))"

section \<open>What the checks can find\<close>

text \<open>
  The append-only check reads every moment's log from the node as it is at the end, so it compares
  each log with itself.
\<close>

lemma append_only_blind: "check_leader_append_only c = []"
proof -
  let ?P = "\<lambda>(seen, out). (\<forall>p s. seen p = Some s \<longrightarrow> s = log_shape c p) \<and> out = ([] :: breach list)"
  have one: "?P (watch_leader c made pr so)" if "?P so" for made pr so
    using that by (cases so; cases pr) (auto simp: Let_def split: option.splits if_splits)
  have all: "?P (fold (watch_leader c made) rs so)" if "?P so" for made rs so
    using that by (induction rs arbitrary: so) (simp_all only: fold_simps one)
  have "?P (fold (\<lambda>made. fold (watch_leader c made) (roles made)) ms so)" if "?P so" for ms so
    using that by (induction ms arbitrary: so) (simp_all only: fold_simps all)
  from this [of "(Map.empty, [])" "history c"] show ?thesis
    unfolding check_leader_append_only_def by (simp add: case_prod_beta)
qed

subsection \<open>The recorded moments\<close>

definition single_leaders :: "moment \<Rightarrow> bool" where
  "single_leaders m \<longleftrightarrow> (\<forall>(t, ps)\<in>set (leaders_by_term m). length ps \<le> 1)"

lemma moment_single:
  assumes inv: "cluster_inv c"
  shows "single_leaders (take_moment c)"
proof -
  have d: "distinct (cmembers c)" using inv by (auto elim: cluster_invE dest: cluster_okD(3))
  have "length ps \<le> 1" if "(t, ps) \<in> set (leaders_by_term (take_moment c))" for t ps
  proof -
    note g = leaders_by_term_groups [OF d that]
    have sub: "p \<in> set (cmembers c)" if "p \<in> set ps" for p using g that by (auto simp: up_def)
    have "p = q" if "p \<in> set ps" "q \<in> set ps" for p q
      by (rule one_leader [OF inv sub sub]) (use g that in auto)
    then have "card (set ps) \<le> 1" using card_le_Suc0_iff_eq [of "set ps"] by auto
    with g show ?thesis by (simp add: distinct_card)
  qed
  then show ?thesis by (auto simp: single_leaders_def)
qed

lemma history_single:
  "cluster_reach net_seed node_seed c \<Longrightarrow> \<forall>m\<in>set (history c). single_leaders m"
proof (induction rule: cluster_reach.induct)
  case (made k sd cs chk pv c)
  then show ?case by (auto simp: Cluster_def Let_def raises split: if_splits)
next
  case (performed c ev c')
  have "single_leaders (take_moment c')"
    by (rule moment_single [OF cluster_inv_step [OF cluster_inv_reach [OF performed(1)] performed(2)]])
  with performed.IH show ?case using perform_aside [OF performed(2)] by auto
qed

lemma election_check_silent:
  assumes "cluster_reach net_seed node_seed c"
  shows "check_election_safety c = []"
proof -
  have "\<not> 1 < length ps" if "m \<in> set (history c)" "(t, ps) \<in> set (leaders_by_term m)" for m t ps
    using history_single [OF assms] that by (fastforce simp: single_leaders_def)
  then show ?thesis by (auto simp: check_election_safety_def filter_empty_conv)
qed

subsection \<open>The logs\<close>

lemma note_entry_silent:
  assumes "\<And>e f. e \<in> E \<Longrightarrow> f \<in> E \<Longrightarrow> e_index e = e_index f \<Longrightarrow> e_term e = e_term f \<Longrightarrow> e = f"
    and "set es \<subseteq> E" "seen_in E by_index"
  shows "\<exists>by_index'. fold (note_entry t p) es (by_index, out) = (by_index', out) \<and> seen_in E by_index'"
  using assms(2,3)
proof (induction es arbitrary: by_index)
  case (Cons e es)
  have e: "e \<in> E" using Cons.prems(1) by simp
  show ?case
  proof (cases "by_index (e_index e)")
    case None
    have "seen_in E (by_index(e_index e \<mapsto> (e_term e, command e)))"
      using Cons.prems(2) e by (cases e) (auto simp: seen_in_def)
    from Cons.IH [OF _ this] Cons.prems(1) None show ?thesis by (simp del: fun_upd_apply)
  next
    case (Some tv)
    obtain u v where uv: "tv = (u, v)" by fastforce
    have "v = command e" if "u = e_term e"
      using assms(1) [of "\<lparr>e_term = u, e_index = e_index e, command = v\<rparr>" e] Cons.prems(2) e Some uv that
      by (cases e) (auto simp: seen_in_def)
    then have "note_entry t p e (by_index, out) = (by_index, out)" using Some uv by auto
    with Cons.IH [OF _ Cons.prems(2)] Cons.prems(1) show ?thesis by simp
  qed
qed simp

lemma entry_eq_refl [simp]: "entry_eq e e"
  by (simp add: entry_eq_def)

lemma agree_down_plain_logs:
  assumes "indexed es" "indexed fs" "k \<le> length es" "k \<le> length fs"
  shows "\<exists>i\<le>k. agree_down (plain es) (plain fs) k = Inr i \<and>
    (i = 0 \<or> e_term (es ! (i - 1)) = e_term (fs ! (i - 1)))"
  using assms(3,4)
proof (induction k)
  case (Suc k)
  then show ?case
    using assms(1,2) by (auto simp: plain_log term_of_def intro: le_SucI)
qed (simp add: NO_INDEX_def)

lemma first_difference_none:
  assumes "indexed es" "indexed fs" "agree i es fs" "\<forall>j\<in>set js. 1 \<le> j \<and> j < i"
  shows "first_difference (plain es) (plain fs) js = Inr None"
  using assms(4)
proof (induction js)
  case (Cons j js)
  then have j: "1 \<le> j" "j < i" by simp_all
  with assms(3) have "j \<le> length es" "j \<le> length fs" "es ! (j - 1) = fs ! (j - 1)"
    using agree_nth [OF assms(3), of "j - 1"] by (auto simp: agree_def)
  with Cons j show ?case using assms(1,2) by (simp add: plain_log)
qed simp

lemma prefixes_agree_silent:
  assumes inv: "cluster_inv c" and p: "p \<in> set (cmembers c)" and q: "q \<in> set (cmembers c)"
  shows "prefixes_agree c p q = Inr []"
proof -
  obtain es where es: "log (nodes c p) = plain es" "indexed es" by (rule reached_log [OF inv p])
  obtain fs where fs: "log (nodes c q) = plain fs" "indexed fs" by (rule reached_log [OF inv q])
  obtain i where i: "agree_up_to (plain es) (plain fs) = Inr i" "i \<le> length es" "i \<le> length fs"
    "i = 0 \<or> e_term (es ! (i - 1)) = e_term (fs ! (i - 1))"
    using agree_down_plain_logs [OF es(2) fs(2), of "min (length es) (length fs)"] es fs
    by (auto simp: agree_up_to_def last_index_plain)
  show ?thesis
  proof (cases "i = 0")
    case True
    with i es fs show ?thesis by (simp add: prefixes_agree_def NO_INDEX_def)
  next
    case False
    have "e_index (es ! (i - 1)) = i" "e_index (fs ! (i - 1)) = i"
      using es(2) fs(2) i False by (simp_all add: indexed_def)
    then have "agree i es fs"
      using logs_match(1) [OF inv p q, of "es ! (i - 1)" "fs ! (i - 1)"] es fs i False
      by (simp add: plain_def)
    then have "first_difference (plain es) (plain fs) [max (first_index (plain es)) (first_index (plain fs))..<i] = Inr None"
      by (intro first_difference_none [OF es(2) fs(2)]) (auto simp: first_index_def)
    with i False es fs show ?thesis by (simp add: prefixes_agree_def NO_INDEX_def)
  qed
qed

lemma rmap_nils: "(\<And>x. x \<in> set xs \<Longrightarrow> f x = Inr []) \<Longrightarrow> \<exists>ys. rmap f xs = Inr ys \<and> concat ys = []"
  by (induction xs) auto

lemma pairs_of_in: "(x, y) \<in> set (pairs_of xs) \<Longrightarrow> x \<in> set xs \<and> y \<in> set xs"
  by (induction xs) auto

lemma log_check_silent:
  assumes inv: "cluster_inv c"
  shows "check_log_matching c = Inr []"
proof -
  define E where "E = (\<Union>p\<in>set (up c). set (entries (log (nodes c p))))"
  have sub: "p \<in> set (up c) \<Longrightarrow> p \<in> set (cmembers c)" for p by (simp add: up_def)
  have same: "e = f" if "e \<in> E" "f \<in> E" "e_index e = e_index f" "e_term e = e_term f" for e f
    using that logs_match(2) [OF inv] sub unfolding E_def by blast
  have "\<exists>b. fold (\<lambda>p. fold (note_entry (cnow c) p) (entries (log (nodes c p)))) ps (a, []) = (b, [])"
    if "set ps \<subseteq> set (up c)" "seen_in E a" for ps a
    using that
  proof (induction ps arbitrary: a)
    case (Cons p ps)
    have "set (entries (log (nodes c p))) \<subseteq> E" using Cons.prems(1) by (auto simp: E_def)
    from note_entry_silent [OF same this Cons.prems(2), of "cnow c" p "[]"] obtain b
      where "fold (note_entry (cnow c) p) (entries (log (nodes c p))) (a, []) = (b, [])" "seen_in E b"
      by blast
    with Cons show ?case by simp
  qed simp
  then obtain b where b: "fold (\<lambda>p. fold (note_entry (cnow c) p) (entries (log (nodes c p))))
      (up c) (Map.empty, []) = (b, [])"
    by (meson order_refl seen_in_def option.distinct(1))
  have silent: "(\<lambda>(p, q). prefixes_agree c p q) x = Inr []" if "x \<in> set (pairs_of (up c))" for x
  proof (cases x)
    case (Pair p q)
    with that have "p \<in> set (cmembers c)" "q \<in> set (cmembers c)"
      using pairs_of_in [of p q "up c"] sub by auto
    with Pair show ?thesis using prefixes_agree_silent [OF inv] by simp
  qed
  from rmap_nils [of "pairs_of (up c)" "\<lambda>(p, q). prefixes_agree c p q", OF silent] obtain ys where
    "rmap (\<lambda>(p, q). prefixes_agree c p q) (pairs_of (up c)) = Inr ys" "concat ys = []" by blast
  with b show ?thesis by (simp add: check_log_matching_def)
qed

subsection \<open>What was committed\<close>

lemma note_commits_total: "log_ok l \<Longrightarrow> \<exists>ies. note_commits l is acc = Inr ies"
proof (induction l "is" acc rule: note_commits.induct)
  case (2 l i "is" acc)
  then show ?case
    by (cases "holds l i") (auto simp: holds_def first_index_def log_at_ok)
qed simp

lemma leader_lacks_total:
  assumes "log_ok (log n)"
  shows "\<exists>bs. leader_lacks t n p ies = Inr bs \<and> (\<forall>b\<in>set bs. b_property b = LEADER_COMPLETENESS)"
proof (induction ies)
  case (Cons ie ies)
  obtain i e where ie: "ie = (i, e)" by fastforce
  from Cons obtain bs where "leader_lacks t n p ies = Inr bs" "\<forall>b\<in>set bs. b_property b = LEADER_COMPLETENESS"
    by blast
  with ie assms show ?case
    by (cases "holds (log n) i") (auto simp: holds_def first_index_def log_at_ok)
qed simp

lemma reached_log_ok:
  assumes "cluster_inv c" "p \<in> set (cmembers c)"
  shows "log_ok (log (nodes c p))"
proof -
  from assms(1) obtain s where ok: "cluster_ok (tight c) (cmembers c) {} c s"
    by (rule cluster_invE)
  note inv = inv_log(1,2) [OF cluster_okD(1) [OF ok], of p]
  have "Log (alog s p) 0 0 = Inr (plain (alog s p))" by (rule Log_plain [OF inv])
  then have "log_ok (plain (alog s p))" by (simp add: Log_ok)
  then show ?thesis using node_simD(6) [OF cluster_okD(2) [OF ok assms(2)]] by simp
qed

text \<open>Every moment names members, whose logs are readable now.\<close>

definition moment_members :: "name list \<Rightarrow> moment \<Rightarrow> bool" where
  "moment_members ms m \<longleftrightarrow> fst ` set (commits m) \<subseteq> set ms"

lemma history_members:
  "cluster_reach net_seed node_seed c \<Longrightarrow> \<forall>m\<in>set (history c). moment_members (cmembers c) m"
proof (induction rule: cluster_reach.induct)
  case (made k sd cs chk pv c)
  then show ?case by (auto simp: Cluster_def Let_def raises split: if_splits)
next
  case (performed c ev c')
  have "moment_members (cmembers c') (take_moment c')"
    by (auto simp: moment_members_def take_moment_def up_def)
  with performed.IH perform_aside [OF performed(2)] show ?case by auto
qed

lemma ever_committed_total:
  assumes "cluster_reach net_seed node_seed c"
  shows "\<exists>ies. ever_committed c = Inr ies"
proof -
  note inv = cluster_inv_reach [OF assms]
  have "\<exists>acc'. rfold (\<lambda>made. rfold (\<lambda>(p, i). note_commits (log (nodes c p)) [NO_INDEX + 1..<i + 1]) (commits made))
       (history c) [] = Inr acc' \<and> True"
  proof (rule rfold_total)
    fix made acc assume made: "made \<in> set (history c)"
    have "\<exists>acc'. rfold (\<lambda>(p, i). note_commits (log (nodes c p)) [NO_INDEX + 1..<i + 1]) (commits made) acc = Inr acc' \<and> True"
    proof (rule rfold_total)
      fix pi and acc :: "(nat \<times> entry) list" assume "pi \<in> set (commits made)"
      then have "fst pi \<in> set (cmembers c)"
        using history_members [OF assms] made by (auto simp: moment_members_def)
      from note_commits_total [OF reached_log_ok [OF inv this]]
      show "\<exists>acc'. (\<lambda>(p, i). note_commits (log (nodes c p)) [NO_INDEX + 1..<i + 1]) pi acc = Inr acc' \<and> True"
        by (cases pi) auto
    qed simp
    then show "\<exists>acc'. rfold (\<lambda>(p, i). note_commits (log (nodes c p)) [NO_INDEX + 1..<i + 1]) (commits made) acc = Inr acc' \<and> True" .
  qed simp
  then show ?thesis by (auto simp: ever_committed_def)
qed

lemma completeness_check_total:
  assumes "cluster_reach net_seed node_seed c"
  shows "\<exists>bs. check_leader_completeness c = Inr bs \<and> (\<forall>b\<in>set bs. b_property b = LEADER_COMPLETENESS)"
proof -
  obtain ies where ies: "ever_committed c = Inr ies" using ever_committed_total [OF assms] by blast
  let ?P = "\<lambda>bs. \<forall>b\<in>set bs. b_property b = LEADER_COMPLETENESS"
  let ?f = "\<lambda>p. if role (nodes c p) \<noteq> LEADER then Inr [] else leader_lacks (cnow c) (nodes c p) p ies"
  have "\<exists>bs. ?f p = Inr bs \<and> ?P bs" if "p \<in> set (up c)" for p
    using leader_lacks_total [OF reached_log_ok [OF cluster_inv_reach [OF assms], of p]] that
    by (auto simp: up_def)
  then obtain bss where "rmap ?f (up c) = Inr bss" "\<forall>bs\<in>set bss. ?P bs"
    using rmap_total [of "up c" ?f ?P] by blast
  with ies show ?thesis by (auto simp: check_leader_completeness_def)
qed

lemma machine_check_silent:
  assumes inv: "cluster_inv c" and "tight c"
  shows "check_state_machine_safety c = []"
proof -
  have "length (applied_at c i) \<le> 1" if "i < shortest c" for i
    unfolding applied_at_def
  proof (rule py_set_same)
    fix v w assume "v \<in> set (map (\<lambda>p. command (applied (nodes c p) ! i)) (up c))"
      and "w \<in> set (map (\<lambda>p. command (applied (nodes c p) ! i)) (up c))"
    then obtain p q where pq: "p \<in> set (up c)" "v = command (applied (nodes c p) ! i)"
      "q \<in> set (up c)" "w = command (applied (nodes c q) ! i)" by auto
    then have "i < length (applied (nodes c p))" "i < length (applied (nodes c q))"
      using that by (auto simp: shortest_def split: if_splits)
    then have "applied (nodes c p) ! i = applied (nodes c q) ! i"
      using agree_nth [OF applied_agree [OF inv assms(2)]] pq by (simp add: up_def)
    then show "py_eq v w" unfolding pq(2,4) by simp
  qed
  then show ?thesis by (auto simp: check_state_machine_safety_def filter_empty_conv not_less)
qed

lemma machine_check_named: "b \<in> set (check_state_machine_safety c) \<Longrightarrow> b_property b = STATE_MACHINE_SAFETY"
  by (auto simp: check_state_machine_safety_def split: if_splits)

section \<open>Inspecting a reachable cluster\<close>

lemma inspect_reach:
  assumes "cluster_reach net_seed node_seed c"
  shows "\<exists>r. inspect c = Inr r \<and> r_ticks r = cnow c \<and>
    set (breaches r) \<subseteq> {b. b_property b = LEADER_COMPLETENESS} \<union> set (check_state_machine_safety c) \<and>
    (tight c \<longrightarrow> (\<forall>b\<in>set (breaches r). b_property b = LEADER_COMPLETENESS))"
proof -
  note inv = cluster_inv_reach [OF assms]
  obtain lc where lc: "check_leader_completeness c = Inr lc"
    "\<forall>b\<in>set lc. b_property b = LEADER_COMPLETENESS"
    using completeness_check_total [OF assms] by blast
  show ?thesis
    using lc machine_check_silent [OF inv] election_check_silent [OF assms] append_only_blind
    by (auto simp: inspect_def log_check_silent [OF inv])
qed

section \<open>Reading a report\<close>

lemma earliest_None: "earliest bs = None \<longleftrightarrow> bs = []"
  by (cases bs) (auto split: option.split)

lemma earliest_min:
  "earliest bs = Some b \<Longrightarrow> b \<in> set bs \<and> (\<forall>a\<in>set bs. b_tick b \<le> b_tick a)"
  by (induction bs arbitrary: b) (fastforce simp: earliest_None split: option.splits if_splits)+

lemma report_parts:
  "set (report_held r) \<union> set (report_broken r) = set PROPERTIES"
  "set (report_held r) \<inter> set (report_broken r) = {}"
  "report_clean r \<longleftrightarrow> report_first r = None"
  by (auto simp: report_held_def report_broken_def report_clean_def report_first_def earliest_None
      list_ex_iff)

text \<open>
  C17. The append-only check never reports anything, whatever the cluster went through: it reads
  every moment's log from the node as it is at the end of the run.
\<close>

theorem append_only_never_fires: "check_leader_append_only c = []"
  by (rule append_only_blind)

end
