(* ===== verification/Faults.thy ===== *)
theory Faults
  imports Invariant_Checks
begin

text \<open>
  \<open>src/rsm/verify/faults.py\<close>: schedules of faults, the run that injects them and writes on a fixed
  interval, and the schedule a seed draws. \<open>schedule_seed\<close> stands for
  \<open>random.Random(f"{seed}:schedule")\<close>; \<open>net_seed\<close> and \<open>node_seed\<close> are the cluster's.

  The share of faults that did something is a float and is left as its two counts.
\<close>

section \<open>Faults and schedules\<close>

definition CRASH :: string where "CRASH = ''crash''"
definition RESTART :: string where "RESTART = ''restart''"
definition PARTITION :: string where "PARTITION = ''partition''"
definition HEAL :: string where "HEAL = ''heal''"

definition KINDS :: "string list" where "KINDS = [CRASH, RESTART, PARTITION, HEAL]"

lemmas kind_names = CRASH_def RESTART_def PARTITION_def HEAL_def KINDS_def

lemma kinds_differ [simp]:
  "CRASH \<noteq> RESTART" "CRASH \<noteq> PARTITION" "CRASH \<noteq> HEAL" "RESTART \<noteq> CRASH" "RESTART \<noteq> PARTITION"
  "RESTART \<noteq> HEAL" "PARTITION \<noteq> CRASH" "PARTITION \<noteq> RESTART" "PARTITION \<noteq> HEAL" "HEAL \<noteq> CRASH"
  "HEAL \<noteq> RESTART" "HEAL \<noteq> PARTITION"
  by (simp_all add: kind_names)

record fault =
  f_kind :: string
  f_at :: nat
  f_target :: name
  f_sides :: "name list list"

definition Fault :: "string \<Rightarrow> nat \<Rightarrow> name \<Rightarrow> name list list \<Rightarrow> fault result" where
  "Fault k t target ss =
     (if k \<notin> set KINDS then Inl ConfigError
      else if t < 1 then Inl ConfigError
      else if k \<in> {CRASH, RESTART} \<and> target = [] then Inl ConfigError
      else if k = PARTITION \<and> ss = [] then Inl ConfigError
      else Inr \<lparr>f_kind = k, f_at = t, f_target = target, f_sides = ss\<rparr>)"

record schedule =
  s_seed :: int
  s_ticks :: nat
  s_faults :: "fault list"
  s_size :: nat
  s_conditions :: "conditions option"

definition Schedule ::
  "int \<Rightarrow> nat \<Rightarrow> fault list \<Rightarrow> nat \<Rightarrow> conditions option \<Rightarrow> schedule result" where
  "Schedule sd t fs k cs =
     (if t < 1 then Inl ConfigError
      else if k < 1 then Inl ConfigError
      else if filter (\<lambda>f. f_at f > t) fs \<noteq> [] then Inl ConfigError
      else Inr \<lparr>s_seed = sd, s_ticks = t, s_faults = fs, s_size = k, s_conditions = cs\<rparr>)"

definition due :: "schedule \<Rightarrow> nat \<Rightarrow> fault list option" where
  "due s = fold (\<lambda>f out. out(f_at f \<mapsto> (case out (f_at f) of None \<Rightarrow> [f] | Some fs \<Rightarrow> fs @ [f])))
     (s_faults s) Map.empty"

record outcome =
  o_schedule :: schedule
  o_applied :: nat
  o_skipped :: nat
  o_writes :: nat
  o_committed :: nat
  o_leaders :: nat
  o_breaches :: nat

definition outcome_safe :: "outcome \<Rightarrow> bool" where
  "outcome_safe r \<longleftrightarrow> o_breaches r = 0"

section \<open>Running a schedule\<close>

definition inject :: "(int \<Rightarrow> name \<Rightarrow> draws) \<Rightarrow> cluster \<Rightarrow> fault \<Rightarrow> (bool \<times> cluster) result" where
  "inject node_seed c f =
     (if f_kind f = CRASH then
        (if f_target f \<in> down c then Inr (False, c)
         else rbind (crash c (f_target f)) (\<lambda>c'. Inr (True, c')))
      else if f_kind f = RESTART then
        (if f_target f \<notin> down c then Inr (False, c)
         else rbind (restart node_seed c (f_target f)) (\<lambda>c'. Inr (True, c')))
      else if f_kind f = PARTITION then
        (if sides (net c) \<noteq> [] then Inr (False, c)
         else rbind (cluster_partition c (f_sides f)) (\<lambda>c'. Inr (True, c')))
      else if sides (net c) = [] then Inr (False, c)
      else Inr (True, cluster_heal c))"

fun inject_all ::
  "(int \<Rightarrow> name \<Rightarrow> draws) \<Rightarrow> fault list \<Rightarrow> cluster \<times> nat \<times> nat \<Rightarrow> (cluster \<times> nat \<times> nat) result" where
  "inject_all node_seed [] st = Inr st"
| "inject_all node_seed (f # fs) (c, did, skp) =
     rbind (inject node_seed c f) (\<lambda>(b, c').
       inject_all node_seed fs (if b then (c', did + 1, skp) else (c', did, skp + 1)))"

definition scheduled_write :: "nat \<Rightarrow> cluster \<Rightarrow> cluster result" where
  "scheduled_write t c =
     (case cluster_propose c (PTuple [PStr ''set'', PStr ''k'', PInt (int t)]) of
        Inr (i, c') \<Rightarrow> Inr c'
      | Inl NoLeader \<Rightarrow> Inr c
      | Inl e \<Rightarrow> Inl e)"

definition run_turn ::
  "(int \<Rightarrow> name \<Rightarrow> draws) \<Rightarrow> (nat \<Rightarrow> fault list option) \<Rightarrow> nat \<Rightarrow> nat \<Rightarrow> cluster \<times> nat \<times> nat \<times> nat \<Rightarrow>
   (cluster \<times> nat \<times> nat \<times> nat) result" where
  "run_turn node_seed d every t st =
     (let (c, did, skp, writes) = st in
      rbind (inject_all node_seed (case d t of None \<Rightarrow> [] | Some fs \<Rightarrow> fs) (c, did, skp)) (\<lambda>(c1, did1, skp1).
      if every = 0 then Inl ZeroDivisionError
      else rbind (if t mod every = 0 then rbind (scheduled_write t c1) (\<lambda>c2. Inr (c2, writes + 1))
                  else Inr (c1, writes)) (\<lambda>(c2, writes2).
           rbind (cluster_tick c2) (\<lambda>c3. Inr (c3, did1, skp1, writes2)))))"

definition run_schedule ::
  "(int \<Rightarrow> draws) \<Rightarrow> (int \<Rightarrow> name \<Rightarrow> draws) \<Rightarrow> schedule \<Rightarrow> nat \<Rightarrow> outcome result" where
  "run_schedule net_seed node_seed s every =
     rbind (Cluster net_seed node_seed (s_size s) (s_seed s) (s_conditions s) True False) (\<lambda>c0.
     rbind (rfold (run_turn node_seed (due s) every) [1..<s_ticks s + 1] (c0, 0, 0, 0)) (\<lambda>(c, did, skp, writes).
     rbind (inspect c) (\<lambda>r.
     Inr \<lparr>o_schedule = s, o_applied = did, o_skipped = skp, o_writes = writes,
       o_committed = length (committed c), o_leaders = elections c, o_breaches = length (breaches r)\<rparr>)))"

section \<open>Drawing a schedule\<close>

text \<open>The three thresholds are the doubles nearest to 0.35, 0.6 and 0.85.\<close>

definition below_crash :: dyadic where "below_crash = (3152519739159347, 53)"
definition below_restart :: dyadic where "below_restart = (5404319552844595, 53)"
definition below_partition :: dyadic where "below_partition = (7656119366529843, 53)"

type_synonym drawing = "draws \<times> fault list \<times> name set \<times> bool"

definition draw_crash :: "name list \<Rightarrow> nat \<Rightarrow> drawing \<Rightarrow> drawing result" where
  "draw_crash from t st =
     (let (g, out, dn, split) = st in
      rbind (choice from g) (\<lambda>(p, g'). rbind (Fault CRASH t p []) (\<lambda>f.
      Inr (g', out @ [f], insert p dn, split))))"

definition draw_restart :: "nat \<Rightarrow> drawing \<Rightarrow> drawing result" where
  "draw_restart t st =
     (let (g, out, dn, split) = st in
      rbind (choice (sorted_list_of_set dn) g) (\<lambda>(p, g'). rbind (Fault RESTART t p []) (\<lambda>f.
      Inr (g', out @ [f], dn - {p}, split))))"

definition draw_partition :: "name list \<Rightarrow> nat \<Rightarrow> nat \<Rightarrow> drawing \<Rightarrow> drawing result" where
  "draw_partition ms k t st =
     (let (g, out, dn, split) = st in
      if k - 1 < 1 then Inl ValueError
      else let (cut, g1) = randint 1 (k - 1) g; (shuffled, g2) = shuffle ms g1 in
           rbind (Fault PARTITION t [] [take cut shuffled, drop cut shuffled]) (\<lambda>f.
           Inr (g2, out @ [f], dn, True)))"

definition draw_heal :: "nat \<Rightarrow> drawing \<Rightarrow> drawing result" where
  "draw_heal t st =
     (let (g, out, dn, split) = st in
      rbind (Fault HEAL t [] []) (\<lambda>f. Inr (g, out @ [f], dn, False)))"

definition draw_fault :: "name list \<Rightarrow> nat \<Rightarrow> nat \<Rightarrow> drawing \<Rightarrow> drawing result" where
  "draw_fault ms k t st0 =
     (let (g0, out, dn, split) = st0;
          (pick, g) = random_draw g0;
          st = (g, out, dn, split)
      in if dyadic_less pick below_crash \<and> card dn < k div 2
         then draw_crash (filter (\<lambda>p. p \<notin> dn) ms) t st
         else if dyadic_less pick below_restart \<and> dn \<noteq> {} then draw_restart t st
         else if dyadic_less pick below_partition \<and> \<not> split then draw_partition ms k t st
         else if split then draw_heal t st
         else if dn \<noteq> {} then draw_restart t st
         else draw_crash ms t st)"

definition random_schedule ::
  "(int \<Rightarrow> draws) \<Rightarrow> int \<Rightarrow> nat \<Rightarrow> nat \<Rightarrow> nat \<Rightarrow> schedule result" where
  "random_schedule schedule_seed sd k ticks faults =
     (let ms = map (\<lambda>i. CHR ''n'' # decimal i) [0..<k] in
      rbind (sample [2..<ticks - 1] faults (schedule_seed sd)) (\<lambda>(ts, g).
      rbind (rfold (draw_fault ms k) (sort ts) (g, [], {}, False)) (\<lambda>(g', out, dn, split).
      Schedule sd ticks out k None)))"

section \<open>What a schedule exposes the cluster to\<close>

text \<open>
  A fault takes hold when it changes something: which, depends on who is down and whether the
  network is split.
\<close>

fun takes_hold :: "standing \<Rightarrow> fault \<Rightarrow> bool" where
  "takes_hold (dn, split) f =
     (if f_kind f = CRASH then f_target f \<notin> dn
      else if f_kind f = RESTART then f_target f \<in> dn
      else if f_kind f = PARTITION then \<not> split
      else split)"

fun stand :: "standing \<Rightarrow> fault \<Rightarrow> standing" where
  "stand (dn, split) f =
     (if f_kind f = CRASH then (insert (f_target f) dn, split)
      else if f_kind f = RESTART then (dn - {f_target f}, split)
      else if f_kind f = PARTITION then (dn, True)
      else (dn, False))"

fun lively :: "standing \<Rightarrow> fault list \<Rightarrow> bool" where
  "lively st [] = True"
| "lively st (f # fs) = (takes_hold st f \<and> lively (stand st f) fs)"

text \<open>A fault the cluster can suffer: it names members, and the sides of a split hold each once.\<close>

definition placed :: "name list \<Rightarrow> fault \<Rightarrow> bool" where
  "placed ms f \<longleftrightarrow>
     (f_kind f \<in> {CRASH, RESTART} \<longrightarrow> f_target f \<in> set ms) \<and>
     (f_kind f = PARTITION \<longrightarrow> f_sides f \<noteq> [] \<and> distinct (concat (f_sides f)) \<and>
        set (concat (f_sides f)) = set ms)"

lemma lively_append: "lively st (fs @ gs) \<longleftrightarrow> lively st fs \<and> lively (foldl stand st fs) gs"
  by (induction fs arbitrary: st) auto

subsection \<open>Drawn schedules\<close>

definition drawn_ok :: "name list \<Rightarrow> drawing \<Rightarrow> bool" where
  "drawn_ok ms st = (case st of (g, out, dn, split) \<Rightarrow>
     lively ({}, False) out \<and> foldl stand ({}, False) out = (dn, split) \<and>
     (\<forall>f\<in>set out. placed ms f) \<and> dn \<subseteq> set ms)"

text \<open>One more fault that takes hold and is placed.\<close>

definition adds :: "name list \<Rightarrow> nat \<Rightarrow> drawing \<Rightarrow> drawing result \<Rightarrow> bool" where
  "adds ms t st r \<longleftrightarrow> (case st of (g, out, dn, split) \<Rightarrow>
     \<exists>g' f. r = Inr (g', out @ [f], stand (dn, split) f) \<and> f_at f = t \<and>
       takes_hold (dn, split) f \<and> placed ms f)"

lemma adds_ok:
  assumes "drawn_ok ms st" "adds ms t st r"
  shows "\<exists>st'. r = Inr st' \<and> drawn_ok ms st' \<and>
    map f_at (fst (snd st')) = map f_at (fst (snd st)) @ [t]"
proof -
  obtain g out dn split where st: "st = (g, out, dn, split)" by (cases st)
  from assms(2) st obtain g' f where f: "r = Inr (g', out @ [f], stand (dn, split) f)" "f_at f = t"
    "takes_hold (dn, split) f" "placed ms f" by (auto simp: adds_def)
  have "fst (stand (dn, split) f) \<subseteq> set ms"
    using assms(1) st f(4) by (auto simp: drawn_ok_def placed_def)
  then have "drawn_ok ms (g', out @ [f], stand (dn, split) f)"
    using assms(1) st f by (auto simp: drawn_ok_def lively_append)
  with f st show ?thesis by (intro exI [of _ "(g', out @ [f], stand (dn, split) f)"]) simp
qed

lemma draw_crash_adds:
  assumes "set from \<subseteq> set ms - dn" "from \<noteq> []" "1 \<le> t" "[] \<notin> set ms"
  shows "adds ms t (g, out, dn, split) (draw_crash from t (g, out, dn, split))"
proof -
  obtain p g' where p: "choice from g = Inr (p, g')" "p \<in> set from"
    using choice_total [OF assms(2)] by blast
  with assms have "p \<in> set ms" "p \<notin> dn" "p \<noteq> []" by auto
  with p(1) assms(3) show ?thesis
    by (auto simp: adds_def draw_crash_def Fault_def placed_def KINDS_def)
qed

lemma draw_restart_adds:
  assumes "dn \<subseteq> set ms" "dn \<noteq> {}" "1 \<le> t" "[] \<notin> set ms"
  shows "adds ms t (g, out, dn, split) (draw_restart t (g, out, dn, split))"
proof -
  have fin: "finite dn" using assms(1) finite_subset by blast
  then have "sorted_list_of_set dn \<noteq> []" using assms(2) by simp
  then obtain p g' where p: "choice (sorted_list_of_set dn) g = Inr (p, g')" "p \<in> dn"
    using choice_total set_sorted_list_of_set [OF fin] by metis
  with assms have "p \<in> set ms" "p \<noteq> []" by auto
  with p assms(3) show ?thesis
    by (auto simp: adds_def draw_restart_def Fault_def placed_def KINDS_def)
qed

lemma draw_partition_adds:
  assumes "2 \<le> k" "distinct ms" "1 \<le> t" "\<not> split"
  shows "adds ms t (g, out, dn, split) (draw_partition ms k t (g, out, dn, split))"
proof -
  obtain cut g1 where cut: "randint 1 (k - 1) g = (cut, g1)" by fastforce
  obtain xs g2 where xs: "shuffle ms g1 = (xs, g2)" by fastforce
  then have "mset xs = mset ms" using shuffle_mset [of ms g1] by simp
  then have "distinct xs" "set xs = set ms"
    using assms(2) mset_eq_imp_distinct_iff mset_eq_setD by blast+
  then have "distinct (concat [take cut xs, drop cut xs])" "set (concat [take cut xs, drop cut xs]) = set ms"
    by simp_all
  moreover have "draw_partition ms k t (g, out, dn, split) = Inr (g2, out @
      [\<lparr>f_kind = PARTITION, f_at = t, f_target = [], f_sides = [take cut xs, drop cut xs]\<rparr>], dn, True)"
    using assms by (simp add: draw_partition_def cut [simplified] xs Fault_def KINDS_def)
  ultimately show ?thesis
    using assms(4) unfolding adds_def prod.case placed_def
    by (intro exI [of _ g2]
        exI [of _ "\<lparr>f_kind = PARTITION, f_at = t, f_target = [], f_sides = [take cut xs, drop cut xs]\<rparr>"])
      (simp del: concat.simps)
qed

lemma draw_heal_adds:
  "1 \<le> t \<Longrightarrow> split \<Longrightarrow> adds ms t (g, out, dn, split) (draw_heal t (g, out, dn, split))"
  by (auto simp: adds_def draw_heal_def Fault_def placed_def KINDS_def)

lemma draw_fault_adds:
  assumes "k = length ms" "2 \<le> k" "distinct ms" "[] \<notin> set ms" "dn \<subseteq> set ms" "1 \<le> t"
  shows "adds ms t (g, out, dn, split) (draw_fault ms k t (g, out, dn, split))"
proof -
  obtain pick g' where pick: "random_draw g = (pick, g')" by fastforce
  have up: "filter (\<lambda>p. p \<notin> dn) ms \<noteq> []" if "card dn < k div 2"
  proof
    assume "filter (\<lambda>p. p \<notin> dn) ms = []"
    then have "set ms \<subseteq> dn" by (auto simp: filter_empty_conv)
    with assms(5) have "card dn = k" using assms(1,3) by (simp add: distinct_card subset_antisym)
    with that assms(2) show False by linarith
  qed
  have same: "adds ms t (g, out, dn, split) r = adds ms t (g', out, dn, split) r" for r
    by (simp add: adds_def)
  have ms: "ms \<noteq> []" using assms(1,2) by auto
  note adds = draw_crash_adds draw_restart_adds draw_partition_adds draw_heal_adds
  show ?thesis
    unfolding same draw_fault_def
    using assms up ms by (auto simp: pick Let_def intro!: adds)
qed

lemma sorted_sample:
  assumes "mset ts \<subseteq># mset [a..<b]"
  shows "sorted_wrt (<) (sort ts)" "set (sort ts) \<subseteq> {a..<b}"
proof -
  have "distinct ts" using assms distinct_upt [of a b]
    by (metis mset_subset_eq_exists_conv distinct_append mset_append ex_mset mset_eq_imp_distinct_iff)
  then show "sorted_wrt (<) (sort ts)" by (simp add: strict_sorted_iff)
  show "set (sort ts) \<subseteq> {a..<b}" using set_mset_mono [OF assms] by auto
qed

lemma random_schedule_ok:
  assumes "2 \<le> k" "1 \<le> ticks" "faults \<le> ticks - 1 - 2"
  shows "\<exists>s. random_schedule schedule_seed sd k ticks faults = Inr s \<and>
    s_seed s = sd \<and> s_ticks s = ticks \<and> s_size s = k \<and> s_conditions s = None \<and>
    length (s_faults s) = faults \<and> sorted_wrt (<) (map f_at (s_faults s)) \<and>
    (\<forall>f\<in>set (s_faults s). 2 \<le> f_at f \<and> f_at f < ticks - 1 \<and>
       placed (map (\<lambda>i. CHR ''n'' # decimal i) [0..<k]) f) \<and>
    lively ({}, False) (s_faults s)"
proof -
  define ms where "ms = map (\<lambda>i. CHR ''n'' # decimal i) [0..<k]"
  have ms: "k = length ms" "distinct ms" "[] \<notin> set ms"
    by (auto simp: ms_def intro: cluster_names_distinct)
  obtain ts g where ts: "sample [2..<ticks - 1] faults (schedule_seed sd) = Inr (ts, g)"
    "sample_from [2..<ticks - 1] faults (schedule_seed sd) = (ts, g)"
    using assms(3) by (cases "sample_from [2..<ticks - 1] faults (schedule_seed sd)") (simp add: sample_def)
  note spl = sample_from_mset [OF _ ts(2)]
  have len: "length ts = faults" and sub: "mset ts \<subseteq># mset [2..<ticks - 1]"
    using spl assms(3) by simp_all
  note srt = sorted_sample [OF sub]
  have drawn: "\<exists>st'. rfold (draw_fault ms k) us st = Inr st' \<and> drawn_ok ms st' \<and>
      map f_at (fst (snd st')) = map f_at (fst (snd st)) @ us"
    if "drawn_ok ms st" "set us \<subseteq> {2..<ticks - 1}" for us st
    using that
  proof (induction us arbitrary: st)
    case (Cons u us)
    obtain g out dn split where st: "st = (g, out, dn, split)" by (cases st)
    have "adds ms u st (draw_fault ms k u st)"
      unfolding st by (rule draw_fault_adds [OF ms(1) assms(1) ms(2,3)])
        (use Cons.prems st in \<open>auto simp: drawn_ok_def\<close>)
    from adds_ok [OF Cons.prems(1) this] obtain st1 where st1: "draw_fault ms k u st = Inr st1"
      "drawn_ok ms st1" "map f_at (fst (snd st1)) = map f_at (fst (snd st)) @ [u]" by blast
    from Cons.IH [OF st1(2)] Cons.prems(2) st1(1,3) show ?case by auto
  qed simp
  have "drawn_ok ms (g, [], {}, False)" by (simp add: drawn_ok_def)
  from drawn [OF this srt(2)] obtain g' out dn split where
    out: "rfold (draw_fault ms k) (sort ts) (g, [], {}, False) = Inr (g', out, dn, split)"
      "drawn_ok ms (g', out, dn, split)" "map f_at out = sort ts"
    by (auto split: prod.splits)
  have at: "2 \<le> f_at f \<and> f_at f < ticks - 1" if "f \<in> set out" for f
  proof -
    have "f_at f \<in> set (sort ts)" using that unfolding out(3) [symmetric] by simp
    with srt(2) show ?thesis by auto
  qed
  then have "filter (\<lambda>f. f_at f > ticks) out = []" by (fastforce simp: filter_empty_conv)
  moreover have "length out = faults" using out(3) len by (metis length_map length_sort)
  ultimately show ?thesis
    using assms out srt(1) at ts(1) unfolding ms_def [symmetric]
    by (simp add: random_schedule_def Schedule_def ms_def [symmetric] drawn_ok_def)
qed

subsection \<open>Running them\<close>

lemma inject_ok:
  assumes reach: "cluster_reach net_seed node_seed c" and f: "placed (cmembers c) f"
  shows "\<exists>c'. inject node_seed c f = Inr (takes_hold (standing_of c) f, c') \<and>
    cluster_reach net_seed node_seed c' \<and> cmembers c' = cmembers c \<and>
    standing_of c' = stand (standing_of c) f"
proof -
  note same = reach_perform [OF reach]
  show ?thesis
  proof (cases "takes_hold (standing_of c) f")
    case False
    then have "inject node_seed c f = Inr (False, c)" "stand (standing_of c) f = standing_of c"
      by (auto simp: inject_def standing_of_def split: if_splits)
    with False reach show ?thesis by auto
  next
    case True
    consider "f_kind f = CRASH" | "f_kind f = RESTART" | "f_kind f = PARTITION"
      | "f_kind f \<notin> {CRASH, RESTART, PARTITION}" by blast
    then show ?thesis
    proof cases
      case 1
      with f True have c: "crash c (f_target f) = Inr (c\<lparr>down := insert (f_target f) (down c)\<rparr>)"
        by (auto simp: crash_def placed_def)
      with same [of "Crash (f_target f)"] 1 True show ?thesis
        by (auto simp: inject_def standing_of_def)
    next
      case 2
      then have d: "f_target f \<in> down c" using True by (simp add: standing_of_def)
      from cluster_inv_reach [OF reach] obtain s where
        ok: "cluster_ok (tight c) (cmembers c) {} c s" "down c \<subseteq> set (cmembers c)" by (rule cluster_invE)
      obtain c' where c': "restart node_seed c (f_target f) = Inr c'"
        using restart_ok [OF ok d] by blast
      with same [of "Restart (f_target f)"] 2 True restart_standing [OF c'] d show ?thesis
        by (auto simp: inject_def standing_of_def)
    next
      case 3
      let ?w = "(net c)\<lparr>sides := map set (f_sides f)\<rparr>"
      have "net_partition (net c) (f_sides f) = Inr ?w"
        using f 3 reach_net(1) [OF reach] by (simp add: net_partition_def placed_def filter_empty_conv)
      then have "cluster_partition c (f_sides f) = Inr (c\<lparr>net := ?w\<rparr>)"
        by (simp add: cluster_partition_def)
      with same [of "Partition (f_sides f)"] f 3 True show ?thesis
        by (auto simp: inject_def standing_of_def placed_def)
    next
      case 4
      with same [of Heal] True show ?thesis
        by (auto simp: inject_def standing_of_def cluster_heal_def net_heal_def)
    qed
  qed
qed

lemma inject_all_ok:
  assumes "cluster_reach net_seed node_seed c" "\<forall>f\<in>set fs. placed (cmembers c) f"
  shows "\<exists>c' a b. inject_all node_seed fs (c, did, skp) = Inr (c', did + a, skp + b) \<and>
    cluster_reach net_seed node_seed c' \<and> cmembers c' = cmembers c \<and>
    standing_of c' = foldl stand (standing_of c) fs \<and> a + b = length fs \<and>
    (lively (standing_of c) fs \<longrightarrow> b = 0)"
  using assms
proof (induction fs arbitrary: c did skp)
  case (Cons f fs)
  obtain c1 where c1: "inject node_seed c f = Inr (takes_hold (standing_of c) f, c1)"
    "cluster_reach net_seed node_seed c1" "cmembers c1 = cmembers c"
    "standing_of c1 = stand (standing_of c) f"
    using inject_ok [OF Cons.prems(1), of f] Cons.prems(2) by auto
  note IH = Cons.IH [OF c1(2), unfolded c1(3,4)]
  show ?case
  proof (cases "takes_hold (standing_of c) f")
    case True
    obtain c' a b where "inject_all node_seed fs (c1, did + 1, skp) = Inr (c', did + 1 + a, skp + b)"
      "cluster_reach net_seed node_seed c'" "cmembers c' = cmembers c"
      "standing_of c' = foldl stand (stand (standing_of c) f) fs" "a + b = length fs"
      "lively (stand (standing_of c) f) fs \<longrightarrow> b = 0"
      using IH [of "did + 1" skp] Cons.prems(2) by auto
    with c1(1) True show ?thesis
      by (intro exI [of _ c'] exI [of _ "a + 1"] exI [of _ b]) auto
  next
    case False
    obtain c' a b where "inject_all node_seed fs (c1, did, skp + 1) = Inr (c', did + a, skp + 1 + b)"
      "cluster_reach net_seed node_seed c'" "cmembers c' = cmembers c"
      "standing_of c' = foldl stand (stand (standing_of c) f) fs" "a + b = length fs"
      using IH [of did "skp + 1"] Cons.prems(2) by auto
    with c1(1) False show ?thesis
      by (intro exI [of _ c'] exI [of _ a] exI [of _ "b + 1"]) auto
  qed
qed auto

lemma scheduled_write_ok:
  assumes "cluster_reach net_seed node_seed c"
  shows "\<exists>c'. scheduled_write t c = Inr c' \<and> cluster_reach net_seed node_seed c' \<and>
    cmembers c' = cmembers c \<and> standing_of c' = standing_of c"
  using cluster_propose_reach [OF assms, of "PTuple [PStr ''set'', PStr ''k'', PInt (int t)]"] assms
  by (auto simp: scheduled_write_def)

definition writes_in :: "nat \<Rightarrow> nat list \<Rightarrow> nat" where
  "writes_in every ts = length (filter (\<lambda>t. t mod every = 0) ts)"

definition due_now :: "(nat \<Rightarrow> fault list option) \<Rightarrow> nat \<Rightarrow> fault list" where
  "due_now d t = (case d t of None \<Rightarrow> [] | Some fs \<Rightarrow> fs)"

lemma run_turn_ok:
  assumes "cluster_reach net_seed node_seed c" "\<forall>f\<in>set (due_now d t). placed (cmembers c) f" "0 < every"
  shows "run_turn node_seed d every t (c, did, skp, w) = Inl StateMachineSafety \<or>
    (\<exists>c' a b. run_turn node_seed d every t (c, did, skp, w) =
        Inr (c', did + a, skp + b, w + writes_in every [t]) \<and>
      cluster_reach net_seed node_seed c' \<and> cmembers c' = cmembers c \<and>
      standing_of c' = foldl stand (standing_of c) (due_now d t) \<and> a + b = length (due_now d t) \<and>
      (lively (standing_of c) (due_now d t) \<longrightarrow> b = 0))"
proof -
  obtain c1 a b where c1: "inject_all node_seed (due_now d t) (c, did, skp) = Inr (c1, did + a, skp + b)"
    "cluster_reach net_seed node_seed c1" "cmembers c1 = cmembers c"
    "standing_of c1 = foldl stand (standing_of c) (due_now d t)" "a + b = length (due_now d t)"
    "lively (standing_of c) (due_now d t) \<longrightarrow> b = 0"
    using inject_all_ok [OF assms(1,2)] by blast
  have "\<exists>c2. (if t mod every = 0 then rbind (scheduled_write t c1) (\<lambda>c2. Inr (c2, w + 1)) else Inr (c1, w))
      = Inr (c2, w + writes_in every [t]) \<and> cluster_reach net_seed node_seed c2 \<and>
      cmembers c2 = cmembers c1 \<and> standing_of c2 = standing_of c1"
    using scheduled_write_ok [OF c1(2), of t] c1(2) by (auto simp: writes_in_def)
  then obtain c2 where c2: "(if t mod every = 0 then rbind (scheduled_write t c1) (\<lambda>c2. Inr (c2, w + 1))
      else Inr (c1, w)) = Inr (c2, w + writes_in every [t])"
    "cluster_reach net_seed node_seed c2" "cmembers c2 = cmembers c1" "standing_of c2 = standing_of c1"
    by blast
  have eq: "run_turn node_seed d every t (c, did, skp, w) =
      rbind (cluster_tick c2) (\<lambda>c3. Inr (c3, did + a, skp + b, w + writes_in every [t]))"
    unfolding run_turn_def Let_def prod.case due_now_def [symmetric] c1(1) rbind.simps c2(1)
    using assms(3) by simp
  from cluster_tick_ok [OF c2(2)] show ?thesis
  proof
    assume "\<exists>c'. cluster_tick c2 = Inr c' \<and> cluster_reach net_seed node_seed c' \<and>
      cmembers c' = cmembers c2 \<and> standing_of c' = standing_of c2"
    then obtain c3 where "cluster_tick c2 = Inr c3" "cluster_reach net_seed node_seed c3"
      "cmembers c3 = cmembers c2" "standing_of c3 = standing_of c2" by blast
    with eq c1 c2 show ?thesis by (intro disjI2 exI [of _ c3] exI [of _ a] exI [of _ b]) simp
  qed (simp add: eq)
qed

lemma run_turns_ok:
  assumes "cluster_reach net_seed node_seed c" "0 < every"
    and "\<forall>t\<in>set ts. \<forall>f\<in>set (due_now d t). placed (cmembers c) f"
  shows "rfold (run_turn node_seed d every) ts (c, did, skp, w) = Inl StateMachineSafety \<or>
    (\<exists>c' a b. rfold (run_turn node_seed d every) ts (c, did, skp, w) =
        Inr (c', did + a, skp + b, w + writes_in every ts) \<and>
      cluster_reach net_seed node_seed c' \<and> a + b = length (concat (map (due_now d) ts)) \<and>
      (lively (standing_of c) (concat (map (due_now d) ts)) \<longrightarrow> b = 0))"
  using assms
proof (induction ts arbitrary: c did skp w)
  case (Cons t ts)
  from run_turn_ok [OF Cons.prems(1) _ Cons.prems(2), of d t did skp w] Cons.prems(3)
  consider "run_turn node_seed d every t (c, did, skp, w) = Inl StateMachineSafety"
    | c1 a b where "run_turn node_seed d every t (c, did, skp, w) =
        Inr (c1, did + a, skp + b, w + writes_in every [t])"
      "cluster_reach net_seed node_seed c1" "cmembers c1 = cmembers c"
      "standing_of c1 = foldl stand (standing_of c) (due_now d t)" "a + b = length (due_now d t)"
      "lively (standing_of c) (due_now d t) \<longrightarrow> b = 0" by auto
  then show ?case
  proof cases
    case (2 c1 a b)
    from Cons.IH [OF 2(2) Cons.prems(2), of "did + a" "skp + b" "w + writes_in every [t]"] Cons.prems(3) 2(3)
    consider "rfold (run_turn node_seed d every) ts (c1, did + a, skp + b, w + writes_in every [t]) =
        Inl StateMachineSafety"
      | c' a' b' where "rfold (run_turn node_seed d every) ts (c1, did + a, skp + b, w + writes_in every [t]) =
          Inr (c', did + a + a', skp + b + b', w + writes_in every [t] + writes_in every ts)"
        "cluster_reach net_seed node_seed c'" "a' + b' = length (concat (map (due_now d) ts))"
        "lively (standing_of c1) (concat (map (due_now d) ts)) \<longrightarrow> b' = 0" by auto
    then show ?thesis
    proof cases
      case (2 c' a' b')
      with \<open>run_turn node_seed d every t (c, did, skp, w) = _\<close> \<open>standing_of c1 = _\<close> \<open>a + b = _\<close>
        \<open>lively (standing_of c) (due_now d t) \<longrightarrow> b = 0\<close>
      show ?thesis
        by (intro disjI2 exI [of _ c'] exI [of _ "a + a'"] exI [of _ "b + b'"])
          (auto simp: lively_append writes_in_def ac_simps)
    qed (use 2(1) in simp)
  qed simp
qed (auto simp: writes_in_def)

lemma due_filter: "due_now (due s) t = filter (\<lambda>f. f_at f = t) (s_faults s)"
proof -
  let ?add = "\<lambda>f out. out(f_at f \<mapsto> (case out (f_at f) of None \<Rightarrow> [f] | Some fs \<Rightarrow> fs @ [f]))"
  have "(case fold ?add fs m t of None \<Rightarrow> [] | Some fs \<Rightarrow> fs) =
      (case m t of None \<Rightarrow> [] | Some fs \<Rightarrow> fs) @ filter (\<lambda>f. f_at f = t) fs"
    for fs and m :: "nat \<Rightarrow> fault list option"
    by (induction fs arbitrary: m) (auto split: option.split)
  from this [of "s_faults s" Map.empty] show ?thesis by (simp add: due_now_def due_def)
qed

lemma length_by_tick:
  "length (concat (map (\<lambda>t. filter (\<lambda>f. at f = t) fs) [a..<b])) =
   length (filter (\<lambda>f. a \<le> at f \<and> at f < b) fs)" if "a \<le> b" for at :: "'a \<Rightarrow> nat"
  using that
proof (induction b)
  case (Suc b)
  show ?case
  proof (cases "a \<le> b")
    case True
    have "length (filter (\<lambda>f. a \<le> at f \<and> at f < Suc b) fs) =
        length (filter (\<lambda>f. a \<le> at f \<and> at f < b) fs) + length (filter (\<lambda>f. at f = b) fs)"
      using True by (induction fs) auto
    with Suc True show ?thesis by simp
  next
    case False
    with Suc.prems have "a = Suc b" by simp
    then show ?thesis by (simp add: filter_empty_conv)
  qed
qed (simp add: filter_empty_conv)

lemma by_tick_sorted:
  fixes at :: "'a \<Rightarrow> nat"
  assumes "sorted_wrt (<) (map at fs)"
  shows "concat (map (\<lambda>t. filter (\<lambda>f. at f = t) fs) [a..<b]) = filter (\<lambda>f. a \<le> at f \<and> at f < b) fs"
proof (induction b)
  case (Suc b)
  have one: "filter (\<lambda>f. a \<le> at f \<and> at f < Suc b) fs =
      filter (\<lambda>f. a \<le> at f \<and> at f < b) fs @ filter (\<lambda>f. a \<le> at f \<and> at f = b) fs"
    using assms
  proof (induction fs)
    case (Cons f fs)
    then have later: "\<forall>g\<in>set fs. at f < at g" and srt: "sorted_wrt (<) (map at fs)" by auto
    show ?case
    proof (cases "at f < b")
      case False
      with later have "filter (\<lambda>g. a \<le> at g \<and> at g < b) fs = []"
        "filter (\<lambda>g. a \<le> at g \<and> at g < Suc b) fs = filter (\<lambda>g. a \<le> at g \<and> at g = b) fs"
        by (auto simp: filter_empty_conv intro!: filter_cong)
      with False show ?thesis by auto
    qed (use Cons.IH [OF srt] in auto)
  qed simp
  show ?case
  proof (cases "a \<le> b")
    case True
    have "filter (\<lambda>f. a \<le> at f \<and> at f = b) fs = filter (\<lambda>f. at f = b) fs"
      using True by (intro filter_cong) auto
    with Suc True one show ?thesis by simp
  qed (auto simp: filter_empty_conv)
qed (simp add: filter_empty_conv)

lemma writes_in_div: "0 < every \<Longrightarrow> writes_in every [1..<t + 1] = t div every"
  by (induction t) (auto simp: writes_in_def div_Suc)

lemma run_schedule_ok:
  assumes "1 \<le> s_size s" "0 < every"
    and "\<forall>f\<in>set (s_faults s). 1 \<le> f_at f \<and> f_at f \<le> s_ticks s \<and>
      placed (map (\<lambda>i. CHR ''n'' # decimal i) [0..<s_size s]) f"
  shows "run_schedule net_seed node_seed s every = Inl StateMachineSafety \<or>
    (\<exists>r c rep. run_schedule net_seed node_seed s every = Inr r \<and>
      o_applied r + o_skipped r = length (s_faults s) \<and> o_writes r = s_ticks s div every \<and>
      cluster_reach net_seed node_seed c \<and> inspect c = Inr rep \<and>
      o_committed r = committed_count c \<and> o_leaders r = elections c \<and> o_breaches r = length (breaches rep) \<and>
      (sorted_wrt (<) (map f_at (s_faults s)) \<and> lively ({}, False) (s_faults s) \<longrightarrow> o_skipped r = 0))"
proof -
  let ?ms = "map (\<lambda>i. CHR ''n'' # decimal i) [0..<s_size s]" and ?ts = "[1..<s_ticks s + 1]"
  obtain c0 where c0: "Cluster net_seed node_seed (s_size s) (s_seed s) (s_conditions s) True False = Inr c0"
    "cmembers c0 = ?ms" "standing_of c0 = ({}, False)"
    using Cluster_total [OF assms(1)] by blast
  have all: "filter (\<lambda>f. 1 \<le> f_at f \<and> f_at f < s_ticks s + 1) (s_faults s) = s_faults s"
    using assms(3) by (intro filter_True) fastforce
  have len: "length (concat (map (due_now (due s)) ?ts)) = length (s_faults s)"
    using length_by_tick [of 1 "s_ticks s + 1" f_at "s_faults s"] all by (simp add: due_filter [abs_def])
  have order: "concat (map (due_now (due s)) ?ts) = s_faults s" if "sorted_wrt (<) (map f_at (s_faults s))"
    using by_tick_sorted [OF that, of 1 "s_ticks s + 1"] all by (simp add: due_filter [abs_def])
  have "\<forall>t\<in>set ?ts. \<forall>f\<in>set (due_now (due s) t). placed (cmembers c0) f"
    using assms(3) c0(2) by (simp add: due_filter)
  from run_turns_ok [OF cluster_reach.made [OF c0(1)] assms(2) this, of 0 0 0]
  consider "rfold (run_turn node_seed (due s) every) ?ts (c0, 0, 0, 0) = Inl StateMachineSafety"
    | c a b where "rfold (run_turn node_seed (due s) every) ?ts (c0, 0, 0, 0) =
        Inr (c, a, b, writes_in every ?ts)" "cluster_reach net_seed node_seed c"
      "a + b = length (s_faults s)"
      "lively ({}, False) (concat (map (due_now (due s)) ?ts)) \<longrightarrow> b = 0"
    unfolding len c0(3) by auto
  then show ?thesis
  proof cases
    case 1
    then have "run_schedule net_seed node_seed s every = Inl StateMachineSafety"
      unfolding run_schedule_def c0(1) rbind.simps by simp
    then show ?thesis by blast
  next
    case (2 c a b)
    obtain rep where rep: "inspect c = Inr rep" using inspect_reach [OF 2(2)] by blast
    define r where "r = \<lparr>o_schedule = s, o_applied = a, o_skipped = b, o_writes = s_ticks s div every,
       o_committed = length (committed c), o_leaders = elections c, o_breaches = length (breaches rep)\<rparr>"
    have "run_schedule net_seed node_seed s every = Inr r"
      unfolding run_schedule_def c0(1) rbind.simps 2(1) prod.case rep r_def writes_in_div [OF assms(2)] ..
    with 2(2,3,4) rep order show ?thesis
      by (intro disjI2 exI [of _ r] exI [of _ c] exI [of _ rep])
        (simp add: r_def committed_count_def)
  qed
qed

section \<open>Schedules against the cluster\<close>

text \<open>
  Running a schedule whose faults name members and whose splits cover them raises nothing but
  the cluster's own state machine check. Otherwise it returns: every fault was either applied or
  skipped, a write was attempted each time the interval came round, and the numbers reported are
  read off a cluster the protocol reaches.
\<close>

theorem schedule_run:
  assumes "Schedule sd ticks fs k cs = Inr s" "0 < every"
    and "\<forall>f\<in>set fs. 1 \<le> f_at f \<and> placed (map (\<lambda>i. CHR ''n'' # decimal i) [0..<k]) f"
  shows "run_schedule net_seed node_seed s every = Inl StateMachineSafety \<or>
    (\<exists>r c rep. run_schedule net_seed node_seed s every = Inr r \<and>
      o_applied r + o_skipped r = length fs \<and> o_writes r = ticks div every \<and>
      cluster_reach net_seed node_seed c \<and> inspect c = Inr rep \<and>
      o_committed r = committed_count c \<and> o_breaches r = length (breaches rep))"
proof -
  have s: "s = \<lparr>s_seed = sd, s_ticks = ticks, s_faults = fs, s_size = k, s_conditions = cs\<rparr>" "1 \<le> k"
    "\<forall>f\<in>set fs. f_at f \<le> ticks"
    using assms(1) by (auto simp: Schedule_def filter_empty_conv not_less split: if_splits)
  have "run_schedule net_seed node_seed s every = Inl StateMachineSafety \<or>
    (\<exists>r c rep. run_schedule net_seed node_seed s every = Inr r \<and>
      o_applied r + o_skipped r = length (s_faults s) \<and> o_writes r = s_ticks s div every \<and>
      cluster_reach net_seed node_seed c \<and> inspect c = Inr rep \<and>
      o_committed r = committed_count c \<and> o_leaders r = elections c \<and> o_breaches r = length (breaches rep) \<and>
      (sorted_wrt (<) (map f_at (s_faults s)) \<and> lively ({}, False) (s_faults s) \<longrightarrow> o_skipped r = 0))"
    by (rule run_schedule_ok) (use s assms(2,3) in auto)
  then show ?thesis using s(1) by auto
qed

definition two_faults :: "fault list" where
  "two_faults = [\<lparr>f_kind = CRASH, f_at = 2, f_target = ''n0'', f_sides = []\<rparr>,
     \<lparr>f_kind = PARTITION, f_at = 4, f_target = [], f_sides = [[''n1''], [''n0'', ''n2'']]\<rparr>]"

theorem schedule_run_witness:
  "\<exists>s. Schedule 7 20 two_faults 3 None = Inr s \<and>
    (run_schedule (\<lambda>sd i. 0) (\<lambda>sd p i. 0) s 15 = Inl StateMachineSafety \<or>
     (\<exists>r. run_schedule (\<lambda>sd i. 0) (\<lambda>sd p i. 0) s 15 = Inr r \<and> o_applied r + o_skipped r = 2 \<and> o_writes r = 1))"
proof -
  have ms: "map (\<lambda>i. CHR ''n'' # decimal i) [0..<3] = [''n0'', ''n1'', ''n2'']" by code_simp
  obtain s where s: "Schedule 7 20 two_faults 3 None = Inr s"
    by (simp add: Schedule_def two_faults_def)
  have "\<forall>f\<in>set two_faults. 1 \<le> f_at f \<and> placed (map (\<lambda>i. CHR ''n'' # decimal i) [0..<3]) f"
    unfolding ms two_faults_def placed_def by auto
  from schedule_run [OF s _ this, of 15 "\<lambda>sd i. 0" "\<lambda>sd p i. 0"]
  have "run_schedule (\<lambda>sd i. 0) (\<lambda>sd p i. 0) s 15 = Inl StateMachineSafety \<or>
     (\<exists>r. run_schedule (\<lambda>sd i. 0) (\<lambda>sd p i. 0) s 15 = Inr r \<and> o_applied r + o_skipped r = 2 \<and> o_writes r = 1)"
    by (auto simp: two_faults_def)
  with s show ?thesis by blast
qed

text \<open>
  A schedule drawn from a seed for a cluster of at least two nodes and a run with room for its
  faults is well formed, has the faults asked for at ascending ticks, and none of them is inert:
  whenever the run returns, every fault was applied and none was skipped.
\<close>

theorem drawn_schedule_applies:
  assumes "2 \<le> k" "1 \<le> ticks" "faults \<le> ticks - 3"
  shows "\<exists>s. random_schedule schedule_seed sd k ticks faults = Inr s \<and>
    length (s_faults s) = faults \<and> sorted_wrt (<) (map f_at (s_faults s)) \<and>
    (run_schedule net_seed node_seed s 15 = Inl StateMachineSafety \<or>
     (\<exists>r. run_schedule net_seed node_seed s 15 = Inr r \<and> o_applied r = faults \<and> o_skipped r = 0))"
proof -
  have room: "faults \<le> ticks - 1 - 2" using assms(3) by simp
  obtain s where s: "random_schedule schedule_seed sd k ticks faults = Inr s"
    "s_ticks s = ticks" "s_size s = k" "length (s_faults s) = faults"
    "sorted_wrt (<) (map f_at (s_faults s))"
    "\<forall>f\<in>set (s_faults s). 2 \<le> f_at f \<and> f_at f < ticks - 1 \<and>
       placed (map (\<lambda>i. CHR ''n'' # decimal i) [0..<k]) f" "lively ({}, False) (s_faults s)"
    using random_schedule_ok [OF assms(1,2) room, of schedule_seed sd] by blast
  have "run_schedule net_seed node_seed s 15 = Inl StateMachineSafety \<or>
    (\<exists>r c rep. run_schedule net_seed node_seed s 15 = Inr r \<and>
      o_applied r + o_skipped r = length (s_faults s) \<and> o_writes r = s_ticks s div 15 \<and>
      cluster_reach net_seed node_seed c \<and> inspect c = Inr rep \<and>
      o_committed r = committed_count c \<and> o_leaders r = elections c \<and> o_breaches r = length (breaches rep) \<and>
      (sorted_wrt (<) (map f_at (s_faults s)) \<and> lively ({}, False) (s_faults s) \<longrightarrow> o_skipped r = 0))"
  proof (rule run_schedule_ok)
    show "\<forall>f\<in>set (s_faults s). 1 \<le> f_at f \<and> f_at f \<le> s_ticks s \<and>
        placed (map (\<lambda>i. CHR ''n'' # decimal i) [0..<s_size s]) f"
      using s(2,3,6) by fastforce
  qed (use s(3) assms(1) in auto)
  with s show ?thesis by auto
qed

theorem drawn_schedule_applies_witness:
  "\<exists>s. random_schedule (\<lambda>sd i. i * i * i) 5 5 300 6 = Inr s \<and> length (s_faults s) = 6"
  using drawn_schedule_applies [of 5 300 6 "\<lambda>sd i. i * i * i" 5 "\<lambda>sd i. 0" "\<lambda>sd p i. 0"] by auto

end
