(* ===== verification/Expiry.thy ===== *)
theory Expiry
  imports Prelude "HOL-Library.AList" "HOL-Library.List_Lexorder" "HOL-Library.Char_ord"
begin

text \<open>
  \<open>src/rsm/expire.py\<close>: keys with a lifetime, dropped either by each replica's clock or by an entry
  in the log, and the run that compares the two. Clocks are integers, since a skew may be
  negative; counts and tick numbers are natural. A dictionary with string keys is an association
  list in insertion order. The cost, a rounded float, is left as the two counts it divides.
\<close>

section \<open>Dictionaries with string keys\<close>

lemma map_of_delete: "map_of (AList.delete k d) k' = (if k = k' then None else map_of d k')"
  by (simp add: delete_conv')

interpretation str_dict: dictionary "\<lambda>d. map_of d" "\<lambda>d k v. AList.update k v d" "\<lambda>d k. AList.delete k d"
  "[]" "(=)" "\<lambda>d. distinct (map fst d)"
  by unfold_locales (auto simp: update_conv' map_of_delete intro: distinct_update distinct_delete)

section \<open>Leases and stores\<close>

definition LEASE :: int where "LEASE = 30"
definition SWEEP :: nat where "SWEEP = 10"

record lease =
  l_key :: string
  l_value :: pyobj
  granted_at :: int
  l_length :: int

definition Lease :: "string \<Rightarrow> pyobj \<Rightarrow> int \<Rightarrow> int \<Rightarrow> lease result" where
  "Lease k v t len =
     (if k = [] then Inl ConfigError
      else if len < 1 then Inl ConfigError
      else if t < 0 then Inl ConfigError
      else Inr \<lparr>l_key = k, l_value = v, granted_at = t, l_length = len\<rparr>)"

definition expires_at :: "lease \<Rightarrow> int" where
  "expires_at l = granted_at l + l_length l"

definition expired :: "lease \<Rightarrow> int \<Rightarrow> bool" where
  "expired l t \<longleftrightarrow> t \<ge> expires_at l"

record store =
  store_name :: string
  by_clock :: bool
  leases :: "(string \<times> lease) list"
  store_now :: int
  swept :: nat

definition Store :: "string \<Rightarrow> bool \<Rightarrow> store" where
  "Store p b = \<lparr>store_name = p, by_clock = b, leases = [], store_now = 0, swept = 0\<rparr>"

definition grant :: "lease \<Rightarrow> store \<Rightarrow> store" where
  "grant l s = s\<lparr>leases := AList.update (l_key l) l (leases s)\<rparr>"

definition revoke :: "string \<Rightarrow> store \<Rightarrow> bool \<times> store" where
  "revoke k s = (map_of (leases s) k \<noteq> None, s\<lparr>leases := AList.delete k (leases s)\<rparr>)"

definition store_tick :: "int \<Rightarrow> store \<Rightarrow> store" where
  "store_tick t s =
     (let s1 = s\<lparr>store_now := t\<rparr> in
      if \<not> by_clock s then s1
      else fold (\<lambda>k u. u\<lparr>leases := AList.delete k (leases u), swept := swept u + 1\<rparr>)
             (map fst (filter (\<lambda>(k, l). expired l t) (leases s1))) s1)"

definition store_keys :: "store \<Rightarrow> string list" where
  "store_keys s = sort (map fst (leases s))"

record sweep =
  sweep_name :: string
  granted :: nat
  revoked :: nat
  sweep_entries :: nat
  sweep_ticks :: nat
  divergences :: nat
  worst_difference :: nat
  delays :: "int list"

definition Sweep :: "string \<Rightarrow> sweep" where
  "Sweep n = \<lparr>sweep_name = n, granted = 0, revoked = 0, sweep_entries = 0, sweep_ticks = 0,
     divergences = 0, worst_difference = 0, delays = []\<rparr>"

definition sweep_agreed :: "sweep \<Rightarrow> bool" where
  "sweep_agreed m \<longleftrightarrow> divergences m = 0"

definition worst_delay :: "sweep \<Rightarrow> int" where
  "worst_delay m = (if delays m = [] then 0 else Max (set (delays m)))"

section \<open>A run\<close>

type_synonym lease_run = "store list \<times> sweep \<times> (string \<times> lease) list"

definition grant_turn :: "nat \<Rightarrow> nat \<Rightarrow> nat \<Rightarrow> lease_run \<Rightarrow> lease_run result" where
  "grant_turn wanted every t st =
     (let (stores, made, pending) = st in
      if every = 0 then Inl ZeroDivisionError
      else if t mod every = 0 \<and> granted made < wanted
      then let made1 = made\<lparr>granted := granted made + 1, sweep_entries := sweep_entries made + 1\<rparr> in
           rbind (Lease (CHR ''k'' # decimal (granted made1)) (PInt (int (granted made1))) (int t) LEASE) (\<lambda>l.
           Inr (map (grant l) stores, made1, AList.update (l_key l) l pending))
      else Inr st)"

fun revoke_expired :: "nat \<Rightarrow> (string \<times> lease) list \<Rightarrow> lease_run \<Rightarrow> lease_run" where
  "revoke_expired t [] st = st"
| "revoke_expired t ((k, l) # rest) (stores, made, pending) =
     revoke_expired t rest
       (if expired l (int t)
        then (map (\<lambda>s. snd (revoke k s)) stores,
              made\<lparr>sweep_entries := sweep_entries made + 1, revoked := revoked made + 1,
                   delays := delays made @ [int t - expires_at l]\<rparr>,
              AList.delete k pending)
        else (stores, made, pending))"

definition sweep_turn :: "bool \<Rightarrow> nat \<Rightarrow> nat \<Rightarrow> lease_run \<Rightarrow> lease_run result" where
  "sweep_turn clock every_sweep t st =
     (if clock then Inr st
      else if every_sweep = 0 then Inl ZeroDivisionError
      else if t mod every_sweep = 0 then Inr (revoke_expired t (snd (snd st)) st)
      else Inr st)"

fun tick_stores :: "bool \<Rightarrow> int \<Rightarrow> int \<Rightarrow> store list \<Rightarrow> store list" where
  "tick_stores clock skew t [] = []"
| "tick_stores clock skew t (s # ss) =
     store_tick t s # tick_stores clock skew (if clock then t + skew else t) ss"

fun drop_lapsed :: "string list \<Rightarrow> lease_run \<Rightarrow> lease_run" where
  "drop_lapsed [] st = st"
| "drop_lapsed (k # ks) (stores, made, pending) =
     drop_lapsed ks
       (if list_all (\<lambda>s. map_of (leases s) k = None) stores
        then (stores, made\<lparr>revoked := revoked made + 1\<rparr>, AList.delete k pending)
        else (stores, made, pending))"

definition compare_stores :: "store list \<Rightarrow> sweep \<Rightarrow> sweep" where
  "compare_stores stores made =
     (let made1 = (if card (set (map store_keys stores)) > 1
        then (let sizes = map (\<lambda>s. length (leases s)) stores in
              made\<lparr>divergences := divergences made + 1,
                   worst_difference := max (worst_difference made) (Max (set sizes) - Min (set sizes))\<rparr>)
        else made)
      in made1\<lparr>sweep_ticks := sweep_ticks made1 + 1\<rparr>)"

definition lease_turn ::
  "bool \<Rightarrow> nat \<Rightarrow> nat \<Rightarrow> int \<Rightarrow> nat \<Rightarrow> nat \<Rightarrow> lease_run \<Rightarrow> lease_run result" where
  "lease_turn clock wanted every skew every_sweep t st =
     rbind (grant_turn wanted every t st) (\<lambda>st1.
     rbind (sweep_turn clock every_sweep t st1) (\<lambda>(stores, made, pending).
     let stores2 = tick_stores clock skew (int t) stores;
         (stores3, made3, pending3) = (if clock then drop_lapsed (map fst pending) (stores2, made, pending)
                                       else (stores2, made, pending))
     in Inr (stores3, compare_stores stores3 made3, pending3)))"

definition run_leases ::
  "string \<Rightarrow> bool \<Rightarrow> nat \<Rightarrow> nat \<Rightarrow> nat \<Rightarrow> int \<Rightarrow> nat \<Rightarrow> nat \<Rightarrow> sweep result" where
  "run_leases n clock replicas wanted every skew window every_sweep =
     (if replicas < 2 then Inl ConfigError
      else if wanted < 1 then Inl ConfigError
      else rbind (rfold (lease_turn clock wanted every skew every_sweep) [1..<window + 1]
             (map (\<lambda>i. Store (CHR ''r'' # decimal i) clock) [0..<replicas], Sweep n, [])) (\<lambda>(stores, made, pending).
           Inr made))"

section \<open>Expiry through the log\<close>

abbreviation lease_key :: "nat \<Rightarrow> string" where
  "lease_key i \<equiv> CHR ''k'' # decimal i"

text \<open>
  Every replica holds the pending leases and nothing else, \<open>low\<close> being a tick up to which lapsed
  leases have been swept.
\<close>

fun log_inv :: "nat \<Rightarrow> nat \<Rightarrow> int \<Rightarrow> lease_run \<Rightarrow> bool" where
  "log_inv every sw low (stores, made, pending) \<longleftrightarrow>
     (\<forall>s\<in>set stores. \<not> by_clock s \<and> leases s = pending) \<and>
     distinct (map fst pending) \<and> fst ` set pending \<subseteq> lease_key ` {1..granted made} \<and>
     length pending + revoked made = granted made \<and>
     sweep_entries made = granted made + revoked made \<and> divergences made = 0 \<and>
     worst_difference made = 0 \<and> length (delays made) = revoked made \<and>
     (\<forall>d\<in>set (delays made). 0 \<le> d \<and> d < int sw) \<and>
     (\<forall>(k, l)\<in>set pending. low < expires_at l \<and> expires_at l \<le> int (granted made * every) + LEASE)"

lemma update_fresh: "k \<notin> fst ` set d \<Longrightarrow> AList.update k v d = d @ [(k, v)]"
  by (induction d) auto

lemma grant_turn_log:
  assumes inv: "log_inv every sw low st" and "0 < every" "low < int t"
    and g: "granted (fst (snd st)) = min wanted ((t - 1) div every)" and "1 \<le> t"
  shows "\<exists>st'. grant_turn wanted every t st = Inr st' \<and> log_inv every sw low st' \<and>
    granted (fst (snd st')) = min wanted (t div every) \<and> sweep_ticks (fst (snd st')) = sweep_ticks (fst (snd st))"
proof -
  obtain stores made pending where st: "st = (stores, made, pending)" by (cases st)
  have step: "t div every = (if t mod every = 0 then Suc ((t - 1) div every) else (t - 1) div every)"
    using assms(5) div_Suc [of "t - 1" every] by simp
  show ?thesis
  proof (cases "t mod every = 0 \<and> granted made < wanted")
    case True
    let ?g = "granted made + 1"
    let ?l = "\<lparr>l_key = lease_key ?g, l_value = PInt (int ?g), granted_at = int t, l_length = LEASE\<rparr>"
    let ?st = "(map (grant ?l) stores, made\<lparr>granted := ?g, sweep_entries := sweep_entries made + 1\<rparr>,
        pending @ [(lease_key ?g, ?l)])"
    have "?g = t div every" using g True st step by (simp add: min_def split: if_splits)
    then have t: "?g * every = t" using True by (metis dvd_div_mult_self mod_eq_0_iff_dvd)
    then have t': "int t = int every + int (granted made) * int every"
      by (metis Suc_eq_plus1 mult_Suc of_nat_add of_nat_mult)
    have fresh: "lease_key ?g \<notin> fst ` set pending" using inv st by auto
    have upd: "leases (grant ?l s) = pending @ [(lease_key ?g, ?l)]" "\<not> by_clock (grant ?l s)"
      if "s \<in> set stores" for s
      using inv st that update_fresh [OF fresh] by (simp_all add: grant_def)
    have runs: "grant_turn wanted every t st = Inr ?st"
      using True assms(2) st update_fresh [OF fresh] by (simp add: grant_turn_def Lease_def LEASE_def)
    have keeps: "log_inv every sw low ?st"
      using inv fresh upd assms(3) t' unfolding st log_inv.simps
      by (auto simp: expires_at_def LEASE_def distrib_right)
    have "?g = min wanted (t div every)" using \<open>?g = t div every\<close> True by linarith
    then have "granted (fst (snd ?st)) = min wanted (t div every)"
      "sweep_ticks (fst (snd ?st)) = sweep_ticks (fst (snd st))" by (simp_all add: st)
    with runs keeps show ?thesis by blast
  next
    case False
    with assms(2) st have "grant_turn wanted every t st = Inr st" by (auto simp: grant_turn_def)
    moreover have "granted made = min wanted (t div every)" using False g step st by auto
    ultimately show ?thesis using inv st by auto
  qed
qed

lemma delete_fresh: "k \<notin> fst ` set d \<Longrightarrow> AList.delete k d = d"
  by (induction d) auto

lemma delete_length:
  "distinct (map fst d) \<Longrightarrow> (k, l) \<in> set d \<Longrightarrow> Suc (length (AList.delete k d)) = length d"
proof (induction d)
  case (Cons x d)
  then show ?case
  proof (cases "fst x = k")
    case True
    with Cons.prems have "k \<notin> fst ` set d" by auto
    with True show ?thesis by (cases x) (simp add: delete_fresh)
  qed auto
qed simp

lemma delete_subset: "set (AList.delete k d) \<subseteq> set d"
  by (auto simp: AList.delete_eq)

lemma revoke_expired_log:
  assumes "log_inv every sw low (stores, made, pending)" "distinct (map fst items)" "set items \<subseteq> set pending"
    and "int t < low + int sw + 1" "1 \<le> sw"
  shows "\<exists>stores' made' pending'. revoke_expired t items (stores, made, pending) = (stores', made', pending') \<and>
    log_inv every sw low (stores', made', pending') \<and> granted made' = granted made \<and>
    sweep_ticks made' = sweep_ticks made \<and> set pending' \<subseteq> set pending \<and>
    (\<forall>(k, l)\<in>set items. expired l (int t) \<longrightarrow> (k, l) \<notin> set pending')"
  using assms(1-3)
proof (induction items arbitrary: stores made pending)
  case (Cons x items)
  obtain k l where x: "x = (k, l)" by fastforce
  show ?case
  proof (cases "expired l (int t)")
    case True
    let ?st = "(map (\<lambda>s. snd (revoke k s)) stores,
        made\<lparr>sweep_entries := sweep_entries made + 1, revoked := revoked made + 1,
             delays := delays made @ [int t - expires_at l]\<rparr>, AList.delete k pending)"
    have kl: "(k, l) \<in> set pending" using Cons.prems(3) x by simp
    have d: "distinct (map fst pending)" using Cons.prems(1) by simp
    have low: "low < expires_at l" using Cons.prems(1) kl by auto
    have old: "fst ` set pending \<subseteq> lease_key ` {1..granted made}"
      "\<forall>(k, l)\<in>set pending. low < expires_at l \<and> expires_at l \<le> int (granted made * every) + LEASE"
      using Cons.prems(1) by simp_all
    have keys: "fst ` set (AList.delete k pending) \<subseteq> lease_key ` {1..granted made}"
      using image_mono [OF delete_subset] old(1) by (rule subset_trans)
    have bounds: "\<forall>(k, l)\<in>set (AList.delete k pending). low < expires_at l \<and>
        expires_at l \<le> int (granted made * every) + LEASE"
      using old(2) delete_subset [of k pending] by (meson subsetD)
    have delay: "0 \<le> int t - expires_at l" "int t - expires_at l < int sw"
      using True low assms(4) by (simp_all add: expired_def)
    have stores: "\<forall>s\<in>set (map (\<lambda>s. snd (revoke k s)) stores). \<not> by_clock s \<and> leases s = AList.delete k pending"
      using Cons.prems(1) by (simp add: revoke_def)
    have counts: "length (AList.delete k pending) + (revoked made + 1) = granted made"
      "sweep_entries made + 1 = granted made + (revoked made + 1)" "divergences made = 0"
      "worst_difference made = 0" "length (delays made) = revoked made"
      "\<forall>d\<in>set (delays made). 0 \<le> d \<and> d < int sw"
      using Cons.prems(1) delete_length [OF d kl] by simp_all
    have inv: "log_inv every sw low ?st"
      unfolding log_inv.simps
      using stores keys bounds delay counts distinct_delete [OF d, of k]
      by (intro conjI) simp_all
    have gone: "k \<notin> fst ` set (AList.delete k pending)" by (auto simp: AList.delete_eq)
    have sub: "set items \<subseteq> set (AList.delete k pending)"
    proof
      fix y assume y: "y \<in> set items"
      then have "fst y \<noteq> k" using Cons.prems(2) x by auto
      with y Cons.prems(3) show "y \<in> set (AList.delete k pending)"
        by (cases y) (auto simp: AList.delete_eq)
    qed
    have "distinct (map fst items)" using Cons.prems(2) by simp
    from Cons.IH [OF inv this sub] obtain stores' made' pending' where
      r: "revoke_expired t items ?st = (stores', made', pending')"
      "log_inv every sw low (stores', made', pending')" "granted made' = granted made"
      "sweep_ticks made' = sweep_ticks made" "set pending' \<subseteq> set (AList.delete k pending)"
      "\<forall>(k, l)\<in>set items. expired l (int t) \<longrightarrow> (k, l) \<notin> set pending'" by auto
    have "(k, l) \<notin> set pending'" using r(5) gone by force
    with r x True delete_subset [of k pending] show ?thesis
      by (intro exI [of _ stores'] exI [of _ made'] exI [of _ pending']) auto
  next
    case False
    with Cons x show ?thesis by auto
  qed
qed simp

lemma sweep_turn_log:
  assumes inv: "log_inv every sw (int ((t - 1) div sw * sw)) st" and "0 < sw" "1 \<le> t"
  shows "\<exists>st'. sweep_turn False sw t st = Inr st' \<and> log_inv every sw (int (t div sw * sw)) st' \<and>
    granted (fst (snd st')) = granted (fst (snd st)) \<and> sweep_ticks (fst (snd st')) = sweep_ticks (fst (snd st))"
proof -
  obtain stores made pending where st: "st = (stores, made, pending)" by (cases st)
  have step: "t div sw = (if t mod sw = 0 then Suc ((t - 1) div sw) else (t - 1) div sw)"
    using assms(3) div_Suc [of "t - 1" sw] by simp
  show ?thesis
  proof (cases "t mod sw = 0")
    case True
    then have "t div sw * sw = t" by (simp add: mod_eq_0_iff_dvd)
    moreover from this have "t = (t - 1) div sw * sw + sw"
      using step True by (metis add.commute mult_Suc)
    ultimately have t: "t div sw * sw = t" "int t < int ((t - 1) div sw * sw) + int sw + 1"
      by linarith+
    have "distinct (map fst pending)" using inv st by simp
    from revoke_expired_log [OF inv [unfolded st] this subset_refl, of t] assms(2) t(2) obtain stores' made' pending' where r: "revoke_expired t pending st = (stores', made', pending')"
      "log_inv every sw (int ((t - 1) div sw * sw)) (stores', made', pending')" "granted made' = granted made"
      "sweep_ticks made' = sweep_ticks made" "set pending' \<subseteq> set pending"
      "\<forall>(k, l)\<in>set pending. expired l (int t) \<longrightarrow> (k, l) \<notin> set pending'"
      unfolding st by auto
    have "int t < expires_at l" if "(k, l) \<in> set pending'" for k l
      using r(5,6) that by (force simp: expired_def)
    then have "log_inv every sw (int t) (stores', made', pending')" using r(2) by auto
    with r st True assms(2) t(1) show ?thesis by (simp add: sweep_turn_def)
  next
    case False
    with assms(2) step inv show ?thesis by (simp add: sweep_turn_def)
  qed
qed

lemma tick_stores_log:
  "\<forall>s\<in>set ss. \<not> by_clock s \<and> leases s = d \<Longrightarrow>
   \<forall>s\<in>set (tick_stores False skew t ss). \<not> by_clock s \<and> leases s = d"
  by (induction ss) (auto simp: store_tick_def)

lemma compare_same:
  assumes "\<forall>s\<in>set ss. leases s = d"
  shows "compare_stores ss made = made\<lparr>sweep_ticks := sweep_ticks made + 1\<rparr>"
proof -
  have "set (map store_keys ss) \<subseteq> {sort (map fst d)}" using assms by (auto simp: store_keys_def)
  then have "card (set (map store_keys ss)) \<le> 1" by (metis card_mono card.insert_remove finite.intros card.empty One_nat_def Diff_empty finite_insert is_singletonI is_singleton_altdef)
  then show ?thesis by (simp add: compare_stores_def Let_def)
qed

lemma lease_turn_log:
  assumes "log_inv every sw (int ((t - 1) div sw * sw)) st" "0 < every" "0 < sw" "1 \<le> t"
    and "granted (fst (snd st)) = min wanted ((t - 1) div every)" "sweep_ticks (fst (snd st)) = t - 1"
  shows "\<exists>st'. lease_turn False wanted every skew sw t st = Inr st' \<and>
    log_inv every sw (int (t div sw * sw)) st' \<and> granted (fst (snd st')) = min wanted (t div every) \<and>
    sweep_ticks (fst (snd st')) = t"
proof -
  have "(t - 1) div sw * sw < t" using assms(4) div_times_less_eq_dividend [of "t - 1" sw] by linarith
  then have low: "int ((t - 1) div sw * sw) < int t" by (simp only: of_nat_less_iff)
  from grant_turn_log [OF assms(1,2) low assms(5,4)] obtain st1 where st1:
    "grant_turn wanted every t st = Inr st1" "log_inv every sw (int ((t - 1) div sw * sw)) st1"
    "granted (fst (snd st1)) = min wanted (t div every)" "sweep_ticks (fst (snd st1)) = t - 1"
    using assms(6) by auto
  from sweep_turn_log [OF st1(2) assms(3,4)] obtain stores made pending where st2:
    "sweep_turn False sw t st1 = Inr (stores, made, pending)"
    "log_inv every sw (int (t div sw * sw)) (stores, made, pending)"
    "granted made = min wanted (t div every)" "sweep_ticks made = t - 1"
    using st1(3,4) by (metis fst_conv snd_conv prod_cases3)
  let ?stores = "tick_stores False skew (int t) stores"
  have same: "\<forall>s\<in>set ?stores. \<not> by_clock s \<and> leases s = pending"
    by (rule tick_stores_log) (use st2(2) in simp)
  then have "compare_stores ?stores made = made\<lparr>sweep_ticks := sweep_ticks made + 1\<rparr>"
    by (intro compare_same) blast
  then have run: "lease_turn False wanted every skew sw t st =
      Inr (?stores, made\<lparr>sweep_ticks := sweep_ticks made + 1\<rparr>, pending)"
    by (simp add: lease_turn_def st1(1) st2(1) Let_def)
  have "log_inv every sw (int (t div sw * sw)) (?stores, made\<lparr>sweep_ticks := sweep_ticks made + 1\<rparr>, pending)"
    using st2(2) same by simp
  then show ?thesis
    unfolding run using st2(3,4) assms(4) by (simp del: log_inv.simps)
qed

lemma lease_turns_log:
  assumes "0 < every" "0 < sw"
  shows "\<exists>st. rfold (lease_turn False wanted every skew sw) [1..<t + 1]
      (map (\<lambda>i. Store (CHR ''r'' # decimal i) False) [0..<replicas], Sweep n, []) = Inr st \<and>
    log_inv every sw (int (t div sw * sw)) st \<and> granted (fst (snd st)) = min wanted (t div every) \<and>
    sweep_ticks (fst (snd st)) = t"
proof (induction t)
  case 0
  then show ?case by (auto simp: Store_def Sweep_def)
next
  case (Suc t)
  then obtain st where st: "rfold (lease_turn False wanted every skew sw) [1..<t + 1]
      (map (\<lambda>i. Store (CHR ''r'' # decimal i) False) [0..<replicas], Sweep n, []) = Inr st"
    "log_inv every sw (int (t div sw * sw)) st" "granted (fst (snd st)) = min wanted (t div every)"
    "sweep_ticks (fst (snd st)) = t" by blast
  have "\<exists>st'. lease_turn False wanted every skew sw (Suc t) st = Inr st' \<and>
    log_inv every sw (int (Suc t div sw * sw)) st' \<and> granted (fst (snd st')) = min wanted (Suc t div every) \<and>
    sweep_ticks (fst (snd st')) = Suc t"
    by (rule lease_turn_log) (use st assms in \<open>simp_all del: log_inv.simps of_nat_mult\<close>)
  then obtain st' where st': "lease_turn False wanted every skew sw (Suc t) st = Inr st'"
    "log_inv every sw (int (Suc t div sw * sw)) st'" "granted (fst (snd st')) = min wanted (Suc t div every)"
    "sweep_ticks (fst (snd st')) = Suc t" by blast
  have "[1..<Suc t + 1] = [1..<t + 1] @ [Suc t]" by simp
  then have "rfold (lease_turn False wanted every skew sw) [1..<Suc t + 1]
      (map (\<lambda>i. Store (CHR ''r'' # decimal i) False) [0..<replicas], Sweep n, []) = Inr st'"
    by (simp only: rfold_append st(1) rbind.simps rfold.simps st'(1))
  with st' show ?case by blast
qed

text \<open>
  C18. Expiry through the log: for any number of replicas, any interval and any sweep, the run
  returns, the replicas hold the same keys at every tick, a lease costs one entry to grant and one
  to revoke, no key outlives its lease by a whole sweep, and a window long enough for the last
  lease and one sweep after it sees every lease revoked.
\<close>

theorem log_expiry_agrees:
  assumes "2 \<le> replicas" "1 \<le> wanted" "0 < every" "0 < sw"
  shows "\<exists>m. run_leases n False replicas wanted every skew window sw = Inr m \<and>
    sweep_agreed m \<and> worst_difference m = 0 \<and> sweep_ticks m = window \<and>
    granted m = min wanted (window div every) \<and> revoked m \<le> granted m \<and>
    sweep_entries m = granted m + revoked m \<and> length (delays m) = revoked m \<and>
    (\<forall>d\<in>set (delays m). 0 \<le> d \<and> d < int sw) \<and>
    (wanted * every + nat LEASE + sw \<le> window \<longrightarrow> revoked m = wanted)"
proof -
  obtain st where st: "rfold (lease_turn False wanted every skew sw) [1..<window + 1]
      (map (\<lambda>i. Store (CHR ''r'' # decimal i) False) [0..<replicas], Sweep n, []) = Inr st"
    "log_inv every sw (int (window div sw * sw)) st" "granted (fst (snd st)) = min wanted (window div every)"
    "sweep_ticks (fst (snd st)) = window"
    using lease_turns_log [OF assms(3,4)] by blast
  obtain stores made pending where "st = (stores, made, pending)" by (cases st)
  with st have run: "rfold (lease_turn False wanted every skew sw) [1..<window + 1]
      (map (\<lambda>i. Store (CHR ''r'' # decimal i) False) [0..<replicas], Sweep n, []) = Inr (stores, made, pending)"
    and inv: "log_inv every sw (int (window div sw * sw)) (stores, made, pending)"
    and g: "granted made = min wanted (window div every)" "sweep_ticks made = window"
    by (simp_all del: log_inv.simps)
  have "revoked made = wanted" if long: "wanted * every + nat LEASE + sw \<le> window"
  proof -
    have "wanted * every \<le> window" using long by linarith
    then have "wanted \<le> window div every" using assms(3) by (simp add: less_eq_div_iff_mult_less_eq)
    then have all: "granted made = wanted" using g by simp
    have "window < window div sw * sw + sw"
      using div_mult_mod_eq [of window sw] mod_less_divisor [OF assms(4), of window] by linarith
    moreover have "wanted * every + 30 + sw \<le> window" using long by (simp add: LEASE_def)
    ultimately have "wanted * every + 30 \<le> window div sw * sw" by linarith
    then have "int (wanted * every + 30) \<le> int (window div sw * sw)" by (simp only: of_nat_le_iff)
    then have late: "int (wanted * every) + LEASE \<le> int (window div sw * sw)"
      by (simp only: of_nat_add of_nat_numeral LEASE_def)
    have "pending = []"
    proof (rule ccontr)
      assume "pending \<noteq> []"
      then obtain k l where "(k, l) \<in> set pending" by (cases pending) auto
      with inv have "int (window div sw * sw) < expires_at l \<and> expires_at l \<le> int (granted made * every) + LEASE"
        by (simp only: log_inv.simps) blast
      with late show False unfolding all by linarith
    qed
    with inv all show ?thesis by simp
  qed
  moreover have "run_leases n False replicas wanted every skew window sw = Inr made"
    unfolding run_leases_def run using assms(1,2) by simp
  ultimately show ?thesis using inv g by (auto simp: sweep_agreed_def)
qed

theorem log_expiry_agrees_witness:
  "\<exists>m. run_leases ''log'' False 3 12 12 4 300 10 = Inr m \<and> sweep_agreed m \<and> revoked m = 12 \<and>
     sweep_entries m = 24"
  using log_expiry_agrees [of 3 12 12 10 "''log''" 4 300] by (auto simp: LEASE_def)

section \<open>Expiry by each replica's clock\<close>

lemma store_tick_leases:
  "leases (store_tick t s) = (if by_clock s
     then fold AList.delete (map fst (filter (\<lambda>(k, l). expired l t) (leases s))) (leases s) else leases s)"
proof -
  have "leases (fold (\<lambda>k u. u\<lparr>leases := AList.delete k (leases u), swept := swept u + 1\<rparr>) ks u) =
      fold AList.delete ks (leases u)" for ks and u :: store
    by (induction ks arbitrary: u) simp_all
  then show ?thesis by (simp add: store_tick_def Let_def)
qed

lemma store_tick_clock: "by_clock (store_tick t s) = by_clock s"
proof -
  have "by_clock (fold (\<lambda>k u. u\<lparr>leases := AList.delete k (leases u), swept := swept u + 1\<rparr>) ks u) = by_clock u"
    for ks and u :: store by (induction ks arbitrary: u) simp_all
  then show ?thesis by (simp add: store_tick_def Let_def)
qed

text \<open>With clocks that agree, every replica holds the same leases.\<close>

fun clock_inv :: "lease_run \<Rightarrow> bool" where
  "clock_inv (stores, made, pending) \<longleftrightarrow>
     (\<exists>d. \<forall>s\<in>set stores. by_clock s \<and> leases s = d) \<and> divergences made = 0"

lemma tick_stores_clock:
  assumes "\<forall>s\<in>set ss. by_clock s \<and> leases s = d"
  shows "\<exists>d'. \<forall>s\<in>set (tick_stores True 0 t ss). by_clock s \<and> leases s = d'"
proof -
  have "tick_stores True 0 t us = map (store_tick t) us" for us by (induction us) auto
  with assms show ?thesis by (auto simp: store_tick_leases store_tick_clock)
qed

lemma drop_lapsed_keeps:
  "fst (drop_lapsed ks (stores, made, pending)) = stores \<and>
   divergences (fst (snd (drop_lapsed ks (stores, made, pending)))) = divergences made"
  by (induction ks arbitrary: made pending) auto

lemma lease_turn_clock:
  assumes "clock_inv st" "0 < every"
  shows "\<exists>st'. lease_turn True wanted every 0 sw t st = Inr st' \<and> clock_inv st'"
proof -
  obtain stores made pending where st: "st = (stores, made, pending)" by (cases st)
  obtain stores1 made1 pending1 where st1: "grant_turn wanted every t st = Inr (stores1, made1, pending1)"
    "clock_inv (stores1, made1, pending1)"
  proof (cases "t mod every = 0 \<and> granted made < wanted")
    case True
    let ?l = "\<lparr>l_key = lease_key (granted made + 1), l_value = PInt (int (granted made + 1)),
      granted_at = int t, l_length = LEASE\<rparr>"
    have "grant_turn wanted every t st = Inr (map (grant ?l) stores,
        made\<lparr>granted := granted made + 1, sweep_entries := sweep_entries made + 1\<rparr>,
        AList.update (l_key ?l) ?l pending)"
      using True assms(2) st by (simp add: grant_turn_def Lease_def LEASE_def)
    moreover from assms(1) st have "clock_inv (map (grant ?l) stores,
        made\<lparr>granted := granted made + 1, sweep_entries := sweep_entries made + 1\<rparr>,
        AList.update (l_key ?l) ?l pending)"
      by (auto simp: grant_def)
    ultimately show thesis by (rule that)
  next
    case False
    with assms st have "grant_turn wanted every t st = Inr (stores, made, pending)"
      by (auto simp: grant_turn_def)
    with assms(1) st show thesis by (intro that) simp_all
  qed
  obtain d where d: "\<forall>s\<in>set (tick_stores True 0 (int t) stores1). by_clock s \<and> leases s = d"
    using tick_stores_clock st1(2) by (metis clock_inv.simps)
  obtain made2 pending2 where drop: "drop_lapsed (map fst pending1)
      (tick_stores True 0 (int t) stores1, made1, pending1) = (tick_stores True 0 (int t) stores1, made2, pending2)"
    "divergences made2 = divergences made1"
    using drop_lapsed_keeps [of "map fst pending1" "tick_stores True 0 (int t) stores1" made1 pending1]
    by (metis fst_conv snd_conv prod_cases3)
  have "compare_stores (tick_stores True 0 (int t) stores1) made2 =
      made2\<lparr>sweep_ticks := sweep_ticks made2 + 1\<rparr>"
    using d by (intro compare_same) blast
  with d drop st1 show ?thesis by (auto simp: lease_turn_def sweep_turn_def Let_def)
qed

text \<open>
  Expiry by clocks: replicas whose clocks agree hold the same keys at every tick; with
  the shipped interval, lease and skew of four ticks, two leases make three replicas hold different
  keys on sixteen ticks of sixty.
\<close>

theorem clock_expiry_drifts:
  assumes "2 \<le> replicas" "1 \<le> wanted" "0 < every"
  shows "(\<exists>m. run_leases n True replicas wanted every 0 window sw = Inr m \<and> sweep_agreed m) \<and>
    (\<exists>m. run_leases ''clock'' True 3 2 12 4 60 10 = Inr m \<and> divergences m = 16 \<and> sweep_ticks m = 60)"
proof
  have "\<exists>st. rfold (lease_turn True wanted every 0 sw) [1..<window + 1]
      (map (\<lambda>i. Store (CHR ''r'' # decimal i) True) [0..<replicas], Sweep n, []) = Inr st \<and> clock_inv st"
  proof (rule rfold_total)
    show "clock_inv (map (\<lambda>i. Store (CHR ''r'' # decimal i) True) [0..<replicas], Sweep n, [])"
      by (auto simp: Store_def Sweep_def)
  qed (rule lease_turn_clock [OF _ assms(3)])
  then obtain stores made pending where
    "rfold (lease_turn True wanted every 0 sw) [1..<window + 1]
      (map (\<lambda>i. Store (CHR ''r'' # decimal i) True) [0..<replicas], Sweep n, []) = Inr (stores, made, pending)"
    "divergences made = 0" by auto
  with assms(1,2) show "\<exists>m. run_leases n True replicas wanted every 0 window sw = Inr m \<and> sweep_agreed m"
    unfolding run_leases_def sweep_agreed_def by simp
  have "case run_leases ''clock'' True 3 2 12 4 60 10 of
      Inr m \<Rightarrow> divergences m = 16 \<and> sweep_ticks m = 60 | Inl e \<Rightarrow> False" by code_simp
  then show "\<exists>m. run_leases ''clock'' True 3 2 12 4 60 10 = Inr m \<and> divergences m = 16 \<and> sweep_ticks m = 60"
    by (auto split: sum.splits)
qed

theorem clock_expiry_drifts_witness:
  "\<exists>m. run_leases ''clock'' True 3 12 12 0 300 10 = Inr m \<and> sweep_agreed m"
  using clock_expiry_drifts [of 3 12 12 "''clock''" 300 10] by simp

end
