(* ===== verification/Sharding.thy ===== *)
theory Sharding
  imports Cluster_Runs
begin

text \<open>
  \<open>src/rsm/keyspace.py\<close> and \<open>src/rsm/rebalance.py\<close>: the keys split over independent clusters, and a
  range of them moved from one group to another in phases, against a run of writes.

  \<open>digest\<close> stands for the number \<open>hashlib.blake2b\<close> gives a key, which nothing here relies on but its
  being a function of the key. A federation's dictionary of clusters has the groups as its keys, in
  order, so it is a list. The rounded ratios are left as the counts they divide.
\<close>

section \<open>The keyspace\<close>

definition SETTLE_TICKS :: nat where "SETTLE_TICKS = 400"

record keyspace =
  groups :: nat

definition Keyspace :: "nat \<Rightarrow> keyspace result" where
  "Keyspace k = (if k < 1 then Inl ConfigError else Inr \<lparr>groups = k\<rparr>)"

definition group_of :: "(string \<Rightarrow> nat) \<Rightarrow> keyspace \<Rightarrow> string \<Rightarrow> nat result" where
  "group_of digest ks key = (if key = [] then Inl ConfigError else Inr (digest key mod groups ks))"

definition spread :: "(string \<Rightarrow> nat) \<Rightarrow> keyspace \<Rightarrow> string list \<Rightarrow> nat list result" where
  "spread digest ks keys =
     rfold (\<lambda>key out. rbind (group_of digest ks key) (\<lambda>g. Inr (out[g := out ! g + 1])))
       keys (replicate (groups ks) 0)"

section \<open>Federations\<close>

record federation =
  keyspace :: keyspace
  fed_size :: nat
  fed_seed :: int
  clusters :: "cluster list"

definition Federation ::
  "(int \<Rightarrow> draws) \<Rightarrow> (int \<Rightarrow> name \<Rightarrow> draws) \<Rightarrow> keyspace \<Rightarrow> nat \<Rightarrow> int \<Rightarrow> federation result" where
  "Federation net_seed node_seed ks k sd =
     (if k < 1 then Inl ConfigError
      else rbind (rmap (\<lambda>i. rbind (Cluster net_seed node_seed k (sd + int i) None True False)
                              (settle SETTLE_TICKS)) [0..<groups ks]) (\<lambda>cs.
           Inr \<lparr>keyspace = ks, fed_size = k, fed_seed = sd, clusters = cs\<rparr>))"

definition fed_propose :: "federation \<Rightarrow> nat \<Rightarrow> pyobj \<Rightarrow> (nat \<times> federation) result" where
  "fed_propose fed g v =
     rbind (cluster_propose (clusters fed ! g) v) (\<lambda>(i, c).
     Inr (i, fed\<lparr>clusters := (clusters fed)[g := c]\<rparr>))"

definition fed_write :: "(string \<Rightarrow> nat) \<Rightarrow> federation \<Rightarrow> string \<Rightarrow> pyobj \<Rightarrow> (nat \<times> federation) result" where
  "fed_write digest fed key v =
     rbind (group_of digest (keyspace fed) key) (\<lambda>g.
     fed_propose fed g (PTuple [PStr ''set'', PStr key, v]))"

definition fed_tick1 :: "federation \<Rightarrow> federation result" where
  "fed_tick1 fed = rbind (rmap cluster_tick (clusters fed)) (\<lambda>cs. Inr (fed\<lparr>clusters := cs\<rparr>))"

fun fed_tick :: "nat \<Rightarrow> federation \<Rightarrow> federation result" where
  "fed_tick 0 fed = Inr fed"
| "fed_tick (Suc k) fed = rbind (fed_tick1 fed) (fed_tick k)"

definition fed_committed :: "federation \<Rightarrow> nat" where
  "fed_committed fed = sum_list (map (\<lambda>c. length (committed c)) (clusters fed))"

definition fed_messages :: "federation \<Rightarrow> nat" where
  "fed_messages fed = sum_list (map (\<lambda>c. n_sent (counts (net c))) (clusters fed))"

definition fed_leaders :: "federation \<Rightarrow> (nat \<times> name) list" where
  "fed_leaders fed = concat (map (\<lambda>(g, c). case cluster_leader c of None \<Rightarrow> [] | Some n \<Rightarrow> [(g, name n)])
     (zip [0..<length (clusters fed)] (clusters fed)))"

section \<open>Moves\<close>

definition STEADY :: string where "STEADY = ''steady''"
definition FROZEN :: string where "FROZEN = ''frozen''"
definition COPYING :: string where "COPYING = ''copying''"
definition HANDED :: string where "HANDED = ''handed''"

definition PHASES :: "string list" where "PHASES = [STEADY, FROZEN, COPYING, HANDED]"

lemmas phase_names = STEADY_def FROZEN_def COPYING_def HANDED_def PHASES_def

definition RANGE :: nat where "RANGE = 40"
definition COPY_BYTES :: nat where "COPY_BYTES = 24"

record move =
  m_keys :: "string list"
  m_source :: nat
  m_destination :: nat
  phase :: string
  frozen_at :: nat
  handed_at :: nat

definition Move :: "string list \<Rightarrow> nat \<Rightarrow> nat \<Rightarrow> string \<Rightarrow> move result" where
  "Move keys src dst ph =
     (if keys = [] then Inl ConfigError
      else if src = dst then Inl ConfigError
      else if ph \<notin> set PHASES then Inl ConfigError
      else Inr \<lparr>m_keys = keys, m_source = src, m_destination = dst, phase = ph, frozen_at = 0, handed_at = 0\<rparr>)"

definition owner :: "move \<Rightarrow> nat" where
  "owner m = (if phase m = HANDED then m_destination m else m_source m)"

definition serving :: "move \<Rightarrow> bool" where
  "serving m \<longleftrightarrow> phase m \<in> {STEADY, HANDED}"

definition move_nbytes :: "move \<Rightarrow> nat" where
  "move_nbytes m = length (m_keys m) * COPY_BYTES"

fun index_of :: "'a list \<Rightarrow> 'a \<Rightarrow> nat result" where
  "index_of [] x = Inl ValueError"
| "index_of (y # ys) x = (if y = x then Inr 0 else rbind (index_of ys x) (\<lambda>i. Inr (i + 1)))"

definition move_advance :: "move \<Rightarrow> nat \<Rightarrow> move result" where
  "move_advance m t =
     rbind (index_of PHASES (phase m)) (\<lambda>at.
       if at + 1 \<ge> length PHASES then Inl ConfigError
       else let m1 = m\<lparr>phase := PHASES ! (at + 1)\<rparr>;
                m2 = (if phase m1 = FROZEN then m1\<lparr>frozen_at := t\<rparr> else m1)
            in Inr (if phase m2 = HANDED then m2\<lparr>handed_at := t\<rparr> else m2))"

definition unavailable_for :: "move \<Rightarrow> nat" where
  "unavailable_for m = (if handed_at m = 0 then 0 else handed_at m - frozen_at m)"

definition owners :: "move \<Rightarrow> bool \<Rightarrow> nat list" where
  "owners m unsafe =
     (if unsafe \<and> phase m \<in> {FROZEN, COPYING}
      then (if phase m = COPYING then [m_source m, m_destination m] else [m_source m])
      else if serving m then [owner m] else [])"

section \<open>A run of writes against a move\<close>

record attempt =
  a_name :: string
  attempted :: nat
  served :: nat
  refused :: nat
  a_owners :: "nat list"
  two_owners :: nat

definition attempt_safe :: "attempt \<Rightarrow> bool" where
  "attempt_safe a \<longleftrightarrow> two_owners a = 0"

text \<open>Keys \<open>k0\<close>, \<open>k1\<close>, ... that live in one group, until there are enough or too many were tried.\<close>

fun range_keys :: "(string \<Rightarrow> nat) \<Rightarrow> keyspace \<Rightarrow> nat \<Rightarrow> nat \<Rightarrow> nat \<Rightarrow> nat \<Rightarrow> string list result" where
  "range_keys digest ks src wanted 0 one = Inr []"
| "range_keys digest ks src wanted (Suc tries) one =
     (if wanted = 0 then Inr []
      else let key = CHR ''k'' # decimal one in
           rbind (group_of digest ks key) (\<lambda>g.
             if g = src
             then rbind (range_keys digest ks src (wanted - 1) tries (one + 1)) (\<lambda>out. Inr (key # out))
             else range_keys digest ks src wanted tries (one + 1)))"

definition move_range :: "(string \<Rightarrow> nat) \<Rightarrow> keyspace \<Rightarrow> nat \<Rightarrow> nat \<Rightarrow> string list result" where
  "move_range digest ks src wanted =
     rbind (range_keys digest ks src wanted (wanted * 100) 0) (\<lambda>out.
       if out = [] then Inl ConfigError else Inr out)"

definition advance_if :: "bool \<Rightarrow> nat \<Rightarrow> move \<Rightarrow> move result" where
  "advance_if b t m = (if b then move_advance m t else Inr m)"

definition write_turn :: "string \<Rightarrow> nat \<Rightarrow> bool \<Rightarrow> federation \<times> move \<times> attempt \<Rightarrow> (federation \<times> attempt) result" where
  "write_turn key t unsafe st =
     (let (fed, m, out) = st;
          os = owners m unsafe;
          out1 = out\<lparr>attempted := attempted out + 1, a_owners := a_owners out @ [length os]\<rparr>;
          out2 = (if length os > 1 then out1\<lparr>two_owners := two_owners out1 + 1\<rparr> else out1)
      in if os = [] then Inr (fed, out2\<lparr>refused := refused out2 + 1\<rparr>)
         else case fed_propose fed (hd os) (PTuple [PStr ''set'', PStr key, PInt (int t)]) of
                Inr (i, fed') \<Rightarrow> Inr (fed', out2\<lparr>served := served out2 + 1\<rparr>)
              | Inl NoLeader \<Rightarrow> Inr (fed, out2)
              | Inl e \<Rightarrow> Inl e)"

definition move_turn ::
  "string \<Rightarrow> nat \<Rightarrow> nat \<Rightarrow> bool \<Rightarrow> nat \<Rightarrow> federation \<times> move \<times> attempt \<Rightarrow> (federation \<times> move \<times> attempt) result" where
  "move_turn key copy_ticks every unsafe t st =
     (let (fed, m, out) = st in
      rbind (advance_if (t = every * 2) t m) (\<lambda>m1.
      rbind (advance_if (t = every * 3) t m1) (\<lambda>m2.
      rbind (advance_if (t = every * 3 + copy_ticks) t m2) (\<lambda>m3.
      rbind (if t mod every = 0 then write_turn key t unsafe (fed, m3, out) else Inr (fed, out)) (\<lambda>(fed1, out1).
      rbind (fed_tick1 fed1) (\<lambda>fed2. Inr (fed2, m3, out1)))))))"

definition run_move ::
  "(string \<Rightarrow> nat) \<Rightarrow> (int \<Rightarrow> draws) \<Rightarrow> (int \<Rightarrow> name \<Rightarrow> draws) \<Rightarrow>
   string \<Rightarrow> nat \<Rightarrow> nat \<Rightarrow> nat \<Rightarrow> bool \<Rightarrow> (attempt \<times> move) result" where
  "run_move digest net_seed node_seed n copy_ticks writes every unsafe =
     (if writes < 1 then Inl ConfigError
      else rbind (Keyspace 4) (\<lambda>space.
      rbind (Federation net_seed node_seed space 3 1) (\<lambda>fed.
      rbind (move_range digest space 0 RANGE) (\<lambda>keys.
      rbind (Move keys 0 1 STEADY) (\<lambda>m.
      rbind (rfold (move_turn (hd keys) copy_ticks every unsafe) [1..<writes * every + 1]
             (fed, m, \<lparr>a_name = n, attempted = 0, served = 0, refused = 0, a_owners = [], two_owners = 0\<rparr>))
        (\<lambda>(fed', m', out). Inr (out, m')))))))"

section \<open>What the keyspace promises\<close>

lemma spread_counts:
  assumes "[] \<notin> set keys" "1 \<le> groups ks"
  shows "\<exists>ns. spread digest ks keys = Inr ns \<and> length ns = groups ks \<and>
    (\<forall>g<groups ks. ns ! g = length (filter (\<lambda>k. digest k mod groups ks = g) keys))"
proof -
  have "\<exists>ns. rfold (\<lambda>key out. rbind (group_of digest ks key) (\<lambda>g. Inr (out[g := out ! g + 1]))) keys start = Inr ns \<and>
      length ns = groups ks \<and>
      (\<forall>g<groups ks. ns ! g = start ! g + length (filter (\<lambda>k. digest k mod groups ks = g) keys))"
    if "length start = groups ks" for start
    using that assms(1)
  proof (induction keys arbitrary: start)
    case (Cons key keys)
    let ?g = "digest key mod groups ks"
    have g: "?g < groups ks" using assms(2) by (intro mod_less_divisor) simp
    obtain ns where "rfold (\<lambda>key out. rbind (group_of digest ks key) (\<lambda>g. Inr (out[g := out ! g + 1])))
        keys (start[?g := start ! ?g + 1]) = Inr ns" "length ns = groups ks"
      "\<forall>g<groups ks. ns ! g = start[?g := start ! ?g + 1] ! g +
         length (filter (\<lambda>k. digest k mod groups ks = g) keys)"
      using Cons.IH [of "start[?g := start ! ?g + 1]"] Cons.prems by auto
    with Cons.prems g show ?case by (auto simp: group_of_def nth_list_update)
  qed simp
  from this [of "replicate (groups ks) 0"] show ?thesis by (auto simp: spread_def)
qed

lemma rmap_either:
  "(\<And>x. x \<in> set xs \<Longrightarrow> f x = Inl e \<or> (\<exists>y. f x = Inr y \<and> P y)) \<Longrightarrow>
   rmap f xs = Inl e \<or> (\<exists>ys. rmap f xs = Inr ys \<and> (\<forall>y\<in>set ys. P y))"
proof (induction xs)
  case (Cons x xs)
  from Cons.prems [of x] have "f x = Inl e \<or> (\<exists>y. f x = Inr y \<and> P y)" by simp
  moreover from Cons have "rmap f xs = Inl e \<or> (\<exists>ys. rmap f xs = Inr ys \<and> (\<forall>y\<in>set ys. P y))" by simp
  ultimately show ?case by auto
qed simp

definition fed_ok :: "(int \<Rightarrow> draws) \<Rightarrow> (int \<Rightarrow> name \<Rightarrow> draws) \<Rightarrow> federation \<Rightarrow> bool" where
  "fed_ok net_seed node_seed fed \<longleftrightarrow>
     length (clusters fed) = groups (keyspace fed) \<and>
     (\<forall>c\<in>set (clusters fed). cluster_reach net_seed node_seed c)"

lemma Federation_ok:
  assumes "1 \<le> k"
  shows "Federation net_seed node_seed ks k sd = Inl StateMachineSafety \<or>
    (\<exists>fed. Federation net_seed node_seed ks k sd = Inr fed \<and> fed_ok net_seed node_seed fed \<and> keyspace fed = ks)"
proof -
  let ?make = "\<lambda>i. rbind (Cluster net_seed node_seed k (sd + int i) None True False) (settle SETTLE_TICKS)"
  have "?make i = Inl StateMachineSafety \<or> (\<exists>c. ?make i = Inr c \<and> cluster_reach net_seed node_seed c)" for i
  proof -
    obtain c where "Cluster net_seed node_seed k (sd + int i) None True False = Inr c"
      using Cluster_total [OF assms] by blast
    with settle_reach [OF cluster_reach.made [OF this], of SETTLE_TICKS] show ?thesis by auto
  qed
  then have "rmap ?make [0..<groups ks] = Inl StateMachineSafety \<or>
      (\<exists>cs. rmap ?make [0..<groups ks] = Inr cs \<and> (\<forall>c\<in>set cs. cluster_reach net_seed node_seed c))"
    by (intro rmap_either) blast
  moreover have "rmap ?make [0..<groups ks] = Inr cs \<Longrightarrow> length cs = groups ks" for cs
    by (drule rmap_length) simp
  ultimately show ?thesis using assms by (auto simp: Federation_def fed_ok_def)
qed

lemma fed_propose_ok:
  assumes "fed_ok net_seed node_seed fed" "g < groups (keyspace fed)"
  shows "fed_propose fed g v = Inl NoLeader \<or>
    (\<exists>i fed'. fed_propose fed g v = Inr (i, fed') \<and> fed_ok net_seed node_seed fed' \<and>
       keyspace fed' = keyspace fed \<and> (\<forall>j. j \<noteq> g \<longrightarrow> clusters fed' ! j = clusters fed ! j) \<and>
       cluster_propose (clusters fed ! g) v = Inr (i, clusters fed' ! g))"
proof -
  have g: "g < length (clusters fed)" "cluster_reach net_seed node_seed (clusters fed ! g)"
    using assms by (simp_all add: fed_ok_def)
  from cluster_propose_reach [OF g(2), of v] show ?thesis
  proof
    assume "\<exists>i c'. cluster_propose (clusters fed ! g) v = Inr (i, c') \<and> cluster_reach net_seed node_seed c' \<and>
       cmembers c' = cmembers (clusters fed ! g) \<and> standing_of c' = standing_of (clusters fed ! g)"
    then obtain i c' where c': "cluster_propose (clusters fed ! g) v = Inr (i, c')" "cluster_reach net_seed node_seed c'"
      by blast
    have "fed_ok net_seed node_seed (fed\<lparr>clusters := (clusters fed)[g := c']\<rparr>)"
      using assms(1) c'(2) by (auto simp: fed_ok_def dest: set_update_subset_insert [THEN subsetD])
    with c' g show ?thesis by (simp add: fed_propose_def)
  qed (simp add: fed_propose_def)
qed

lemma fed_tick1_ok:
  assumes "fed_ok net_seed node_seed fed"
  shows "fed_tick1 fed = Inl StateMachineSafety \<or>
    (\<exists>fed'. fed_tick1 fed = Inr fed' \<and> fed_ok net_seed node_seed fed' \<and> keyspace fed' = keyspace fed)"
proof -
  have "cluster_tick c = Inl StateMachineSafety \<or>
      (\<exists>c'. cluster_tick c = Inr c' \<and> cluster_reach net_seed node_seed c')" if "c \<in> set (clusters fed)" for c
    using assms that cluster_tick_ok [of net_seed node_seed c] by (auto simp: fed_ok_def)
  from rmap_either [OF this] have "rmap cluster_tick (clusters fed) = Inl StateMachineSafety \<or>
      (\<exists>cs. rmap cluster_tick (clusters fed) = Inr cs \<and> (\<forall>c\<in>set cs. cluster_reach net_seed node_seed c))" .
  moreover have "rmap cluster_tick (clusters fed) = Inr cs \<Longrightarrow> length cs = length (clusters fed)" for cs
    by (drule rmap_length) simp
  ultimately show ?thesis using assms by (auto simp: fed_tick1_def fed_ok_def)
qed

lemma fed_tick_ok:
  "fed_ok net_seed node_seed fed \<Longrightarrow> fed_tick k fed = Inl StateMachineSafety \<or>
   (\<exists>fed'. fed_tick k fed = Inr fed' \<and> fed_ok net_seed node_seed fed' \<and> keyspace fed' = keyspace fed)"
proof (induction k arbitrary: fed)
  case (Suc k)
  from fed_tick1_ok [OF Suc.prems] Suc.IH show ?case by force
qed simp

text \<open>
  Sharding: a key's group is a function of the key, a spread counts every key once and in its
  own group, and a write changes the cluster of the key's group as that cluster's own proposal
  would and no other cluster, leaving every group a cluster the protocol reaches.
\<close>

theorem writes_stay_in_their_group:
  assumes "fed_ok net_seed node_seed fed" "1 \<le> groups (keyspace fed)" "key \<noteq> []" "[] \<notin> set keys"
  shows "(\<exists>g<groups (keyspace fed). group_of digest (keyspace fed) key = Inr g \<and>
      (fed_write digest fed key v = Inl NoLeader \<or>
       (\<exists>i fed'. fed_write digest fed key v = Inr (i, fed') \<and> fed_ok net_seed node_seed fed' \<and>
          (\<forall>j. j \<noteq> g \<longrightarrow> clusters fed' ! j = clusters fed ! j) \<and>
          cluster_propose (clusters fed ! g) (PTuple [PStr ''set'', PStr key, v]) = Inr (i, clusters fed' ! g)))) \<and>
    (\<exists>ns. spread digest (keyspace fed) keys = Inr ns \<and> sum_list ns = length keys \<and>
      (\<forall>g<groups (keyspace fed). ns ! g = length (filter (\<lambda>k. group_of digest (keyspace fed) k = Inr g) keys)))"
proof
  let ?g = "digest key mod groups (keyspace fed)"
  have g: "?g < groups (keyspace fed)" using assms(2) by (intro mod_less_divisor) simp
  have "group_of digest (keyspace fed) key = Inr ?g" using assms(3) by (simp add: group_of_def)
  moreover from this have "fed_write digest fed key v =
      fed_propose fed ?g (PTuple [PStr ''set'', PStr key, v])" by (simp add: fed_write_def)
  ultimately show "\<exists>g<groups (keyspace fed). group_of digest (keyspace fed) key = Inr g \<and>
      (fed_write digest fed key v = Inl NoLeader \<or>
       (\<exists>i fed'. fed_write digest fed key v = Inr (i, fed') \<and> fed_ok net_seed node_seed fed' \<and>
          (\<forall>j. j \<noteq> g \<longrightarrow> clusters fed' ! j = clusters fed ! j) \<and>
          cluster_propose (clusters fed ! g) (PTuple [PStr ''set'', PStr key, v]) = Inr (i, clusters fed' ! g)))"
    using fed_propose_ok [OF assms(1) g, of "PTuple [PStr ''set'', PStr key, v]"] g
    by (intro exI [of _ ?g]) auto
  obtain ns where ns: "spread digest (keyspace fed) keys = Inr ns" "length ns = groups (keyspace fed)"
    "\<forall>g<groups (keyspace fed). ns ! g = length (filter (\<lambda>k. digest k mod groups (keyspace fed) = g) keys)"
    using spread_counts [OF assms(4,2)] by blast
  have "sum_list ns = (\<Sum>g<groups (keyspace fed). ns ! g)"
    using ns(2) by (simp add: sum_list_sum_nth atLeast0LessThan)
  also have "\<dots> = (\<Sum>g<groups (keyspace fed). length (filter (\<lambda>k. digest k mod groups (keyspace fed) = g) keys))"
    using ns(3) by simp
  also have "\<dots> = length keys"
  proof (induction keys)
    case (Cons k ks)
    have "digest k mod groups (keyspace fed) < groups (keyspace fed)" using assms(2) by (intro mod_less_divisor) simp
    have "(\<Sum>g<groups (keyspace fed). length (filter (\<lambda>k. digest k mod groups (keyspace fed) = g) (k # ks))) =
        (\<Sum>g<groups (keyspace fed). (if digest k mod groups (keyspace fed) = g then 1 else 0) +
           length (filter (\<lambda>k. digest k mod groups (keyspace fed) = g) ks))"
      by (intro sum.cong) auto
    also have "\<dots> = 1 + length ks"
      using Cons.IH \<open>digest k mod groups (keyspace fed) < _\<close> by (simp add: sum.distrib)
    finally show ?case by simp
  qed simp
  moreover have "filter (\<lambda>k. group_of digest (keyspace fed) k = Inr g) keys =
      filter (\<lambda>k. digest k mod groups (keyspace fed) = g) keys" for g
    using assms(4) by (intro filter_cong) (auto simp: group_of_def)
  ultimately show "\<exists>ns. spread digest (keyspace fed) keys = Inr ns \<and> sum_list ns = length keys \<and>
      (\<forall>g<groups (keyspace fed). ns ! g = length (filter (\<lambda>k. group_of digest (keyspace fed) k = Inr g) keys))"
    using ns by auto
qed

theorem writes_stay_in_their_group_witness:
  "\<exists>c ns. cluster_reach (\<lambda>sd i. 0) (\<lambda>sd p i. 0) c \<and>
     spread length \<lparr>groups = 2\<rparr> [''a'', ''bb'', ''ccc''] = Inr ns \<and> sum_list ns = 3 \<and> ns ! 1 = 2"
proof -
  obtain c where c: "Cluster (\<lambda>sd i. 0) (\<lambda>sd p i. 0) 3 1 None True False = Inr c"
    using Cluster_total [of 3] by fastforce
  define fed where "fed = \<lparr>keyspace = \<lparr>groups = 2\<rparr>, fed_size = 3, fed_seed = 1, clusters = [c, c]\<rparr>"
  have "fed_ok (\<lambda>sd i. 0) (\<lambda>sd p i. 0) fed"
    using cluster_reach.made [OF c] by (simp add: fed_ok_def fed_def)
  from writes_stay_in_their_group [OF this, of "''a''" "[''a'', ''bb'', ''ccc'']" length "PInt 1"]
  obtain ns where "spread length \<lparr>groups = 2\<rparr> [''a'', ''bb'', ''ccc''] = Inr ns" "sum_list ns = 3"
    "ns ! 1 = length (filter (\<lambda>k. group_of length \<lparr>groups = 2\<rparr> k = Inr 1) [''a'', ''bb'', ''ccc''])"
    by (auto simp: fed_def)
  moreover have "length (filter (\<lambda>k. group_of length \<lparr>groups = 2\<rparr> k = Inr 1) [''a'', ''bb'', ''ccc'']) = 2"
    by (simp add: group_of_def)
  ultimately show ?thesis using cluster_reach.made [OF c] by auto
qed

section \<open>A move runs on schedule\<close>

text \<open>Where a move has got to after a tick.\<close>

definition phase_at :: "nat \<Rightarrow> nat \<Rightarrow> nat \<Rightarrow> string" where
  "phase_at every copy t =
     (if t < every * 2 then STEADY else if t < every * 3 then FROZEN
      else if t < every * 3 + copy then COPYING else HANDED)"

definition move_at :: "string list \<Rightarrow> nat \<Rightarrow> nat \<Rightarrow> nat \<Rightarrow> move" where
  "move_at keys every copy t =
     \<lparr>m_keys = keys, m_source = 0, m_destination = 1, phase = phase_at every copy t,
      frozen_at = (if t < every * 2 then 0 else every * 2),
      handed_at = (if t < every * 3 + copy then 0 else every * 3 + copy)\<rparr>"

lemma phases_differ [simp]:
  "STEADY \<noteq> FROZEN" "STEADY \<noteq> COPYING" "STEADY \<noteq> HANDED" "FROZEN \<noteq> STEADY" "FROZEN \<noteq> COPYING"
  "FROZEN \<noteq> HANDED" "COPYING \<noteq> STEADY" "COPYING \<noteq> FROZEN" "COPYING \<noteq> HANDED" "HANDED \<noteq> STEADY"
  "HANDED \<noteq> FROZEN" "HANDED \<noteq> COPYING"
  by (simp_all add: phase_names)

lemma move_advance_phases:
  "phase m = STEADY \<Longrightarrow> move_advance m t = Inr (m\<lparr>phase := FROZEN, frozen_at := t\<rparr>)"
  "phase m = FROZEN \<Longrightarrow> move_advance m t = Inr (m\<lparr>phase := COPYING\<rparr>)"
  "phase m = COPYING \<Longrightarrow> move_advance m t = Inr (m\<lparr>phase := HANDED, handed_at := t\<rparr>)"
  "phase m = HANDED \<Longrightarrow> move_advance m t = Inl ConfigError"
  by (simp_all add: move_advance_def PHASES_def Let_def)

lemma advances_ok:
  assumes "0 < every" "1 \<le> t"
  shows "rbind (advance_if (t = every * 2) t (move_at keys every copy (t - 1))) (\<lambda>m1.
    rbind (advance_if (t = every * 3) t m1) (\<lambda>m2.
    rbind (advance_if (t = every * 3 + copy) t m2) k)) = k (move_at keys every copy t)"
proof -
  consider "t < every * 2" | "t = every * 2" | "every * 2 < t" "t < every * 3" | "t = every * 3" "copy = 0"
    | "t = every * 3" "0 < copy" | "every * 3 < t" "t < every * 3 + copy" | "every * 3 < t" "t = every * 3 + copy"
    | "every * 3 + copy < t" by linarith
  then show ?thesis
    using assms by cases (auto simp: advance_if_def move_at_def phase_at_def move_advance_phases)
qed

lemma owners_at:
  "owners (move_at keys every copy t) unsafe =
     (if t < every * 2 then [0]
      else if t < every * 3 then (if unsafe then [0] else [])
      else if t < every * 3 + copy then (if unsafe then [0, 1] else [])
      else [1])"
  by (auto simp: owners_def move_at_def phase_at_def serving_def owner_def)

text \<open>The writes a client makes and what becomes of them, by the tick they are made at.\<close>

definition frozen_ticks :: "nat \<Rightarrow> nat \<Rightarrow> nat \<Rightarrow> nat \<Rightarrow> nat" where
  "frozen_ticks every a b t = length (filter (\<lambda>u. u mod every = 0 \<and> a \<le> u \<and> u < b) [1..<t + 1])"

fun move_inv ::
  "(int \<Rightarrow> draws) \<Rightarrow> (int \<Rightarrow> name \<Rightarrow> draws) \<Rightarrow> string list \<Rightarrow> nat \<Rightarrow> nat \<Rightarrow> bool \<Rightarrow> nat \<Rightarrow>
   federation \<times> move \<times> attempt \<Rightarrow> bool" where
  "move_inv net_seed node_seed keys every copy unsafe t (fed, m, out) \<longleftrightarrow>
     fed_ok net_seed node_seed fed \<and> groups (keyspace fed) = 4 \<and> m = move_at keys every copy t \<and>
     attempted out = t div every \<and> length (a_owners out) = attempted out \<and>
     served out + refused out \<le> attempted out \<and>
     (\<forall>k\<in>set (a_owners out). k \<le> (if unsafe then 2 else 1)) \<and>
     refused out = (if unsafe then 0 else frozen_ticks every (every * 2) (every * 3 + copy) t) \<and>
     two_owners out = (if unsafe then frozen_ticks every (every * 3) (every * 3 + copy) t else 0)"

lemma frozen_ticks_Suc:
  "frozen_ticks every a b (Suc t) = frozen_ticks every a b t +
     (if Suc t mod every = 0 \<and> a \<le> Suc t \<and> Suc t < b then 1 else 0)"
  by (simp add: frozen_ticks_def)

lemma write_turn_ok:
  assumes "fed_ok net_seed node_seed fed" "groups (keyspace fed) = 4" "set (owners m unsafe) \<subseteq> {0, 1}"
  shows "\<exists>fed' did. write_turn key t unsafe (fed, m, out) = Inr (fed',
      out\<lparr>attempted := attempted out + 1, a_owners := a_owners out @ [length (owners m unsafe)],
          two_owners := two_owners out + (if length (owners m unsafe) > 1 then 1 else 0),
          refused := refused out + (if owners m unsafe = [] then 1 else 0),
          served := served out + (if did then 1 else 0)\<rparr>) \<and>
    (did \<longrightarrow> owners m unsafe \<noteq> []) \<and> fed_ok net_seed node_seed fed' \<and> keyspace fed' = keyspace fed"
proof (cases "owners m unsafe = []")
  case True
  with assms(1) show ?thesis
    by (intro exI [of _ fed] exI [of _ False]) (simp add: write_turn_def Let_def)
next
  case False
  let ?v = "PTuple [PStr ''set'', PStr key, PInt (int t)]"
  have "hd (owners m unsafe) < groups (keyspace fed)"
    using assms(2,3) False by (cases "owners m unsafe") auto
  from fed_propose_ok [OF assms(1) this, of ?v] show ?thesis
  proof
    assume "fed_propose fed (hd (owners m unsafe)) ?v = Inl NoLeader"
    with False assms(1) show ?thesis
      by (intro exI [of _ fed] exI [of _ False]) (simp add: write_turn_def Let_def)
  next
    assume "\<exists>i fed'. fed_propose fed (hd (owners m unsafe)) ?v = Inr (i, fed') \<and> fed_ok net_seed node_seed fed' \<and>
       keyspace fed' = keyspace fed \<and> (\<forall>j. j \<noteq> hd (owners m unsafe) \<longrightarrow> clusters fed' ! j = clusters fed ! j) \<and>
       cluster_propose (clusters fed ! hd (owners m unsafe)) ?v = Inr (i, clusters fed' ! hd (owners m unsafe))"
    then obtain i fed' where "fed_propose fed (hd (owners m unsafe)) ?v = Inr (i, fed')"
      "fed_ok net_seed node_seed fed'" "keyspace fed' = keyspace fed" by blast
    with False show ?thesis
      by (intro exI [of _ fed'] exI [of _ True]) (simp add: write_turn_def Let_def)
  qed
qed

lemma move_turn_ok:
  assumes inv: "move_inv net_seed node_seed keys every copy unsafe t (fed, m, out)" and "0 < every"
  shows "move_turn key copy every unsafe (Suc t) (fed, m, out) = Inl StateMachineSafety \<or>
    (\<exists>st'. move_turn key copy every unsafe (Suc t) (fed, m, out) = Inr st' \<and>
       move_inv net_seed node_seed keys every copy unsafe (Suc t) st')"
proof -
  let ?m = "move_at keys every copy (Suc t)"
  have m: "m = move_at keys every copy (Suc t - 1)" using inv by simp
  have own: "set (owners ?m unsafe) \<subseteq> {0, 1}" by (auto simp: owners_at)
  have "\<exists>fed1 out1. (if Suc t mod every = 0 then write_turn key (Suc t) unsafe (fed, ?m, out) else Inr (fed, out)) =
      Inr (fed1, out1) \<and> move_inv net_seed node_seed keys every copy unsafe (Suc t) (fed1, ?m, out1)"
  proof (cases "Suc t mod every = 0")
    case True
    have w: "fed_ok net_seed node_seed fed" "groups (keyspace fed) = 4" using inv by simp_all
    obtain fed' did where r: "write_turn key (Suc t) unsafe (fed, ?m, out) = Inr (fed',
      out\<lparr>attempted := attempted out + 1, a_owners := a_owners out @ [length (owners ?m unsafe)],
          two_owners := two_owners out + (if length (owners ?m unsafe) > 1 then 1 else 0),
          refused := refused out + (if owners ?m unsafe = [] then 1 else 0),
          served := served out + (if did then 1 else 0)\<rparr>)"
      "did \<longrightarrow> owners ?m unsafe \<noteq> []" "fed_ok net_seed node_seed fed'" "keyspace fed' = keyspace fed"
      using write_turn_ok [OF w own] by blast
    have "Suc t div every = Suc (t div every)" using True by (simp add: div_Suc)
    then show ?thesis
      using inv r True assms(2) by (auto simp: frozen_ticks_Suc owners_at)
  next
    case False
    then have "Suc t div every = t div every" by (simp add: div_Suc)
    with False inv show ?thesis by (auto simp: frozen_ticks_Suc)
  qed
  then obtain fed1 out1 where w: "(if Suc t mod every = 0 then write_turn key (Suc t) unsafe (fed, ?m, out)
      else Inr (fed, out)) = Inr (fed1, out1)"
    "move_inv net_seed node_seed keys every copy unsafe (Suc t) (fed1, ?m, out1)" by blast
  have eq: "move_turn key copy every unsafe (Suc t) (fed, m, out) =
      rbind (fed_tick1 fed1) (\<lambda>fed2. Inr (fed2, ?m, out1))"
    unfolding move_turn_def Let_def prod.case m
    by (subst advances_ok) (use assms(2) w(1) in simp_all)
  have "fed_ok net_seed node_seed fed1" using w(2) by simp
  from fed_tick1_ok [OF this] w(2) show ?thesis unfolding eq by auto
qed

lemma move_turns_ok:
  assumes "move_inv net_seed node_seed keys every copy unsafe 0 st" "0 < every"
  shows "rfold (move_turn key copy every unsafe) [1..<t + 1] st = Inl StateMachineSafety \<or>
    (\<exists>st'. rfold (move_turn key copy every unsafe) [1..<t + 1] st = Inr st' \<and>
       move_inv net_seed node_seed keys every copy unsafe t st')"
proof (induction t)
  case (Suc t)
  have "[1..<Suc t + 1] = [1..<t + 1] @ [Suc t]" by simp
  then have eq: "rfold (move_turn key copy every unsafe) [1..<Suc t + 1] st =
      rbind (rfold (move_turn key copy every unsafe) [1..<t + 1] st) (move_turn key copy every unsafe (Suc t))"
    by (simp only: rfold_snoc)
  from Suc.IH show ?case
  proof
    assume "\<exists>st'. rfold (move_turn key copy every unsafe) [1..<t + 1] st = Inr st' \<and>
       move_inv net_seed node_seed keys every copy unsafe t st'"
    then obtain fed m out where st': "rfold (move_turn key copy every unsafe) [1..<t + 1] st = Inr (fed, m, out)"
      "move_inv net_seed node_seed keys every copy unsafe t (fed, m, out)" by (metis prod_cases3)
    show ?thesis
      unfolding eq st'(1) rbind.simps by (rule move_turn_ok [OF st'(2) assms(2)])
  qed (simp only: eq rbind.simps simp_thms)
qed (use assms(1) in auto)

lemma range_keys_ok:
  "\<exists>out. range_keys digest ks src wanted tries one = Inr out \<and>
    (\<forall>k\<in>set out. group_of digest ks k = Inr src) \<and>
    (0 < wanted \<and> (\<exists>i. one \<le> i \<and> i < one + tries \<and> digest (CHR ''k'' # decimal i) mod groups ks = src) \<longrightarrow> out \<noteq> [])"
proof (induction digest ks src wanted tries one rule: range_keys.induct)
  case (2 digest ks src wanted tries one)
  let ?key = "CHR ''k'' # decimal one"
  have key: "group_of digest ks ?key = Inr (digest ?key mod groups ks)" by (simp add: group_of_def)
  show ?case
  proof (cases "wanted = 0")
    case False
    show ?thesis
    proof (cases "digest ?key mod groups ks = src")
      case True
      with "2.IH"(1) [OF False refl, of src] False key show ?thesis by auto
    next
      case other: False
      with "2.IH"(2) [OF False refl, of "digest ?key mod groups ks"] False key obtain out where
        out: "range_keys digest ks src wanted tries (one + 1) = Inr out" "\<forall>k\<in>set out. group_of digest ks k = Inr src"
        "0 < wanted \<and> (\<exists>i. one + 1 \<le> i \<and> i < one + 1 + tries \<and> digest (CHR ''k'' # decimal i) mod groups ks = src) \<longrightarrow> out \<noteq> []"
        by auto
      have "one + 1 \<le> i" if "one \<le> i" "digest (CHR ''k'' # decimal i) mod groups ks = src" for i
        using that other by (cases "i = one") auto
      with out False other key show ?thesis by fastforce
    qed
  qed simp
qed simp



end
