(* ===== verification/Commit_Overrun.thy ===== *)
theory Commit_Overrun
  imports Node_Refines
begin

text \<open>
  Why the safety theorems ask for appends that reach as far as the commit index they carry. A
  leader of \<open>src/rsm/node.py\<close> cuts an append at \<open>MAX_BATCH\<close> entries and still puts its whole commit
  index in it; a follower advances its own commit index to the smaller of that index and the end
  of its log, past the last entry the append vouches for. What lies there may be an entry of an
  older term that the leader has overwritten.
\<close>

section \<open>What a follower commits\<close>

lemma take_entries_same:
  "indexed es \<Longrightarrow> set fs \<subseteq> set es \<Longrightarrow> take_entries (plain es) fs = Inr (plain es)"
proof (induction fs)
  case (Cons f fs)
  then obtain i where i: "i < length es" "f = es ! i" by (auto simp: in_set_conv_nth)
  with Cons have "e_index f = Suc i" by (simp add: indexed_def)
  with Cons i show ?case by (simp add: plain_log term_of_def)
qed simp

lemma replicate_batch:
  assumes "log L = plain ls" "indexed ls" "next_index L p = Some (Suc q)" "q \<le> length ls"
    and "p \<noteq> name L" "p \<noteq> []" "1 \<le> current_term L"
  shows "replicate_to L (Some p) = Inr [\<lparr>sender = name L, recipient = p, m_term = current_term L,
    body = Append q (term_of ls q) (take MAX_BATCH (drop q ls)) (commit_index L) 0\<rparr>]"
proof -
  have "log_slice (plain ls) (Suc q) (Some (Suc q + MAX_BATCH - 1)) =
      Inr (take (min (Suc q + MAX_BATCH - 1) (length ls) - q) (drop q ls))"
    using slice_plain [OF assms(2), of "Suc q"] by simp
  also have "take (min (Suc q + MAX_BATCH - 1) (length ls) - q) (drop q ls) = take MAX_BATCH (drop q ls)"
    using assms(4) by (auto simp: min_def)
  finally show ?thesis
    using assms by (simp add: replicate_to_def replicate_one_def mget_def Let_def plain_log Message_def)
qed

text \<open>
  C20. What a follower commits when a leader's append agrees with its log: everything up to the
  leader's commit index or the end of its own log, whichever comes first, with its own entries
  applied there, however far short of that the append, which is cut at the batch limit, fell.
\<close>

theorem commit_overrun:
  assumes "log L = plain ls" "indexed ls" "next_index L p = Some (Suc q)" "q \<le> length ls"
    and "p \<noteq> name L" "p \<noteq> []" "1 \<le> current_term L"
    and "log F = plain es" "indexed es" "name F = p" "role F = FOLLOWER" "current_term F = current_term L"
    and "agree (min (q + MAX_BATCH) (length ls)) ls es"
    and "last_applied F = commit_index F" "commit_index F < commit_index L" "commit_index F \<le> length es"
  shows "\<exists>m n out. replicate_to L (Some p) = Inr [m] \<and> step F m = Inr (n, out) \<and>
    (snug m \<longleftrightarrow> commit_index L \<le> min (q + MAX_BATCH) (length ls)) \<and>
    commit_index n = min (commit_index L) (length es) \<and>
    applied n = applied F @ take (commit_index n - commit_index F) (drop (commit_index F) es)"
proof -
  let ?fs = "take MAX_BATCH (drop q ls)" and ?k = "min (q + MAX_BATCH) (length ls)"
  define m where "m = \<lparr>sender = name L, recipient = p, m_term = current_term L,
    body = Append q (term_of ls q) ?fs (commit_index L) 0\<rparr>"
  have sent: "replicate_to L (Some p) = Inr [m]"
    unfolding m_def by (rule replicate_batch [OF assms(1-7)])
  have q: "q \<le> ?k" using assms(4) by simp
  have eq: "take ?k ls = take ?k es" and len: "?k \<le> length es" using assms(13) by (simp_all add: agree_def)
  have fs: "?fs = take MAX_BATCH (drop q (take ?k ls))" using assms(4) by (simp add: drop_take min_def)
  then have "set ?fs \<subseteq> set (take ?k es)" unfolding eq using set_take_subset set_drop_subset by (metis subset_trans)
  then have sub: "set ?fs \<subseteq> set es" using set_take_subset by (metis subset_trans)
  have "term_of es q = term_of ls q"
  proof (cases "q = 0")
    case False
    then have "q - 1 < ?k" using q by linarith
    from agree_nth [OF assms(13) this] show ?thesis by (simp add: term_of_def)
  qed (simp add: term_of_def)
  moreover have "q \<le> length es" using q len by linarith
  ultimately have matches: "matches (plain es) q (term_of ls q) = Inr True"
    using assms(9) by (simp add: plain_log)
  define n3 where "n3 = reset_election_timer (F\<lparr>leader := Some (name L)\<rparr>)"
  have n3: "log n3 = plain es" "commit_index n3 = commit_index F" "last_applied n3 = commit_index F"
    "applied n3 = applied F" "name n3 = p" "current_term n3 = current_term L"
    using assms by (simp_all add: n3_def unseen)
  define c where "c = min (commit_index L) (length es)"
  define n4 where "n4 = n3\<lparr>log := plain es, commit_index := c\<rparr>"
  have le: "commit_index F \<le> c" using assms(15,16) by (simp add: c_def)
  obtain out st where ap: "apply_committed n4 =
      Inr (out, n4\<lparr>last_applied := max (last_applied n4) (commit_index n4),
                 applied := applied n4 @ out, state := st\<rparr>)"
    "last_applied n4 \<le> commit_index n4 \<longrightarrow> commit_index n4 \<le> length es \<longrightarrow>
       out = take (commit_index n4 - last_applied n4) (drop (last_applied n4) es)"
    using apply_committed_plain [of n4 es] assms(9) by (auto simp: n4_def)
  then have out: "out = take (c - commit_index F) (drop (commit_index F) es)"
    using le n3 by (simp add: n4_def c_def)
  define n5 where "n5 = n4\<lparr>last_applied := max (last_applied n4) (commit_index n4),
                 applied := applied n4 @ out, state := st\<rparr>"
  have lst: "last_index (plain es) = length es" by (rule last_index_plain [OF assms(9)])
  have disp: "dispatch F m = reply n5 m (Appended True (append_last_index q ?fs) NO_TERM NO_INDEX 0)"
    using assms(11,12,15) n3 matches take_entries_same [OF assms(9) sub] ap(1) lst
    by (simp add: dispatch_def on_append_def m_def n3_def [symmetric] Let_def n4_def c_def apply_ready_def n5_def)
  have "step F m = dispatch F m"
    using assms(12) by (simp add: step_def m_def)
  moreover have "\<exists>ms. reply n5 m (Appended True (append_last_index q ?fs) NO_TERM NO_INDEX 0) = Inr (n5, ms)"
    using n3 assms(5,7) by (simp add: reply_def n5_def n4_def m_def Message_def)
  moreover have "snug m \<longleftrightarrow> commit_index L \<le> ?k"
    using assms(4) by (auto simp: m_def min_def)
  moreover have "commit_index n5 = c" "applied n5 = applied F @ out"
    using n3 by (simp_all add: n5_def n4_def)
  ultimately show ?thesis using sent disp out unfolding c_def by metis
qed

section \<open>A leader and a follower\<close>

text \<open>
  Both hold sixty-five entries of term one. Then the follower holds one more of that term, and the
  leader of term two one of its own, which it has committed. The leader has backed the follower's
  next index off to two; what they share is committed.
\<close>

definition shared_entries :: "entry list" where
  "shared_entries = map (\<lambda>i. \<lparr>e_term = 1, e_index = i, command = PNone\<rparr>) [1..<66]"

definition tail_entry :: "nat \<Rightarrow> string \<Rightarrow> entry" where
  "tail_entry t v = \<lparr>e_term = t, e_index = 66, command = PTuple [PStr ''set'', PStr ''k'', PStr v]\<rparr>"

definition blank_node :: "name \<Rightarrow> node" where
  "blank_node p =
     \<lparr>name = p, members = [''n0'', ''n1'', ''n2''], pre_vote = False, commit_any_term = False,
      current_term = 2, voted_for = Some ''n0'', log = empty_log, role = FOLLOWER, leader = None,
      commit_index = 0, last_applied = 0, next_index = Map.empty, match_index = Map.empty,
      votes = {}, pre_votes = {}, now = 0, election_deadline = 10, heartbeat_due = 3, applied = [],
      state = [], rng = (\<lambda>i. 0)\<rparr>"

definition ahead_leader :: node where
  "ahead_leader = (blank_node ''n0'')
     \<lparr>role := LEADER, leader := Some ''n0'', log := plain (shared_entries @ [tail_entry 2 ''new'']),
      commit_index := 66, last_applied := 66, applied := shared_entries @ [tail_entry 2 ''new''],
      next_index := [''n1'' \<mapsto> 2, ''n2'' \<mapsto> 67]\<rparr>"

definition stale_follower :: node where
  "stale_follower = (blank_node ''n1'')
     \<lparr>log := plain (shared_entries @ [tail_entry 1 ''old'']), commit_index := 65, last_applied := 65,
      applied := shared_entries\<rparr>"

text \<open>
  Applied to the two nodes: the follower's index sixty-six is then its stale entry, the leader's its new one.
\<close>

theorem commit_overrun_witness:
  "\<exists>m n out. replicate_to ahead_leader (Some ''n1'') = Inr [m] \<and> \<not> snug m \<and>
     step stale_follower m = Inr (n, out) \<and> commit_index n = 66 \<and>
     last (applied n) = tail_entry 1 ''old'' \<and> last (applied ahead_leader) = tail_entry 2 ''new''"
proof -
  have len: "length shared_entries = 65" by (simp add: shared_entries_def)
  have ix: "indexed (shared_entries @ [tail_entry t v])" for t v
    by (auto simp: indexed_def shared_entries_def tail_entry_def nth_append less_Suc_eq)
  let ?ls = "shared_entries @ [tail_entry 2 ''new'']" and ?es = "shared_entries @ [tail_entry 1 ''old'']"
  have "agree (min (1 + MAX_BATCH) (length ?ls)) ?ls ?es"
    by (simp add: agree_def len MAX_BATCH_def)
  from commit_overrun [of ahead_leader ?ls "''n1''" 1 stale_follower ?es, OF _ ix _ _ _ _ _ _ ix _ _ _ this]
  show ?thesis
    by (auto simp: ahead_leader_def stale_follower_def blank_node_def len MAX_BATCH_def)
qed

end
