(* ===== verification/Defects.thy ===== *)
theory Defects
  imports Node_Handlers
begin

text \<open>
  The deliberately broken nodes of \<open>src/rsm/verify/fuzz.py\<close>: two subclasses of \<open>Node\<close> that
  override the vote handler and inherit the rest, and the defects that switch a rule off. A class
  is a value here, and \<open>step_as\<close> is \<open>Node.step\<close> on a node of that class, with the one call it
  makes through \<open>self\<close> that a subclass overrides resolved by the class.
\<close>

section \<open>The node classes\<close>

datatype node_class = PlainNode | IgnoresTheLog | VotesTwice

definition votes_for_anybody :: "node \<Rightarrow> message \<Rightarrow> bool \<Rightarrow> outcome" where
  "votes_for_anybody n m pv =
     (if pv then reply n m (Vote (m_term m > current_term n) True)
      else let granted = (voted_for n = None \<or> voted_for n = Some (sender m));
               n1 = (if granted then reset_election_timer (n\<lparr>voted_for := Some (sender m)\<rparr>) else n)
           in reply n1 m (Vote granted False))"

definition votes_every_time :: "node \<Rightarrow> message \<Rightarrow> nat \<Rightarrow> nat \<Rightarrow> bool \<Rightarrow> outcome" where
  "votes_every_time n m li lt pv =
     (if pv then on_request_vote n m li lt pv
      else let granted = is_up_to_date (log n) li lt;
               n1 = (if granted then reset_election_timer (n\<lparr>voted_for := Some (sender m)\<rparr>) else n)
           in reply n1 m (Vote granted False))"

definition dispatch_as :: "node_class \<Rightarrow> node \<Rightarrow> message \<Rightarrow> outcome" where
  "dispatch_as k n m =
     (case (k, body m) of
        (IgnoresTheLog, RequestVote li lt pv) \<Rightarrow> votes_for_anybody n m pv
      | (VotesTwice, RequestVote li lt pv) \<Rightarrow> votes_every_time n m li lt pv
      | _ \<Rightarrow> dispatch n m)"

definition step_as :: "node_class \<Rightarrow> node \<Rightarrow> message \<Rightarrow> outcome" where
  "step_as k n m =
     (if asks_pre_vote (body m)
      then (if term_check (current_term n) m = STALE then refuse n m else dispatch_as k n m)
      else if term_check (current_term n) m = AHEAD
      then dispatch_as k (become_follower n (m_term m) None) m
      else if term_check (current_term n) m = STALE then refuse n m
      else dispatch_as k n m)"

lemma dispatch_as_plain [simp]: "dispatch_as PlainNode n m = dispatch n m"
  by (simp add: dispatch_as_def)

lemma step_as_plain [simp]: "step_as PlainNode n m = step n m"
  by (simp add: step_as_def step_def)

section \<open>Defects\<close>

record defect =
  d_name :: string
  d_class :: "node_class option"
  d_commit_any_term :: bool
  forgets_the_vote :: bool

definition Defect :: "string \<Rightarrow> node_class option \<Rightarrow> bool \<Rightarrow> bool \<Rightarrow> defect result" where
  "Defect nm k cat fv =
     (if nm = [] then Inl ConfigError
      else if k = None \<and> \<not> cat \<and> \<not> fv then Inl ConfigError
      else Inr \<lparr>d_name = nm, d_class = k, d_commit_any_term = cat, forgets_the_vote = fv\<rparr>)"

definition maker :: "defect \<Rightarrow> node_class" where
  "maker d = (case d_class d of None \<Rightarrow> PlainNode | Some k \<Rightarrow> k)"

definition DEFECTS :: "(string \<times> defect result) list" where
  "DEFECTS =
     [(''sound'', Defect ''sound'' (Some PlainNode) False False),
      (''ignores the log'', Defect ''ignores the log'' (Some IgnoresTheLog) False False),
      (''votes twice'', Defect ''votes twice'' (Some VotesTwice) False False),
      (''commits any term'', Defect ''commits any term'' None True False),
      (''forgets the vote'', Defect ''forgets the vote'' None False True)]"

abbreviation sound_defect :: defect where
  "sound_defect \<equiv>
     \<lparr>d_name = ''sound'', d_class = Some PlainNode, d_commit_any_term = False, forgets_the_vote = False\<rparr>"

lemma defects_built:
  "map_of DEFECTS ''sound'' = Some (Inr sound_defect)" "\<forall>(nm, d) \<in> set DEFECTS. \<exists>x. d = Inr x \<and> d_name x = nm"
  by (simp_all add: DEFECTS_def Defect_def)

text \<open>What makes a defect harmless: no rule is gone.\<close>

definition keeps_every_rule :: "defect \<Rightarrow> bool" where
  "keeps_every_rule d \<longleftrightarrow> maker d = PlainNode \<and> \<not> d_commit_any_term d \<and> \<not> forgets_the_vote d"

lemma sound_keeps [simp]: "keeps_every_rule sound_defect"
  by (simp add: keeps_every_rule_def maker_def)

end
