(* ===== verification/Exploration.thy ===== *)
theory Exploration
  imports Cluster_Safety Defects "HOL-Library.Product_Lexorder" "HOL-Library.List_Lexorder"
    "HOL-Library.Char_ord"
begin

text \<open>
  \<open>src/rsm/verify/explore.py\<close>: a cluster with no clock and no network, the moves it can make, the
  canonical form of its states, the check of one state and the bounded search over every ordering
  of moves. \<open>rp\<close> stands for Python's \<open>repr\<close> of a command and \<open>node_seed\<close> for a node's generator.

  A world keeps its nodes' dictionary as the list of its keys and a function. The text of a
  violation is kept as the values it is built from.
\<close>

section \<open>Moves\<close>

definition DELIVER :: string where "DELIVER = ''deliver''"
definition TIMEOUT :: string where "TIMEOUT = ''timeout''"
definition PROPOSE :: string where "PROPOSE = ''propose''"
definition DROP :: string where "DROP = ''drop''"
definition RESTART_MOVE :: string where "RESTART_MOVE = ''restart''"

definition MOVES :: "string list" where "MOVES = [DELIVER, TIMEOUT, PROPOSE, DROP, RESTART_MOVE]"

lemmas move_names = DELIVER_def TIMEOUT_def PROPOSE_def DROP_def RESTART_MOVE_def MOVES_def

record wmove =
  mv_kind :: string
  mv_index :: int
  mv_node :: name

definition Wmove :: "string \<Rightarrow> int \<Rightarrow> name \<Rightarrow> wmove result" where
  "Wmove k i p =
     (if k \<notin> set MOVES then Inl ConfigError
      else if k \<in> {DELIVER, DROP} \<and> i < 0 then Inl ConfigError
      else if k \<in> {TIMEOUT, PROPOSE, RESTART_MOVE} \<and> p = [] then Inl ConfigError
      else Inr \<lparr>mv_kind = k, mv_index = i, mv_node = p\<rparr>)"

definition int_text :: "int \<Rightarrow> string" where
  "int_text i = (if i < 0 then CHR ''-'' # decimal (nat (- i)) else decimal (nat i))"

definition move_text :: "wmove \<Rightarrow> string" where
  "move_text mv =
     (if mv_kind mv \<in> {DELIVER, DROP} then mv_kind mv @ '' '' @ int_text (mv_index mv)
      else mv_kind mv @ '' '' @ mv_node mv)"

section \<open>Worlds\<close>

text \<open>\<open>w_seed\<close> is the seed every node was made with, which the code reads off the nodes.\<close>

record world =
  w_names :: "name list"
  w_nodes :: "name \<Rightarrow> node"
  w_defect :: defect
  w_seed :: int
  pending :: "message list"
  w_writes :: nat
  w_lost :: nat
  w_restarts :: nat

definition world_members :: "world \<Rightarrow> name list" where
  "world_members w = members (w_nodes w (hd (w_names w)))"

definition world_leaders :: "world \<Rightarrow> (nat \<times> name list) list" where
  "world_leaders w =
     fold (\<lambda>p out. let n = w_nodes w p in
             if role n = LEADER then add_under (current_term n) (name n) out else out)
       (w_names w) []"

subsection \<open>The canonical form\<close>

text \<open>
  Python's tuples compare position by position. Fields at one position of two messages either
  hold the same type or come after field names that differ, so a total order on field values,
  by type first, decides every comparison the sort makes.
\<close>

datatype field_value =
    FName string | FNat nat | FBool bool | FEntries "(nat \<times> nat \<times> string) list"
  | FPairs "(string \<times> string) list" | FNames "string list"

fun field_rank ::
  "field_value \<Rightarrow> nat \<times> string \<times> nat \<times> (nat \<times> nat \<times> string) list \<times> (string \<times> string) list \<times> string list" where
  "field_rank (FName s) = (0, s, 0, [], [], [])"
| "field_rank (FNat k) = (1, [], k, [], [], [])"
| "field_rank (FBool b) = (2, [], if b then 1 else 0, [], [], [])"
| "field_rank (FEntries es) = (3, [], 0, es, [], [])"
| "field_rank (FPairs ps) = (4, [], 0, [], ps, [])"
| "field_rank (FNames ns) = (5, [], 0, [], [], ns)"

lemma field_rank_inj: "field_rank x = field_rank y \<Longrightarrow> x = y"
  by (cases x; cases y) (auto split: if_splits)

instantiation field_value :: linorder
begin

definition less_eq_field_value :: "field_value \<Rightarrow> field_value \<Rightarrow> bool" where
  "less_eq_field_value x y \<longleftrightarrow> field_rank x \<le> field_rank y"

definition less_field_value :: "field_value \<Rightarrow> field_value \<Rightarrow> bool" where
  "less_field_value x y \<longleftrightarrow> field_rank x < field_rank y"

instance
  by intro_classes
    (auto simp: less_eq_field_value_def less_field_value_def intro: field_rank_inj)

end

type_synonym field_row = "(string \<times> field_value) list"
type_synonym node_row = "string \<times> nat \<times> string \<times> string \<times> nat \<times> (nat \<times> nat \<times> string) list"
type_synonym world_key = "node_row list \<times> field_row list \<times> nat \<times> nat"

definition entry_row :: "(pyobj \<Rightarrow> string) \<Rightarrow> entry \<Rightarrow> nat \<times> nat \<times> string" where
  "entry_row rp e = (e_index e, e_term e, rp (command e))"

text \<open>
  The state of a snapshot is keyed by strings in this package. No snapshot is in flight in an
  exploration, since nothing here compacts a log.
\<close>

fun key_text :: "(pyobj \<Rightarrow> string) \<Rightarrow> pyobj \<Rightarrow> string" where
  "key_text rp (PStr s) = s"
| "key_text rp k = rp k"

fun body_row :: "(pyobj \<Rightarrow> string) \<Rightarrow> (name \<Rightarrow> name) \<Rightarrow> payload \<Rightarrow> field_row" where
  "body_row rp f (RequestVote li lt pv) =
     [(''last_index'', FNat li), (''last_term'', FNat lt), (''pre_vote'', FBool pv)]"
| "body_row rp f (Vote g pv) = [(''granted'', FBool g), (''pre_vote'', FBool pv)]"
| "body_row rp f (Append pi pt es lc rid) =
     [(''previous_index'', FNat pi), (''previous_term'', FNat pt),
      (''entries'', FEntries (map (entry_row rp) es)), (''commit_index'', FNat lc),
      (''read_id'', FNat rid)]"
| "body_row rp f (Appended ok mi ct ci rid) =
     [(''success'', FBool ok), (''match_index'', FNat mi), (''conflict_term'', FNat ct),
      (''conflict_index'', FNat ci), (''read_id'', FNat rid)]"
| "body_row rp f (InstallSnapshot li lt st ms) =
     [(''last_index'', FNat li), (''last_term'', FNat lt),
      (''state'', FPairs (sort (map (\<lambda>(k, v). (key_text rp k, rp v)) st))), (''members'', FNames (map f ms))]"
| "body_row rp f (Installed li) = [(''last_index'', FNat li)]"

fun kind_text :: "payload \<Rightarrow> string" where
  "kind_text (RequestVote _ _ _) = ''request vote''"
| "kind_text (Vote _ _) = ''vote''"
| "kind_text (Append _ _ _ _ _) = ''append''"
| "kind_text (Appended _ _ _ _ _) = ''appended''"
| "kind_text (InstallSnapshot _ _ _ _) = ''install snapshot''"
| "kind_text (Installed _) = ''installed''"

fun role_text :: "role \<Rightarrow> string" where
  "role_text FOLLOWER = ''follower''"
| "role_text CANDIDATE = ''candidate''"
| "role_text LEADER = ''leader''"

definition message_row :: "(pyobj \<Rightarrow> string) \<Rightarrow> (name \<Rightarrow> name) \<Rightarrow> message \<Rightarrow> field_row" where
  "message_row rp f m =
     [(''kind'', FName (f (kind_text (body m)))), (''sender'', FName (f (sender m))),
      (''recipient'', FName (f (recipient m))), (''term'', FNat (m_term m))] @ body_row rp f (body m)"

definition node_row :: "(pyobj \<Rightarrow> string) \<Rightarrow> (name \<Rightarrow> name) \<Rightarrow> name \<Rightarrow> node \<Rightarrow> node_row" where
  "node_row rp f p n =
     (f p, current_term n, (case voted_for n of None \<Rightarrow> [] | Some q \<Rightarrow> f q), role_text (role n),
      commit_index n, map (entry_row rp) (entries (log n)))"

definition world_shape :: "(pyobj \<Rightarrow> string) \<Rightarrow> (name \<Rightarrow> name) \<Rightarrow> world \<Rightarrow> world_key" where
  "world_shape rp f w =
     (sort (map (\<lambda>p. node_row rp f p (w_nodes w p)) (w_names w)),
      sort (map (message_row rp f) (pending w)), w_writes w, w_restarts w)"

definition drop_at :: "nat \<Rightarrow> 'a list \<Rightarrow> 'a list" where
  "drop_at i xs = take i xs @ drop (Suc i) xs"

text \<open>\<open>itertools.permutations\<close>, in its order: by the position each is taken from.\<close>

fun orderings :: "nat \<Rightarrow> 'a list \<Rightarrow> 'a list list" where
  "orderings 0 xs = [[]]"
| "orderings (Suc k) xs =
     concat (map (\<lambda>i. map ((#) (xs ! i)) (orderings k (drop_at i xs))) [0..<length xs])"

definition permutations :: "'a list \<Rightarrow> 'a list list" where
  "permutations xs = orderings (length xs) xs"

definition renaming :: "name list \<Rightarrow> name list \<Rightarrow> name \<Rightarrow> name" where
  "renaming ms ns p = (case map_of (zip ms ns) p of None \<Rightarrow> p | Some q \<Rightarrow> q)"

definition world_key :: "(pyobj \<Rightarrow> string) \<Rightarrow> bool \<Rightarrow> world \<Rightarrow> world_key" where
  "world_key rp symmetry w =
     (let plain = world_shape rp (\<lambda>p. p) w in
      if \<not> symmetry then plain
      else fold (\<lambda>ns best. min best (world_shape rp (renaming (world_members w) ns) w))
             (permutations (world_members w)) plain)"

subsection \<open>What can happen next\<close>

definition node_moves :: "nat \<Rightarrow> nat \<Rightarrow> nat \<Rightarrow> world \<Rightarrow> name \<Rightarrow> wmove list" where
  "node_moves max_term max_writes most w p =
     (let n = w_nodes w p in
      (if current_term n < max_term \<and> role n \<noteq> LEADER
       then [\<lparr>mv_kind = TIMEOUT, mv_index = -1, mv_node = p\<rparr>] else []) @
      (if role n = LEADER \<and> w_writes w < max_writes
       then [\<lparr>mv_kind = PROPOSE, mv_index = -1, mv_node = p\<rparr>] else []) @
      (if w_restarts w < most then [\<lparr>mv_kind = RESTART_MOVE, mv_index = -1, mv_node = p\<rparr>] else []))"

definition moves :: "nat \<Rightarrow> nat \<Rightarrow> nat \<Rightarrow> bool \<Rightarrow> world \<Rightarrow> wmove list" where
  "moves max_term max_writes most drops w =
     map (\<lambda>i. \<lparr>mv_kind = DELIVER, mv_index = int i, mv_node = []\<rparr>) [0..<length (pending w)] @
     (if drops then map (\<lambda>i. \<lparr>mv_kind = DROP, mv_index = int i, mv_node = []\<rparr>) [0..<length (pending w)]
      else []) @
     concat (map (node_moves max_term max_writes most w) (sort (w_names w)))"

definition w_node :: "world \<Rightarrow> name \<Rightarrow> node result" where
  "w_node w p = (if p \<in> set (w_names w) then Inr (w_nodes w p) else Inl KeyError)"

definition w_put :: "world \<Rightarrow> name \<Rightarrow> node \<Rightarrow> message list \<Rightarrow> world" where
  "w_put w p n out = w\<lparr>w_nodes := (w_nodes w)(p := n), pending := pending w @ out\<rparr>"

text \<open>\<open>list.pop\<close> at an index a move carries.\<close>

definition pop_at :: "int \<Rightarrow> 'a list \<Rightarrow> ('a \<times> 'a list) result" where
  "pop_at i xs =
     (let k = (if i < 0 then int (length xs) + i else i) in
      if 0 \<le> k \<and> k < int (length xs) then Inr (xs ! nat k, drop_at (nat k) xs) else Inl IndexError)"

text \<open>A node back from a crash.\<close>

definition reborn :: "(int \<Rightarrow> name \<Rightarrow> draws) \<Rightarrow> world \<Rightarrow> name \<Rightarrow> node result" where
  "reborn node_seed w p =
     rbind (w_node w p) (\<lambda>old.
     rbind (Node p (members old) (node_seed (w_seed w) p) False (d_commit_any_term (w_defect w)))
       (\<lambda>fresh. Inr (fresh\<lparr>current_term := current_term old,
          voted_for := (if forgets_the_vote (w_defect w) then None else voted_for old),
          log := log old\<rparr>)))"

definition apply_move :: "(int \<Rightarrow> name \<Rightarrow> draws) \<Rightarrow> world \<Rightarrow> wmove \<Rightarrow> world result" where
  "apply_move node_seed w mv =
     (if mv_kind mv = DELIVER then
        rbind (pop_at (mv_index mv) (pending w)) (\<lambda>(m, rest).
        rbind (w_node w (recipient m)) (\<lambda>n.
        rbind (step_as (maker (w_defect w)) n m) (\<lambda>(n', out).
        Inr (w_put (w\<lparr>pending := rest\<rparr>) (recipient m) n' out))))
      else if mv_kind mv = DROP then
        rbind (pop_at (mv_index mv) (pending w)) (\<lambda>(m, rest).
        Inr (w\<lparr>pending := rest, w_lost := w_lost w + 1\<rparr>))
      else if mv_kind mv = RESTART_MOVE then
        rbind (reborn node_seed w (mv_node mv)) (\<lambda>n.
        Inr ((w_put w (mv_node mv) n [])\<lparr>w_restarts := w_restarts w + 1\<rparr>))
      else if mv_kind mv = TIMEOUT then
        rbind (w_node w (mv_node mv)) (\<lambda>n.
        rbind (stand n) (\<lambda>(n', out). Inr (w_put w (mv_node mv) n' out)))
      else
        rbind (w_node w (mv_node mv)) (\<lambda>n.
        rbind (propose n (PTuple [PStr ''set'', PStr ''k'', PInt (int (w_writes w))])) (\<lambda>(n', i).
        rbind (replicate_to n' None) (\<lambda>out.
        Inr (w_put (w\<lparr>w_writes := w_writes w + 1\<rparr>) (mv_node mv) n' out)))))"

definition start ::
  "(int \<Rightarrow> name \<Rightarrow> draws) \<Rightarrow> defect \<Rightarrow> nat \<Rightarrow> int \<Rightarrow> world result" where
  "start node_seed d k sd =
     (if k < 1 then Inl ConfigError
      else let ms = map (\<lambda>i. CHR ''n'' # decimal i) [0..<k] in
        rbind (rmap (\<lambda>p. Node p ms (node_seed sd p) False (d_commit_any_term d)) ms) (\<lambda>ns.
        Inr \<lparr>w_names = ms, w_nodes = (\<lambda>p. the (map_of (zip ms ns) p)), w_defect = d, w_seed = sd,
             pending = [], w_writes = 0, w_lost = 0, w_restarts = 0\<rparr>))"

section \<open>The check of one state\<close>

text \<open>Who has led each term along a path, as a dictionary of sets.\<close>

type_synonym reigns = "(nat \<times> name list) list"

fun rule_get :: "reigns \<Rightarrow> nat \<Rightarrow> name list" where
  "rule_get [] t = []"
| "rule_get ((u, ns) # rs) t = (if u = t then ns else rule_get rs t)"

fun rule_put :: "reigns \<Rightarrow> nat \<Rightarrow> name list \<Rightarrow> reigns" where
  "rule_put [] t ns = [(t, ns)]"
| "rule_put ((u, ms) # rs) t ns = (if u = t then (u, ns) # rs else (u, ms) # rule_put rs t ns)"

datatype found_detail = AllLead "name list" nat | EntryDiffers nat nat | CommittedTwice nat | Nothing

record violation =
  v_property :: string
  v_detail :: found_detail
  v_path :: "string list"

definition is_violation :: "violation \<Rightarrow> bool" where
  "is_violation v = (v_property v \<noteq> [])"

fun check_reigns :: "(nat \<times> name list) list \<Rightarrow> reigns \<Rightarrow> (nat \<times> name list) option \<times> reigns" where
  "check_reigns [] rs = (None, rs)"
| "check_reigns ((t, ns) # rest) rs =
     (let old = rule_get rs t;
          all = old @ filter (\<lambda>p. p \<notin> set old) ns;
          rs' = rule_put rs t all
      in if length all > 1 then (Some (t, all), rs') else check_reigns rest rs')"

fun check_matching ::
  "(pyobj \<Rightarrow> string) \<Rightarrow> entry list \<Rightarrow> (nat \<Rightarrow> (nat \<times> string) option) \<Rightarrow> entry option" where
  "check_matching rp [] seen = None"
| "check_matching rp (e # es) seen =
     (case seen (e_index e) of
        None \<Rightarrow> check_matching rp es (seen(e_index e \<mapsto> (e_term e, rp (command e))))
      | Some (t, c) \<Rightarrow>
          if t = e_term e \<and> c \<noteq> rp (command e) then Some e else check_matching rp es seen)"

fun check_committed ::
  "(pyobj \<Rightarrow> string) \<Rightarrow> entry list \<Rightarrow> (nat \<Rightarrow> string option) \<Rightarrow> entry option" where
  "check_committed rp [] seen = None"
| "check_committed rp (e # es) seen =
     (if seen (e_index e) \<noteq> None \<and> seen (e_index e) \<noteq> Some (rp (command e)) then Some e
      else check_committed rp es (seen(e_index e \<mapsto> rp (command e))))"

definition world_entries :: "world \<Rightarrow> entry list" where
  "world_entries w = concat (map (\<lambda>p. entries (log (w_nodes w p))) (w_names w))"

definition world_committed :: "world \<Rightarrow> entry list" where
  "world_committed w =
     concat (map (\<lambda>p. filter (\<lambda>e. e_index e \<le> commit_index (w_nodes w p)) (entries (log (w_nodes w p))))
       (w_names w))"

definition check_world ::
  "(pyobj \<Rightarrow> string) \<Rightarrow> world \<Rightarrow> reigns \<Rightarrow> string list \<Rightarrow> violation \<times> reigns" where
  "check_world rp w before path =
     (case check_reigns (world_leaders w) before of
        (Some (t, ns), rs) \<Rightarrow>
          (\<lparr>v_property = ''election safety'', v_detail = AllLead (sort ns) t, v_path = path\<rparr>, rs)
      | (None, rs) \<Rightarrow>
          (case check_matching rp (world_entries w) Map.empty of
             Some e \<Rightarrow>
               (\<lparr>v_property = ''log matching'', v_detail = EntryDiffers (e_index e) (e_term e),
                 v_path = path\<rparr>, rs)
           | None \<Rightarrow>
               (case check_committed rp (world_committed w) Map.empty of
                  Some e \<Rightarrow>
                    (\<lparr>v_property = ''state machine safety'', v_detail = CommittedTwice (e_index e),
                      v_path = path\<rparr>, rs)
                | None \<Rightarrow> (\<lparr>v_property = [], v_detail = Nothing, v_path = path\<rparr>, rs))))"

section \<open>The search\<close>

definition BREADTH :: string where "BREADTH = ''breadth''"
definition DEPTH :: string where "DEPTH = ''depth''"

record bounds =
  b_depth :: nat
  b_states :: nat
  b_term :: nat
  b_writes :: nat
  b_restarts :: nat
  b_drops :: bool
  b_symmetry :: bool
  b_order :: string

definition default_bounds :: bounds where
  "default_bounds =
     \<lparr>b_depth = 14, b_states = 40000, b_term = 4, b_writes = 2, b_restarts = 0, b_drops = False,
      b_symmetry = False, b_order = BREADTH\<rparr>"

record coverage =
  c_states :: nat
  c_depth :: nat
  c_frontier :: nat
  c_violation :: "violation option"
  exhausted :: bool

type_synonym visit = "world \<times> string list \<times> reigns"
type_synonym seen_states = "(world_key \<times> reigns) list"

definition history_key :: "reigns \<Rightarrow> reigns" where
  "history_key rs = sort (map (\<lambda>(t, ns). (t, sort ns)) rs)"

text \<open>
  The inner loop over the moves of one world: it ends the search, on the left, or hands back what
  has been seen and what is still to be looked at.
\<close>

fun expand ::
  "(pyobj \<Rightarrow> string) \<Rightarrow> (int \<Rightarrow> name \<Rightarrow> draws) \<Rightarrow> bounds \<Rightarrow> visit \<Rightarrow> nat \<Rightarrow> nat \<Rightarrow> wmove list \<Rightarrow>
   seen_states \<Rightarrow> visit list \<Rightarrow> (coverage + seen_states \<times> visit list) result" where
  "expand rp node_seed bd v deepest frontier [] seen queue = Inr (Inr (seen, queue))"
| "expand rp node_seed bd v deepest frontier (mv # mvs) seen queue =
     rbind (apply_move node_seed (fst v) mv) (\<lambda>made.
       let here = fst (snd v) @ [move_text mv];
           (found, fresh) = check_world rp made (snd (snd v)) here;
           key = (world_key rp (b_symmetry bd) made, history_key fresh)
       in if is_violation found
          then Inr (Inl \<lparr>c_states = length seen, c_depth = length here, c_frontier = frontier,
            c_violation = Some found, exhausted = False\<rparr>)
          else if key \<in> set seen then expand rp node_seed bd v deepest frontier mvs seen queue
          else if length (key # seen) \<ge> b_states bd
          then Inr (Inl \<lparr>c_states = length (key # seen), c_depth = deepest, c_frontier = frontier + 1,
            c_violation = None, exhausted = False\<rparr>)
          else expand rp node_seed bd v deepest frontier mvs (key # seen) (queue @ [(made, here, fresh)]))"

definition next_visit :: "string \<Rightarrow> visit list \<Rightarrow> visit \<times> visit list" where
  "next_visit ord queue =
     (if ord = BREADTH then (hd queue, tl queue) else (last queue, butlast queue))"

lemma expand_grows:
  "expand rp node_seed bd v deepest frontier mvs seen queue = Inr (Inr (seen', queue')) \<Longrightarrow>
   length seen' + length queue = length seen + length queue' \<and>
   (length seen' = length seen \<or> length seen < length seen' \<and> length seen' < b_states bd)"
proof (induction mvs arbitrary: seen queue)
  case (Cons mv mvs)
  from Cons.prems obtain made where made: "apply_move node_seed (fst v) mv = Inr made"
    by (auto simp: raises)
  define here where "here = fst (snd v) @ [move_text mv]"
  obtain found fresh where c: "check_world rp made (snd (snd v)) here = (found, fresh)" by fastforce
  define key where "key = (world_key rp (b_symmetry bd) made, history_key fresh)"
  have rest: "\<not> is_violation found"
    "key \<notin> set seen \<Longrightarrow> \<not> length (key # seen) \<ge> b_states bd"
    "expand rp node_seed bd v deepest frontier mvs (if key \<in> set seen then seen else key # seen)
       (if key \<in> set seen then queue else queue @ [(made, here, fresh)]) = Inr (Inr (seen', queue'))"
    using Cons.prems by (auto simp: made c here_def [symmetric] key_def [symmetric] Let_def split: if_splits)
  show ?case using Cons.IH [OF rest(3)] rest(2) by (cases "key \<in> set seen") auto
qed simp

lemma next_visit_length:
  "(v, rest) = next_visit ord queue \<Longrightarrow> queue \<noteq> [] \<Longrightarrow> length rest < length queue"
  by (auto simp: next_visit_def split: if_splits)

function search ::
  "(pyobj \<Rightarrow> string) \<Rightarrow> (int \<Rightarrow> name \<Rightarrow> draws) \<Rightarrow> bounds \<Rightarrow> nat \<Rightarrow> nat \<Rightarrow> seen_states \<Rightarrow> visit list \<Rightarrow>
   coverage result" where
  "search rp node_seed bd deepest frontier seen queue =
     (if queue = [] then
        Inr \<lparr>c_states = length seen, c_depth = deepest, c_frontier = frontier, c_violation = None,
             exhausted = True\<rparr>
      else let (v, rest) = next_visit (b_order bd) queue;
               deepest = max deepest (length (fst (snd v)))
           in if length (fst (snd v)) \<ge> b_depth bd
              then search rp node_seed bd deepest (frontier + 1) seen rest
              else rbind (expand rp node_seed bd v deepest frontier
                     (moves (b_term bd) (b_writes bd) (b_restarts bd) (b_drops bd) (fst v)) seen rest)
                   (\<lambda>r. case r of
                      Inl found \<Rightarrow> Inr found
                    | Inr (seen', queue') \<Rightarrow> search rp node_seed bd deepest frontier seen' queue'))"
  by pat_completeness auto

text \<open>Every visit is taken once, and only a state not seen before, of a bounded number, adds one.\<close>

termination
proof (relation "measure (\<lambda>(rp, node_seed, bd, deepest, frontier, seen, queue).
    (b_states bd - length seen) + length queue)", goal_cases)
  case 1
  show ?case by simp
next
  case (2 rp node_seed bd deepest frontier seen queue p v rest d)
  then have "length rest < length queue" using next_visit_length by blast
  then show ?case by simp
next
  case (3 rp node_seed bd deepest frontier seen queue p v rest d r q seen' queue')
  then have "expand rp node_seed bd v d frontier
      (moves (b_term bd) (b_writes bd) (b_restarts bd) (b_drops bd) (fst v)) seen rest = Inr (Inr (seen', queue'))"
    by simp
  note grown = expand_grows [OF this]
  have "length rest < length queue"
    using 3 next_visit_length by blast
  with grown show ?case by auto
qed

declare search.simps [simp del]

definition explore ::
  "(pyobj \<Rightarrow> string) \<Rightarrow> (int \<Rightarrow> name \<Rightarrow> draws) \<Rightarrow> defect \<Rightarrow> nat \<Rightarrow> bounds \<Rightarrow> coverage result" where
  "explore rp node_seed d k bd =
     (if b_depth bd < 1 then Inl ConfigError
      else if b_states bd < 1 then Inl ConfigError
      else if b_order bd \<notin> {BREADTH, DEPTH} then Inl ConfigError
      else rbind (start node_seed d k 0) (\<lambda>root.
        let (u, rs) = check_world rp root [] [] in
        search rp node_seed bd 0 0 [(world_key rp (b_symmetry bd) root, history_key rs)]
          [(root, [], rs)]))"

text \<open>\<open>_paths\<close>, which counts paths instead of states.\<close>

function count_paths :: "(int \<Rightarrow> name \<Rightarrow> draws) \<Rightarrow> nat \<Rightarrow> nat \<Rightarrow> nat \<Rightarrow> (world \<times> nat) list \<Rightarrow> nat result" where
  "count_paths node_seed d budget seen queue =
     (if queue = [] \<or> \<not> seen < budget then Inr seen
      else let (w, at) = hd queue in
        if at \<ge> d then count_paths node_seed d budget (seen + 1) (tl queue)
        else rbind (rmap (apply_move node_seed w)
               (moves (b_term default_bounds) (b_writes default_bounds) 0 False w)) (\<lambda>ws.
             count_paths node_seed d budget (seen + 1) (tl queue @ map (\<lambda>x. (x, at + 1)) ws)))"
  by pat_completeness auto

termination
  by (relation "measure (\<lambda>(node_seed, d, budget, seen, queue). budget - seen)") auto

definition paths :: "(int \<Rightarrow> name \<Rightarrow> draws) \<Rightarrow> defect \<Rightarrow> nat \<Rightarrow> nat \<Rightarrow> nat result" where
  "paths node_seed df d budget =
     rbind (start node_seed df 3 0) (\<lambda>root. count_paths node_seed d budget 0 [(root, 0)])"

end
