(* ===== verification/Log_Growth.thy ===== *)
theory Log_Growth
  imports Node_Handlers
begin

text \<open>
  How fast the handlers of \<open>src/rsm/node.py\<close> let a log grow, and how far the appends they send
  reach. A handler adds at most one entry to a log, and every append it sends is \<open>replicate_one\<close> of the
  node it leaves behind.
\<close>

fun is_append :: "payload \<Rightarrow> bool" where
  "is_append (Append _ _ _ _ _) = True"
| "is_append _ = False"

definition grows :: "nat \<Rightarrow> outcome \<Rightarrow> bool" where
  "grows k r \<longleftrightarrow> (\<forall>n out. r = Inr (n, out) \<longrightarrow> length (entries (log n)) \<le> k \<and>
     (\<forall>m\<in>set out. is_append (body m) \<longrightarrow> (\<exists>q. replicate_one n q = Inr m)))"

definition fits :: "nat \<Rightarrow> node \<Rightarrow> bool" where
  "fits k n \<longleftrightarrow> (\<exists>es. log n = plain es \<and> indexed es \<and> length es \<le> k)"

lemma grows_mono: "grows j r \<Longrightarrow> j \<le> k \<Longrightarrow> grows k r"
  unfolding grows_def by (blast intro: le_trans)

lemma grows_quiet: "fits k n \<Longrightarrow> grows k (Inr (n, []))"
  by (auto simp: grows_def fits_def)

lemma fits_log: "log n' = log n \<Longrightarrow> fits k n \<Longrightarrow> fits k n'"
  by (simp add: fits_def)

lemma fits_mono: "fits j n \<Longrightarrow> j \<le> k \<Longrightarrow> fits k n"
  unfolding fits_def by (meson order_trans)

lemma grows_post:
  assumes "fits k n" "\<And>q. \<not> is_append (f q)"
  shows "grows k (rbind (rmap (\<lambda>q. Message (name n) q (t q) (f q)) ps) (\<lambda>out. Inr (n, out)))"
proof -
  have "\<not> is_append (body m)" if "rmap (\<lambda>q. Message (name n) q (t q) (f q)) ps = Inr out" "m \<in> set out" for out m
    using that assms(2) by (induction ps arbitrary: out) (auto simp: raises)
  with assms(1) show ?thesis by (auto simp: grows_def fits_def raises)
qed

lemma grows_reply: "fits k n \<Longrightarrow> \<not> is_append b \<Longrightarrow> grows k (reply n m b)"
  by (auto simp: grows_def fits_def reply_def raises)

lemma rmap_from: "rmap f xs = Inr ys \<Longrightarrow> y \<in> set ys \<Longrightarrow> \<exists>x\<in>set xs. f x = Inr y"
  by (induction xs arbitrary: ys) (auto simp: raises)

lemma grows_replicate:
  assumes "fits k n"
  shows "grows k (rbind (replicate_to n to) (\<lambda>out. Inr (n, out)))"
  using assms rmap_from [of "replicate_one n"] unfolding grows_def fits_def replicate_to_def
  by (fastforce simp: raises)

lemma append1_plain_Inr: "append1 (plain es) e = Inr l \<Longrightarrow> l = plain (es @ [e])"
  by (auto simp: append1_def split: if_splits option.splits)

lemma fits_append:
  assumes "log n = plain es" "indexed es" "length es \<le> k" "append1 (log n) e = Inr l"
    "e_index e = last_index (log n) + 1"
  shows "l = plain (es @ [e])" "indexed (es @ [e])" "length (es @ [e]) \<le> k + 1"
  using append1_plain_Inr assms by (auto simp: indexed_append1 plain_log)

lemma fits_commit:
  assumes "fits k n" "advance_commit n = Inr n'"
  shows "fits k n'"
  using assms advance_commit_keeps(1) unfolding fits_def by metis

lemma fits_apply: "fits k n \<Longrightarrow> apply_ready n = Inr n' \<Longrightarrow> fits k n'"
  using apply_committed_plain unfolding fits_def apply_ready_def by (fastforce simp: raises)

lemma grows_become_leader:
  assumes "fits k n"
  shows "grows (k + 1) (become_leader n)"
proof -
  obtain es where es: "log n = plain es" "indexed es" "length es \<le> k" using assms by (auto simp: fits_def)
  define n1 where "n1 = n\<lparr>role := LEADER, leader := Some (name n), votes := {},
    next_index := (\<lambda>p. if p \<in> set (peers n) then Some (last_index (log n) + 1) else None),
    match_index := (\<lambda>p. if p \<in> set (peers n) then Some NO_INDEX else None)\<rparr>"
  have n1: "log n1 = log n" by (simp add: n1_def)
  define n2 where "n2 l = n1\<lparr>log := l, match_index := (match_index n1)(name n1 \<mapsto> last_index l),
    heartbeat_due := now n1 + HEARTBEAT_INTERVAL\<rparr>" for l
  have eq: "become_leader n = rbind (Entry (current_term n1) (last_index (log n1) + 1) PNone) (\<lambda>e.
      rbind (append1 (log n1) e) (\<lambda>l.
      rbind (if length (members (n2 l)) = 1 then advance_commit (n2 l) else Inr (n2 l)) (\<lambda>n3.
      rbind (replicate_to n3 None) (\<lambda>out. Inr (n3, out)))))"
    unfolding become_leader_def Let_def n1_def n2_def by (rule refl)
  show ?thesis
    unfolding grows_def
  proof (intro allI impI)
    fix n' out assume "become_leader n = Inr (n', out)"
    then obtain e l n3 where e: "Entry (current_term n1) (last_index (log n1) + 1) PNone = Inr e"
      and l: "append1 (log n1) e = Inr l"
      and n3: "(if length (members (n2 l)) = 1 then advance_commit (n2 l) else Inr (n2 l)) = Inr n3"
      and r: "rbind (replicate_to n3 None) (\<lambda>out. Inr (n3, out)) = Inr (n', out)"
      unfolding eq rbind_eq_Inr by blast
    have ix: "e_index e = last_index (log n1) + 1" using e by (auto simp: Entry_def split: if_splits)
    have "fits (k + 1) (n2 l)"
      using fits_append [OF es(1) [folded n1] es(2,3) l ix] unfolding fits_def n2_def by auto
    then have "fits (k + 1) n3" using n3 fits_commit by (auto split: if_splits)
    from grows_replicate [OF this] r show "length (entries (log n')) \<le> k + 1 \<and>
      (\<forall>m\<in>set out. is_append (body m) \<longrightarrow> (\<exists>q. replicate_one n' q = Inr m))"
      unfolding grows_def by blast
  qed
qed

lemma grows_stand:
  assumes "fits k n"
  shows "grows (k + 1) (stand n)" "grows (k + 1) (become_candidate n)"
proof -
  define n1 where "n1 = reset_election_timer (n\<lparr>current_term := current_term n + 1, role := CANDIDATE,
    voted_for := Some (name n), leader := None, votes := {name n}, pre_votes := {}\<rparr>)"
  have n1: "fits k n1" using assms by (rule fits_log [rotated]) (simp add: n1_def unseen)
  show cand: "grows (k + 1) (become_candidate n)"
    using grows_become_leader [OF n1] fits_mono [OF n1, of "k + 1"]
    unfolding become_candidate_def n1_def [symmetric] Let_def by (auto intro: grows_post)
  define n2 where "n2 = reset_election_timer (n\<lparr>pre_votes := {name n}\<rparr>)"
  have n2: "fits (k + 1) n2"
    using fits_mono [OF assms, of "k + 1"] by (auto intro: fits_log [rotated] simp: n2_def unseen)
  have "grows (k + 1) (become_pre_candidate n)"
    using n2 unfolding become_pre_candidate_def n2_def [symmetric] Let_def by (auto intro: grows_post)
  with cand show "grows (k + 1) (stand n)" by (simp add: stand_def)
qed

lemma grows_vote:
  assumes "fits k n"
  shows "grows (k + 1) (on_vote n m g pv)"
proof -
  have "fits k (n\<lparr>votes := v\<rparr>)" "fits k (n\<lparr>pre_votes := v\<rparr>)" for v
    using assms by (auto intro: fits_log [rotated])
  then show ?thesis
    using grows_become_leader grows_stand(2) fits_mono [of k _ "k + 1"] assms
    by (auto simp: on_vote_def on_pre_vote_def Let_def intro: grows_quiet)
qed

lemma grows_request_vote:
  assumes "fits k n"
  shows "grows k (on_request_vote n m li lt pv)"
proof -
  have "fits k (reset_election_timer (n\<lparr>voted_for := v\<rparr>))" for v
    using assms by (rule fits_log [rotated]) (simp add: unseen)
  then show ?thesis using assms by (auto simp: on_request_vote_def Let_def intro!: grows_reply)
qed

lemma take_entries_fits:
  "indexed own \<Longrightarrow> length own \<le> k \<Longrightarrow> \<forall>e\<in>set es. e_index e \<le> k \<Longrightarrow> take_entries (plain own) es = Inr l \<Longrightarrow>
   \<exists>fs. l = plain fs \<and> indexed fs \<and> length fs \<le> k"
proof (induction es arbitrary: own)
  case (Cons e es)
  have place: "\<exists>fs. place (plain os) e = plain fs \<and> indexed fs \<and> length fs \<le> k"
    if "indexed os" "length os \<le> k" for os
    using that Cons.prems(3) by (auto simp: place_def plain_log indexed_append1)
  have rest: "take_entries (plain os) es = Inr l \<Longrightarrow> indexed os \<Longrightarrow> length os \<le> k \<Longrightarrow> ?case" for os
    using Cons.IH [of os] Cons.prems(3) by simp
  show ?case
  proof (cases "holds (plain own) (e_index e)")
    case True
    then have i: "1 \<le> e_index e" "e_index e \<le> length own" using Cons.prems(1) by (simp_all add: plain_log)
    let ?own = "take (e_index e - 1) own"
    obtain fs where fs: "place (plain ?own) e = plain fs" "indexed fs" "length fs \<le> k"
      using place [OF indexed_take [OF Cons.prems(1)], of "e_index e - 1"] Cons.prems(2) by force
    show ?thesis
      using Cons.prems i fs rest [of own] rest [of fs] True
      by (auto simp: plain_log split: if_splits)
  next
    case False
    obtain fs where "place (plain own) e = plain fs" "indexed fs" "length fs \<le> k"
      using place Cons.prems(1,2) by blast
    with rest [of fs] False Cons.prems(4) show ?thesis by simp
  qed
qed auto

lemma grows_append:
  assumes "fits k n" "\<forall>e\<in>set es. e_index e \<le> k"
  shows "grows k (on_append n m pi pt es lc rid)"
proof -
  define n1 where "n1 = n\<lparr>leader := Some (sender m)\<rparr>"
  define n3 where "n3 = reset_election_timer (if role n1 \<noteq> FOLLOWER
    then (become_follower n1 (m_term m) (Some (sender m)))\<lparr>leader := Some (sender m)\<rparr> else n1)"
  have n3: "fits k n3" using assms(1)
    by (rule fits_log [rotated]) (simp add: n3_def n1_def become_follower_def Let_def unseen)
  then obtain own where own: "log n3 = plain own" "indexed own" "length own \<le> k" by (auto simp: fits_def)
  have eq: "on_append n m pi pt es lc rid = rbind (matches (log n3) pi pt) (\<lambda>ok.
      if \<not> ok then conflict n3 m pi rid
      else rbind (take_entries (log n3) es) (\<lambda>l.
        rbind (if lc > commit_index (n3\<lparr>log := l\<rparr>)
               then apply_ready ((n3\<lparr>log := l\<rparr>)\<lparr>commit_index := min lc (last_index (log (n3\<lparr>log := l\<rparr>)))\<rparr>)
               else Inr (n3\<lparr>log := l\<rparr>)) (\<lambda>n5.
        reply n5 m (Appended True (append_last_index pi es) NO_TERM NO_INDEX rid))))"
    unfolding on_append_def n3_def n1_def Let_def by (rule refl)
  have conflict: "grows k (conflict n3 m pi rid)"
    using n3 by (auto simp: conflict_def grows_def fits_def reply_def raises split: if_splits)
  show ?thesis
    unfolding grows_def
  proof (intro allI impI)
    fix n' out assume r: "on_append n m pi pt es lc rid = Inr (n', out)"
    then obtain ok where ok: "(if \<not> ok then conflict n3 m pi rid else rbind (take_entries (log n3) es) (\<lambda>l.
        rbind (if lc > commit_index (n3\<lparr>log := l\<rparr>)
               then apply_ready ((n3\<lparr>log := l\<rparr>)\<lparr>commit_index := min lc (last_index (log (n3\<lparr>log := l\<rparr>)))\<rparr>)
               else Inr (n3\<lparr>log := l\<rparr>)) (\<lambda>n5.
        reply n5 m (Appended True (append_last_index pi es) NO_TERM NO_INDEX rid)))) = Inr (n', out)"
      unfolding eq by (auto simp only: rbind_eq_Inr)
    have "grows k (Inr (n', out))"
    proof (cases ok)
      case False
      then show ?thesis using conflict ok by simp
    next
      case True
      with ok obtain l n5 where l: "take_entries (log n3) es = Inr l"
        and n5: "(if lc > commit_index (n3\<lparr>log := l\<rparr>)
               then apply_ready ((n3\<lparr>log := l\<rparr>)\<lparr>commit_index := min lc (last_index (log (n3\<lparr>log := l\<rparr>)))\<rparr>)
               else Inr (n3\<lparr>log := l\<rparr>)) = Inr n5"
        and r5: "reply n5 m (Appended True (append_last_index pi es) NO_TERM NO_INDEX rid) = Inr (n', out)"
        by (simp only: rbind_eq_Inr simp_thms if_False) blast
      have f4: "fits k (n3\<lparr>log := l\<rparr>)" "fits k ((n3\<lparr>log := l\<rparr>)\<lparr>commit_index := i\<rparr>)" for i
        using take_entries_fits [OF own(2,3) assms(2) l [unfolded own(1)]] by (auto simp: fits_def)
      have "fits k n5" using n5 f4 fits_apply by (auto simp only: Inr_inject split: if_splits)
      from grows_reply [OF this, of "Appended True (append_last_index pi es) NO_TERM NO_INDEX rid" m] r5
      show ?thesis by simp
    qed
    then show "length (entries (log n')) \<le> k \<and> (\<forall>m\<in>set out. is_append (body m) \<longrightarrow> (\<exists>q. replicate_one n' q = Inr m))"
      by (simp add: grows_def)
  qed
qed

lemma grows_appended:
  assumes "fits k n"
  shows "grows k (on_appended n m ok mi ct ci)"
proof -
  have rec: "fits k (record_match n q i)" for q i
    using assms by (rule fits_log [rotated]) (simp add: record_match_def Let_def)
  have "fits k (n\<lparr>next_index := x\<rparr>)" for x using assms by (rule fits_log [rotated]) simp
  note retry = grows_replicate [OF this]
  have ack: "grows k (if mget (next_index n1) (sender m) 0 \<le> last_index (log n1)
      then rbind (replicate_to n1 (Some (sender m))) (\<lambda>out. Inr (n1, out)) else Inr (n1, []))"
    if "advance_commit (record_match n (sender m) mi) = Inr n1" for n1
  proof -
    have "fits k n1" by (rule fits_commit [OF rec that])
    then show ?thesis using grows_replicate grows_quiet by simp
  qed
  have bind: "grows k (rbind r f)" if "\<And>x. r = Inr x \<Longrightarrow> grows k (f x)" for r :: "'x result" and f
    using that by (cases r) (auto simp: grows_def)
  let ?found = "if ct \<noteq> NO_TERM then skip_term n ct ci else Inr (max ci (first_index (log n)))"
  have refused: "grows k (rbind ?found (\<lambda>ni. let n1 = n\<lparr>next_index := (next_index n)(sender m \<mapsto> ni)\<rparr> in
      rbind (replicate_to n1 (Some (sender m))) (\<lambda>out. Inr (n1, out))))"
    unfolding Let_def by (rule bind) (rule retry)
  have "grows k (rbind (advance_commit (record_match n (sender m) mi)) (\<lambda>n1.
      if mget (next_index n1) (sender m) 0 \<le> last_index (log n1)
      then rbind (replicate_to n1 (Some (sender m))) (\<lambda>out. Inr (n1, out)) else Inr (n1, [])))"
    by (rule bind) (rule ack)
  with refused grows_quiet [OF assms] show ?thesis unfolding on_appended_def by simp
qed

lemma grows_step:
  assumes n: "fits k n" and m: "msg_ok b ms s m" "inv ms s"
    and reach: "\<And>pi pt es lc rid. body m = Append pi pt es lc rid \<Longrightarrow> pi + length es \<le> k"
  shows "grows (k + 1) (step n m)"
proof -
  have n1: "fits (k + 1) n" by (rule fits_mono [OF n]) simp
  have dispatch: "grows (k + 1) (dispatch n m)" if n: "fits k n" for n
  proof -
    have n1: "fits (k + 1) n" by (rule fits_mono [OF n]) simp
    show ?thesis
    proof (cases "body m")
      case (Append pi pt es lc rid)
      have es: "es = take (length es) (drop pi (llog s (m_term m)))" "pi + length es \<le> length (llog s (m_term m))"
        using m(1) Append by (auto simp: msg_ok_def)
      have "e_index e \<le> k" if "e \<in> set es" for e
      proof -
        from that obtain i where "i < length es" "e = es ! i" unfolding in_set_conv_nth by blast
        moreover from this have "e = llog s (m_term m) ! (pi + i)" using es by (metis nth_drop nth_take less_imp_le add_leD1 le_add1 order_trans)
        moreover have "indexed (llog s (m_term m))"
          using m(2) unfolding pinv_def logs_ok_def good_def by blast
        moreover have "pi + i < length (llog s (m_term m))" using \<open>i < length es\<close> es(2) by simp
        ultimately have "e_index e = pi + i + 1" unfolding indexed_def by metis
        with \<open>i < length es\<close> reach [OF Append] show ?thesis by simp
      qed
      then have "grows k (on_append n m pi pt es lc rid)" using grows_append [OF n] by blast
      then show ?thesis using Append by (simp add: dispatch_def grows_mono)
    next
      case (RequestVote li lt pv)
      then show ?thesis using grows_request_vote [OF n1] by (simp add: dispatch_def)
    next
      case (Vote g pv)
      then show ?thesis using grows_vote [OF n] by (simp add: dispatch_def)
    next
      case (Appended ok mi ct ci rid)
      then show ?thesis using grows_appended [OF n1] by (simp add: dispatch_def)
    qed (use m(1) in \<open>auto simp: msg_ok_def\<close>)
  qed
  have refuse: "grows (k + 1) (refuse n m)"
    using grows_reply [OF n1] grows_quiet [OF n1] by (auto simp: refuse_def split: payload.split)
  have "fits k (become_follower n t l)" for t l
    using n by (rule fits_log [rotated]) (simp add: become_follower_def Let_def unseen)
  with dispatch [OF n] dispatch refuse show ?thesis by (simp add: step_def)
qed

lemma propose_fits:
  assumes "fits k n" "propose n c = Inr (n', i)"
  shows "fits (k + 1) n'"
proof -
  obtain es where es: "log n = plain es" "indexed es" "length es \<le> k" using assms(1) by (auto simp: fits_def)
  obtain e l n2 where e: "Entry (current_term n) (last_index (log n) + 1) c = Inr e"
    and l: "append1 (log n) e = Inr l"
    and n2: "(if length (members n) = 1
      then advance_commit (n\<lparr>log := l, match_index := (match_index n)(name n \<mapsto> last_index l)\<rparr>)
      else Inr (n\<lparr>log := l, match_index := (match_index n)(name n \<mapsto> last_index l)\<rparr>)) = Inr n'"
    using assms(2) by (auto simp: propose_def Let_def rbind_eq_Inr split: if_splits)
  have ix: "e_index e = last_index (log n) + 1" using e by (auto simp: Entry_def split: if_splits)
  have "fits (k + 1) (n\<lparr>log := l, match_index := (match_index n)(name n \<mapsto> last_index l)\<rparr>)"
    using fits_append [OF es l ix] unfolding fits_def by auto
  then show ?thesis using n2 fits_commit by (auto split: if_splits)
qed

text \<open>A log that fits a batch is sent whole, so what a leader has committed is inside the append.\<close>

lemma replicated_snug:
  assumes "replicate_one n q = Inr m" "is_append (body m)" "log n = plain es" "indexed es"
    "length es \<le> MAX_BATCH" "commit_index n \<le> length es"
  shows "snug m" "\<And>pi pt fs lc rid. body m = Append pi pt fs lc rid \<Longrightarrow> pi + length fs \<le> length es"
proof -
  define start where "start = min (mget (next_index n) q (last_index (log n) + 1)) (last_index (log n) + 1)"
  have eq: "replicate_one n q = (if start \<le> snapshot_index (log n)
      then Message (name n) q (current_term n)
        (InstallSnapshot (snapshot_index (log n)) (snapshot_term (log n)) (state n) (members n))
      else rbind (log_slice (log n) start (Some (start + MAX_BATCH - 1))) (\<lambda>fs.
        rbind (term_at (log n) (start - 1)) (\<lambda>pt.
        Message (name n) q (current_term n) (Append (start - 1) pt fs (commit_index n) 0))))"
    unfolding replicate_one_def start_def Let_def by (rule refl)
  have start: "1 \<le> start" "start \<le> length es + 1"
    using assms(1-3) unfolding eq by (auto simp: raises Suc_le_eq split: if_splits)
      (simp add: start_def assms(3,4) plain_log)
  let ?fs = "take (min (start + MAX_BATCH - 1) (length es) - (start - 1)) (drop (start - 1) es)"
  have "body m = Append (start - 1) (term_of es (start - 1)) ?fs (commit_index n) 0"
    using assms(1) start slice_plain [OF assms(4) start(1), of "start + MAX_BATCH - 1"]
      term_at_plain [OF assms(4), of "start - 1"]
    unfolding eq assms(3) by (auto simp: Message_Inr)
  moreover have "min (start + MAX_BATCH - 1) (length es) = length es" by (rule min.absorb2) (use start(1) assms(5) in linarith)
  then have "start - 1 + length ?fs = length es" using start(2) by simp
  ultimately show "snug m" "\<And>pi pt fs lc rid. body m = Append pi pt fs lc rid \<Longrightarrow> pi + length fs \<le> length es"
    using assms(6) by auto
qed

end
