(* ===== verification/Exploration_Safety.thy ===== *)
theory Exploration_Safety
  imports Exploration Log_Growth
begin

text \<open>
  The search of \<open>src/rsm/verify/explore.py\<close> over the shipped nodes: whatever order the pending
  messages arrive in, whichever are dropped and whichever nodes time out, restart or write, every
  world stands for a reachable state of the protocol. So the search ends, raises nothing and never
  reports two leaders or two entries for one index and term. As long as no log outgrows a batch,
  which a search of at most \<open>MAX_BATCH\<close> moves cannot make it do, it reports nothing at all.
\<close>

section \<open>The invariant of a world\<close>

definition world_ok :: "bool \<Rightarrow> name list \<Rightarrow> world \<Rightarrow> name protocol \<Rightarrow> bool" where
  "world_ok b ms w s \<longleftrightarrow>
     w_names w = ms \<and> distinct ms \<and> keeps_every_rule (w_defect w) \<and> inv ms s \<and>
     (\<forall>p\<in>set ms. node_sim b ms p (w_nodes w p) s) \<and> (\<forall>m\<in>set (pending w). msg_ok b ms s m)"

lemma world_okD:
  assumes "world_ok b ms w s"
  shows "w_names w = ms" "distinct ms" "keeps_every_rule (w_defect w)" "inv ms s"
    "p \<in> set ms \<Longrightarrow> node_sim b ms p (w_nodes w p) s" "m \<in> set (pending w) \<Longrightarrow> msg_ok b ms s m"
  using assms by (auto simp: world_ok_def)

text \<open>Fields the protocol does not see, and fewer messages.\<close>

lemma world_ok_less:
  assumes "world_ok b ms w s" "w_names w' = w_names w" "w_defect w' = w_defect w"
    "w_nodes w' = w_nodes w" "set (pending w') \<subseteq> set (pending w)"
  shows "world_ok b ms w' s"
  using assms by (auto simp: world_ok_def)

lemma w_put_ok:
  assumes ok: "world_ok b ms w s" and runs: "run ms p s s'" and sim: "node_sim b ms p n s'"
    and out: "\<forall>m\<in>set out. msg_ok b ms s' m"
  shows "world_ok b ms (w_put w p n out) s'" "ahead s s'"
proof -
  note inv = world_okD(4) [OF ok]
  show ahead: "ahead s s'" by (rule run_ahead [OF runs inv])
  have frame: "frame p s s'" using runs by (simp add: run_def)
  have "node_sim b ms q (w_nodes (w_put w p n out) q) s'" if "q \<in> set ms" for q
    using node_sim_frame [OF world_okD(5) [OF ok that] frame ahead] sim
    by (cases "q = p") (auto simp: w_put_def)
  moreover have "msg_ok b ms s' m" if "m \<in> set (pending w)" for m
    using msg_ok_ahead [OF world_okD(6) [OF ok that] ahead] by simp
  ultimately show "world_ok b ms (w_put w p n out) s'"
    using ok run_inv [OF runs inv] out by (auto simp: world_ok_def w_put_def)
qed

lemma refines_put:
  assumes ok: "world_ok b ms w s" and r: "refines b ms p s r"
  obtains n out s' where "r = Inr (n, out)" "world_ok b ms (w_put w p n out) s'" "ahead s s'"
  using r w_put_ok [OF ok] unfolding refines_def by blast

lemma pop_at_in: "i < length xs \<Longrightarrow> pop_at (int i) xs = Inr (xs ! i, drop_at i xs)"
  by (simp add: pop_at_def)

lemma set_drop_at: "set (drop_at i xs) \<subseteq> set xs"
  by (auto simp: drop_at_def dest: in_set_takeD in_set_dropD)

lemma kinds_apart [simp]:
  "DELIVER \<noteq> TIMEOUT" "DELIVER \<noteq> PROPOSE" "DELIVER \<noteq> DROP" "DELIVER \<noteq> RESTART_MOVE"
  "TIMEOUT \<noteq> DELIVER" "PROPOSE \<noteq> DELIVER" "DROP \<noteq> DELIVER" "RESTART_MOVE \<noteq> DELIVER"
  "TIMEOUT \<noteq> DROP" "PROPOSE \<noteq> DROP" "RESTART_MOVE \<noteq> DROP" "TIMEOUT \<noteq> RESTART_MOVE" "PROPOSE \<noteq> RESTART_MOVE"
  "PROPOSE \<noteq> TIMEOUT"
  by (simp_all add: move_names)

text \<open>A move offered is one of five things, and it can be made.\<close>

lemma moves_cases:
  assumes "mv \<in> set (moves mt mw most drops w)"
  obtains (deliver) i where "mv_kind mv = DELIVER" "mv_index mv = int i" "i < length (pending w)"
  | (drop) i where "mv_kind mv = DROP" "mv_index mv = int i" "i < length (pending w)"
  | (restart) "mv_kind mv = RESTART_MOVE" "mv_node mv \<in> set (w_names w)"
  | (timeout) "mv_kind mv = TIMEOUT" "mv_node mv \<in> set (w_names w)"
  | (propose) "mv_kind mv = PROPOSE" "mv_node mv \<in> set (w_names w)" "role (w_nodes w (mv_node mv)) = LEADER"
  using assms by (auto simp: moves_def node_moves_def Let_def split: if_splits)

lemma reborn_sim:
  assumes ok: "world_ok b ms w s" and p: "p \<in> set ms"
  shows "\<exists>n s'. reborn node_seed w p = Inr n \<and> run ms p s s' \<and> node_sim b ms p n s' \<and>
    log n = log (w_nodes w p)"
proof -
  let ?old = "w_nodes w p" and ?s = "s\<lparr>acommit := (acommit s)(p := 0)\<rparr>"
  note sim = world_okD(5) [OF ok p]
  have d: "d_commit_any_term (w_defect w) = False" "\<not> forgets_the_vote (w_defect w)"
    using world_okD(3) [OF ok] by (simp_all add: keeps_every_rule_def)
  obtain fresh where fresh: "Node p ms (node_seed (w_seed w) p) False False = Inr fresh"
    using p world_okD(2) [OF ok] by (simp add: Node_def)
  define n where "n = fresh\<lparr>current_term := current_term ?old, voted_for := voted_for ?old, log := log ?old\<rparr>"
  have "reborn node_seed w p = Inr n"
    using p world_okD(1) [OF ok] d fresh node_simD(2) [OF sim]
    by (simp add: reborn_def w_node_def n_def)
  moreover have "run ms p s ?s"
    by (intro run_one [OF pstep.learn]) (auto simp: covered_def frame_def)
  moreover have "node_sim b ms p n ?s"
  proof -
    have "role fresh = FOLLOWER" "commit_index fresh = 0" "last_applied fresh = 0" "applied fresh = []"
        "state fresh = []" "name fresh = p" "members fresh = ms" "\<not> commit_any_term fresh"
      using fresh by (auto simp: Node_def unseen NO_INDEX_def split: if_splits)
    then show ?thesis
      using node_simD [OF sim] unfolding n_def by (simp add: unseen) (simp add: node_sim_def replay_def)
  qed
  ultimately show ?thesis by (intro exI [of _ n] exI [of _ ?s]) (simp add: n_def)
qed

lemma apply_ok:
  assumes ok: "world_ok b ms w s" and mv: "mv \<in> set (moves mt mw most drops w)"
    and tight: "b \<longrightarrow> (\<forall>m\<in>set (pending w). snug m)"
  shows "\<exists>w' s'. apply_move node_seed w mv = Inr w' \<and> world_ok b ms w' s' \<and> ahead s s'"
  using mv
proof (cases rule: moves_cases)
  case (deliver i)
  define m where "m = pending w ! i"
  have m: "m \<in> set (pending w)" using deliver(3) by (simp add: m_def)
  then have *: "msg_ok b ms s m" by (rule world_okD(6) [OF ok])
  then have p: "recipient m \<in> set ms" by (simp add: msg_ok_def)
  let ?w = "w\<lparr>pending := drop_at i (pending w)\<rparr>"
  have ok': "world_ok b ms ?w s" by (rule world_ok_less [OF ok]) (simp_all add: set_drop_at)
  have "refines b ms (recipient m) s (step (w_nodes w (recipient m)) m)"
    using step_sim [OF world_okD(4) [OF ok] world_okD(5) [OF ok p] world_okD(2) [OF ok] p * refl] tight m
    by blast
  from refines_put [OF ok' this] obtain n out s' where
    "step (w_nodes w (recipient m)) m = Inr (n, out)" "world_ok b ms (w_put ?w (recipient m) n out) s'" "ahead s s'" .
  then show ?thesis
    using deliver p world_okD(1,3) [OF ok]
    by (auto simp: apply_move_def pop_at_in w_node_def m_def keeps_every_rule_def)
next
  case (drop i)
  let ?w = "w\<lparr>pending := drop_at i (pending w), w_lost := w_lost w + 1\<rparr>"
  have "world_ok b ms ?w s" by (rule world_ok_less [OF ok]) (simp_all add: set_drop_at)
  then show ?thesis using drop ahead_refl by (auto simp: apply_move_def pop_at_in)
next
  case restart
  let ?p = "mv_node mv"
  have p: "?p \<in> set ms" using restart world_okD(1) [OF ok] by simp
  obtain n s' where n: "reborn node_seed w ?p = Inr n" "run ms ?p s s'" "node_sim b ms ?p n s'"
    using reborn_sim [OF ok p] by blast
  have "world_ok b ms (w_put w ?p n []) s'" "ahead s s'" using w_put_ok [OF ok n(2,3), of "[]"] by simp_all
  moreover from this(1) have "world_ok b ms ((w_put w ?p n [])\<lparr>w_restarts := w_restarts w + 1\<rparr>) s'"
    by (rule world_ok_less) simp_all
  ultimately show ?thesis using restart(1) n(1) by (auto simp: apply_move_def)
next
  case timeout
  have p: "mv_node mv \<in> set ms" using timeout world_okD(1) [OF ok] by simp
  from refines_put [OF ok stand_sim [OF world_okD(4) [OF ok] world_okD(5) [OF ok p] world_okD(2) [OF ok] p]]
  obtain n out s' where "stand (w_nodes w (mv_node mv)) = Inr (n, out)"
    "world_ok b ms (w_put w (mv_node mv) n out) s'" "ahead s s'" .
  then show ?thesis using timeout by (auto simp: apply_move_def w_node_def)
next
  case propose
  let ?p = "mv_node mv" and ?c = "PTuple [PStr ''set'', PStr ''k'', PInt (int (w_writes w))]"
  have p: "?p \<in> set ms" using propose world_okD(1) [OF ok] by simp
  obtain n s' i where n: "propose (w_nodes w ?p) ?c = Inr (n, i)" "run ms ?p s s'"
    "node_sim b ms ?p n s'" "role n = LEADER"
    using propose_sim [OF world_okD(4) [OF ok] world_okD(5) [OF ok p] world_okD(2) [OF ok] propose(3)] by blast
  obtain out where out: "replicate_to n None = Inr out" "\<forall>m\<in>set out. msg_ok b ms s' m"
    using replicate_sim [OF run_inv [OF n(2) world_okD(4) [OF ok]] n(3,4) p, of None] by auto
  let ?w = "w\<lparr>w_writes := w_writes w + 1\<rparr>"
  have ok': "world_ok b ms ?w s" by (rule world_ok_less [OF ok]) simp_all
  have "world_ok b ms (w_put ?w ?p n out) s'" "ahead s s'" using w_put_ok [OF ok' n(2,3) out(2)] .
  then show ?thesis using propose n(1) out(1) by (auto simp: apply_move_def w_node_def)
qed

section \<open>The check finds nothing\<close>

definition reigns_ok :: "(nat \<times> name list) list \<Rightarrow> name protocol \<Rightarrow> bool" where
  "reigns_ok rs s \<longleftrightarrow> (\<forall>(t, ns)\<in>set rs. distinct ns \<and> (\<forall>p\<in>set ns. lead s t = Some p))"

lemma reigns_ahead: "reigns_ok rs s \<Longrightarrow> ahead s s' \<Longrightarrow> reigns_ok rs s'"
  unfolding reigns_ok_def ahead_def by fast

lemma one_ruler:
  assumes "distinct ns" "\<forall>p\<in>set ns. l = Some p"
  shows "length ns \<le> 1"
proof (cases ns)
  case (Cons p rest)
  then show ?thesis using assms by (cases rest) auto
qed simp

lemma rule_get_in: "rule_get rs t \<noteq> [] \<Longrightarrow> (t, rule_get rs t) \<in> set rs"
  by (induction rs t rule: rule_get.induct) auto

lemma rule_put_in: "(u, ns) \<in> set (rule_put rs t ms) \<Longrightarrow> (u, ns) = (t, ms) \<or> (u, ns) \<in> set rs"
  by (induction rs t ms rule: rule_put.induct) (auto split: if_splits)

lemma check_reigns_silent:
  "reigns_ok ls s \<Longrightarrow> reigns_ok rs s \<Longrightarrow> \<exists>rs'. check_reigns ls rs = (None, rs') \<and> reigns_ok rs' s"
proof (induction ls rs rule: check_reigns.induct)
  case (2 t ns rest rs)
  define both where "both = rule_get rs t @ filter (\<lambda>p. p \<notin> set (rule_get rs t)) ns"
  have old: "distinct (rule_get rs t)" "\<forall>p\<in>set (rule_get rs t). lead s t = Some p"
    using rule_get_in [of rs t] 2(3) by (cases "rule_get rs t = []"; auto simp: reigns_ok_def)+
  then have new: "distinct both" "\<forall>p\<in>set both. lead s t = Some p"
    using 2(2) by (auto simp: both_def reigns_ok_def)
  then have "length both \<le> 1" by (rule one_ruler)
  moreover have "reigns_ok (rule_put rs t both) s"
    using new 2(3) rule_put_in unfolding reigns_ok_def by fast
  moreover have "reigns_ok rest s" using 2(2) by (simp add: reigns_ok_def)
  moreover have "check_reigns ((t, ns) # rest) rs = check_reigns rest (rule_put rs t both)"
    using \<open>length both \<le> 1\<close> unfolding both_def by (simp add: Let_def)
  ultimately show ?case
    using 2(1) [OF refl both_def] by simp
qed simp

lemma fold_if: "fold (\<lambda>p out. if P p then f p out else out) xs a = fold f (filter P xs) a"
  by (induction xs arbitrary: a) auto

lemma world_leaders_ok:
  assumes ok: "world_ok b ms w s"
  shows "reigns_ok (world_leaders w) s"
proof -
  let ?P = "\<lambda>t p. lead s t = Some p"
  let ?xs = "filter (\<lambda>p. role (w_nodes w p) = LEADER) ms"
  have "world_leaders w = fold (\<lambda>p. add_under (current_term (w_nodes w p)) (name (w_nodes w p))) ?xs []"
    unfolding world_leaders_def Let_def world_okD(1) [OF ok] by (rule fold_if)
  also have "\<dots> = fold (\<lambda>p. add_under (current_term (w_nodes w p)) p) ?xs []"
    by (rule fold_cong) (use node_simD(1) [OF world_okD(5) [OF ok]] in auto)
  finally have eq: "world_leaders w = fold (\<lambda>p. add_under (current_term (w_nodes w p)) p) ?xs []" .
  have lead: "\<forall>p\<in>set ?xs. ?P (current_term (w_nodes w p)) p"
    using node_sim_leaderD(1) [OF world_okD(5) [OF ok]] node_simD(4) [OF world_okD(5) [OF ok]] by auto
  show ?thesis
    unfolding reigns_ok_def eq
    using grouped_leaders [where P = ?P and out = "[]" and xs = ?xs, OF _ lead] world_okD(2) [OF ok] by auto
qed

definition noted :: "(pyobj \<Rightarrow> string) \<Rightarrow> entry set \<Rightarrow> (nat \<Rightarrow> (nat \<times> string) option) \<Rightarrow> bool" where
  "noted rp E seen \<longleftrightarrow>
     (\<forall>i t c. seen i = Some (t, c) \<longrightarrow> (\<exists>e\<in>E. e_index e = i \<and> e_term e = t \<and> rp (command e) = c))"

lemma check_matching_silent:
  assumes "\<forall>e\<in>E. \<forall>f\<in>E. e_index e = e_index f \<longrightarrow> e_term e = e_term f \<longrightarrow> e = f"
  shows "set es \<subseteq> E \<Longrightarrow> noted rp E seen \<Longrightarrow> check_matching rp es seen = None"
proof (induction es arbitrary: seen)
  case (Cons e es)
  show ?case
  proof (cases "seen (e_index e)")
    case None
    have "noted rp E (seen(e_index e \<mapsto> (e_term e, rp (command e))))"
      using Cons.prems by (auto simp: noted_def)
    with Cons None show ?thesis by simp
  next
    case (Some tc)
    obtain t c where tc: "tc = (t, c)" by fastforce
    obtain f where "f \<in> E" "e_index f = e_index e" "e_term f = t" "rp (command f) = c"
      using Cons.prems(2) Some tc unfolding noted_def by blast
    then have "t = e_term e \<Longrightarrow> c = rp (command e)" using assms Cons.prems(1) by force
    with Cons Some tc show ?thesis by auto
  qed
qed simp

lemma check_committed_silent:
  assumes "\<forall>e\<in>E. \<forall>f\<in>E. e_index e = e_index f \<longrightarrow> e = f"
  shows "set es \<subseteq> E \<Longrightarrow> \<forall>i c. seen i = Some c \<longrightarrow> (\<exists>e\<in>E. e_index e = i \<and> rp (command e) = c) \<Longrightarrow>
    check_committed rp es seen = None"
proof (induction es arbitrary: seen)
  case (Cons e es)
  have "seen (e_index e) = None \<or> seen (e_index e) = Some (rp (command e))"
    using Cons.prems assms by (cases "seen (e_index e)") fastforce+
  moreover have "check_committed rp es (seen(e_index e \<mapsto> rp (command e))) = None"
    using Cons.prems by (intro Cons.IH) auto
  ultimately show ?case by auto
qed simp

lemma world_entries_in:
  assumes ok: "world_ok b ms w s" and e: "e \<in> set (world_entries w)"
  obtains p i where "p \<in> set ms" "i < length (alog s p)" "e = alog s p ! i" "e_index e = Suc i"
proof -
  from e obtain p where p: "p \<in> set ms" "e \<in> set (entries (log (w_nodes w p)))"
    using world_okD(1) [OF ok] by (auto simp: world_entries_def)
  then have "e \<in> set (alog s p)" using node_simD(6) [OF world_okD(5) [OF ok p(1)]] by simp
  then obtain i where "i < length (alog s p)" "e = alog s p ! i" unfolding in_set_conv_nth by blast
  moreover from this have "e_index e = Suc i"
    using inv_log(1) [OF world_okD(4) [OF ok], of p] by (simp add: indexed_def)
  ultimately show thesis using that p(1) by blast
qed

lemma world_matching:
  assumes ok: "world_ok b ms w s"
  shows "\<forall>e\<in>set (world_entries w). \<forall>f\<in>set (world_entries w).
    e_index e = e_index f \<longrightarrow> e_term e = e_term f \<longrightarrow> e = f"
proof (intro ballI impI)
  fix e f assume *: "e \<in> set (world_entries w)" "f \<in> set (world_entries w)"
    "e_index e = e_index f" "e_term e = e_term f"
  note inv = world_okD(4) [OF ok]
  obtain p i where e: "i < length (alog s p)" "e = alog s p ! i" "e_index e = Suc i"
    using world_entries_in [OF ok *(1)] by metis
  obtain q j where f: "j < length (alog s q)" "f = alog s q ! j" "e_index f = Suc j"
    using world_entries_in [OF ok *(2)] by metis
  have ij: "i = j" using e f *(3) by simp
  have "agree (Suc i) (alog s p) (alog s q)"
    using e f ij *(4)
    by (intro majorities.log_matching [OF inv inv_log(3) [OF inv] inv_log(3) [OF inv]])
      (auto simp: term_of_def)
  then show "e = f" using e f ij agree_nth [of "Suc i" "alog s p" "alog s q" i] by simp
qed

lemma world_commits_match:
  assumes ok: "world_ok True ms w s"
  shows "\<forall>e\<in>set (world_committed w). \<forall>f\<in>set (world_committed w). e_index e = e_index f \<longrightarrow> e = f"
proof (intro ballI impI)
  note inv = world_okD(4) [OF ok]
  have at: "\<exists>p i. i < acommit s p \<and> acommit s p \<le> length (alog s p) \<and> e = alog s p ! i \<and> e_index e = Suc i"
    if e: "e \<in> set (world_committed w)" for e
  proof -
    from e obtain p where p: "p \<in> set ms" "e \<in> set (entries (log (w_nodes w p)))"
        "e_index e \<le> commit_index (w_nodes w p)"
      using world_okD(1) [OF ok] by (auto simp: world_committed_def)
    note sim = world_okD(5) [OF ok p(1)]
    have c: "commit_index (w_nodes w p) = acommit s p" "acommit s p \<le> length (alog s p)"
      using sim by (simp_all add: node_sim_def)
    from p(2) have "e \<in> set (alog s p)" using node_simD(6) [OF sim] by simp
    then obtain i where i: "i < length (alog s p)" "e = alog s p ! i" unfolding in_set_conv_nth by blast
    then have "e_index e = Suc i" using inv_log(1) [OF inv, of p] by (simp add: indexed_def)
    with i c p(3) show ?thesis by (intro exI [of _ p] exI [of _ i]) simp
  qed
  fix e f assume "e \<in> set (world_committed w)" "f \<in> set (world_committed w)" and same: "e_index e = e_index f"
  then obtain p i q j where e: "i < acommit s p" "acommit s p \<le> length (alog s p)" "e = alog s p ! i" "e_index e = Suc i"
    and f: "j < acommit s q" "acommit s q \<le> length (alog s q)" "f = alog s q ! j" "e_index f = Suc j"
    using at by metis
  have "covered s (aterm s r) (alog s r) (acommit s r)" for r
    using inv unfolding pinv_def learnt_ok_def by blast
  then have "agree (min (acommit s p) (acommit s q)) (alog s p) (alog s q)"
    using majorities.covered_agree [OF inv] by blast
  then show "e = f"
    using e f same agree_nth [of "min (acommit s p) (acommit s q)" "alog s p" "alog s q" i] by simp
qed

text \<open>What a search is allowed to report: with the flag set, nothing.\<close>

definition verdict :: "bool \<Rightarrow> violation option \<Rightarrow> bool" where
  "verdict b v \<longleftrightarrow> v = None \<or> \<not> b \<and> map_option v_property v = Some ''state machine safety''"

lemma check_world_ok:
  assumes ok: "world_ok b ms w s" and rs: "reigns_ok rs s"
  shows "\<exists>v rs'. check_world rp w rs path = (v, rs') \<and> reigns_ok rs' s \<and>
    (is_violation v \<longrightarrow> verdict b (Some v))"
proof -
  obtain rs' where rs': "check_reigns (world_leaders w) rs = (None, rs')" "reigns_ok rs' s"
    using check_reigns_silent [OF world_leaders_ok [OF ok] rs] by blast
  have m: "check_matching rp (world_entries w) Map.empty = None"
    by (rule check_matching_silent [OF world_matching [OF ok] order_refl]) (simp add: noted_def)
  have c: "check_committed rp (world_committed w) Map.empty = None" if b
    using check_committed_silent [OF world_commits_match [of ms w s] order_refl] ok that by simp
  show ?thesis
  proof (cases "check_committed rp (world_committed w) Map.empty")
    case None
    then show ?thesis using rs' m by (simp add: check_world_def is_violation_def)
  next
    case (Some e)
    with c have "\<not> b" by auto
    with Some show ?thesis using rs' m by (simp add: check_world_def verdict_def)
  qed
qed

section \<open>Small worlds\<close>

definition small :: "nat \<Rightarrow> world \<Rightarrow> bool" where
  "small k w \<longleftrightarrow> (\<forall>p\<in>set (w_names w). length (entries (log (w_nodes w p))) \<le> k) \<and>
     (\<forall>m\<in>set (pending w). snug m \<and>
        (\<forall>pi pt es lc rid. body m = Append pi pt es lc rid \<longrightarrow> pi + length es \<le> k))"

lemma small_mono: "small j w \<Longrightarrow> j \<le> k \<Longrightarrow> small k w"
  unfolding small_def by (meson le_trans)

lemma snug_other: "\<not> is_append (body m) \<Longrightarrow> snug m"
  by (cases "body m") auto

lemma w_put_small:
  assumes small: "small k w" and sim: "node_sim True ms p n s" and inv: "inv ms s" and k: "k + 1 \<le> MAX_BATCH"
    and grows: "grows (k + 1) (Inr (n, out))"
  shows "small (k + 1) (w_put w p n out)"
proof -
  let ?es = "alog s p"
  have log: "log n = plain ?es" "indexed ?es" using node_simD(6) [OF sim] inv_log(1) [OF inv] by blast+
  have len: "length ?es \<le> k + 1" and sent: "\<And>m. m \<in> set out \<Longrightarrow> is_append (body m) \<Longrightarrow> \<exists>q. replicate_one n q = Inr m"
    using grows log(1) by (auto simp: grows_def)
  have c: "commit_index n \<le> length ?es" using sim by (simp add: node_sim_def)
  have "snug m \<and> (\<forall>pi pt es lc rid. body m = Append pi pt es lc rid \<longrightarrow> pi + length es \<le> k + 1)"
    if m: "m \<in> set out" for m
  proof (cases "is_append (body m)")
    case True
    with sent [OF m] obtain q where q: "replicate_one n q = Inr m" by blast
    have "length ?es \<le> MAX_BATCH" using len k by simp
    from replicated_snug [OF q True log this c] len show ?thesis by fastforce
  next
    case False
    then show ?thesis using snug_other by auto
  qed
  moreover have "small (k + 1) w" using small by (rule small_mono) simp
  ultimately show ?thesis using len log(1) unfolding small_def w_put_def by auto
qed

lemma small_less:
  assumes "small k w" "w_names w' = w_names w" "w_nodes w' = w_nodes w" "set (pending w') \<subseteq> set (pending w)"
  shows "small k w'"
  using assms by (auto simp: small_def)

lemma apply_small:
  assumes ok: "world_ok True ms w s" and small: "small k w" and k: "k + 1 \<le> MAX_BATCH"
    and mv: "mv \<in> set (moves mt mw most drops w)"
    and made: "apply_move node_seed w mv = Inr w'" "world_ok True ms w' s'"
  shows "small (k + 1) w'"
proof -
  have fits: "fits k (w_nodes w p)" if "p \<in> set ms" for p
    using node_simD(6) [OF world_okD(5) [OF ok that]] inv_log(1) [OF world_okD(4) [OF ok]] small that
      world_okD(1) [OF ok] by (auto simp: fits_def small_def)
  have put: "small (k + 1) (w_put v p n out)"
    if "p \<in> set ms" "small k v" "w_nodes w' p = n" "grows (k + 1) (Inr (n, out))" for v p n out
    using w_put_small [OF that(2) _ world_okD(4) [OF made(2)] k that(4)] world_okD(5) [OF made(2) that(1)] that(3)
    by blast
  from mv show ?thesis
  proof (cases rule: moves_cases)
    case (deliver i)
    define m where "m = pending w ! i"
    have m: "m \<in> set (pending w)" using deliver(3) by (simp add: m_def)
    then have *: "msg_ok True ms s m" by (rule world_okD(6) [OF ok])
    then have p: "recipient m \<in> set ms" by (simp add: msg_ok_def)
    obtain n out where n: "step (w_nodes w (recipient m)) m = Inr (n, out)"
        "w' = w_put (w\<lparr>pending := drop_at i (pending w)\<rparr>) (recipient m) n out"
      using made(1) deliver p world_okD(1,3) [OF ok]
      by (auto simp: apply_move_def pop_at_in w_node_def m_def [symmetric] keeps_every_rule_def raises)
    have "grows (k + 1) (step (w_nodes w (recipient m)) m)"
      using grows_step [OF fits [OF p] * world_okD(4) [OF ok]] small m by (auto simp: small_def)
    moreover have "small k (w\<lparr>pending := drop_at i (pending w)\<rparr>)"
      by (rule small_less [OF small]) (simp_all add: set_drop_at)
    ultimately show ?thesis unfolding n(2) by (intro put [OF p]) (auto simp: n w_put_def)
  next
    case (drop i)
    then have "w' = w\<lparr>pending := drop_at i (pending w), w_lost := w_lost w + 1\<rparr>"
      using made(1) by (auto simp: apply_move_def pop_at_in)
    then have "small k w'" by (intro small_less [OF small]) (simp_all add: set_drop_at)
    then show ?thesis by (rule small_mono) simp
  next
    case restart
    let ?p = "mv_node mv"
    have p: "?p \<in> set ms" using restart world_okD(1) [OF ok] by simp
    obtain n where n: "reborn node_seed w ?p = Inr n" "log n = log (w_nodes w ?p)"
      using reborn_sim [OF ok p] by blast
    then have w': "w' = (w_put w ?p n [])\<lparr>w_restarts := w_restarts w + 1\<rparr>"
      using made(1) restart(1) by (auto simp: apply_move_def)
    have "small (k + 1) (w_put w ?p n [])"
      by (intro put [OF p small]) (use n fits_mono [OF fits_log [OF n(2) fits [OF p]]] in
        \<open>auto simp: w' w_put_def intro: grows_quiet\<close>)
    then show ?thesis by (rule small_less) (simp_all add: w')
  next
    case timeout
    let ?p = "mv_node mv"
    have p: "?p \<in> set ms" using timeout world_okD(1) [OF ok] by simp
    obtain n out where n: "stand (w_nodes w ?p) = Inr (n, out)" "w' = w_put w ?p n out"
      using made(1) timeout by (auto simp: apply_move_def w_node_def raises)
    show ?thesis unfolding n(2)
      by (intro put [OF p small]) (use n grows_stand(1) [OF fits [OF p]] in \<open>auto simp: w_put_def\<close>)
  next
    case propose
    let ?p = "mv_node mv" and ?c = "PTuple [PStr ''set'', PStr ''k'', PInt (int (w_writes w))]"
    have p: "?p \<in> set ms" using propose world_okD(1) [OF ok] by simp
    obtain n i out where n: "propose (w_nodes w ?p) ?c = Inr (n, i)" "replicate_to n None = Inr out"
        "w' = w_put (w\<lparr>w_writes := w_writes w + 1\<rparr>) ?p n out"
      using made(1) propose by (auto simp: apply_move_def w_node_def raises)
    have "grows (k + 1) (Inr (n, out))"
      using grows_replicate [OF propose_fits [OF fits [OF p] n(1)], of None] n(2) by simp
    then show ?thesis unfolding n(3)
      by (intro put [OF p]) (auto simp: n w_put_def intro: small_less [OF small])
  qed
qed

section \<open>The search\<close>

definition visit_ok :: "bool \<Rightarrow> name list \<Rightarrow> visit \<Rightarrow> bool" where
  "visit_ok b ms v \<longleftrightarrow> (\<exists>s. world_ok b ms (fst v) s \<and> reigns_ok (snd (snd v)) s \<and>
     (b \<longrightarrow> small (length (fst (snd v))) (fst v)))"

lemma move_visit:
  assumes v: "visit_ok b ms v" and mv: "mv \<in> set (moves mt mw most drops (fst v))"
    and short: "b \<longrightarrow> length (fst (snd v)) < MAX_BATCH"
  shows "\<exists>made found fresh. apply_move node_seed (fst v) mv = Inr made \<and>
    check_world rp made (snd (snd v)) (fst (snd v) @ [move_text mv]) = (found, fresh) \<and>
    visit_ok b ms (made, fst (snd v) @ [move_text mv], fresh) \<and>
    (is_violation found \<longrightarrow> verdict b (Some found))"
proof -
  obtain s where s: "world_ok b ms (fst v) s" "reigns_ok (snd (snd v)) s"
    "b \<longrightarrow> small (length (fst (snd v))) (fst v)" using v by (auto simp: visit_ok_def)
  have "b \<longrightarrow> (\<forall>m\<in>set (pending (fst v)). snug m)" using s(3) by (auto simp: small_def)
  from apply_ok [OF s(1) mv this] obtain made s' where
    made: "apply_move node_seed (fst v) mv = Inr made" "world_ok b ms made s'" "ahead s s'" by blast
  obtain found fresh where c: "check_world rp made (snd (snd v)) (fst (snd v) @ [move_text mv]) = (found, fresh)"
    "reigns_ok fresh s'" "is_violation found \<longrightarrow> verdict b (Some found)"
    using check_world_ok [OF made(2) reigns_ahead [OF s(2) made(3)]] by blast
  have "small (length (fst (snd v)) + 1) made" if b
    using apply_small [of ms "fst v" s _ mv] s made mv short that by auto
  then have "visit_ok b ms (made, fst (snd v) @ [move_text mv], fresh)"
    using made(2) c(2) by (auto simp: visit_ok_def)
  with made(1) c show ?thesis by blast
qed

lemma expand_ok:
  assumes v: "visit_ok b ms v" and short: "b \<longrightarrow> length (fst (snd v)) < MAX_BATCH"
  shows "set mvs \<subseteq> set (moves mt mw most drops (fst v)) \<Longrightarrow> \<forall>q\<in>set queue. visit_ok b ms q \<Longrightarrow>
    \<exists>r. expand rp node_seed bd v deepest frontier mvs seen queue = Inr r \<and>
      (case r of Inl c \<Rightarrow> verdict b (c_violation c) | Inr (seen', queue') \<Rightarrow> \<forall>q\<in>set queue'. visit_ok b ms q)"
proof (induction mvs arbitrary: seen queue)
  case (Cons mv mvs)
  let ?here = "fst (snd v) @ [move_text mv]"
  obtain made found fresh where m: "apply_move node_seed (fst v) mv = Inr made"
    "check_world rp made (snd (snd v)) ?here = (found, fresh)" "visit_ok b ms (made, ?here, fresh)"
    "is_violation found \<longrightarrow> verdict b (Some found)"
    using move_visit [OF v _ short, of mv mt mw most drops node_seed rp] Cons.prems(1) by auto
  define key where "key = (world_key rp (b_symmetry bd) made, history_key fresh)"
  note eq = expand.simps(2) [of rp node_seed bd v deepest frontier mv mvs seen queue, unfolded m(1) rbind.simps Let_def m(2) prod.case key_def [symmetric]]
  have rest: "\<exists>r. expand rp node_seed bd v deepest frontier mvs seen' queue' = Inr r \<and>
      (case r of Inl c \<Rightarrow> verdict b (c_violation c) | Inr (seen', queue') \<Rightarrow> \<forall>q\<in>set queue'. visit_ok b ms q)"
    if "\<forall>q\<in>set queue'. visit_ok b ms q" for seen' queue'
    using Cons.IH [OF _ that] Cons.prems(1) by simp
  have longer: "\<forall>q\<in>set (queue @ [(made, ?here, fresh)]). visit_ok b ms q" using m(3) Cons.prems(2) by simp
  show ?case
  proof (cases "is_violation found")
    case True
    then show ?thesis unfolding eq using m(4) by simp
  next
    case no: False
    show ?thesis
    proof (cases "key \<in> set seen")
      case True
      then show ?thesis unfolding eq using no rest [OF Cons.prems(2), of seen] by simp
    next
      case False
      then show ?thesis unfolding eq
        using no rest [OF longer, of "key # seen"] by (simp add: verdict_def del: set_append)
    qed
  qed
qed simp

lemma search_ok:
  "\<forall>q\<in>set queue. visit_ok b ms q \<Longrightarrow> b \<longrightarrow> b_depth bd \<le> MAX_BATCH \<Longrightarrow>
   \<exists>c. search rp node_seed bd deepest frontier seen queue = Inr c \<and> verdict b (c_violation c)"
proof (induction rp node_seed bd deepest frontier seen queue rule: search.induct)
  case (1 rp node_seed bd deepest frontier seen queue)
  show ?case
  proof (cases "queue = []")
    case True
    then show ?thesis by (subst search.simps) (simp add: verdict_def)
  next
    case False
    obtain v rest where next_v: "next_visit (b_order bd) queue = (v, rest)" by fastforce
    have parts: "v \<in> set queue" "set rest \<subseteq> set queue"
      using next_v False by (auto simp: next_visit_def split: if_splits dest: list.set_sel(2) in_set_butlastD)
    then have ok: "visit_ok b ms v" "\<forall>q\<in>set rest. visit_ok b ms q" using "1.prems"(1) by auto
    define d where "d = max deepest (length (fst (snd v)))"
    note eq = search.simps [of rp node_seed bd deepest frontier seen queue, unfolded next_v Let_def prod.case d_def [symmetric]]
    show ?thesis
    proof (cases "b_depth bd \<le> length (fst (snd v))")
      case True
      then show ?thesis
        using "1.IH"(1) [OF False next_v [symmetric] refl d_def True ok(2) "1.prems"(2)] False eq by simp
    next
      case deep: False
      have short: "b \<longrightarrow> length (fst (snd v)) < MAX_BATCH" using deep "1.prems"(2) by auto
      obtain r where r: "expand rp node_seed bd v d frontier
          (moves (b_term bd) (b_writes bd) (b_restarts bd) (b_drops bd) (fst v)) seen rest = Inr r"
        "case r of Inl c \<Rightarrow> verdict b (c_violation c) | Inr (seen', queue') \<Rightarrow> \<forall>q\<in>set queue'. visit_ok b ms q"
        using expand_ok [OF ok(1) short order_refl ok(2)] by blast
      show ?thesis
      proof (cases r)
        case (Inl c)
        then show ?thesis using r False deep eq by simp
      next
        case (Inr sq)
        obtain seen' queue' where sq: "sq = (seen', queue')" by fastforce
        with r Inr have "\<forall>q\<in>set queue'. visit_ok b ms q" by simp
        with "1.IH"(2) [OF False next_v [symmetric] refl d_def deep r(1) Inr sq [symmetric] _ "1.prems"(2)]
        show ?thesis using r(1) Inr sq False deep eq by simp
      qed
    qed
  qed
qed

lemma start_total:
  assumes "1 \<le> k"
  shows "\<exists>w. start node_seed d k sd = Inr w"
proof -
  let ?ms = "map (\<lambda>i. CHR ''n'' # decimal i) [0..<k]"
  have "\<exists>ns. rmap (\<lambda>p. Node p ?ms (node_seed sd p) False (d_commit_any_term d)) ?ms = Inr ns \<and> (\<forall>n\<in>set ns. True)"
    using cluster_names_distinct [of k] by (intro rmap_all) (auto simp: Node_def)
  then show ?thesis using assms by (auto simp: start_def Let_def)
qed

lemma start_ok:
  assumes d: "keeps_every_rule d" and "start node_seed d k sd = Inr w"
  shows "world_ok b (w_names w) w init_protocol" "small 0 w"
proof -
  define ms where "ms = map (\<lambda>i. CHR ''n'' # decimal i) [0..<k]"
  from assms obtain ns where
    ns: "rmap (\<lambda>p. Node p ms (node_seed sd p) False False) ms = Inr ns"
    and w: "w = \<lparr>w_names = ms, w_nodes = (\<lambda>p. the (map_of (zip ms ns) p)), w_defect = d, w_seed = sd,
             pending = [], w_writes = 0, w_lost = 0, w_restarts = 0\<rparr>"
    unfolding start_def ms_def [symmetric] by (auto simp: raises keeps_every_rule_def split: if_splits)
  have dist: "distinct ms" unfolding ms_def by (rule cluster_names_distinct)
  have sim: "node_sim b ms p (w_nodes w p) init_protocol" if "p \<in> set ms" for b p
    using Node_sim [OF rmap_map_of [OF ns dist that]] w by simp
  then show "world_ok b (w_names w) w init_protocol"
    using w d dist pinv_init by (simp add: world_ok_def)
  show "small 0 w"
    using node_simD(6) [OF sim] w by (auto simp: small_def init_protocol_def)
qed

text \<open>
  C21. Exploring the shipped nodes always returns: the search ends, no move it makes raises, and
  it never reports two leaders of a term or two commands for one index and term. The only
  property it can report is the one a batch boundary breaks, and a search of at most
  \<open>MAX_BATCH\<close> moves, which the default of fourteen is, reports nothing at all.
\<close>

theorem exploration_finds_nothing:
  assumes "keeps_every_rule d" "1 \<le> k" "1 \<le> b_depth bd" "1 \<le> b_states bd" "b_order bd \<in> {BREADTH, DEPTH}"
  shows "\<exists>c. explore rp node_seed d k bd = Inr c \<and>
    (c_violation c \<noteq> None \<longrightarrow> map_option v_property (c_violation c) = Some ''state machine safety'') \<and>
    (b_depth bd \<le> MAX_BATCH \<longrightarrow> c_violation c = None)"
proof -
  obtain root where root: "start node_seed d k 0 = Inr root" using start_total assms(2) by blast
  define b where "b = (b_depth bd \<le> MAX_BATCH)"
  have ok: "world_ok b (w_names root) root init_protocol" "small 0 root"
    using start_ok [OF assms(1) root] by blast+
  obtain v rs where rs: "check_world rp root [] [] = (v, rs)" "reigns_ok rs init_protocol"
    using check_world_ok [OF ok(1), of "[]" rp "[]"] by (auto simp: reigns_ok_def)
  have "\<forall>q\<in>set [(root, [], rs)]. visit_ok b (w_names root) q"
    using ok rs(2) by (auto simp: visit_ok_def)
  from search_ok [OF this, of bd rp node_seed 0 0] obtain c where
    "search rp node_seed bd 0 0 [(world_key rp (b_symmetry bd) root, history_key rs)] [(root, [], rs)] = Inr c"
    "verdict b (c_violation c)" by (auto simp: b_def)
  then show ?thesis using assms(3-5) root rs(1) by (auto simp: explore_def verdict_def b_def)
qed

theorem exploration_finds_nothing_witness:
  "\<exists>c. explore (\<lambda>v. ''x'') (\<lambda>s p i. 0) sound_defect 3 default_bounds = Inr c \<and> c_violation c = None"
  using exploration_finds_nothing [of sound_defect 3 default_bounds "\<lambda>v. ''x''" "\<lambda>s p i. 0"]
  by (auto simp: default_bounds_def MAX_BATCH_def)

end
