(* ===== verification/Exploration_Keys.thy ===== *)
theory Exploration_Keys
  imports Exploration
begin

text \<open>
  The canonical form of \<open>src/rsm/verify/explore.py\<close>: what folding by symmetry identifies, and what
  the form leaves out.
\<close>

section \<open>Permutations\<close>

lemma mset_without_at: "i < length xs \<Longrightarrow> add_mset (xs ! i) (mset (drop_at i xs)) = mset xs"
  unfolding drop_at_def by (metis id_take_nth_drop mset_append mset.simps(2) union_mset_add_mset_right)

lemma set_orderings: "length xs = k \<Longrightarrow> set (orderings k xs) = {ys. mset ys = mset xs}"
proof (induction k arbitrary: xs)
  case (Suc k)
  have len: "length (drop_at i xs) = k" if "i < length xs" for i
    using that Suc.prems by (simp add: drop_at_def)
  have "ys \<in> set (orderings (Suc k) xs) \<longleftrightarrow> mset ys = mset xs" for ys
  proof
    assume "ys \<in> set (orderings (Suc k) xs)"
    then obtain i zs where "i < length xs" "ys = xs ! i # zs" "zs \<in> set (orderings k (drop_at i xs))" by auto
    then show "mset ys = mset xs" using Suc.IH [OF len] mset_without_at [of i xs] by simp
  next
    assume m: "mset ys = mset xs"
    then obtain y zs where ys: "ys = y # zs" using Suc.prems by (cases ys) auto
    then have "y \<in> set xs" using m by (metis list.set_intros(1) set_mset_mset)
    then obtain i where i: "i < length xs" "xs ! i = y" by (metis in_set_conv_nth)
    have "add_mset y (mset zs) = add_mset y (mset (drop_at i xs))"
      using m mset_without_at [OF i(1)] i(2) ys by simp
    then have "mset zs = mset (drop_at i xs)" by simp
    then show "ys \<in> set (orderings (Suc k) xs)" using Suc.IH [OF len [OF i(1)]] i ys by (auto intro!: bexI [of _ i])
  qed
  then show ?case by blast
qed simp

lemma set_permutations: "set (permutations xs) = {ys. mset ys = mset xs}"
  by (simp add: permutations_def set_orderings)

text \<open>The renamings the fold tries are the permutations of the members.\<close>

definition renames :: "name list \<Rightarrow> (name \<Rightarrow> name) \<Rightarrow> bool" where
  "renames ms f \<longleftrightarrow> inj f \<and> f ` set ms = set ms \<and> (\<forall>p. p \<notin> set ms \<longrightarrow> f p = p)"

lemma renames_comp: "renames ms f \<Longrightarrow> renames ms g \<Longrightarrow> renames ms (g \<circ> f)"
  unfolding renames_def by (metis comp_apply image_comp inj_compose)

lemma renames_inv:
  assumes "renames ms f"
  shows "renames ms (Hilbert_Choice.inv f)" "Hilbert_Choice.inv f \<circ> f = id" "f \<circ> Hilbert_Choice.inv f = id"
proof -
  have bij: "bij f"
  proof (rule bijI)
    show "inj f" using assms by (simp add: renames_def)
    show "surj f" using assms unfolding renames_def surj_def by (metis imageE)
  qed
  show "Hilbert_Choice.inv f \<circ> f = id" "f \<circ> Hilbert_Choice.inv f = id"
    using bij by (simp_all add: bij_is_inj bij_is_surj flip: inj_iff surj_iff)
  show "renames ms (Hilbert_Choice.inv f)"
    using assms bij unfolding renames_def
    by (metis bij_imp_bij_inv bij_is_inj image_inv_f_f inv_f_eq)
qed

lemma renaming_renames:
  assumes "distinct ms" "mset ns = mset ms"
  shows "renames ms (renaming ms ns)"
proof -
  have len: "length ms = length ns" using assms(2) by (metis size_mset)
  have st: "set ns = set ms" using assms(2) by (metis set_mset_mset)
  let ?f = "renaming ms ns"
  have at: "?f (ms ! i) = ns ! i" if "i < length ms" for i
    using that len assms(1) by (simp add: renaming_def map_of_zip_nth)
  have out: "p \<notin> set ms \<Longrightarrow> ?f p = p" for p
    using len by (simp add: renaming_def map_of_zip_is_None [THEN iffD2])
  have img: "?f ` set ms = set ms"
  proof -
    have "map ?f ms = ns" using at len by (intro nth_equalityI) auto
    then show ?thesis using st by (metis set_map)
  qed
  have inj: "inj_on ?f (set ms)"
    using img assms(1) by (simp add: finite_surj_inj [of "set ms"] eq_card_imp_inj_on)
  have "inj ?f"
    using inj img out unfolding inj_def inj_on_def by (metis imageI)
  then show ?thesis using img out by (simp add: renames_def)
qed

lemma renames_renaming:
  assumes "distinct ms" "renames ms f"
  shows "mset (map f ms) = mset ms" "renaming ms (map f ms) = f"
proof -
  have "inj f" using assms(2) unfolding renames_def by blast
  then have d: "distinct (map f ms)" using assms(1) by (simp add: distinct_map inj_on_subset [OF _ subset_UNIV])
  have st: "set (map f ms) = set ms" using assms(2) by (simp add: renames_def)
  show "mset (map f ms) = mset ms"
    by (rule iffD1 [OF set_eq_iff_mset_eq_distinct [OF d assms(1)] st])
  show "renaming ms (map f ms) = f"
  proof
    fix p
    show "renaming ms (map f ms) p = f p"
    proof (cases "p \<in> set ms")
      case True
      then obtain i where "i < length ms" "p = ms ! i" by (metis in_set_conv_nth)
      then show ?thesis using assms(1) by (simp add: renaming_def map_of_zip_nth)
    next
      case False
      then show ?thesis using assms(2) by (simp add: renaming_def renames_def map_of_zip_is_None [THEN iffD2])
    qed
  qed
qed

lemma tried_renamings:
  assumes "distinct ms"
  shows "renaming ms ` set (permutations ms) = {f. renames ms f}"
proof
  show "renaming ms ` set (permutations ms) \<subseteq> {f. renames ms f}"
    using renaming_renames [OF assms] unfolding set_permutations by blast
  show "{f. renames ms f} \<subseteq> renaming ms ` set (permutations ms)"
  proof
    fix f assume "f \<in> {f. renames ms f}"
    then have "mset (map f ms) = mset ms" "renaming ms (map f ms) = f"
      using renames_renaming [OF assms] by blast+
    then show "f \<in> renaming ms ` set (permutations ms)"
      unfolding set_permutations by (metis (mono_tags) imageI mem_Collect_eq)
  qed
qed

section \<open>The folded key\<close>

lemma folded_key:
  assumes "distinct (world_members w)"
  shows "world_key rp True w = Min ((\<lambda>f. world_shape rp f w) ` {f. renames (world_members w) f})"
proof -
  let ?shape = "\<lambda>f. world_shape rp f w" and ?ns = "permutations (world_members w)"
  let ?all = "map (\<lambda>ns. ?shape (renaming (world_members w) ns)) ?ns"
  have "world_key rp True w = fold min ?all (?shape (\<lambda>p. p))"
    unfolding world_key_def Let_def fold_map o_def by (simp add: min.commute [of _ "world_shape rp _ w"])
  also have "\<dots> = Min (set (?shape (\<lambda>p. p) # ?all))" by (rule Min.set_eq_fold [symmetric])
  also have "set (?shape (\<lambda>p. p) # ?all) = ?shape ` {f. renames (world_members w) f}"
  proof -
    have "set ?all = ?shape ` (renaming (world_members w) ` set ?ns)" by (simp add: image_image)
    then have "set ?all = ?shape ` {f. renames (world_members w) f}"
      unfolding tried_renamings [OF assms] .
    moreover have "renames (world_members w) (\<lambda>p. p)" by (simp add: renames_def)
    ultimately show ?thesis by auto
  qed
  finally show ?thesis .
qed

text \<open>Two worlds that differ by a renaming of the members.\<close>

definition rename_message :: "(name \<Rightarrow> name) \<Rightarrow> message \<Rightarrow> message" where
  "rename_message f m = m\<lparr>sender := f (sender m), recipient := f (recipient m),
     body := (case body m of InstallSnapshot li lt st ms \<Rightarrow> InstallSnapshot li lt st (map f ms) | b \<Rightarrow> b)\<rparr>"

definition same_up_to :: "name list \<Rightarrow> (name \<Rightarrow> name) \<Rightarrow> world \<Rightarrow> world \<Rightarrow> bool" where
  "same_up_to ms f v w \<longleftrightarrow>
     renames ms f \<and> world_members v = ms \<and> world_members w = ms \<and>
     mset (w_names w) = mset (map f (w_names v)) \<and>
     (\<forall>p\<in>set (w_names v). let n = w_nodes v p; n' = w_nodes w (f p) in
        current_term n' = current_term n \<and> voted_for n' = map_option f (voted_for n) \<and>
        role n' = role n \<and> commit_index n' = commit_index n \<and> entries (log n') = entries (log n)) \<and>
     mset (pending w) = mset (map (rename_message f) (pending v)) \<and>
     w_writes w = w_writes v \<and> w_restarts w = w_restarts v"

lemma sort_mset: "mset xs = mset ys \<Longrightarrow> sort xs = (sort ys :: 'a::linorder list)"
  by (metis mset_sort properties_for_sort sorted_sort)

lemma message_row_rename:
  assumes "f (kind_text (body m)) = kind_text (body m)"
  shows "message_row rp g (rename_message f m) = message_row rp (g \<circ> f) m"
  using assms by (cases "body m") (simp_all add: message_row_def rename_message_def)

lemma shape_rename:
  assumes "same_up_to ms f v w" "\<forall>m\<in>set (pending v). kind_text (body m) \<notin> set ms"
  shows "world_shape rp g w = world_shape rp (g \<circ> f) v"
proof -
  have "mset (map (\<lambda>p. node_row rp g p (w_nodes w p)) (w_names w)) =
      mset (map (\<lambda>p. node_row rp g (f p) (w_nodes w (f p))) (w_names v))"
    using assms(1) unfolding same_up_to_def by (simp add: mset_map image_mset.compositionality o_def)
  also have "map (\<lambda>p. node_row rp g (f p) (w_nodes w (f p))) (w_names v) =
      map (\<lambda>p. node_row rp (g \<circ> f) p (w_nodes v p)) (w_names v)"
    using assms(1) by (auto simp: same_up_to_def node_row_def Let_def split: option.split)
  finally have nodes: "sort (map (\<lambda>p. node_row rp g p (w_nodes w p)) (w_names w)) =
      sort (map (\<lambda>p. node_row rp (g \<circ> f) p (w_nodes v p)) (w_names v))" by (rule sort_mset)
  have "mset (map (message_row rp g) (pending w)) = mset (map (message_row rp g \<circ> rename_message f) (pending v))"
    using assms(1) unfolding same_up_to_def by (simp add: mset_map image_mset.compositionality o_def)
  also have "map (message_row rp g \<circ> rename_message f) (pending v) = map (message_row rp (g \<circ> f)) (pending v)"
    using assms message_row_rename by (auto simp: same_up_to_def renames_def)
  finally have "sort (map (message_row rp g) (pending w)) = sort (map (message_row rp (g \<circ> f)) (pending v))"
    by (rule sort_mset)
  with nodes assms(1) show ?thesis by (simp add: world_shape_def same_up_to_def)
qed

section \<open>What the key leaves out\<close>

text \<open>A path of moves each of which the search would offer, with losses switched on.\<close>

fun walk :: "(int \<Rightarrow> name \<Rightarrow> draws) \<Rightarrow> wmove list \<Rightarrow> world \<Rightarrow> world option" where
  "walk node_seed [] w = Some w"
| "walk node_seed (mv # mvs) w =
     (if mv \<in> set (moves 4 2 0 True w)
      then (case apply_move node_seed w mv of Inl e \<Rightarrow> None | Inr w' \<Rightarrow> walk node_seed mvs w') else None)"

definition timed_out :: "name \<Rightarrow> wmove" where
  "timed_out p = \<lparr>mv_kind = TIMEOUT, mv_index = -1, mv_node = p\<rparr>"

definition delivered_at :: "int \<Rightarrow> wmove" where
  "delivered_at i = \<lparr>mv_kind = DELIVER, mv_index = i, mv_node = []\<rparr>"

definition dropped_at :: "int \<Rightarrow> wmove" where
  "dropped_at i = \<lparr>mv_kind = DROP, mv_index = i, mv_node = []\<rparr>"

definition fresh_world :: "nat \<Rightarrow> world" where
  "fresh_world k = projr (start (\<lambda>s p i. 0) sound_defect k 0)"

text \<open>
  C22. Folding by symmetry identifies what it is meant to: two worlds that differ only by a
  permutation of the members, in the nodes' names, votes and messages alike, have the same key,
  as long as no member carries the name of a message kind.
\<close>

theorem symmetric_worlds_share_a_key:
  assumes "same_up_to ms f v w" "distinct ms" "\<forall>m\<in>set (pending v). kind_text (body m) \<notin> set ms"
  shows "world_key rp True v = world_key rp True w"
proof -
  have f: "renames ms f" and ms: "world_members v = ms" "world_members w = ms"
    using assms(1) by (simp_all add: same_up_to_def)
  have "(\<lambda>g. g \<circ> f) ` {g. renames ms g} = {g. renames ms g}"
  proof
    show "(\<lambda>g. g \<circ> f) ` {g. renames ms g} \<subseteq> {g. renames ms g}" using renames_comp [OF f] by auto
    show "{g. renames ms g} \<subseteq> (\<lambda>g. g \<circ> f) ` {g. renames ms g}"
    proof
      fix g assume "g \<in> {g. renames ms g}"
      then have "renames ms (g \<circ> Hilbert_Choice.inv f)" using renames_comp renames_inv(1) [OF f] by blast
      moreover have "g = (g \<circ> Hilbert_Choice.inv f) \<circ> f" using renames_inv(2) [OF f] by (simp add: o_assoc [symmetric])
      ultimately show "g \<in> (\<lambda>g. g \<circ> f) ` {g. renames ms g}" by blast
    qed
  qed
  then have "(\<lambda>g. world_shape rp g v) ` {g. renames ms g} =
      (\<lambda>g. world_shape rp g v) ` ((\<lambda>g. g \<circ> f) ` {g. renames ms g})" by (simp only:)
  also have "\<dots> = (\<lambda>g. world_shape rp (g \<circ> f) v) ` {g. renames ms g}" by (rule image_image)
  also have "\<dots> = (\<lambda>g. world_shape rp g w) ` {g. renames ms g}"
    using shape_rename [OF assms(1,3)] by simp
  finally show ?thesis using folded_key assms(2) ms by simp
qed


theorem symmetric_worlds_share_a_key_witness:
  "world_key (\<lambda>c. []) True (the (walk (\<lambda>s p i. 0) [timed_out ''n0''] (fresh_world 3))) =
   world_key (\<lambda>c. []) True (the (walk (\<lambda>s p i. 0) [timed_out ''n1''] (fresh_world 3)))"
proof -
  let ?v = "the (walk (\<lambda>s p i. 0) [timed_out ''n0''] (fresh_world 3))"
  let ?w = "the (walk (\<lambda>s p i. 0) [timed_out ''n1''] (fresh_world 3))"
  let ?ms = "[''n0'', ''n1'', ''n2'']" and ?f = "renaming [''n0'', ''n1'', ''n2''] [''n1'', ''n0'', ''n2'']"
  have f: "renames ?ms ?f" by (rule renaming_renames) simp_all
  have members: "world_members ?v = ?ms \<and> world_members ?w = ?ms \<and> w_names ?v = ?ms \<and> w_names ?w = ?ms"
    by code_simp
  have fields: "list_all (\<lambda>p. let n = w_nodes ?v p; n' = w_nodes ?w (?f p) in
        current_term n' = current_term n \<and> voted_for n' = map_option ?f (voted_for n) \<and>
        role n' = role n \<and> commit_index n' = commit_index n \<and> entries (log n') = entries (log n)) ?ms"
    by code_simp
  have mail: "mset (pending ?w) = mset (map (rename_message ?f) (pending ?v)) \<and>
      w_writes ?w = w_writes ?v \<and> w_restarts ?w = w_restarts ?v" by code_simp
  have kinds: "list_all (\<lambda>m. kind_text (body m) \<notin> set ?ms) (pending ?v)" by code_simp
  have image: "mset ?ms = mset (map ?f ?ms)" by code_simp
  have "same_up_to ?ms ?f ?v ?w"
    unfolding same_up_to_def using f members fields mail image unfolding list_all_iff by (simp del: mset_map)
  from symmetric_worlds_share_a_key [OF this] kinds show ?thesis unfolding list_all_iff by simp
qed

text \<open>One candidate of five, two votes granted: the first is delivered in one world, lost in the other.\<close>

definition counted :: "wmove list" where
  "counted = [timed_out ''n0'', delivered_at 0, delivered_at 0, delivered_at 2]"

definition lost :: "wmove list" where
  "lost = [timed_out ''n0'', delivered_at 0, delivered_at 0, dropped_at 2]"

text \<open>
  C23. The canonical form is too coarse once messages can be lost: it leaves out the votes a
  candidate has counted, so a cluster of five has two worlds, reached in four moves by the same
  leaders, whose keys are equal although delivering the same pending vote elects a leader in one
  and not in the other. The search prunes whichever it meets second.
\<close>

theorem canonical_form_forgets_votes:
  "\<exists>v w v' w'. walk (\<lambda>s p i. 0) counted (fresh_world 5) = Some v \<and>
     walk (\<lambda>s p i. 0) lost (fresh_world 5) = Some w \<and>
     world_key (\<lambda>c. []) False v = world_key (\<lambda>c. []) False w \<and> world_leaders v = world_leaders w \<and>
     apply_move (\<lambda>s p i. 0) v (delivered_at 2) = Inr v' \<and> apply_move (\<lambda>s p i. 0) w (delivered_at 2) = Inr w' \<and>
     world_leaders v' = [(2, [''n0''])] \<and> world_leaders w' = []"
proof -
  let ?v = "the (walk (\<lambda>s p i. 0) counted (fresh_world 5))"
  let ?w = "the (walk (\<lambda>s p i. 0) lost (fresh_world 5))"
  have "walk (\<lambda>s p i. 0) counted (fresh_world 5) \<noteq> None" "walk (\<lambda>s p i. 0) lost (fresh_world 5) \<noteq> None"
    by code_simp+
  moreover have "world_key (\<lambda>c. []) False ?v = world_key (\<lambda>c. []) False ?w \<and> world_leaders ?v = world_leaders ?w"
    by code_simp
  moreover have "map_option world_leaders (case apply_move (\<lambda>s p i. 0) ?v (delivered_at 2) of Inr x \<Rightarrow> Some x | Inl e \<Rightarrow> None) =
      Some [(2, [''n0''])]" by code_simp
  moreover have "map_option world_leaders (case apply_move (\<lambda>s p i. 0) ?w (delivered_at 2) of Inr x \<Rightarrow> Some x | Inl e \<Rightarrow> None) =
      Some []" by code_simp
  ultimately show ?thesis by (auto split: sum.splits)
qed

end
