(* ===== verification/Fuzzing.thy ===== *)
theory Fuzzing
  imports Faults Defects "HOL-Library.Sublist"
begin

text \<open>
  \<open>src/rsm/verify/fuzz.py\<close>: the cluster built from a defect, one run of a schedule against it, the
  search over drawn schedules and the shrinker. The node classes and defects are in \<open>Defects\<close>.

  A raised exception stops a handler half way, and what the cluster holds then is not a value of
  this model: \<open>attempt\<close> catches the exceptions of the check, which leave the cluster as the tick
  left it, and hands on one raised inside a tick or a write as its own. The shipped nodes raise
  none there (\<open>fuzzing_sound_nodes\<close>). The name of an exception's class is the exception.
\<close>

section \<open>A cluster with a defect\<close>

definition broken_node ::
  "(int \<Rightarrow> name \<Rightarrow> draws) \<Rightarrow> defect \<Rightarrow> cluster \<Rightarrow> name \<Rightarrow> int \<Rightarrow> node result" where
  "broken_node node_seed d c p sd =
     Node p (cmembers c) (node_seed sd p) (cpre_vote c) (d_commit_any_term d)"

definition Broken ::
  "(int \<Rightarrow> draws) \<Rightarrow> (int \<Rightarrow> name \<Rightarrow> draws) \<Rightarrow> defect \<Rightarrow> nat \<Rightarrow> int \<Rightarrow> conditions option \<Rightarrow> cluster result" where
  "Broken net_seed node_seed d k sd cs =
     rbind (Cluster net_seed node_seed k sd cs False False) (\<lambda>c.
     rfold (\<lambda>p c. rbind (broken_node node_seed d c p sd) (\<lambda>n. Inr (put_node c p n))) (cmembers c) c)"

definition broken_restart ::
  "(int \<Rightarrow> name \<Rightarrow> draws) \<Rightarrow> defect \<Rightarrow> cluster \<Rightarrow> name \<Rightarrow> cluster result" where
  "broken_restart node_seed d c p =
     (if p \<notin> down c then Inl ConfigError
      else let old = nodes c p in
           rbind (broken_node node_seed d c p (seed c + int (cnow c))) (\<lambda>fresh.
           rbind (Log (entries (log old)) (snapshot_index (log old)) (snapshot_term (log old))) (\<lambda>l.
           Inr ((put_node c p (reset_election_timer
                  (fresh\<lparr>current_term := current_term old,
                         voted_for := (if forgets_the_vote d then None else voted_for old),
                         log := l, now := cnow c\<rparr>)))\<lparr>down := down c - {p}\<rparr>))))"

text \<open>\<open>Cluster.tick\<close> on it: a message is handled by the node's class. Its own check is off.\<close>

definition deliver_as :: "node_class \<Rightarrow> message \<Rightarrow> cluster \<Rightarrow> cluster result" where
  "deliver_as k m c =
     (if recipient m \<in> down c then Inr c
      else rbind (step_as k (nodes c (recipient m)) m) (\<lambda>(n, out).
           send_all (put_node c (recipient m) n) out))"

definition broken_tick :: "defect \<Rightarrow> cluster \<Rightarrow> cluster result" where
  "broken_tick d c =
     (let (landed, w) = net_tick (net c);
          c1 = c\<lparr>cnow := cnow c + 1, net := w\<rparr>
      in rbind (rfold (deliver_as (maker d)) landed c1) (\<lambda>c2.
         rbind (rfold time_node (up c2) c2) (\<lambda>c3.
         let c4 = (case cluster_leader c3 of
                     Some n \<Rightarrow> if Some (name n) \<noteq> last_leader c3
                               then c3\<lparr>elections := elections c3 + 1, last_leader := Some (name n)\<rparr>
                               else c3
                   | None \<Rightarrow> c3)
         in Inr (c4\<lparr>history := history c4 @ [take_moment c4]\<rparr>))))"

definition broken_inject ::
  "(int \<Rightarrow> name \<Rightarrow> draws) \<Rightarrow> defect \<Rightarrow> fault \<Rightarrow> cluster \<Rightarrow> cluster result" where
  "broken_inject node_seed d f c =
     (if f_kind f = RESTART then
        (if f_target f \<notin> down c then Inr c else broken_restart node_seed d c (f_target f))
      else rbind (inject node_seed c f) (\<lambda>(b, c'). Inr c'))"

section \<open>One run\<close>

record failure =
  fl_schedule :: schedule
  fl_defect :: defect
  fl_properties :: "string list"
  fl_raised :: "error option"
  fl_runs :: nat

definition is_failure :: "failure \<Rightarrow> bool" where
  "is_failure f \<longleftrightarrow> fl_properties f \<noteq> [] \<or> fl_raised f \<noteq> None"

definition failure_size :: "failure \<Rightarrow> nat" where
  "failure_size f = length (s_faults (fl_schedule f)) * 100 + s_ticks (fl_schedule f)"

definition attempt_tick ::
  "(int \<Rightarrow> name \<Rightarrow> draws) \<Rightarrow> defect \<Rightarrow> (nat \<Rightarrow> fault list option) \<Rightarrow> nat \<Rightarrow> nat \<Rightarrow> cluster \<Rightarrow> cluster result" where
  "attempt_tick node_seed d due_of every t c =
     rbind (rfold (broken_inject node_seed d) (case due_of t of None \<Rightarrow> [] | Some fs \<Rightarrow> fs) c) (\<lambda>c1.
     rbind (if every = 0 then Inl ZeroDivisionError
            else if t mod every = 0 then scheduled_write t c1 else Inr c1) (\<lambda>c2.
     broken_tick d c2))"

fun attempt_ticks ::
  "(int \<Rightarrow> name \<Rightarrow> draws) \<Rightarrow> defect \<Rightarrow> (nat \<Rightarrow> fault list option) \<Rightarrow> nat \<Rightarrow> nat list \<Rightarrow> cluster \<Rightarrow>
   (error option \<times> cluster) result" where
  "attempt_ticks node_seed d due_of every [] c = Inr (None, c)"
| "attempt_ticks node_seed d due_of every (t # ts) c =
     rbind (attempt_tick node_seed d due_of every t c) (\<lambda>c'.
       case verify c' (take_moment c') of
         Inr u \<Rightarrow> attempt_ticks node_seed d due_of every ts c'
       | Inl e \<Rightarrow> if is_consensus_error e then Inr (Some e, c') else Inl e)"

definition attempt ::
  "(int \<Rightarrow> draws) \<Rightarrow> (int \<Rightarrow> name \<Rightarrow> draws) \<Rightarrow> schedule \<Rightarrow> defect \<Rightarrow> nat \<Rightarrow> failure result" where
  "attempt net_seed node_seed s d every =
     rbind (Broken net_seed node_seed d (s_size s) (s_seed s) (s_conditions s)) (\<lambda>made.
     rbind (attempt_ticks node_seed d (due s) every [1..<s_ticks s + 1] made) (\<lambda>(raised, c).
     rbind (inspect c) (\<lambda>r.
     Inr \<lparr>fl_schedule = s, fl_defect = d, fl_properties = sort (remdups (map b_property (breaches r))),
          fl_raised = raised, fl_runs = 1\<rparr>)))"

lemma attempt_keeps:
  "attempt net_seed node_seed s d every = Inr f \<Longrightarrow> fl_schedule f = s \<and> fl_defect f = d"
  by (auto simp: attempt_def raises split: prod.splits)

section \<open>Searching\<close>

definition BUDGET :: nat where "BUDGET = 200"
definition TICKS :: nat where "TICKS = 300"
definition FAULTS :: nat where "FAULTS = 6"
definition WRITES_EVERY :: nat where "WRITES_EVERY = 15"

fun search_seeds ::
  "(int \<Rightarrow> draws) \<Rightarrow> (int \<Rightarrow> draws) \<Rightarrow> (int \<Rightarrow> name \<Rightarrow> draws) \<Rightarrow> defect \<Rightarrow> nat \<Rightarrow> nat \<Rightarrow> nat list \<Rightarrow>
   failure option \<Rightarrow> failure option result" where
  "search_seeds schedule_seed net_seed node_seed d k ts [] found = Inr found"
| "search_seeds schedule_seed net_seed node_seed d k ts (sd # sds) found =
     rbind (random_schedule schedule_seed (int sd) k ts FAULTS) (\<lambda>s.
     rbind (attempt net_seed node_seed s d WRITES_EVERY) (\<lambda>f.
       let f' = f\<lparr>fl_runs := sd + 1\<rparr> in
       if is_failure f' then Inr (Some f')
       else search_seeds schedule_seed net_seed node_seed d k ts sds (Some f')))"

definition search_schedules ::
  "(int \<Rightarrow> draws) \<Rightarrow> (int \<Rightarrow> draws) \<Rightarrow> (int \<Rightarrow> name \<Rightarrow> draws) \<Rightarrow> defect \<Rightarrow> nat \<Rightarrow> nat \<Rightarrow> nat \<Rightarrow>
   failure option result" where
  "search_schedules schedule_seed net_seed node_seed d budget k ts =
     (if budget < 1 then Inl ConfigError
      else search_seeds schedule_seed net_seed node_seed d k ts [0..<budget] None)"

section \<open>Shrinking\<close>

definition same_failure :: "failure \<Rightarrow> failure \<Rightarrow> bool" where
  "same_failure found original \<longleftrightarrow>
     fl_properties found = fl_properties original \<and> fl_raised found = fl_raised original"

definition reproduces :: "failure \<Rightarrow> failure \<Rightarrow> bool" where
  "reproduces original found \<longleftrightarrow> is_failure found \<and> same_failure found original"

text \<open>A schedule like another one with a cut made, and the run of it.\<close>

definition try_cut ::
  "(int \<Rightarrow> draws) \<Rightarrow> (int \<Rightarrow> name \<Rightarrow> draws) \<Rightarrow> failure \<Rightarrow> nat \<Rightarrow> fault list \<Rightarrow> failure result" where
  "try_cut net_seed node_seed best ts fs =
     (let s = fl_schedule best in
      rbind (Schedule (s_seed s) ts fs (s_size s) (s_conditions s)) (\<lambda>cut.
      attempt net_seed node_seed cut (fl_defect best) WRITES_EVERY))"

definition without :: "nat \<Rightarrow> 'a list \<Rightarrow> 'a list" where
  "without i xs = take i xs @ drop (Suc i) xs"

fun drop_faults ::
  "(int \<Rightarrow> draws) \<Rightarrow> (int \<Rightarrow> name \<Rightarrow> draws) \<Rightarrow> failure \<Rightarrow> failure \<Rightarrow> nat list \<Rightarrow> nat \<Rightarrow>
   (failure option \<times> nat) result" where
  "drop_faults net_seed node_seed original best [] runs = Inr (None, runs)"
| "drop_faults net_seed node_seed original best (i # is) runs =
     rbind (try_cut net_seed node_seed best (s_ticks (fl_schedule best))
              (without i (s_faults (fl_schedule best)))) (\<lambda>found.
       if reproduces original found then Inr (Some found, runs + 1)
       else drop_faults net_seed node_seed original best is (runs + 1))"

lemma try_cut_schedule:
  assumes "try_cut net_seed node_seed best ts fs = Inr found"
  shows "fl_schedule found = (fl_schedule best)\<lparr>s_ticks := ts, s_faults := fs\<rparr>"
    "fl_defect found = fl_defect best"
proof -
  from assms obtain cut where
    "Schedule (s_seed (fl_schedule best)) ts fs (s_size (fl_schedule best)) (s_conditions (fl_schedule best)) = Inr cut"
    "attempt net_seed node_seed cut (fl_defect best) WRITES_EVERY = Inr found"
    by (auto simp: try_cut_def Let_def raises)
  with attempt_keeps [OF this(2)] show "fl_schedule found = (fl_schedule best)\<lparr>s_ticks := ts, s_faults := fs\<rparr>"
    "fl_defect found = fl_defect best"
    by (cases "fl_schedule best"; auto simp: Schedule_def split: if_splits)+
qed

lemma drop_faults_found:
  "drop_faults net_seed node_seed original best is runs = Inr (Some found, runs') \<Longrightarrow>
   \<exists>i\<in>set is. try_cut net_seed node_seed best (s_ticks (fl_schedule best))
     (without i (s_faults (fl_schedule best))) = Inr found \<and> reproduces original found"
  by (induction "is" arbitrary: runs) (auto simp: raises split: if_splits)

lemma length_without: "i < length xs \<Longrightarrow> length (without i xs) = length xs - 1"
  by (simp add: without_def)

definition halved :: "nat \<Rightarrow> failure \<Rightarrow> nat" where
  "halved floor best = max floor (s_ticks (fl_schedule best) div 2)"

definition weight :: "failure \<Rightarrow> nat" where
  "weight f = length (s_faults (fl_schedule f)) + s_ticks (fl_schedule f)"

text \<open>Every cut that is kept takes a fault or a tick away.\<close>

lemma dropped_lighter:
  assumes "drop_faults net_seed node_seed original best [0..<length (s_faults (fl_schedule best))] runs =
    Inr (Some found, runs')"
  shows "weight found < weight best"
proof -
  from drop_faults_found [OF assms] obtain i where i: "i < length (s_faults (fl_schedule best))"
    "try_cut net_seed node_seed best (s_ticks (fl_schedule best)) (without i (s_faults (fl_schedule best))) = Inr found"
    by auto
  from try_cut_schedule(1) [OF i(2)] length_without [OF i(1)] i(1) show ?thesis by (simp add: weight_def)
qed

lemma halved_lighter:
  assumes "try_cut net_seed node_seed best half (filter (\<lambda>f. f_at f \<le> half) (s_faults (fl_schedule best))) = Inr found"
    "half < s_ticks (fl_schedule best)"
  shows "weight found < weight best"
  using try_cut_schedule(1) [OF assms(1)] assms(2) by (simp add: weight_def add_le_less_mono)

function shrink_loop ::
  "(int \<Rightarrow> draws) \<Rightarrow> (int \<Rightarrow> name \<Rightarrow> draws) \<Rightarrow> nat \<Rightarrow> failure \<Rightarrow> failure \<Rightarrow> nat \<Rightarrow> failure result" where
  "shrink_loop net_seed node_seed floor original best runs =
     rbind (drop_faults net_seed node_seed original best [0..<length (s_faults (fl_schedule best))] runs)
       (\<lambda>(dropped, runs1).
       case dropped of
         Some found \<Rightarrow> shrink_loop net_seed node_seed floor original found runs1
       | None \<Rightarrow>
           let half = halved floor best in
           if half < s_ticks (fl_schedule best)
           then rbind (try_cut net_seed node_seed best half
                         (filter (\<lambda>f. f_at f \<le> half) (s_faults (fl_schedule best)))) (\<lambda>found.
                if reproduces original found
                then shrink_loop net_seed node_seed floor original found (runs1 + 1)
                else Inr (best\<lparr>fl_runs := runs1 + 1\<rparr>))
           else Inr (best\<lparr>fl_runs := runs1\<rparr>))"
  by pat_completeness auto

termination
  by (relation "measure (\<lambda>(net_seed, node_seed, floor, original, best, runs). weight best)")
    (auto dest: dropped_lighter halved_lighter)

declare shrink_loop.simps [simp del]

definition shrink ::
  "(int \<Rightarrow> draws) \<Rightarrow> (int \<Rightarrow> name \<Rightarrow> draws) \<Rightarrow> nat \<Rightarrow> failure \<Rightarrow> failure result" where
  "shrink net_seed node_seed floor failure =
     (if \<not> is_failure failure then Inl ConfigError
      else shrink_loop net_seed node_seed floor failure failure 0)"

section \<open>What shrinking gives\<close>

definition runnable :: "failure \<Rightarrow> bool" where
  "runnable f \<longleftrightarrow> 1 \<le> s_ticks (fl_schedule f) \<and> 1 \<le> s_size (fl_schedule f) \<and>
     (\<forall>x\<in>set (s_faults (fl_schedule f)). f_at x \<le> s_ticks (fl_schedule f))"

text \<open>Two failures show the same thing when the checks name the same properties and raise the same error.\<close>

definition shows_the_same :: "failure \<Rightarrow> failure \<Rightarrow> bool" where
  "shows_the_same original g \<longleftrightarrow>
     fl_properties g = fl_properties original \<and> fl_raised g = fl_raised original"

definition cut_of :: "failure \<Rightarrow> failure \<Rightarrow> bool" where
  "cut_of original g \<longleftrightarrow> shows_the_same original g \<and> fl_defect g = fl_defect original \<and>
     subseq (s_faults (fl_schedule g)) (s_faults (fl_schedule original)) \<and>
     s_ticks (fl_schedule g) \<le> s_ticks (fl_schedule original) \<and>
     s_seed (fl_schedule g) = s_seed (fl_schedule original) \<and>
     s_size (fl_schedule g) = s_size (fl_schedule original) \<and>
     s_conditions (fl_schedule g) = s_conditions (fl_schedule original)"

definition fails_to_cut ::
  "(int \<Rightarrow> draws) \<Rightarrow> (int \<Rightarrow> name \<Rightarrow> draws) \<Rightarrow> failure \<Rightarrow> failure \<Rightarrow> nat \<Rightarrow> fault list \<Rightarrow> bool" where
  "fails_to_cut net_seed node_seed original g ts fs \<longleftrightarrow>
     (\<exists>found. try_cut net_seed node_seed g ts fs = Inr found \<and> \<not> shows_the_same original found)"

definition irreducible ::
  "(int \<Rightarrow> draws) \<Rightarrow> (int \<Rightarrow> name \<Rightarrow> draws) \<Rightarrow> nat \<Rightarrow> failure \<Rightarrow> failure \<Rightarrow> bool" where
  "irreducible net_seed node_seed floor original g \<longleftrightarrow>
     (\<forall>i<length (s_faults (fl_schedule g)). fails_to_cut net_seed node_seed original g
        (s_ticks (fl_schedule g)) (without i (s_faults (fl_schedule g)))) \<and>
     (halved floor g < s_ticks (fl_schedule g) \<longrightarrow> fails_to_cut net_seed node_seed original g
        (halved floor g) (filter (\<lambda>f. f_at f \<le> halved floor g) (s_faults (fl_schedule g))))"

definition attempt_raises ::
  "(int \<Rightarrow> draws) \<Rightarrow> (int \<Rightarrow> name \<Rightarrow> draws) \<Rightarrow> defect \<Rightarrow> error \<Rightarrow> bool" where
  "attempt_raises net_seed node_seed d e \<longleftrightarrow> (\<exists>s. attempt net_seed node_seed s d WRITES_EVERY = Inl e)"

lemma runs_unseen:
  "fails_to_cut net_seed node_seed original (g\<lparr>fl_runs := r\<rparr>) ts fs = fails_to_cut net_seed node_seed original g ts fs"
  "cut_of original (g\<lparr>fl_runs := r\<rparr>) = cut_of original g"
  by (simp_all add: fails_to_cut_def try_cut_def cut_of_def shows_the_same_def)

lemma irreducible_runs:
  "irreducible net_seed node_seed floor original (g\<lparr>fl_runs := r\<rparr>) = irreducible net_seed node_seed floor original g"
  by (simp add: irreducible_def halved_def runs_unseen)

lemma reproduces_iff:
  "is_failure original \<Longrightarrow> reproduces original found \<longleftrightarrow> shows_the_same original found"
  by (auto simp: reproduces_def shows_the_same_def same_failure_def is_failure_def)

lemma try_cut_runs:
  assumes "runnable best" "1 \<le> ts" "\<forall>x\<in>set fs. f_at x \<le> ts"
  shows "(\<exists>found. try_cut net_seed node_seed best ts fs = Inr found) \<or>
    (\<exists>e. try_cut net_seed node_seed best ts fs = Inl e \<and> attempt_raises net_seed node_seed (fl_defect best) e)"
proof -
  have "\<exists>cut. Schedule (s_seed (fl_schedule best)) ts fs (s_size (fl_schedule best))
      (s_conditions (fl_schedule best)) = Inr cut"
    using assms by (auto simp: Schedule_def runnable_def filter_empty_conv not_less)
  then show ?thesis
    by (auto simp: try_cut_def Let_def attempt_raises_def)
      (metis obj_sumE)
qed

lemma set_without: "set (without i xs) \<subseteq> set xs"
  by (auto simp: without_def dest: in_set_takeD in_set_dropD)

lemma subseq_without: "subseq (without i xs) xs"
proof -
  have "subseq (drop 1 (drop i xs)) (drop i xs)" by (rule suffix_imp_subseq) (rule suffix_drop)
  then have "subseq (take i xs @ drop (Suc i) xs) (take i xs @ drop i xs)"
    by (intro list_emb_append_mono) simp_all
  then show ?thesis by (simp add: without_def)
qed

lemma cut_again:
  assumes cut: "cut_of original best" and run: "runnable best"
    and "try_cut net_seed node_seed best ts fs = Inr found" "shows_the_same original found"
    and "subseq fs (s_faults (fl_schedule best))" "1 \<le> ts" "ts \<le> s_ticks (fl_schedule best)"
    and "\<forall>x\<in>set fs. f_at x \<le> ts"
  shows "cut_of original found" "runnable found"
  using try_cut_schedule [OF assms(3)] assms
  by (auto simp: cut_of_def runnable_def intro: subseq_order.trans)

text \<open>One pass over the faults.\<close>

lemma drop_faults_outcome:
  assumes "runnable best" "is_failure original"
  shows "(\<exists>e. drop_faults net_seed node_seed original best is runs = Inl e \<and>
      attempt_raises net_seed node_seed (fl_defect best) e) \<or>
    (\<exists>found runs'. drop_faults net_seed node_seed original best is runs = Inr (Some found, runs')) \<or>
    (\<exists>runs'. drop_faults net_seed node_seed original best is runs = Inr (None, runs') \<and>
      (\<forall>i\<in>set is. fails_to_cut net_seed node_seed original best (s_ticks (fl_schedule best))
        (without i (s_faults (fl_schedule best)))))"
proof (induction "is" arbitrary: runs)
  case (Cons i js)
  let ?fs = "without i (s_faults (fl_schedule best))"
  have "1 \<le> s_ticks (fl_schedule best)" "\<forall>x\<in>set ?fs. f_at x \<le> s_ticks (fl_schedule best)"
    using assms(1) set_without [of i "s_faults (fl_schedule best)"] by (auto simp: runnable_def)
  from try_cut_runs [OF assms(1) this, of net_seed node_seed] consider
    found where "try_cut net_seed node_seed best (s_ticks (fl_schedule best)) ?fs = Inr found"
    | e where "try_cut net_seed node_seed best (s_ticks (fl_schedule best)) ?fs = Inl e"
      "attempt_raises net_seed node_seed (fl_defect best) e" by blast
  then show ?case
  proof cases
    case 1
    then show ?thesis
      using Cons.IH [of "runs + 1"] by (cases "reproduces original found") (auto simp: fails_to_cut_def reproduces_iff assms(2))
  qed simp
qed simp

lemma shrink_loop_outcome:
  assumes "cut_of original best" "runnable best" "1 \<le> floor" "is_failure original"
  shows "(\<exists>e. shrink_loop net_seed node_seed floor original best runs = Inl e \<and>
      attempt_raises net_seed node_seed (fl_defect original) e) \<or>
    (\<exists>g. shrink_loop net_seed node_seed floor original best runs = Inr g \<and> cut_of original g \<and>
      runnable g \<and> irreducible net_seed node_seed floor original g)"
  using assms
proof (induction net_seed node_seed floor original best runs rule: shrink_loop.induct)
  case (1 net_seed node_seed floor original best runs)
  have d: "fl_defect best = fl_defect original" using "1.prems"(1) by (simp add: cut_of_def)
  let ?is = "[0..<length (s_faults (fl_schedule best))]" and ?half = "halved floor best"
  let ?fs = "filter (\<lambda>f. f_at f \<le> ?half) (s_faults (fl_schedule best))"
  note eq = shrink_loop.simps [of net_seed node_seed floor original best runs]
  from drop_faults_outcome [OF "1.prems"(2,4), of net_seed node_seed ?is runs, unfolded d]
  consider e where "drop_faults net_seed node_seed original best ?is runs = Inl e"
      "attempt_raises net_seed node_seed (fl_defect original) e"
    | found runs' where "drop_faults net_seed node_seed original best ?is runs = Inr (Some found, runs')"
    | runs' where "drop_faults net_seed node_seed original best ?is runs = Inr (None, runs')"
      "\<forall>i\<in>set ?is. fails_to_cut net_seed node_seed original best (s_ticks (fl_schedule best))
        (without i (s_faults (fl_schedule best)))" by blast
  then show ?case
  proof cases
    case (2 found runs')
    from drop_faults_found [OF 2] obtain i where i: "try_cut net_seed node_seed best (s_ticks (fl_schedule best))
        (without i (s_faults (fl_schedule best))) = Inr found" "shows_the_same original found"
      using reproduces_iff [OF "1.prems"(4)] by blast
    have "cut_of original found" "runnable found"
      using cut_again [OF "1.prems"(1,2) i subseq_without] "1.prems"(2)
        set_without [of i "s_faults (fl_schedule best)"] by (auto simp: runnable_def)
    then show ?thesis using "1.IH"(2) [OF 2 refl refl] "1.prems"(3,4) 2 eq by simp
  next
    case (3 runs')
    have whole: "\<forall>i<length (s_faults (fl_schedule best)). fails_to_cut net_seed node_seed original best
        (s_ticks (fl_schedule best)) (without i (s_faults (fl_schedule best)))" using 3(2) by simp
    show ?thesis
    proof (cases "?half < s_ticks (fl_schedule best)")
      case False
      then have "irreducible net_seed node_seed floor original best" using whole by (simp add: irreducible_def)
      then show ?thesis using 3(1) False eq "1.prems"(1,2)
        by (simp add: Let_def runs_unseen irreducible_runs) (simp add: runnable_def)
    next
      case True
      have half: "1 \<le> ?half" "\<forall>x\<in>set ?fs. f_at x \<le> ?half" using "1.prems"(3) by (auto simp: halved_def)
      from try_cut_runs [OF "1.prems"(2) this, of net_seed node_seed, unfolded d]
      consider found where "try_cut net_seed node_seed best ?half ?fs = Inr found"
        | e where "try_cut net_seed node_seed best ?half ?fs = Inl e"
          "attempt_raises net_seed node_seed (fl_defect original) e" by blast
      then show ?thesis
      proof cases
        case found: (1 found)
        show ?thesis
        proof (cases "reproduces original found")
          case rep: True
          then have same: "shows_the_same original found" using reproduces_iff [OF "1.prems"(4)] by simp
          have "cut_of original found" "runnable found"
            using cut_again [OF "1.prems"(1,2) found same subseq_filter_left half(1) _ half(2)] True by auto
          then show ?thesis
            using "1.IH"(1) [OF 3(1) refl refl refl True found rep] "1.prems"(3,4) 3(1) True found rep eq
            by (simp add: Let_def)
        next
          case no: False
          then have "irreducible net_seed node_seed floor original best"
            using whole found no reproduces_iff [OF "1.prems"(4)]
            by (simp add: irreducible_def fails_to_cut_def [of _ _ _ _ ?half])
          then show ?thesis using 3(1) True found no eq "1.prems"(1,2)
            by (simp add: Let_def runs_unseen irreducible_runs) (simp add: runnable_def)
        qed
      qed (use 3(1) True eq in \<open>simp add: Let_def\<close>)
    qed
  qed (use eq in simp)
qed


text \<open>
  A schedule that catches the double vote: two nodes whose timers run out together each grant the
  other's request, and a healing that heals nothing is there for the shrinker to drop.
\<close>

definition double_vote :: defect where
  "double_vote = \<lparr>d_name = ''votes twice'', d_class = Some VotesTwice, d_commit_any_term = False,
     forgets_the_vote = False\<rparr>"

definition idle_heal :: schedule where
  "idle_heal = \<lparr>s_seed = 0, s_ticks = 12,
     s_faults = [\<lparr>f_kind = HEAL, f_at = 1, f_target = [], f_sides = []\<rparr>], s_size = 2, s_conditions = None\<rparr>"

abbreviation caught_run :: "failure result" where
  "caught_run \<equiv> attempt (\<lambda>s i. 0) (\<lambda>s p i. 0) idle_heal double_vote WRITES_EVERY"

lemma double_vote_caught:
  "map_option fl_raised (case caught_run of Inr f \<Rightarrow> Some f | Inl e \<Rightarrow> None) = Some (Some ElectionSafety)"
  by code_simp


section \<open>The shipped nodes under the fuzzer\<close>

lemma rfold_same:
  assumes "\<And>x. x \<in> set xs \<Longrightarrow> f x c = Inr c"
  shows "rfold f xs c = Inr c"
  using assms by (induction xs) auto

lemma Broken_sound:
  assumes "keeps_every_rule d" "Cluster net_seed node_seed k sd cs False False = Inr c"
  shows "Broken net_seed node_seed d k sd cs = Inr c"
proof -
  let ?ms = "map (\<lambda>i. CHR ''n'' # decimal i) [0..<k]"
  from assms(2) obtain w ns where ns: "rmap (\<lambda>p. Node p ?ms (node_seed sd p) False False) ?ms = Inr ns"
    and c: "c = \<lparr>cmembers = ?ms, seed = sd, cpre_vote = False, net = w,
             nodes = (\<lambda>p. the (map_of (zip ?ms ns) p)), cnow = 0, down = {}, check = False,
             history = [], elections = 0, last_leader = None\<rparr>"
    unfolding Cluster_def Let_def by (auto simp only: raises split: if_splits)
  have "broken_node node_seed d c p sd = Inr (nodes c p)" if "p \<in> set (cmembers c)" for p
    using rmap_map_of [OF ns cluster_names_distinct, of p] that assms(1)
    by (simp add: broken_node_def c keeps_every_rule_def)
  then have "rfold (\<lambda>p c'. rbind (broken_node node_seed d c' p sd) (\<lambda>n. Inr (put_node c' p n))) (cmembers c) c = Inr c"
    by (intro rfold_same) (simp add: put_node_def)
  then show ?thesis using assms(2) by (simp add: Broken_def)
qed

lemma deliver_as_plain [simp]: "deliver_as PlainNode = deliver"
  by (intro ext) (simp add: deliver_as_def deliver_def)

lemma broken_tick_sound:
  assumes "keeps_every_rule d"
  shows "broken_tick d c = advance c"
proof -
  have "maker d = PlainNode" using assms by (simp add: keeps_every_rule_def)
  then show ?thesis unfolding broken_tick_def advance_def by (simp only: deliver_as_plain)
qed

lemma broken_inject_sound:
  assumes "keeps_every_rule d"
  shows "broken_inject node_seed d f c = rbind (inject node_seed c f) (\<lambda>(b, c'). Inr c')"
proof -
  have "broken_restart node_seed d c p = restart node_seed c p" for p
    using assms by (simp add: broken_restart_def restart_def broken_node_def keeps_every_rule_def Let_def)
  then show ?thesis by (cases "restart node_seed c (f_target f)") (simp_all add: broken_inject_def inject_def)
qed

text \<open>The cluster's own check stays off.\<close>

lemma inject_check: "inject node_seed c f = Inr (b, c') \<Longrightarrow> check c' = check c"
  by (auto simp: inject_def crash_def restart_def cluster_partition_def cluster_heal_def put_node_def
      Let_def raises split: if_splits)

lemma scheduled_write_check:
  assumes "scheduled_write t c = Inr c'"
  shows "check c' = check c"
proof (cases "cluster_propose c (PTuple [PStr ''set'', PStr ''k'', PInt (int t)])")
  case (Inl e)
  with assms show ?thesis by (cases e) (simp_all add: scheduled_write_def)
next
  case (Inr ic)
  obtain i c1 where ic: "ic = (i, c1)" by fastforce
  with assms Inr have "c1 = c'" by (simp add: scheduled_write_def)
  with propose_aside [OF Inr [unfolded ic]] show ?thesis by (simp add: aside_def)
qed

definition fuzzed :: "(int \<Rightarrow> draws) \<Rightarrow> (int \<Rightarrow> name \<Rightarrow> draws) \<Rightarrow> name list \<Rightarrow> cluster \<Rightarrow> bool" where
  "fuzzed net_seed node_seed ms c \<longleftrightarrow> cluster_reach net_seed node_seed c \<and> cmembers c = ms \<and> \<not> check c"

lemma broken_injects_sound:
  assumes "keeps_every_rule d" "fuzzed net_seed node_seed ms c" "\<forall>f\<in>set fs. placed ms f"
  shows "\<exists>c'. rfold (broken_inject node_seed d) fs c = Inr c' \<and> fuzzed net_seed node_seed ms c'"
proof (rule rfold_total)
  show "fuzzed net_seed node_seed ms c" using assms(2) .
  show "\<exists>c''. broken_inject node_seed d f c' = Inr c'' \<and> fuzzed net_seed node_seed ms c''"
    if f: "f \<in> set fs" and c': "fuzzed net_seed node_seed ms c'" for f c'
  proof -
    have "placed (cmembers c') f" using assms(3) f c' by (simp add: fuzzed_def)
    with inject_ok [of net_seed node_seed c' f] c' obtain b c'' where
      "inject node_seed c' f = Inr (b, c'')" "cluster_reach net_seed node_seed c''" "cmembers c'' = cmembers c'"
      by (auto simp: fuzzed_def)
    with inject_check [OF this(1)] c' show ?thesis
      unfolding broken_inject_sound [OF assms(1)] by (simp add: fuzzed_def)
  qed
qed

lemma attempt_tick_sound:
  assumes d: "keeps_every_rule d" and c: "fuzzed net_seed node_seed ms c" and e: "0 < every"
    and fs: "\<forall>f\<in>set (due_now due_of t). placed ms f"
  shows "\<exists>c'. attempt_tick node_seed d due_of every t c = Inr c' \<and> fuzzed net_seed node_seed ms c' \<and>
    (verify c' (take_moment c') = Inr () \<or> verify c' (take_moment c') = Inl StateMachineSafety)"
proof -
  obtain c1 where c1: "rfold (broken_inject node_seed d) (due_now due_of t) c = Inr c1"
    "fuzzed net_seed node_seed ms c1"
    using broken_injects_sound [OF d c fs] by blast
  obtain c2 where c2: "(if every = 0 then Inl ZeroDivisionError
      else if t mod every = 0 then scheduled_write t c1 else Inr c1) = Inr c2" "fuzzed net_seed node_seed ms c2"
    using scheduled_write_ok [of net_seed node_seed c1 t] scheduled_write_check [of t c1] c1(2) e
    by (cases "t mod every = 0") (auto simp: fuzzed_def)
  obtain c3 where c3: "advance c2 = Inr c3"
    "verify c3 (take_moment c3) = Inr () \<or> verify c3 (take_moment c3) = Inl StateMachineSafety"
    using tick_verdict [of c2] cluster_inv_reach [of net_seed node_seed c2] c2(2) by (auto simp: fuzzed_def)
  have off: "\<not> check c3" using advance_aside [OF c3(1)] c2(2) by (simp add: aside_def fuzzed_def)
  then have "perform node_seed c2 Tick = Inr c3" using c3(1) by (simp add: cluster_tick_def)
  with reach_perform [of net_seed node_seed c2 Tick c3] c2(2) off have "fuzzed net_seed node_seed ms c3"
    by (simp add: fuzzed_def)
  moreover have "attempt_tick node_seed d due_of every t c = Inr c3"
    unfolding attempt_tick_def due_now_def [symmetric] c1(1) rbind.simps c2(1) broken_tick_sound [OF d] by (rule c3(1))
  ultimately show ?thesis using c3(2) by blast
qed

lemma attempt_ticks_sound:
  assumes "keeps_every_rule d" "0 < every"
  shows "fuzzed net_seed node_seed ms c \<Longrightarrow> \<forall>t\<in>set ts. \<forall>f\<in>set (due_now due_of t). placed ms f \<Longrightarrow>
    \<exists>raised c'. attempt_ticks node_seed d due_of every ts c = Inr (raised, c') \<and>
      fuzzed net_seed node_seed ms c' \<and> raised \<in> {None, Some StateMachineSafety}"
proof (induction ts arbitrary: c)
  case (Cons t ts)
  have "\<forall>f\<in>set (due_now due_of t). placed ms f" using Cons.prems(2) by simp
  from attempt_tick_sound [OF assms(1) Cons.prems(1) assms(2) this] obtain c1 where
    c1: "attempt_tick node_seed d due_of every t c = Inr c1" "fuzzed net_seed node_seed ms c1"
    "verify c1 (take_moment c1) = Inr () \<or> verify c1 (take_moment c1) = Inl StateMachineSafety" by blast
  from Cons.IH [OF c1(2)] Cons.prems(2) obtain raised c' where
    "attempt_ticks node_seed d due_of every ts c1 = Inr (raised, c')" "fuzzed net_seed node_seed ms c'"
    "raised \<in> {None, Some StateMachineSafety}" by auto
  with c1 show ?case by auto
qed simp

text \<open>
  C25. Fuzzing the shipped nodes: a run of a schedule whose faults name members and whose splits
  cover them raises nothing, the live check finds no two leaders and no mismatched logs, and the
  inspection at the end names neither election safety nor log matching nor leader append only.
\<close>

theorem fuzzing_sound_nodes:
  assumes "keeps_every_rule d" "0 < every" "1 \<le> s_size s"
    and "\<forall>f\<in>set (s_faults s). placed (map (\<lambda>i. CHR ''n'' # decimal i) [0..<s_size s]) f"
  shows "\<exists>f. attempt net_seed node_seed s d every = Inr f \<and>
    set (fl_properties f) \<subseteq> {LEADER_COMPLETENESS, STATE_MACHINE_SAFETY} \<and>
    fl_raised f \<in> {None, Some StateMachineSafety}"
proof -
  let ?ms = "map (\<lambda>i. CHR ''n'' # decimal i) [0..<s_size s]"
  obtain c0 where c0: "Cluster net_seed node_seed (s_size s) (s_seed s) (s_conditions s) False False = Inr c0"
    "cmembers c0 = ?ms" using Cluster_total [OF assms(3)] by blast
  have "check c0 = False" using c0(1) by (auto simp: Cluster_def Let_def raises split: if_splits)
  then have f0: "fuzzed net_seed node_seed ?ms c0"
    using c0 cluster_reach.made [OF c0(1)] by (simp add: fuzzed_def)
  have "\<forall>t\<in>set [1..<s_ticks s + 1]. \<forall>f\<in>set (due_now (due s) t). placed ?ms f"
    using assms(4) by (simp add: due_filter)
  from attempt_ticks_sound [OF assms(1,2) f0 this] obtain raised c where
    c: "attempt_ticks node_seed d (due s) every [1..<s_ticks s + 1] c0 = Inr (raised, c)"
    "fuzzed net_seed node_seed ?ms c" "raised \<in> {None, Some StateMachineSafety}" by blast
  from c(2) obtain r where r: "inspect c = Inr r"
    "set (breaches r) \<subseteq> {b. b_property b = LEADER_COMPLETENESS} \<union> set (check_state_machine_safety c)"
    using inspect_reach [of net_seed node_seed c] by (auto simp: fuzzed_def)
  then have "b_property b \<in> {LEADER_COMPLETENESS, STATE_MACHINE_SAFETY}" if "b \<in> set (breaches r)" for b
    using that machine_check_named by blast
  with c r(1) Broken_sound [OF assms(1) c0(1)] show ?thesis
    by (auto simp: attempt_def simp del: upt_Suc)
qed

theorem fuzzing_sound_nodes_witness:
  "\<exists>f. attempt (\<lambda>s i. 0) (\<lambda>s p i. 0) idle_heal sound_defect WRITES_EVERY = Inr f \<and>
    fl_raised f \<in> {None, Some StateMachineSafety}"
  using fuzzing_sound_nodes [of sound_defect WRITES_EVERY idle_heal "\<lambda>s i. 0" "\<lambda>s p i. 0"]
  by (auto simp: idle_heal_def WRITES_EVERY_def placed_def kind_names)

end
