(* ===== verification/Handing_Over.thy ===== *)
theory Handing_Over
  imports Cluster_Runs
begin

text \<open>
  \<open>src/rsm/transfer.py\<close>: handing leadership to a named node, by bringing it up to date and then
  telling it to stand. The outgoing leader is held as an object in the source; the cluster never
  replaces a node in a tick, so it is the node of that name.
\<close>

section \<open>The transfer\<close>

definition PATIENCE :: nat where "PATIENCE = 60"

definition STARTED :: string where "STARTED = ''started''"
definition CAUGHT_UP :: string where "CAUGHT_UP = ''caught up''"
definition HANDED_OVER :: string where "HANDED_OVER = ''handed over''"
definition ABANDONED :: string where "ABANDONED = ''abandoned''"

definition STAGES :: "string list" where "STAGES = [STARTED, CAUGHT_UP, HANDED_OVER, ABANDONED]"

lemmas stage_names = STARTED_def CAUGHT_UP_def HANDED_OVER_def ABANDONED_def STAGES_def

record transfer =
  t_outgoing :: name
  t_target :: name
  t_stage :: string
  t_ticks :: nat
  t_messages :: nat
  t_elections :: nat

definition Transfer :: "name \<Rightarrow> name \<Rightarrow> string \<Rightarrow> nat \<Rightarrow> nat \<Rightarrow> nat \<Rightarrow> transfer result" where
  "Transfer out target stage ts ms els =
     (if stage \<notin> set STAGES then Inl ConfigError
      else if out = target then Inl ConfigError
      else Inr \<lparr>t_outgoing = out, t_target = target, t_stage = stage, t_ticks = ts, t_messages = ms,
        t_elections = els\<rparr>)"

definition handed_over :: "transfer \<Rightarrow> bool" where
  "handed_over t \<longleftrightarrow> t_stage t = HANDED_OVER"

text \<open>The first loop, with whether it broke off.\<close>

fun catch_up :: "nat \<Rightarrow> name \<Rightarrow> name \<Rightarrow> cluster \<Rightarrow> (bool \<times> cluster) result" where
  "catch_up 0 boss target c = Inr (False, c)"
| "catch_up (Suc k) boss target c =
     (if mget (match_index (nodes c boss)) target 0 \<ge> last_index (log (nodes c boss))
      then Inr (True, c)
      else rbind (replicate_to (nodes c boss) (Some target)) (\<lambda>out.
           rbind (send_all c out) (\<lambda>c1.
           rbind (cluster_tick c1) (catch_up k boss target))))"

text \<open>The second, with whether the target came to lead.\<close>

fun await_leader :: "nat \<Rightarrow> name \<Rightarrow> cluster \<Rightarrow> (bool \<times> cluster) result" where
  "await_leader 0 target c = Inr (False, c)"
| "await_leader (Suc k) target c =
     rbind (cluster_tick c) (\<lambda>c'.
       if map_option name (cluster_leader c') = Some target then Inr (True, c')
       else await_leader k target c')"

definition report_transfer :: "cluster \<Rightarrow> cluster \<Rightarrow> name \<Rightarrow> name \<Rightarrow> string \<Rightarrow> transfer result" where
  "report_transfer before after boss target stage =
     Transfer boss target stage (cnow after - cnow before)
       (n_sent (counts (net after)) - n_sent (counts (net before))) (elections after - elections before)"

definition hand_over :: "cluster \<Rightarrow> name \<Rightarrow> nat \<Rightarrow> (transfer \<times> cluster) result" where
  "hand_over c target patience =
     (case cluster_leader c of
        None \<Rightarrow> Inl NotLeader
      | Some boss \<Rightarrow>
          if target \<notin> set (cmembers c) then Inl ConfigError
          else if target = name boss then Inl ConfigError
          else rbind (catch_up patience (name boss) target c) (\<lambda>(caught, c1).
            if \<not> caught
            then rbind (report_transfer c c1 (name boss) target ABANDONED) (\<lambda>t. Inr (t, c1))
            else rbind (stand (nodes c1 target)) (\<lambda>(n, out).
              rbind (send_all (put_node c1 target n) out) (\<lambda>c2.
              rbind (await_leader patience target c2) (\<lambda>(led, c3).
              rbind (report_transfer c c3 (name boss) target (if led then HANDED_OVER else CAUGHT_UP))
                (\<lambda>t. Inr (t, c3)))))))"

section \<open>A transfer whose leader keeps leading\<close>

text \<open>
  Catching up asks the outgoing leader for an append whatever has become of it since. A transfer is
  as safe as the protocol as long as that node still leads each time it is asked.
\<close>

fun leads_throughout :: "nat \<Rightarrow> name \<Rightarrow> name \<Rightarrow> cluster \<Rightarrow> bool" where
  "leads_throughout 0 boss target c = True"
| "leads_throughout (Suc k) boss target c =
     (mget (match_index (nodes c boss)) target 0 \<ge> last_index (log (nodes c boss)) \<or>
      role (nodes c boss) = LEADER \<and>
      (case rbind (replicate_to (nodes c boss) (Some target)) (\<lambda>out. rbind (send_all c out) cluster_tick) of
         Inl e \<Rightarrow> True
       | Inr c' \<Rightarrow> leads_throughout k boss target c'))"

lemma replicate_moves_on:
  assumes "cluster_inv c" "p \<in> set (cmembers c)" "role (nodes c p) = LEADER"
    "q \<in> set (cmembers c)" "q \<noteq> p"
  shows "\<exists>out c'. replicate_to (nodes c p) (Some q) = Inr out \<and> send_all c out = Inr c' \<and>
    moves_on c c' \<and> cnow c' = cnow c"
proof -
  from assms(1) obtain s where ok: "cluster_ok (tight c) (cmembers c) {} c s"
    and down: "down c \<subseteq> set (cmembers c)"
    by (rule cluster_invE)
  obtain out where out: "replicate_to (nodes c p) (Some q) = Inr out"
    "\<forall>m\<in>set out. msg_ok (tight c) (cmembers c) s m"
    using replicate_sim [OF cluster_okD(1) [OF ok] cluster_okD(2) [OF ok assms(2)] assms(3,2), of "Some q"]
      assms(4,5) by auto
  with out_moves_on [OF ok down] show ?thesis by blast
qed

lemma stand_moves_on:
  assumes "cluster_inv c" "p \<in> set (cmembers c)"
  shows "\<exists>n out c'. stand (nodes c p) = Inr (n, out) \<and> send_all (put_node c p n) out = Inr c' \<and>
    moves_on c c' \<and> cnow c' = cnow c"
proof -
  from assms(1) obtain s where ok: "cluster_ok (tight c) (cmembers c) {} c s"
    and down: "down c \<subseteq> set (cmembers c)"
    by (rule cluster_invE)
  from stand_sim [OF cluster_okD(1) [OF ok] cluster_okD(2) [OF ok assms(2)] cluster_okD(3) [OF ok] assms(2)]
  obtain n out s' where n: "stand (nodes c p) = Inr (n, out)" "run (cmembers c) p s s'"
    "node_sim (tight c) (cmembers c) p n s'" "\<forall>m\<in>set out. msg_ok (tight c) (cmembers c) s' m"
    unfolding refines_def by blast
  let ?d = "put_node c p n"
  have same: "tight ?d = tight c" "cmembers ?d = cmembers c" "down ?d = down c" "cnow ?d = cnow c"
    by (simp_all add: tight_def put_node_def)
  obtain c' where "send_all ?d out = Inr c'" "moves_on ?d c'" "cnow c' = cnow ?d"
    using out_moves_on [of ?d s' out] put_node_ok [OF ok n(2,3)] n(4) down same by auto
  with n(1) same show ?thesis by (auto simp: moves_on_def)
qed

text \<open>The two loops.\<close>

lemma catch_up_safe:
  assumes "cluster_inv c" "boss \<in> set (cmembers c)" "target \<in> set (cmembers c)" "target \<noteq> boss"
    "leads_throughout k boss target c"
  shows "catch_up k boss target c = Inl StateMachineSafety \<or>
    (\<exists>caught c'. catch_up k boss target c = Inr (caught, c') \<and> moves_on c c' \<and>
       cnow c \<le> cnow c' \<and> cnow c' \<le> cnow c + k \<and>
       (caught \<longrightarrow> last_index (log (nodes c' boss)) \<le> mget (match_index (nodes c' boss)) target 0) \<and>
       (\<not> caught \<longrightarrow> cnow c' = cnow c + k))"
  using assms
proof (induction k arbitrary: c)
  case 0
  then show ?case by (simp add: moves_on_def ex_bool_eq)
next
  case (Suc k)
  show ?case
  proof (cases "last_index (log (nodes c boss)) \<le> mget (match_index (nodes c boss)) target 0")
    case True
    with Suc.prems(1) show ?thesis by (simp add: moves_on_def ex_bool_eq)
  next
    case False
    with Suc.prems(5) have "role (nodes c boss) = LEADER" by simp
    from replicate_moves_on [OF Suc.prems(1,2) this Suc.prems(3,4)]
    obtain out c1 where c1: "replicate_to (nodes c boss) (Some target) = Inr out"
      "send_all c out = Inr c1" "moves_on c c1" "cnow c1 = cnow c" by blast
    have eq: "catch_up (Suc k) boss target c = rbind (cluster_tick c1) (catch_up k boss target)"
      using False c1(1,2) by simp
    have "cluster_inv c1" using c1(3) by (simp add: moves_on_def)
    from tick_moves_on [OF this] show ?thesis
    proof
      assume "cluster_tick c1 = Inl StateMachineSafety"
      with eq show ?thesis by simp
    next
      assume "\<exists>c'. cluster_tick c1 = Inr c' \<and> moves_on c1 c' \<and> cnow c' = Suc (cnow c1)"
      then obtain c2 where c2: "cluster_tick c1 = Inr c2" "moves_on c1 c2" "cnow c2 = Suc (cnow c)"
        using c1(4) by auto
      have on: "moves_on c c2" using c1(3) c2(2) by (rule moves_on_trans)
      have "leads_throughout k boss target c2" using Suc.prems(5) False c1(1,2) c2(1) by simp
      moreover from on have "cluster_inv c2" "cmembers c2 = cmembers c" by (simp_all add: moves_on_def)
      ultimately have "catch_up k boss target c2 = Inl StateMachineSafety \<or>
        (\<exists>caught c'. catch_up k boss target c2 = Inr (caught, c') \<and> moves_on c2 c' \<and>
           cnow c2 \<le> cnow c' \<and> cnow c' \<le> cnow c2 + k \<and>
           (caught \<longrightarrow> last_index (log (nodes c' boss)) \<le> mget (match_index (nodes c' boss)) target 0) \<and>
           (\<not> caught \<longrightarrow> cnow c' = cnow c2 + k))"
        using Suc.IH [of c2] Suc.prems(2-4) by simp
      then show ?thesis
        unfolding eq c2(1) rbind.simps using moves_on_trans [OF on] c2(3) by fastforce
    qed
  qed
qed

lemma await_leader_safe:
  assumes "cluster_inv c"
  shows "await_leader k target c = Inl StateMachineSafety \<or>
    (\<exists>led c'. await_leader k target c = Inr (led, c') \<and> moves_on c c' \<and>
       cnow c \<le> cnow c' \<and> cnow c' \<le> cnow c + k \<and>
       (led \<longrightarrow> map_option name (cluster_leader c') = Some target) \<and>
       (\<not> led \<longrightarrow> cnow c' = cnow c + k \<and> (k = 0 \<or> map_option name (cluster_leader c') \<noteq> Some target)))"
  using assms
proof (induction k arbitrary: c)
  case 0
  then show ?case by (simp add: moves_on_def ex_bool_eq)
next
  case (Suc k)
  from tick_moves_on [OF Suc.prems] show ?case
  proof
    assume "\<exists>c'. cluster_tick c = Inr c' \<and> moves_on c c' \<and> cnow c' = Suc (cnow c)"
    then obtain c2 where c2: "cluster_tick c = Inr c2" "moves_on c c2" "cnow c2 = Suc (cnow c)" by blast
    show ?thesis
    proof (cases "map_option name (cluster_leader c2) = Some target")
      case True
      with c2 show ?thesis by (simp add: ex_bool_eq)
    next
      case False
      then have eq: "await_leader (Suc k) target c = await_leader k target c2" using c2(1) by auto
      have "cluster_inv c2" using c2(2) by (simp add: moves_on_def)
      from Suc.IH [OF this] show ?thesis
      proof (elim disjE exE conjE, goal_cases)
        case 1
        with eq show ?case by simp
      next
        case (2 led c')
        have "await_leader (Suc k) target c = Inr (led, c')" using eq 2(1) by simp
        moreover have "moves_on c c'" by (rule moves_on_trans [OF c2(2) 2(2)])
        moreover have "cnow c \<le> cnow c'" "cnow c' \<le> cnow c + Suc k" using 2(3,4) c2(3) by simp_all
        moreover have "\<not> led \<Longrightarrow> cnow c' = cnow c + Suc k" using 2(6) c2(3) by simp
        moreover have "\<not> led \<Longrightarrow> map_option name (cluster_leader c') \<noteq> Some target"
          using 2(1,6) False by (cases k) simp_all
        ultimately show ?case using 2(5) by blast
      qed
    qed
  qed simp
qed

lemma report_transfer_ok:
  assumes "boss \<noteq> target" "stage \<in> set STAGES"
  shows "report_transfer c c' boss target stage =
    Inr \<lparr>t_outgoing = boss, t_target = target, t_stage = stage, t_ticks = cnow c' - cnow c,
         t_messages = n_sent (counts (net c')) - n_sent (counts (net c)),
         t_elections = elections c' - elections c\<rparr>"
  using assms by (simp add: report_transfer_def Transfer_def)


section \<open>Two transfers\<close>

text \<open>
  A network that loses the messages whose draw is listed, and nodes whose election timeouts differ.
\<close>

definition patchy_net :: "nat list \<Rightarrow> int \<Rightarrow> draws" where
  "patchy_net lost sd = (\<lambda>i. if i \<in> set lost then 0 else 2 ^ 52)"

definition staggered :: "int \<Rightarrow> name \<Rightarrow> draws" where
  "staggered sd p = (\<lambda>i. if p = ''n0'' then 0 else if p = ''n1'' then 1 else 9)"

definition coin_flips :: conditions where
  "coin_flips = \<lparr>loss = (1, 1), min_delay = 1, max_delay = 1\<rparr>"

definition staged :: "nat list \<Rightarrow> nat \<Rightarrow> event list \<Rightarrow> cluster result" where
  "staged lost k evs = rbind (Cluster (patchy_net lost) staggered k 0 (Some coin_flips) False False)
     (rfold (\<lambda>ev c. perform staggered c ev) evs)"

definition a_write :: event where
  "a_write = Propose (PTuple [PStr ''set'', PStr ''k'', PInt 1])"

lemma staged_reach:
  assumes "staged lost k evs = Inr c"
  shows "cluster_reach (patchy_net lost) staggered c"
proof -
  have go: "rfold (\<lambda>ev c. perform staggered c ev) evs d = Inr c \<Longrightarrow>
    cluster_reach (patchy_net lost) staggered d \<Longrightarrow> cluster_reach (patchy_net lost) staggered c" for d
    by (induction evs arbitrary: d) (auto simp: raises intro: cluster_reach.performed)
  from assms show ?thesis
    unfolding staged_def by (auto simp: raises intro: go cluster_reach.made)
qed

text \<open>A write is on its way when the leader of two nodes hands over to the other.\<close>

lemma planned_handover:
  "case staged [] 2 (replicate 12 Tick @ [a_write]) of Inl e \<Rightarrow> False
   | Inr c \<Rightarrow> map_option name (cluster_leader c) = Some ''n0'' \<and> cmembers c = [''n0'', ''n1''] \<and>
       leads_throughout 3 ''n0'' ''n1'' c"
  by code_simp



end
