(* ===== verification/Watching.thy ===== *)
theory Watching
  imports Prelude
begin

text \<open>
  \<open>src/rsm/watch.py\<close>: events read off the committed log, the watchers they are offered to, and the
  ways a watcher that was away can resume. Watchers are mutable objects shared by a feed and its
  clients; within a feed their names are distinct, so a client's change to its watcher is a change
  to the watcher of that name.
\<close>

section \<open>Events and watchers\<close>

record watch_event =
  ev_index :: int
  ev_key :: string
  ev_value :: pyobj

definition Event :: "int \<Rightarrow> string \<Rightarrow> pyobj \<Rightarrow> watch_event result" where
  "Event i k v =
     (if i < 1 then Inl ConfigError
      else if k = [] then Inl ConfigError
      else Inr \<lparr>ev_index = i, ev_key = k, ev_value = v\<rparr>)"

record watcher =
  w_name :: string
  w_key :: string
  seen_events :: "watch_event list"
  w_at :: int
  connected :: bool
  missed :: nat

definition Watcher :: "string \<Rightarrow> string \<Rightarrow> watcher" where
  "Watcher nm k = \<lparr>w_name = nm, w_key = k, seen_events = [], w_at = 0, connected = True, missed = 0\<rparr>"

definition wants :: "watcher \<Rightarrow> watch_event \<Rightarrow> bool" where
  "wants w e \<longleftrightarrow> w_key w = [] \<or> ev_key e = w_key w"

definition w_deliver :: "watcher \<Rightarrow> watch_event \<Rightarrow> bool \<times> watcher" where
  "w_deliver w e =
     (if \<not> connected w \<or> \<not> wants w e then (False, w)
      else if ev_index e \<le> w_at w then (False, w)
      else (True, w\<lparr>seen_events := seen_events w @ [e], w_at := ev_index e\<rparr>))"

fun ascending :: "watch_event list \<Rightarrow> bool" where
  "ascending (d # e # es) \<longleftrightarrow> ev_index d < ev_index e \<and> ascending (e # es)"
| "ascending es \<longleftrightarrow> True"

definition w_ordered :: "watcher \<Rightarrow> bool" where
  "w_ordered w \<longleftrightarrow> ascending (seen_events w)"

section \<open>A feed\<close>

record feed =
  watchers :: "watcher list"
  events :: "watch_event list"
  f_delivered :: nat

definition Feed :: feed where
  "Feed = \<lparr>watchers = [], events = [], f_delivered = 0\<rparr>"

definition add_watcher :: "feed \<Rightarrow> watcher \<Rightarrow> feed result" where
  "add_watcher f w =
     (if list_ex (\<lambda>x. w_name x = w_name w) (watchers f) then Inl ConfigError
      else Inr (f\<lparr>watchers := watchers f @ [w]\<rparr>))"

definition publish :: "feed \<Rightarrow> watch_event \<Rightarrow> nat \<times> feed" where
  "publish f e =
     (let offered = map (\<lambda>w. w_deliver w e) (watchers f);
          taken = length (filter fst offered)
      in (taken, f\<lparr>events := events f @ [e], watchers := map snd offered,
                   f_delivered := f_delivered f + taken\<rparr>))"

definition since :: "feed \<Rightarrow> int \<Rightarrow> watch_event list result" where
  "since f i = (if i < 0 then Inl ConfigError else Inr (filter (\<lambda>e. i < ev_index e) (events f)))"

text \<open>A client changes its own watcher, or is handed a list of events.\<close>

definition with_watcher :: "string \<Rightarrow> (watcher \<Rightarrow> watcher) \<Rightarrow> feed \<Rightarrow> feed" where
  "with_watcher nm g f = f\<lparr>watchers := map (\<lambda>w. if w_name w = nm then g w else w) (watchers f)\<rparr>"

definition catch_up_on :: "watch_event list \<Rightarrow> watcher \<Rightarrow> watcher" where
  "catch_up_on es w = fold (\<lambda>e w. snd (w_deliver w e)) es w"

definition watcher_named :: "string \<Rightarrow> feed \<Rightarrow> watcher option" where
  "watcher_named nm f = find (\<lambda>w. w_name w = nm) (watchers f)"

section \<open>Coming again\<close>

definition FROM_NOW :: string where "FROM_NOW = ''from now''"
definition FROM_AN_INDEX :: string where "FROM_AN_INDEX = ''from an index''"
definition NEVER_DISCONNECTED :: string where "NEVER_DISCONNECTED = ''never disconnected''"

lemmas styles = FROM_NOW_def FROM_AN_INDEX_def NEVER_DISCONNECTED_def

text \<open>One turn of the run: what the client does at this event, and the event.\<close>

definition leave_at :: "string \<Rightarrow> nat \<Rightarrow> nat \<Rightarrow> feed \<times> int \<Rightarrow> feed \<times> int" where
  "leave_at style gone index st =
     (if index = gone \<and> style \<noteq> NEVER_DISCONNECTED
      then (with_watcher style (\<lambda>w. w\<lparr>connected := False\<rparr>) (fst st),
            case watcher_named style (fst st) of None \<Rightarrow> snd st | Some w \<Rightarrow> w_at w)
      else st)"

definition return_at :: "string \<Rightarrow> nat \<Rightarrow> nat \<Rightarrow> watch_event \<Rightarrow> feed \<times> int \<Rightarrow> (feed \<times> int) result" where
  "return_at style again index e st =
     (if index = again \<and> style \<noteq> NEVER_DISCONNECTED
      then let f = with_watcher style (\<lambda>w. w\<lparr>connected := True\<rparr>) (fst st) in
           if style = FROM_NOW
           then Inr (with_watcher style (\<lambda>w. w\<lparr>w_at := ev_index e - 1\<rparr>) f, snd st)
           else rbind (since f (snd st)) (\<lambda>es.
                Inr (with_watcher style (catch_up_on es) f, snd st))
      else Inr st)"

definition resume_turn ::
  "string \<Rightarrow> nat \<Rightarrow> nat \<Rightarrow> nat \<times> watch_event \<Rightarrow> feed \<times> int \<Rightarrow> (feed \<times> int) result" where
  "resume_turn style gone again ie st =
     rbind (return_at style again (fst ie) (snd ie) (leave_at style gone (fst ie) st)) (\<lambda>(f, mark).
     Inr (snd (publish f (snd ie)), mark))"

definition resumption :: "string \<Rightarrow> watch_event list \<Rightarrow> feed result" where
  "resumption style es =
     rbind (add_watcher Feed (Watcher style [])) (\<lambda>f.
     rbind (rfold (resume_turn style (length es div 3) (2 * length es div 3)) (enumerate 0 es) (f, 0))
       (\<lambda>(f', mark). Inr f'))"

section \<open>What a feed keeps\<close>

lemma ascending_sorted: "ascending es \<longleftrightarrow> sorted_wrt (\<lambda>d e. ev_index d < ev_index e) es"
  by (induction es rule: ascending.induct) (auto 0 3 dest: order.strict_trans)

text \<open>
  A watcher of a feed has seen some of its events, in their order, none twice, only those it
  wants, and has got at least as far as the last of them.
\<close>

definition watching :: "watch_event list \<Rightarrow> watcher \<Rightarrow> bool" where
  "watching es w \<longleftrightarrow> ascending (seen_events w) \<and>
     (\<forall>e\<in>set (seen_events w). e \<in> set es \<and> wants w e \<and> ev_index e \<le> w_at w)"

definition feed_ok :: "feed \<Rightarrow> bool" where
  "feed_ok f \<longleftrightarrow> distinct (map w_name (watchers f)) \<and> (\<forall>w\<in>set (watchers f). watching (events f) w)"

lemma w_deliver_simps:
  "w_name (snd (w_deliver w e)) = w_name w" "w_key (snd (w_deliver w e)) = w_key w"
  "connected (snd (w_deliver w e)) = connected w" "wants (snd (w_deliver w e)) = wants w"
  by (simp_all add: w_deliver_def wants_def fun_eq_iff)

lemma w_deliver_watching:
  assumes "watching es w" "e \<in> set es'" "set es \<subseteq> set es'"
  shows "watching es' (snd (w_deliver w e))"
  using assms
  by (auto simp: w_deliver_def watching_def ascending_sorted sorted_wrt_append wants_def)

lemma catch_up_on_watching:
  "watching es w \<Longrightarrow> set ds \<subseteq> set es \<Longrightarrow>
   watching es (catch_up_on ds w) \<and> w_name (catch_up_on ds w) = w_name w"
  unfolding catch_up_on_def
  by (induction ds arbitrary: w) (simp_all add: w_deliver_watching w_deliver_simps)

lemma watching_connected: "watching es (w\<lparr>connected := b\<rparr>) = watching es w"
  by (simp add: watching_def wants_def)

lemma watcher_names:
  assumes "\<And>w. w_name (g w) = w_name w"
  shows "map w_name (watchers (with_watcher nm g f)) = map w_name (watchers f)"
  using assms by (simp add: with_watcher_def)

text \<open>
  C28. Every operation of a feed keeps it well formed: the names of its watchers stay distinct, and
  each has seen events of the feed, in log order, none of them twice and only those it asked for.
  A name already watching is refused, and publishing says how many watchers took the event.
\<close>

theorem feed_well_formed:
  assumes ok: "feed_ok f"
  shows "feed_ok Feed \<and>
    add_watcher f (Watcher nm k) =
      (if nm \<in> w_name ` set (watchers f) then Inl ConfigError
       else Inr (f\<lparr>watchers := watchers f @ [Watcher nm k]\<rparr>)) \<and>
    (nm \<notin> w_name ` set (watchers f) \<longrightarrow> feed_ok (f\<lparr>watchers := watchers f @ [Watcher nm k]\<rparr>)) \<and>
    feed_ok (snd (publish f e)) \<and> events (snd (publish f e)) = events f @ [e] \<and>
    fst (publish f e) = length (filter (\<lambda>w. connected w \<and> wants w e \<and> w_at w < ev_index e) (watchers f)) \<and>
    feed_ok (with_watcher nm (\<lambda>w. w\<lparr>connected := b\<rparr>) f) \<and>
    (0 \<le> i \<longrightarrow> (\<exists>es. since f i = Inr es \<and> feed_ok (with_watcher nm (catch_up_on es) f)))"
proof (intro conjI impI)
  have each: "w \<in> set (watchers f) \<Longrightarrow> watching (events f) w" for w using ok by (simp add: feed_ok_def)
  have names: "distinct (map w_name (watchers f))" using ok by (simp add: feed_ok_def)
  show "feed_ok Feed" by (simp add: feed_ok_def Feed_def)
  show "add_watcher f (Watcher nm k) =
      (if nm \<in> w_name ` set (watchers f) then Inl ConfigError
       else Inr (f\<lparr>watchers := watchers f @ [Watcher nm k]\<rparr>))"
    by (auto simp: add_watcher_def list_ex_iff Watcher_def)
  show "feed_ok (f\<lparr>watchers := watchers f @ [Watcher nm k]\<rparr>)" if "nm \<notin> w_name ` set (watchers f)"
    using ok that by (auto simp: feed_ok_def Watcher_def watching_def)
  show "feed_ok (snd (publish f e))"
    using names each w_deliver_watching [of "events f" _ e "events f @ [e]"]
    by (auto simp: feed_ok_def publish_def Let_def comp_def w_deliver_simps)
  show "events (snd (publish f e)) = events f @ [e]" by (simp add: publish_def Let_def)
  show "fst (publish f e) = length (filter (\<lambda>w. connected w \<and> wants w e \<and> w_at w < ev_index e) (watchers f))"
    by (simp add: publish_def Let_def filter_map comp_def w_deliver_def)
      (intro arg_cong [of _ _ length] filter_cong; auto)
  show "feed_ok (with_watcher nm (\<lambda>w. w\<lparr>connected := b\<rparr>) f)"
    using names each
    by (auto simp: feed_ok_def watcher_names) (auto simp: with_watcher_def watching_connected)
  show "\<exists>es. since f i = Inr es \<and> feed_ok (with_watcher nm (catch_up_on es) f)" if "0 \<le> i"
  proof -
    let ?es = "filter (\<lambda>e. i < ev_index e) (events f)"
    have "watching (events f) (catch_up_on ?es w)" "w_name (catch_up_on ?es w) = w_name w"
      if "w \<in> set (watchers f)" for w
      using catch_up_on_watching [OF each [OF that], of ?es] by auto
    then have "feed_ok (with_watcher nm (catch_up_on ?es) f)"
      using names each
      by (auto simp: feed_ok_def with_watcher_def comp_def if_distrib [of w_name] cong: if_cong map_cong)
    with that show ?thesis by (simp add: since_def)
  qed
qed

section \<open>What a returning watcher has seen\<close>

text \<open>A feed with one watcher of everything, by what it has seen and what was published.\<close>

definition one_watcher :: "string \<Rightarrow> bool \<Rightarrow> watch_event list \<Rightarrow> int \<Rightarrow> watch_event list \<Rightarrow> nat \<Rightarrow> feed" where
  "one_watcher nm c seen at es k =
     \<lparr>watchers = [\<lparr>w_name = nm, w_key = [], seen_events = seen, w_at = at, connected = c, missed = 0\<rparr>],
      events = es, f_delivered = k\<rparr>"

lemma one_watcher_simps [simp]:
  "with_watcher nm (\<lambda>w. w\<lparr>connected := b\<rparr>) (one_watcher nm c seen at es k) = one_watcher nm b seen at es k"
  "with_watcher nm (\<lambda>w. w\<lparr>w_at := i\<rparr>) (one_watcher nm c seen at es k) = one_watcher nm c seen i es k"
  "watcher_named nm (one_watcher nm c seen at es k) = Some
     \<lparr>w_name = nm, w_key = [], seen_events = seen, w_at = at, connected = c, missed = 0\<rparr>"
  "since (one_watcher nm c seen at es k) i =
     (if i < 0 then Inl ConfigError else Inr (filter (\<lambda>e. i < ev_index e) es))"
  by (simp_all add: with_watcher_def one_watcher_def watcher_named_def since_def)

definition last_at :: "int \<Rightarrow> watch_event list \<Rightarrow> int" where
  "last_at i es = (if es = [] then i else ev_index (last es))"

lemma last_at_simps [simp]:
  "last_at i [] = i" "last_at i (es @ [e]) = ev_index e" "last_at (last_at i ds) es = last_at i (ds @ es)"
  by (auto simp: last_at_def)

definition after :: "int \<Rightarrow> watch_event list \<Rightarrow> bool" where
  "after i es \<longleftrightarrow> ascending es \<and> (\<forall>e\<in>set es. i < ev_index e)"

lemma after_append: "after i (ds @ es) \<longleftrightarrow> after i ds \<and> after (last_at i ds) es"
proof (cases ds rule: rev_cases)
  case (snoc cs d)
  then show ?thesis
    by (auto simp: after_def ascending_sorted sorted_wrt_append) (force+)?
qed (simp add: after_def)

lemma after_Cons: "after i (e # es) \<longleftrightarrow> i < ev_index e \<and> after (ev_index e) es"
  by (auto simp: after_def ascending_sorted)

lemma publish_gone:
  "snd (publish (one_watcher nm False seen at es k) e) = one_watcher nm False seen at (es @ [e]) k"
  by (simp add: publish_def one_watcher_def w_deliver_def)

lemma publish_there:
  "at < ev_index e \<Longrightarrow> snd (publish (one_watcher nm True seen at es k) e) =
   one_watcher nm True (seen @ [e]) (ev_index e) (es @ [e]) (k + 1)"
  by (simp add: publish_def one_watcher_def w_deliver_def wants_def)

lemma catch_up_there:
  "after at ds \<Longrightarrow> with_watcher nm (catch_up_on ds) (one_watcher nm True seen at es k) =
   one_watcher nm True (seen @ ds) (last_at at ds) es k"
proof -
  assume "after at ds"
  then have "fold (\<lambda>e w. snd (w_deliver w e)) ds
      \<lparr>w_name = nm, w_key = [], seen_events = seen, w_at = at, connected = True, missed = 0\<rparr> =
    \<lparr>w_name = nm, w_key = [], seen_events = seen @ ds, w_at = last_at at ds, connected = True, missed = 0\<rparr>"
    by (induction ds arbitrary: seen at)
      (auto simp: after_Cons w_deliver_def wants_def last_at_def)
  then show ?thesis by (simp add: with_watcher_def one_watcher_def catch_up_on_def)
qed

text \<open>Turns at which the client does nothing.\<close>

definition idle :: "string \<Rightarrow> nat \<Rightarrow> nat \<Rightarrow> nat \<Rightarrow> nat \<Rightarrow> bool" where
  "idle style gone again n k \<longleftrightarrow>
     style = NEVER_DISCONNECTED \<or> (gone \<notin> {n..<n + k} \<and> again \<notin> {n..<n + k})"

lemma idle_Suc: "idle style gone again n (Suc k) \<longleftrightarrow>
  (style = NEVER_DISCONNECTED \<or> n \<noteq> gone \<and> n \<noteq> again) \<and> idle style gone again (Suc n) k"
  by (auto simp: idle_def)

lemma resume_turn_idle:
  "style = NEVER_DISCONNECTED \<or> n \<noteq> gone \<and> n \<noteq> again \<Longrightarrow>
   resume_turn style gone again (n, e) (f, mark) = Inr (snd (publish f e), mark)"
  by (auto simp: resume_turn_def leave_at_def return_at_def)

lemma turns_there:
  "idle style gone again n (length ds) \<Longrightarrow> after at ds \<Longrightarrow>
   rfold (resume_turn style gone again) (enumerate n ds) (one_watcher nm True seen at es k, mark) =
   Inr (one_watcher nm True (seen @ ds) (last_at at ds) (es @ ds) (k + length ds), mark)"
proof (induction ds arbitrary: n seen at es k)
  case (Cons d ds)
  then have "style = NEVER_DISCONNECTED \<or> n \<noteq> gone \<and> n \<noteq> again" "idle style gone again (Suc n) (length ds)"
    "at < ev_index d" "after (ev_index d) ds" by (auto simp: idle_Suc after_Cons)
  with Cons.IH [OF this(2,4)] show ?case
    by (simp add: resume_turn_idle publish_there last_at_def)
qed simp

lemma turns_gone:
  "idle style gone again n (length ds) \<Longrightarrow>
   rfold (resume_turn style gone again) (enumerate n ds) (one_watcher nm False seen at es k, mark) =
   Inr (one_watcher nm False seen at (es @ ds) k, mark)"
proof (induction ds arbitrary: n es)
  case (Cons d ds)
  then have "style = NEVER_DISCONNECTED \<or> n \<noteq> gone \<and> n \<noteq> again" "idle style gone again (Suc n) (length ds)"
    by (auto simp: idle_Suc)
  with Cons.IH [OF this(2)] show ?case by (simp add: resume_turn_idle publish_gone)
qed simp

lemma filter_after: "after i (ds @ es) \<Longrightarrow> filter (\<lambda>e. last_at i ds < ev_index e) (ds @ es) = es"
proof -
  assume *: "after i (ds @ es)"
  have "ev_index d \<le> last_at i ds" if "d \<in> set ds" for d
    using * that by (cases ds rule: rev_cases) (auto simp: after_def ascending_sorted sorted_wrt_append)
  then have "filter (\<lambda>e. last_at i ds < ev_index e) ds = []" by (simp add: filter_empty_conv not_less)
  moreover have "filter (\<lambda>e. last_at i ds < ev_index e) es = es"
    using * by (simp add: filter_id_conv after_append) (simp add: after_def)
  ultimately show ?thesis by simp
qed

lemma after_last: "0 \<le> i \<Longrightarrow> after i es \<Longrightarrow> 0 \<le> last_at i es"
  by (cases es rule: rev_cases) (auto simp: after_def)

text \<open>The runs that lose touch: \<open>as\<close> before leaving, \<open>b # bs\<close> away, \<open>c # cs\<close> from coming back.\<close>

lemma away_and_back:
  assumes after: "after 0 (as @ b # bs @ c # cs)" and style: "style \<noteq> NEVER_DISCONNECTED"
  shows "\<exists>at k. rfold (resume_turn style (length as) (length as + Suc (length bs)))
      (enumerate 0 (as @ b # bs @ c # cs)) (one_watcher style True [] 0 [] 0, 0) =
    Inr (one_watcher style True (as @ (if style = FROM_NOW then [] else b # bs) @ c # cs) at
      (as @ b # bs @ c # cs) k, last_at 0 as)"
proof -
  let ?g = "length as" and ?m = "last_at 0 as"
  let ?a = "?g + Suc (length bs)" and ?away = "as @ b # bs"
  let ?turn = "resume_turn style ?g ?a"
  have parts: "after 0 as" "after ?m (b # bs)" "after (last_at 0 ?away) (c # cs)" "after 0 ?away"
    using after after_append [of 0 ?away "c # cs"] after_append [of 0 as "b # bs"] by simp_all
  have mark: "0 \<le> ?m" by (rule after_last [OF order_refl parts(1)])
  have 1: "rfold ?turn (enumerate 0 as) (one_watcher style True [] 0 [] 0, 0) =
      Inr (one_watcher style True as ?m as ?g, 0)"
    using turns_there [of style ?g ?a 0 as 0 style "[]" "[]" 0 0] parts(1) by (simp add: idle_def)
  have 2: "?turn (?g, b) (one_watcher style True as ?m as ?g, 0) =
      Inr (one_watcher style False as ?m (as @ [b]) ?g, ?m)"
    using style by (simp add: resume_turn_def leave_at_def return_at_def publish_gone)
  have 3: "rfold ?turn (enumerate (Suc ?g) bs) (one_watcher style False as ?m (as @ [b]) ?g, ?m) =
      Inr (one_watcher style False as ?m ?away ?g, ?m)"
    using turns_gone [of style ?g ?a "Suc ?g" bs style as ?m "as @ [b]" ?g ?m] by (simp add: idle_def)
  have c: "after (ev_index c) cs" "ev_index c - 1 < ev_index c" "last_at ?m (b # bs) < ev_index c"
    using parts(3) by (simp_all add: after_Cons last_at_def)
  have held: "since (one_watcher style True as ?m ?away ?g) ?m = Inr (b # bs)"
    using mark filter_after [OF parts(4)] by simp
  have 4: "?turn (?a, c) (one_watcher style False as ?m ?away ?g, ?m) =
      Inr (one_watcher style True (as @ (if style = FROM_NOW then [] else b # bs) @ [c])
        (ev_index c) (?away @ [c]) (?g + 1), ?m)"
    using style held catch_up_there [OF parts(2), of style as ?away ?g]
      publish_there [OF c(2), of style as ?away ?g] publish_there [OF c(3), of style "as @ b # bs" ?away ?g]
    by (auto simp: resume_turn_def leave_at_def return_at_def Let_def)
  have 5: "rfold ?turn (enumerate (Suc ?a) cs) (one_watcher style True
        (as @ (if style = FROM_NOW then [] else b # bs) @ [c]) (ev_index c) (?away @ [c]) (?g + 1), ?m) =
      Inr (one_watcher style True (as @ (if style = FROM_NOW then [] else b # bs) @ c # cs)
        (last_at (ev_index c) cs) (as @ b # bs @ c # cs) (?g + 1 + length cs), ?m)"
    using turns_there [of style ?g ?a "Suc ?a" cs "ev_index c" style
        "as @ (if style = FROM_NOW then [] else b # bs) @ [c]" "?away @ [c]" "?g + 1" ?m] c(1)
    by (simp add: idle_def)
  have "enumerate 0 (as @ b # bs @ c # cs) =
      enumerate 0 as @ (?g, b) # enumerate (Suc ?g) bs @ (?a, c) # enumerate (Suc ?a) cs"
    by (simp add: enumerate_append_eq)
  then show ?thesis
    by (simp only: rfold_append rfold.simps 1 2 3 4 5 rbind.simps) blast
qed

lemma resumption_saw:
  assumes after: "after 0 es"
  shows "\<exists>at k. resumption style es = Inr (one_watcher style True
    (if style = FROM_NOW then take (length es div 3) es @ drop (2 * length es div 3) es else es) at es k)"
proof -
  let ?n = "length es"
  let ?gone = "?n div 3" and ?again = "2 * ?n div 3"
  have start: "resumption style es =
    rbind (rfold (resume_turn style ?gone ?again) (enumerate 0 es) (one_watcher style True [] 0 [] 0, 0))
      (\<lambda>(f', mark). Inr f')"
    by (simp add: resumption_def add_watcher_def Feed_def Watcher_def one_watcher_def)
  have now: "FROM_NOW \<noteq> NEVER_DISCONNECTED" by (simp add: styles)
  consider "es = []" | "style = NEVER_DISCONNECTED" | e where "es = [e]" "style \<noteq> NEVER_DISCONNECTED"
    | "style \<noteq> NEVER_DISCONNECTED" "2 \<le> ?n" by (cases es rule: rev_cases) (auto simp: Suc_le_eq)
  then show ?thesis
  proof cases
    case 1
    then show ?thesis unfolding start by simp blast
  next
    case 2
    then have "idle style ?gone ?again 0 ?n" by (simp add: idle_def)
    from turns_there [OF this after, of style "[]" "[]" 0 0] 2 now show ?thesis unfolding start by auto
  next
    case (3 e)
    then have "0 < ev_index e" using after by (simp add: after_Cons)
    with 3 show ?thesis
      unfolding start
      by (auto simp: resume_turn_def leave_at_def return_at_def Let_def publish_there catch_up_on_def
          with_watcher_def one_watcher_def publish_def w_deliver_def wants_def watcher_named_def since_def)
  next
    case 4
    have "k div 3 < 2 * k div 3 \<and> 2 * k div 3 < k" if "2 \<le> k" for k :: nat using that by presburger
    with 4(2) have lt: "?gone < ?again" "?again < ?n" by blast+
    define b where "b = es ! ?gone"
    define bs where "bs = take (?again - Suc ?gone) (drop (Suc ?gone) es)"
    define c where "c = es ! ?again"
    have len: "length (take ?gone es) = ?gone" "length bs = ?again - Suc ?gone" using lt by (simp_all add: bs_def)
    have "drop (Suc ?gone) es = bs @ drop ?again es"
      using append_take_drop_id [of "?again - Suc ?gone" "drop (Suc ?gone) es"] lt by (simp add: bs_def)
    then have es: "es = take ?gone es @ b # bs @ c # drop (Suc ?again) es"
      using id_take_nth_drop [of ?gone es] Cons_nth_drop_Suc [of ?again es] lt by (simp add: b_def c_def)
    have tail: "drop ?again es = c # drop (Suc ?again) es"
      using Cons_nth_drop_Suc [of ?again es] lt by (simp add: c_def)
    have "length (take ?gone es) + Suc (length bs) = ?again" using len lt by simp
    then have "length (take ?gone es) + Suc (length bs) = ?again" using lt by simp
    with away_and_back [of "take ?gone es" b bs c "drop (Suc ?again) es" style] after 4(1) len(1)
    obtain i k where "rfold (resume_turn style ?gone ?again) (enumerate 0 es) (one_watcher style True [] 0 [] 0, 0) =
      Inr (one_watcher style True (take ?gone es @ (if style = FROM_NOW then [] else b # bs) @
        c # drop (Suc ?again) es) i es k, last_at 0 (take ?gone es))"
      by (auto simp flip: es)
    moreover have "take ?gone es @ (b # bs) @ c # drop (Suc ?again) es = es" using es by simp
    ultimately show ?thesis
      unfolding start tail by (intro exI [of _ i] exI [of _ k]) simp
  qed
qed

text \<open>
  Over any events in log order, a watcher that never left and one that resumes from the index
  it had got to have seen every event, and one that resumes from now has lost exactly the events
  of the middle third and cannot tell: what each of the three has seen is in order.
\<close>

theorem resuming:
  assumes order: "ascending es" and indices: "\<forall>e\<in>set es. 1 \<le> ev_index e"
    and style: "style \<in> {FROM_NOW, FROM_AN_INDEX, NEVER_DISCONNECTED}"
  shows "\<exists>f w. resumption style es = Inr f \<and> events f = es \<and> watcher_named style f = Some w \<and>
    w_ordered w \<and>
    seen_events w = (if style = FROM_NOW
      then take (length es div 3) es @ drop (2 * length es div 3) es else es)"
proof -
  have after: "after 0 es" using order indices by (auto simp: after_def)
  let ?g = "length es div 3" and ?a = "2 * length es div 3"
  have "set (drop ?a es) \<subseteq> set (drop ?g es)" by (rule set_drop_subset_set_drop) linarith
  moreover have "sorted_wrt (\<lambda>d e. ev_index d < ev_index e) (take ?g es @ drop ?g es)"
    using order by (simp add: ascending_sorted)
  ultimately have "ascending (take ?g es @ drop ?a es)"
    using order unfolding ascending_sorted sorted_wrt_append by (auto intro: sorted_wrt_take sorted_wrt_drop)
  with resumption_saw [OF after, of style] order show ?thesis
    by (auto simp: w_ordered_def one_watcher_def watcher_named_def)
qed

definition three_changes :: "watch_event list" where
  "three_changes = map (\<lambda>i. \<lparr>ev_index = i, ev_key = ''k'', ev_value = PInt i\<rparr>) [2, 3, 5]"

theorem resuming_witness:
  "\<exists>f w. resumption FROM_NOW three_changes = Inr f \<and> watcher_named FROM_NOW f = Some w \<and>
    w_ordered w \<and> map ev_index (seen_events w) = [2, 5]"
proof -
  have "ascending three_changes" "\<forall>e\<in>set three_changes. 1 \<le> ev_index e"
    by (simp_all add: three_changes_def)
  from resuming [OF this, of FROM_NOW] show ?thesis by (auto simp: three_changes_def)
qed

theorem feed_well_formed_witness:
  "feed_ok (snd (publish Feed \<lparr>ev_index = 1, ev_key = ''k'', ev_value = PNone\<rparr>))"
proof -
  have "feed_ok Feed" by (simp add: feed_ok_def Feed_def)
  from feed_well_formed [OF this, of "''w''" "[]" "\<lparr>ev_index = 1, ev_key = ''k'', ev_value = PNone\<rparr>" True 0]
  show ?thesis by simp
qed

end
