(* ===== verification/Leasing.thy ===== *)
theory Leasing
  imports Cluster_Runs
begin

text \<open>
  \<open>src/rsm/lease.py\<close>: reads served by a leader on the strength of a lease, and the run that strands
  a leader, keeps writing on the other side and reads from the stranded one. The rounded number of
  messages per read is left as the two counts it divides.
\<close>

section \<open>Reads and leases\<close>

record read =
  rd_at :: nat
  served_by :: name
  rd_value :: pyobj
  rd_truth :: pyobj
  rd_strategy :: string

definition stale :: "read \<Rightarrow> bool" where
  "stale r \<longleftrightarrow> \<not> py_eq (rd_value r) (rd_truth r)"

definition LEASE :: int where "LEASE = int (MIN_ELECTION_TIMEOUT div 2)"

record read_lease =
  holder :: name
  granted_at :: int
  lease_length :: int
  drift :: int

definition Read_Lease :: "name \<Rightarrow> int \<Rightarrow> int \<Rightarrow> int \<Rightarrow> read_lease result" where
  "Read_Lease h at len d =
     (if h = [] then Inl ConfigError
      else if len < 1 then Inl ConfigError
      else Inr \<lparr>holder = h, granted_at = at, lease_length = len, drift = d\<rparr>)"

definition expires_at :: "read_lease \<Rightarrow> int" where
  "expires_at l = granted_at l + lease_length l + drift l"

definition really_expires_at :: "read_lease \<Rightarrow> int" where
  "really_expires_at l = granted_at l + lease_length l"

definition held_at :: "read_lease \<Rightarrow> int \<Rightarrow> bool" where
  "held_at l t \<longleftrightarrow> t < expires_at l"

definition sound_at :: "read_lease \<Rightarrow> int \<Rightarrow> bool" where
  "sound_at l t \<longleftrightarrow> t < really_expires_at l"

definition overrun :: "read_lease \<Rightarrow> int" where
  "overrun l = max 0 (expires_at l - really_expires_at l)"

record serving =
  sv_strategy :: string
  reads :: "read list"
  messages :: nat
  refused :: nat
  unsound :: nat

definition Serving :: "string \<Rightarrow> serving" where
  "Serving s = \<lparr>sv_strategy = s, reads = [], messages = 0, refused = 0, unsound = 0\<rparr>"

definition stale_reads :: "serving \<Rightarrow> nat" where
  "stale_reads s = length (filter stale (reads s))"

definition served :: "serving \<Rightarrow> nat" where
  "served s = length (reads s)"

definition serving_good :: "serving \<Rightarrow> bool" where
  "serving_good s \<longleftrightarrow> 0 < served s \<and> stale_reads s = 0"

section \<open>Looking at the nodes\<close>

definition leader_among :: "cluster \<Rightarrow> name list \<Rightarrow> name option" where
  "leader_among c side = find (\<lambda>p. is_leader (nodes c p)) side"

definition newest_command :: "node \<Rightarrow> pyobj \<Rightarrow> pyobj" where
  "newest_command n = fold (\<lambda>e best.
     if e_index e \<le> commit_index n \<and> command e \<noteq> PNone then command e else best) (entries (log n))"

definition truth_on :: "cluster \<Rightarrow> name list \<Rightarrow> pyobj" where
  "truth_on c side = fold (\<lambda>p. newest_command (nodes c p)) side PNone"

definition value_on :: "node \<Rightarrow> pyobj" where
  "value_on n = newest_command n PNone"

definition answer :: "cluster \<Rightarrow> name \<Rightarrow> pyobj \<Rightarrow> string \<Rightarrow> read" where
  "answer c p truth s =
     \<lparr>rd_at = cnow c, served_by = name (nodes c p), rd_value = value_on (nodes c p), rd_truth = truth,
      rd_strategy = s\<rparr>"

section \<open>The run\<close>

definition LOCAL :: string where "LOCAL = ''local''"
definition LEASED :: string where "LEASED = ''lease''"

definition set_k :: "nat \<Rightarrow> pyobj" where
  "set_k v = PTuple [PStr ''set'', PStr ''k'', PInt (int v)]"

text \<open>The write of every sixth step goes straight to a leader of the other side.\<close>

definition write_beside :: "nat \<Rightarrow> name list \<Rightarrow> cluster \<times> nat \<Rightarrow> (cluster \<times> nat) result" where
  "write_beside turn side cw =
     (if turn mod 6 \<noteq> 0 then Inr cw
      else case leader_among (fst cw) side of
        None \<Rightarrow> Inr cw
      | Some p \<Rightarrow> rbind (propose (nodes (fst cw) p) (set_k (snd cw))) (\<lambda>(n, i).
          Inr (put_node (fst cw) p n, snd cw + 1)))"

definition read_once ::
  "string \<Rightarrow> read_lease \<Rightarrow> name \<Rightarrow> name list \<Rightarrow> cluster \<Rightarrow> serving \<Rightarrow> serving" where
  "read_once strategy l old side c out =
     (let current = truth_on c side in
      if strategy = LOCAL then out\<lparr>reads := reads out @ [answer c old current strategy]\<rparr>
      else if strategy = LEASED then
        (if held_at l (int (cnow c))
         then out\<lparr>reads := reads out @ [answer c old current strategy],
                  unsound := (if \<not> sound_at l (int (cnow c)) then unsound out + 1 else unsound out)\<rparr>
         else out\<lparr>refused := refused out + 1\<rparr>)
      else case leader_among c side of
        None \<Rightarrow> out\<lparr>refused := refused out + 1\<rparr>
      | Some p \<Rightarrow> out\<lparr>reads := reads out @ [answer c p current strategy]\<rparr>)"

definition read_turn ::
  "string \<Rightarrow> read_lease \<Rightarrow> name \<Rightarrow> name list \<Rightarrow> nat \<Rightarrow> cluster \<times> nat \<times> serving \<Rightarrow>
   (cluster \<times> nat \<times> serving) result" where
  "read_turn strategy l old side turn = (\<lambda>(c, written, out).
     rbind (cluster_tick c) (\<lambda>c1.
     rbind (write_beside turn side (c1, written)) (\<lambda>(c2, written').
     Inr (c2, written', read_once strategy l old side c2 out))))"

definition read_run ::
  "string \<Rightarrow> int \<Rightarrow> int \<Rightarrow> nat \<Rightarrow> name \<Rightarrow> cluster \<Rightarrow> serving result" where
  "read_run strategy d len rounds old c =
     (let stranded = filter (\<lambda>p. p \<noteq> old) (cmembers c) in
      rbind (cluster_partition c [[old], stranded]) (\<lambda>c1.
      rbind (Read_Lease old (int (cnow c1)) len d) (\<lambda>l.
      rbind (rfold (read_turn strategy l old stranded) [0..<rounds] (c1, 3, Serving strategy))
        (\<lambda>(c2, written, out).
      Inr (out\<lparr>messages := n_sent (counts (net c2)) - n_sent (counts (net c1))\<rparr>)))))"

definition propose_set :: "nat \<Rightarrow> cluster \<Rightarrow> cluster result" where
  "propose_set v c = rbind (cluster_propose c (set_k v)) (\<lambda>(i, c'). Inr c')"

definition write_then_read ::
  "(int \<Rightarrow> draws) \<Rightarrow> (int \<Rightarrow> name \<Rightarrow> draws) \<Rightarrow> nat \<Rightarrow> string \<Rightarrow> int \<Rightarrow> int \<Rightarrow> nat \<Rightarrow> int \<Rightarrow>
   serving result" where
  "write_then_read net_seed node_seed settle_ticks strategy d len rounds sd =
     rbind (Cluster net_seed node_seed 5 sd None True False) (\<lambda>fresh.
     rbind (settle settle_ticks fresh) (\<lambda>made.
     case cluster_leader made of
       None \<Rightarrow> Inl NoLeader
     | Some old \<Rightarrow>
         rbind (rfold propose_set [0..<3] made) (\<lambda>c.
         rbind (cluster_run 20 c) (\<lambda>c'.
         read_run strategy d len rounds (name old) c'))))"

section \<open>The run goes through\<close>

lemma write_beside_moves_on:
  assumes "cluster_inv c" "set side \<subseteq> set (cmembers c)"
  shows "\<exists>c' w'. write_beside turn side (c, w) = Inr (c', w') \<and> moves_on c c' \<and> cnow c' = cnow c"
proof (cases "turn mod 6 = 0 \<and> leader_among c side \<noteq> None")
  case False
  then show ?thesis using assms(1) by (auto simp: write_beside_def moves_on_def)
next
  case True
  then obtain p where p: "leader_among c side = Some p" by blast
  then have "p \<in> set side" "is_leader (nodes c p)" by (auto simp: leader_among_def find_Some_iff)
  with propose_moves_on [OF assms(1), of p "set_k w"] assms(2) p True show ?thesis
    by (fastforce simp: write_beside_def)
qed

text \<open>What a strategy has counted after some rounds.\<close>

definition tally :: "string \<Rightarrow> int \<Rightarrow> int \<Rightarrow> nat \<Rightarrow> serving \<Rightarrow> bool" where
  "tally strategy len d k out \<longleftrightarrow> served out + refused out = k \<and>
     (strategy = LOCAL \<longrightarrow> refused out = 0) \<and>
     (strategy = LEASED \<longrightarrow> served out = min k (nat (len + d - 1)) \<and>
        unsound out = served out - min k (nat (len - 1))) \<and>
     (strategy \<noteq> LEASED \<longrightarrow> unsound out = 0)"

lemma tally_start: "tally strategy len d 0 (Serving strategy)"
  by (simp add: tally_def Serving_def served_def)

lemma tally_arith:
  fixes k s u :: nat and len d :: int
  assumes "s = min k (nat (len + d - 1))" "u = s - min k (nat (len - 1))"
  shows "int k + 1 < len + d \<Longrightarrow> Suc s = min (Suc k) (nat (len + d - 1)) \<and>
      (if \<not> int k + 1 < len then u + 1 else u) = Suc s - min (Suc k) (nat (len - 1))"
    "\<not> int k + 1 < len + d \<Longrightarrow> s = min (Suc k) (nat (len + d - 1)) \<and> u = s - min (Suc k) (nat (len - 1))"
  using assms by (auto simp: min_def split: if_splits)

lemma tally_more:
  assumes "tally strategy len d k out" "cnow c = Suc (cnow c0 + k)"
    and l: "l = \<lparr>holder = old, granted_at = int (cnow c0), lease_length = len, drift = d\<rparr>"
  shows "tally strategy len d (Suc k) (read_once strategy l old side c out)"
proof -
  have held: "held_at l (int (cnow c)) \<longleftrightarrow> int k + 1 < len + d" and
    sound: "sound_at l (int (cnow c)) \<longleftrightarrow> int k + 1 < len"
    using assms(2) l
    by (simp_all add: held_at_def sound_at_def expires_at_def really_expires_at_def algebra_simps)
  show ?thesis
  proof (cases "strategy = LEASED")
    case True
    then have *: "served out = min k (nat (len + d - 1))"
      "unsound out = served out - min k (nat (len - 1))" "served out + refused out = k"
      using assms(1) by (simp_all add: tally_def)
    from True have "strategy \<noteq> LOCAL" by (simp add: LOCAL_def LEASED_def)
    then show ?thesis
      using tally_arith [OF *(1,2)] *(3) True unfolding tally_def read_once_def Let_def held sound
      by (cases "int k + 1 < len + d") (simp_all add: served_def)
  next
    case False
    then show ?thesis
      using assms(1) unfolding tally_def read_once_def Let_def
      by (cases "leader_among c side") (auto simp: served_def)
  qed
qed

lemma read_turns_ok:
  assumes c: "cluster_inv c0" and side: "set side \<subseteq> set (cmembers c0)"
    and l: "l = \<lparr>holder = old, granted_at = int (cnow c0), lease_length = len, drift = d\<rparr>"
  shows "rfold (read_turn strategy l old side) [0..<k] (c0, 3, Serving strategy) = Inl StateMachineSafety \<or>
    (\<exists>c w out. rfold (read_turn strategy l old side) [0..<k] (c0, 3, Serving strategy) = Inr (c, w, out) \<and>
       moves_on c0 c \<and> cnow c = cnow c0 + k \<and> tally strategy len d k out)"
proof (induction k)
  case 0
  then show ?case using c tally_start by (simp add: moves_on_def)
next
  case (Suc k)
  let ?turns = "\<lambda>k. rfold (read_turn strategy l old side) [0..<k] (c0, 3, Serving strategy)"
  have step: "?turns (Suc k) = rbind (?turns k) (read_turn strategy l old side k)"
    by (simp add: rfold_snoc)
  from Suc.IH show ?case
  proof (elim disjE exE conjE)
    assume "?turns k = Inl StateMachineSafety"
    with step show ?thesis by simp
  next
    fix c w out
    assume k: "?turns k = Inr (c, w, out)" "moves_on c0 c" "cnow c = cnow c0 + k" "tally strategy len d k out"
    then have "cluster_inv c" by (simp add: moves_on_def)
    from tick_moves_on [OF this] show ?thesis
    proof (elim disjE exE conjE)
      assume "cluster_tick c = Inl StateMachineSafety"
      then have "read_turn strategy l old side k (c, w, out) = Inl StateMachineSafety"
        by (simp add: read_turn_def)
      with step k(1) show ?thesis by simp
    next
      fix c1
      assume c1: "cluster_tick c = Inr c1" "moves_on c c1" "cnow c1 = Suc (cnow c)"
      have on: "moves_on c0 c1" by (rule moves_on_trans [OF k(2) c1(2)])
      then have "cluster_inv c1" "set side \<subseteq> set (cmembers c1)" using side by (simp_all add: moves_on_def)
      from write_beside_moves_on [OF this, of k w] obtain c2 w2 where
        c2: "write_beside k side (c1, w) = Inr (c2, w2)" "moves_on c1 c2" "cnow c2 = cnow c1" by blast
      have "?turns (Suc k) = Inr (c2, w2, read_once strategy l old side c2 out)"
      proof -
        have "read_turn strategy l old side k (c, w, out) = Inr (c2, w2, read_once strategy l old side c2 out)"
          using c1(1) c2(1) by (simp add: read_turn_def)
        with step k(1) show ?thesis by simp
      qed
      moreover have "tally strategy len d (Suc k) (read_once strategy l old side c2 out)"
        using tally_more [OF k(4) _ l, of c2] c2(3) c1(3) k(3) by simp
      ultimately show ?thesis
        using moves_on_trans [OF on c2(2)] c2(3) c1(3) k(3) by auto
    qed
  qed
qed

lemma reach_members:
  assumes "cluster_reach net_seed node_seed c"
  shows "\<exists>k. cmembers c = map (\<lambda>i. CHR ''n'' # decimal i) [0..<k]"
  using assms
proof (induction rule: cluster_reach.induct)
  case (made k sd cs chk pv c)
  then show ?case by (auto simp: Cluster_def Let_def raises split: if_splits)
next
  case (performed c ev c')
  with perform_aside [OF performed.hyps(2)] show ?case by auto
qed

lemma strand_moves_on:
  assumes inv: "cluster_inv c" and old: "old \<in> set (cmembers c)"
  shows "\<exists>c'. cluster_partition c [[old], filter (\<lambda>p. p \<noteq> old) (cmembers c)] = Inr c' \<and> moves_on c c'"
proof -
  let ?ss = "[[old], filter (\<lambda>p. p \<noteq> old) (cmembers c)]"
  from inv obtain s where ok: "cluster_ok (tight c) (cmembers c) {} c s"
    and down: "down c \<subseteq> set (cmembers c)"
    by (rule cluster_invE)
  have "distinct (cmembers c)" "on_net (net c) = cmembers c"
    using ok by (simp_all add: cluster_ok_def)
  with old obtain c' where c': "cluster_partition c ?ss = Inr c'"
    by (auto simp: cluster_partition_def net_partition_def Let_def filter_empty_conv)
  then have "cmembers c' = cmembers c" by (auto simp: cluster_partition_def raises)
  with c' cluster_partition_ok [OF ok c'] down show ?thesis
    using cluster_invI [of c' c s] by (auto simp: moves_on_def)
qed

text \<open>
  Stranding a member of a reachable cluster and reading from it goes through unless the
  cluster's own state machine check stops it, and every round is answered or refused. Local reads
  are never refused. A lease of \<open>len\<close> ticks on a clock that is \<open>d\<close> ticks slow answers the first
  \<open>len + d - 1\<close> rounds and refuses the rest, and exactly the answers past the first \<open>len - 1\<close>
  were outside the lease that was granted.
\<close>

theorem lease_reads:
  assumes reached: "cluster_reach net_seed node_seed c" and old: "old \<in> set (cmembers c)"
    and len: "1 \<le> len"
  shows "read_run strategy d len rounds old c = Inl StateMachineSafety \<or>
    (\<exists>out. read_run strategy d len rounds old c = Inr out \<and>
       served out + refused out = rounds \<and>
       (strategy = LOCAL \<longrightarrow> refused out = 0) \<and>
       (strategy = LEASED \<longrightarrow> served out = min rounds (nat (len + d - 1)) \<and>
          unsound out = served out - min rounds (nat (len - 1))) \<and>
       (strategy \<noteq> LEASED \<longrightarrow> unsound out = 0))"
proof -
  let ?side = "filter (\<lambda>p. p \<noteq> old) (cmembers c)"
  obtain c1 where c1: "cluster_partition c [[old], ?side] = Inr c1" "moves_on c c1"
    using strand_moves_on [OF cluster_inv_reach [OF reached] old] by blast
  have "old \<noteq> []" using reach_members [OF reached] old by auto
  define l where "l = \<lparr>holder = old, granted_at = int (cnow c1), lease_length = len, drift = d\<rparr>"
  have l: "Read_Lease old (int (cnow c1)) len d = Inr l"
    using \<open>old \<noteq> []\<close> len by (simp add: Read_Lease_def l_def)
  have run: "read_run strategy d len rounds old c =
    rbind (rfold (read_turn strategy l old ?side) [0..<rounds] (c1, 3, Serving strategy)) (\<lambda>(c2, written, out).
      Inr (out\<lparr>messages := n_sent (counts (net c2)) - n_sent (counts (net c1))\<rparr>))"
    by (simp add: read_run_def c1(1) l Let_def)
  have "cluster_inv c1" "set ?side \<subseteq> set (cmembers c1)" using c1(2) by (auto simp: moves_on_def)
  from read_turns_ok [OF this l_def, of strategy rounds] show ?thesis
    unfolding run by (auto simp: tally_def served_def)
qed

text \<open>A fresh cluster of three reads three times from a node cut off with a lease of two ticks.\<close>

abbreviation fresh_three :: "cluster result" where
  "fresh_three \<equiv> Cluster (\<lambda>s i. 0) (\<lambda>s p i. 0) 3 0 None True False"

lemma fresh_reads:
  "case rbind fresh_three (read_run LEASED 0 2 3 ''n0'') of Inl e \<Rightarrow> False | Inr out \<Rightarrow> refused out = 2"
  by code_simp

theorem lease_reads_witness:
  "\<exists>c out. fresh_three = Inr c \<and> read_run LEASED 0 2 3 ''n0'' c = Inr out \<and> served out = 1 \<and> unsound out = 0"
proof -
  obtain c out where c: "fresh_three = Inr c" "read_run LEASED 0 2 3 ''n0'' c = Inr out"
    using fresh_reads by (auto simp: raises split: sum.splits)
  have reached: "cluster_reach (\<lambda>s i. 0) (\<lambda>s p i. 0) c" by (rule cluster_reach.made [OF c(1)])
  have "''n0'' \<in> set (cmembers c)"
  proof -
    have "map (\<lambda>i. CHR ''n'' # decimal i) [0..<3] = [''n0'', ''n1'', ''n2'']" by code_simp
    with Cluster_total [of 3 "\<lambda>s i. 0" "\<lambda>s p i. 0" 0 None True False] c(1) show ?thesis by simp
  qed
  from lease_reads [OF reached this, of 2 LEASED 0 3] c show ?thesis by auto
qed

section \<open>What the truth is taken to be\<close>

text \<open>
  The truth a read is compared with is what the last node of the side has committed, not what any
  node of the side committed last: it may be older than the answer of a leader listed earlier.
\<close>

lemma newest_command_else:
  "newest_command n best = (if value_on n = PNone then best else value_on n)"
proof -
  have "fold (\<lambda>e best. if e_index e \<le> commit_index n \<and> command e \<noteq> PNone then command e else best) es b =
    (let v = fold (\<lambda>e best. if e_index e \<le> commit_index n \<and> command e \<noteq> PNone then command e else best) es PNone
     in if v = PNone then b else v)" for es b
    by (induction es rule: rev_induct) (auto simp: Let_def)
  from this [of "entries (log n)" best] show ?thesis
    unfolding newest_command_def value_on_def Let_def .
qed

lemma truth_of_the_last:
  "value_on (nodes c p) \<noteq> PNone \<Longrightarrow> truth_on c (side @ [p]) = value_on (nodes c p)"
  by (simp add: truth_on_def newest_command_else)

end
