(* ===== verification/Cutting.thy ===== *)
theory Cutting
  imports Cluster_Runs
begin

text \<open>
  \<open>src/rsm/partition.py\<close>: breaks in the network that have a direction, installed over its own
  rule of who can reach whom, and a run of a cluster under them. The cluster's operations are
  modelled over the way it sends a message, so the ones that go past the cuts and the shipped ones
  are two instances. The share of the run that had a leader is left as the counts it divides.
\<close>

section \<open>Cuts\<close>

definition BOTH :: string where "BOTH = ''both''"
definition OUTBOUND :: string where "OUTBOUND = ''outbound''"
definition INBOUND :: string where "INBOUND = ''inbound''"
definition DIRECTIONS :: "string list" where "DIRECTIONS = [BOTH, OUTBOUND, INBOUND]"

lemmas directions = BOTH_def OUTBOUND_def INBOUND_def DIRECTIONS_def

record link_cut =
  c_node :: name
  c_direction :: string
  c_peer :: name

definition Cut :: "name \<Rightarrow> string \<Rightarrow> name \<Rightarrow> link_cut result" where
  "Cut p d q =
     (if p = [] then Inl ConfigError
      else if d \<notin> set DIRECTIONS then Inl ConfigError
      else if q = p then Inl ConfigError
      else Inr \<lparr>c_node = p, c_direction = d, c_peer = q\<rparr>)"

definition blocks :: "link_cut \<Rightarrow> name \<Rightarrow> name \<Rightarrow> bool" where
  "blocks k s r =
     (if c_peer k \<noteq> [] \<and> c_peer k \<notin> {s, r} then False
      else if c_direction k \<in> {BOTH, OUTBOUND} \<and> s = c_node k then True
      else c_direction k \<in> {BOTH, INBOUND} \<and> r = c_node k)"

definition add_cut :: "cluster \<Rightarrow> link_cut \<Rightarrow> link_cut list \<Rightarrow> link_cut list result" where
  "add_cut c k ks = (if c_node k \<notin> set (cmembers c) then Inl UnknownNode else Inr (ks @ [k]))"

definition reachable_past :: "link_cut list \<Rightarrow> network \<Rightarrow> name \<Rightarrow> name \<Rightarrow> bool" where
  "reachable_past ks wire s r = (if list_ex (\<lambda>k. blocks k s r) ks then False else reachable wire s r)"

section \<open>Sending past them\<close>

definition net_send_past :: "link_cut list \<Rightarrow> network \<Rightarrow> message \<Rightarrow> (bool \<times> network) result" where
  "net_send_past ks wire m =
     (if sender m \<notin> set (on_net wire) then Inl UnknownNode
      else if recipient m \<notin> set (on_net wire) then Inl UnknownNode
      else let c1 = record_message (counts wire\<lparr>n_sent := n_sent (counts wire) + 1\<rparr>) m;
               wire1 = wire\<lparr>counts := c1, net_sequence := net_sequence wire + 1\<rparr>
           in if \<not> reachable_past ks wire1 (sender m) (recipient m)
              then Inr (False, wire1\<lparr>counts := c1\<lparr>dropped_by_partition := dropped_by_partition c1 + 1\<rparr>\<rparr>)
              else let (x, g) = random_draw (net_rng wire1) in
                   if dyadic_less x (loss (links wire1))
                   then Inr (False, wire1\<lparr>net_rng := g,
                     counts := c1\<lparr>dropped_by_loss := dropped_by_loss c1 + 1\<rparr>\<rparr>)
                   else let (delay, g') = randint (min_delay (links wire1)) (max_delay (links wire1)) g
                        in Inr (True, wire1\<lparr>net_rng := g',
                             flight := flight wire1 @ [\<lparr>packet = m, sent_at = net_now wire1,
                               due_at = net_now wire1 + delay, sequence = net_sequence wire1\<rparr>]\<rparr>))"

definition send_past :: "link_cut list \<Rightarrow> message \<Rightarrow> cluster \<Rightarrow> cluster result" where
  "send_past ks m c =
     (if sender m \<in> down c then Inr c
      else rbind (net_send_past ks (net c) m) (\<lambda>(ok, w). Inr (c\<lparr>net := w\<rparr>)))"

section \<open>A cluster over a way of sending\<close>

type_synonym sends = "message \<Rightarrow> cluster \<Rightarrow> cluster result"

definition hand_out :: "sends \<Rightarrow> cluster \<Rightarrow> name \<Rightarrow> outcome \<Rightarrow> cluster result" where
  "hand_out post c p r = rbind r (\<lambda>(n, out). rfold post out (put_node c p n))"

definition deliver_by :: "sends \<Rightarrow> message \<Rightarrow> cluster \<Rightarrow> cluster result" where
  "deliver_by post m c =
     (if recipient m \<in> down c then Inr c
      else hand_out post c (recipient m) (step (nodes c (recipient m)) m))"

definition time_node_by :: "sends \<Rightarrow> name \<Rightarrow> cluster \<Rightarrow> cluster result" where
  "time_node_by post p c = hand_out post c p (tick (nodes c p) (cnow c))"

definition note_leader :: "cluster \<Rightarrow> cluster" where
  "note_leader c =
     (let c' = (case cluster_leader c of
                  Some n \<Rightarrow> if Some (name n) \<noteq> last_leader c
                            then c\<lparr>elections := elections c + 1, last_leader := Some (name n)\<rparr> else c
                | None \<Rightarrow> c)
      in c'\<lparr>history := history c' @ [take_moment c']\<rparr>)"

definition advance_by :: "sends \<Rightarrow> cluster \<Rightarrow> cluster result" where
  "advance_by post c =
     (let (landed, w) = net_tick (net c);
          c1 = c\<lparr>cnow := cnow c + 1, net := w\<rparr>
      in rbind (rfold (deliver_by post) landed c1) (\<lambda>c2.
         rbind (rfold (time_node_by post) (up c2) c2) (\<lambda>c3. Inr (note_leader c3))))"

definition tick_by :: "sends \<Rightarrow> cluster \<Rightarrow> cluster result" where
  "tick_by post c =
     rbind (advance_by post c) (\<lambda>c'.
       if check c' then rbind (verify c' (take_moment c')) (\<lambda>u. Inr c') else Inr c')"

definition propose_by :: "sends \<Rightarrow> cluster \<Rightarrow> pyobj \<Rightarrow> (nat \<times> cluster) result" where
  "propose_by post c v =
     (case cluster_leader c of
        None \<Rightarrow> Inl NoLeader
      | Some f \<Rightarrow>
          rbind (propose f v) (\<lambda>(n, i).
          rbind (replicate_to n None) (\<lambda>out.
          rbind (rfold post out (put_node c (name f) n)) (\<lambda>c'. Inr (i, c')))))"

text \<open>Sending as shipped gives the operations as shipped.\<close>

lemma shipped_operations:
  "advance_by send1 = advance" "tick_by send1 = cluster_tick" "propose_by send1 = cluster_propose"
proof -
  have d: "deliver_by send1 = deliver" "time_node_by send1 = time_node"
    by (simp_all add: fun_eq_iff deliver_by_def deliver_def time_node_by_def time_node_def hand_out_def send_all_def)
  then show a: "advance_by send1 = advance"
    by (intro ext) (simp only: advance_by_def advance_def note_leader_def Let_def d)
  show "tick_by send1 = cluster_tick" by (simp add: fun_eq_iff tick_by_def cluster_tick_def a)
  show "propose_by send1 = cluster_propose"
    by (intro ext) (simp only: propose_by_def cluster_propose_def send_all_def)
qed

section \<open>A run under cuts\<close>

record cut_run =
  cr_name :: string
  cr_terms :: nat
  cr_leaders :: nat
  cr_committed :: nat
  cr_proposed :: nat
  cr_messages :: nat
  cr_leaderless :: nat
  cr_ticks :: nat
  cr_changes :: nat
  cr_seen :: "name list"

definition cut_run_good :: "cut_run \<Rightarrow> bool" where
  "cut_run_good r \<longleftrightarrow> 0 < cr_proposed r \<and> cr_committed r = cr_proposed r"

record cut_tally =
  leaderless :: nat
  seen_leaders :: "name list"
  changes :: nat
  written :: nat

definition note_office :: "cluster \<Rightarrow> cut_tally \<Rightarrow> cut_tally" where
  "note_office c y =
     (case cluster_leader c of
        None \<Rightarrow> y\<lparr>leaderless := leaderless y + 1\<rparr>
      | Some f \<Rightarrow>
          if seen_leaders y = [] \<or> last (seen_leaders y) \<noteq> name f
          then y\<lparr>changes := changes y + 1, seen_leaders := seen_leaders y @ [name f]\<rparr> else y)"

definition write_past :: "sends \<Rightarrow> nat \<Rightarrow> cluster \<Rightarrow> cluster result" where
  "write_past post t c =
     (case propose_by post c (PTuple [PStr ''set'', PStr ''k'', PInt (int t)]) of
        Inr (i, c') \<Rightarrow> Inr c'
      | Inl NoLeader \<Rightarrow> Inr c
      | Inl e \<Rightarrow> Inl e)"

definition cut_turn :: "sends \<Rightarrow> nat \<Rightarrow> nat \<Rightarrow> cluster \<times> cut_tally \<Rightarrow> (cluster \<times> cut_tally) result" where
  "cut_turn post writes t = (\<lambda>(c, y).
     rbind (if t mod 20 = 0 \<and> written y < writes
            then rbind (write_past post t c) (\<lambda>c1. Inr (c1, y\<lparr>written := written y + 1\<rparr>))
            else Inr (c, y)) (\<lambda>(c1, y1).
     rbind (tick_by post c1) (\<lambda>c2. Inr (c2, note_office c2 y1))))"

definition run_past ::
  "(int \<Rightarrow> draws) \<Rightarrow> (int \<Rightarrow> name \<Rightarrow> draws) \<Rightarrow> string \<Rightarrow> link_cut list \<Rightarrow> nat \<Rightarrow> int \<Rightarrow> nat \<Rightarrow> nat \<Rightarrow>
   nat \<Rightarrow> bool \<Rightarrow> (cut_run \<times> cluster) result" where
  "run_past net_seed node_seed nm ks sz sd settling ticks writes pv =
     rbind (Cluster net_seed node_seed sz sd None True pv) (\<lambda>fresh.
     rbind (cluster_run settling fresh) (\<lambda>made.
     rbind (rfold (add_cut made) ks []) (\<lambda>ks'.
     rbind (rfold (cut_turn (send_past ks') writes) [0..<ticks]
              (made, \<lparr>leaderless = 0, seen_leaders = [], changes = 0, written = 0\<rparr>)) (\<lambda>(c, y).
     Inr (\<lparr>cr_name = nm, cr_terms = Max ((\<lambda>p. current_term (nodes c p)) ` set (cmembers c)),
           cr_leaders = card (set (seen_leaders y)), cr_committed = length (committed c),
           cr_proposed = written y, cr_messages = n_sent (counts (net c)),
           cr_leaderless = leaderless y, cr_ticks = cnow c - cnow made, cr_changes = changes y,
           cr_seen = seen_leaders y\<rparr>, c)))))"

section \<open>What a way of sending has to keep\<close>

text \<open>
  All a cluster relies on is that sending raises nothing and changes only the wire, and the wire
  only by messages that were sent.
\<close>

locale sending =
  fixes post :: sends
  assumes sent: "cluster_ok b ms M c s \<Longrightarrow> msg_ok b ms s m \<Longrightarrow>
    \<exists>c'. post m c = Inr c' \<and> cluster_ok b ms M c' s \<and> beside c c'"
begin

lemma sent_all:
  assumes "cluster_ok b ms M c s" "\<forall>m\<in>set out. msg_ok b ms s m"
  shows "\<exists>c'. rfold post out c = Inr c' \<and> cluster_ok b ms M c' s \<and> beside c c'"
proof (rule rfold_total)
  show "cluster_ok b ms M c s \<and> beside c c" using assms(1) beside_refl by blast
  show "\<exists>c'. post m d = Inr c' \<and> cluster_ok b ms M c' s \<and> beside c c'"
    if "m \<in> set out" "cluster_ok b ms M d s \<and> beside c d" for m d
    using sent [of b ms M d s m] that assms(2) beside_trans by blast
qed

lemma handed_out:
  assumes "cluster_ok b ms M c s" "refines b ms p s r"
  shows "\<exists>c' s'. hand_out post c p r = Inr c' \<and> cluster_ok b ms M c' s' \<and> beside c c'"
proof -
  from assms(2) obtain n out s' where r: "r = Inr (n, out)" "run ms p s s'" "node_sim b ms p n s'"
    "\<forall>m\<in>set out. msg_ok b ms s' m" unfolding refines_def by blast
  obtain c' where c': "rfold post out (put_node c p n) = Inr c'" "cluster_ok b ms M c' s'"
    "beside (put_node c p n) c'"
    using sent_all [OF put_node_ok [OF assms(1) r(2,3)] r(4)] by blast
  have "beside c c'" using c'(3) by (simp add: beside_def put_node_def)
  with c' r(1) show ?thesis by (auto simp: hand_out_def)
qed

lemma delivered_by:
  assumes ok: "cluster_ok b ms M c s" and m: "m \<in> M" and tight: "b \<longrightarrow> snug m"
  shows "\<exists>c' s'. deliver_by post m c = Inr c' \<and> cluster_ok b ms M c' s' \<and> beside c c'"
proof (cases "recipient m \<in> down c")
  case True
  with ok show ?thesis using beside_refl by (auto simp: deliver_by_def)
next
  case False
  have *: "msg_ok b ms s m" "inv ms s" "distinct ms" using ok m by (simp_all add: cluster_ok_def)
  then have p: "recipient m \<in> set ms" by (simp add: msg_ok_def)
  with ok have sim: "node_sim b ms (recipient m) (nodes c (recipient m)) s" by (simp add: cluster_ok_def)
  show ?thesis
    using handed_out [OF ok step_sim [OF *(2) sim *(3) p *(1) refl tight]] False
    by (simp add: deliver_by_def)
qed

lemma timed_by:
  assumes ok: "cluster_ok b ms M c s" and p: "p \<in> set ms"
  shows "\<exists>c' s'. time_node_by post p c = Inr c' \<and> cluster_ok b ms M c' s' \<and> beside c c'"
proof -
  have "refines b ms p s (tick (nodes c p) (cnow c))"
    by (rule tick_sim) (use ok p in \<open>simp_all add: cluster_ok_def\<close>)
  from handed_out [OF ok this] show ?thesis by (simp add: time_node_by_def)
qed

lemma advance_by_moves_on:
  assumes inv: "cluster_inv c"
  shows "\<exists>c'. advance_by post c = Inr c' \<and> moves_on c c' \<and> cnow c' = Suc (cnow c)"
proof -
  let ?ms = "cmembers c"
  from inv obtain s where ok: "cluster_ok (tight c) ?ms {} c s" and down: "down c \<subseteq> set ?ms"
    by (rule cluster_invE)
  obtain landed w where w: "net_tick (net c) = (landed, w)" by fastforce
  note kept = net_tick_keeps [OF w]
  define c1 where "c1 = c\<lparr>cnow := cnow c + 1, net := w\<rparr>"
  let ?b = "tight c1" and ?M = "set landed"
  have weaker: "?b \<longrightarrow> tight c" and snug: "m \<in> ?M \<Longrightarrow> ?b \<longrightarrow> snug m" for m
    using kept(5) by (auto simp: tight_def c1_def)
  have "cluster_ok (tight c) ?ms ?M c1 s"
    using ok kept(1,7,8) unfolding cluster_ok_def c1_def by auto
  then have ok1: "cluster_ok ?b ?ms ?M c1 s" by (rule cluster_ok_weaken [OF _ weaker order_refl])
  let ?P = "\<lambda>d. (\<exists>u. cluster_ok ?b ?ms ?M d u) \<and> beside c1 d"
  have "\<exists>d. rfold (deliver_by post) landed c1 = Inr d \<and> ?P d"
  proof (rule rfold_total)
    show "?P c1" using ok1 beside_refl by blast
    show "\<exists>d'. deliver_by post m d = Inr d' \<and> ?P d'" if "m \<in> ?M" "?P d" for m d
      using that(2) delivered_by [OF _ that(1) snug [OF that(1)]] beside_trans by meson
  qed
  then obtain c2 where c2: "rfold (deliver_by post) landed c1 = Inr c2" "?P c2" by blast
  have "\<exists>d. rfold (time_node_by post) (up c2) c2 = Inr d \<and> ?P d"
  proof (rule rfold_total)
    show "?P c2" using c2(2) .
    have "set (up c2) \<subseteq> set ?ms" using c2(2) by (auto simp: up_def cluster_ok_def)
    then show "\<exists>d'. time_node_by post p d = Inr d' \<and> ?P d'" if "p \<in> set (up c2)" "?P d" for p d
      using that timed_by beside_trans by (meson subsetD)
  qed
  then obtain c3 where c3: "rfold (time_node_by post) (up c2) c2 = Inr c3" "?P c3" by blast
  then obtain u where u: "cluster_ok ?b ?ms ?M c3 u" and side: "beside c1 c3" by blast
  have same: "cmembers (note_leader d) = cmembers d" "net (note_leader d) = net d"
    "nodes (note_leader d) = nodes d" "down (note_leader d) = down d" "cnow (note_leader d) = cnow d" for d
    by (simp_all add: note_leader_def Let_def split: option.split)
  have "tight (note_leader c3) = ?b" using same side by (simp add: tight_def beside_def)
  then have "cluster_ok (tight (note_leader c3)) ?ms {} (note_leader c3) u"
    using cluster_ok_same [OF cluster_ok_weaken [OF u, of ?b "{}"] same(1,2,3)] by simp
  then have "moves_on c (note_leader c3)"
    using cluster_invI [of "note_leader c3" c u] same side down by (simp add: moves_on_def beside_def c1_def)
  moreover have "cnow (note_leader c3) = Suc (cnow c)" using same side by (simp add: beside_def c1_def)
  moreover have "advance_by post c = Inr (note_leader c3)"
    unfolding advance_by_def w Let_def prod.case c1_def [symmetric] c2(1) rbind.simps c3(1) ..
  ultimately show ?thesis by blast
qed

lemma tick_by_moves_on:
  assumes "cluster_inv c"
  shows "tick_by post c = Inl StateMachineSafety \<or>
    (\<exists>c'. tick_by post c = Inr c' \<and> moves_on c c' \<and> cnow c' = Suc (cnow c))"
proof -
  obtain c' where c': "advance_by post c = Inr c'" "moves_on c c'" "cnow c' = Suc (cnow c)"
    using advance_by_moves_on [OF assms] by blast
  then have "verify c' (take_moment c') = Inr () \<or> verify c' (take_moment c') = Inl StateMachineSafety"
    using verify_verdict [of c'] by (auto simp: moves_on_def)
  with c' show ?thesis by (auto simp: tick_by_def)
qed

lemma propose_by_moves_on:
  assumes inv: "cluster_inv c"
  shows "cluster_leader c = None \<and> propose_by post c v = Inl NoLeader \<or>
    (\<exists>i c'. propose_by post c v = Inr (i, c') \<and> moves_on c c' \<and> cnow c' = cnow c)"
proof (cases "cluster_leader c")
  case None
  then show ?thesis by (simp add: propose_by_def)
next
  case (Some f)
  from inv obtain s where ok: "cluster_ok (tight c) (cmembers c) {} c s" and down: "down c \<subseteq> set (cmembers c)"
    by (rule cluster_invE)
  obtain p where p: "p \<in> set (up c)" "f = nodes c p" "role f = LEADER"
    using leader_of_cluster [OF Some] by blast
  then have pm: "p \<in> set (cmembers c)" by (simp add: up_def)
  have sim: "node_sim (tight c) (cmembers c) p f s" using cluster_okD(2) [OF ok pm] p(2) by simp
  obtain n' s' i where n': "propose f v = Inr (n', i)" "run (cmembers c) p s s'"
    "node_sim (tight c) (cmembers c) p n' s'" "role n' = LEADER"
    using propose_sim [OF cluster_okD(1) [OF ok] sim cluster_okD(3) [OF ok] p(3), of v] by blast
  obtain out where out: "replicate_to n' None = Inr out" "\<forall>m\<in>set out. msg_ok (tight c) (cmembers c) s' m"
    using replicate_sim [OF run_inv [OF n'(2) cluster_okD(1) [OF ok]] n'(3,4) pm, of None] by auto
  obtain c' where c': "rfold post out (put_node c p n') = Inr c'"
    "cluster_ok (tight c) (cmembers c) {} c' s'" "beside (put_node c p n') c'"
    using sent_all [OF put_node_ok [OF ok n'(2,3)] out(2)] by blast
  have "name f = p" by (rule node_simD(1) [OF sim])
  then have "propose_by post c v = Inr (i, c')"
    using Some n'(1) out(1) c'(1) by (simp add: propose_by_def)
  moreover from c'(3) have same: "tight c' = tight c" "down c' = down c" "cmembers c' = cmembers c" "cnow c' = cnow c"
    by (simp_all add: tight_def beside_def put_node_def)
  moreover have "cluster_inv c'" using cluster_invI [of c' c s'] c'(2) same down by simp
  ultimately show ?thesis by (simp add: moves_on_def)
qed

end

section \<open>The shipped wire and the cut one\<close>

interpretation shipped: sending send1
  by unfold_locales (rule send1_ok)

lemma net_send_past_blocked:
  "list_ex (\<lambda>k. blocks k (sender m) (recipient m)) ks \<Longrightarrow>
   sender m \<in> set (on_net w) \<Longrightarrow> recipient m \<in> set (on_net w) \<Longrightarrow>
   \<exists>w'. net_send_past ks w m = Inr (False, w') \<and> on_net w' = on_net w \<and> flight w' = flight w \<and>
     delivered w' = delivered w"
  by (simp add: net_send_past_def Let_def reachable_past_def)

lemma net_send_past_open:
  "\<not> list_ex (\<lambda>k. blocks k (sender m) (recipient m)) ks \<Longrightarrow> net_send_past ks w m = net_send w m"
  by (simp add: net_send_past_def net_send_def Let_def reachable_past_def)

lemma send_past_ok:
  assumes ok: "cluster_ok b ms M c s" and m: "msg_ok b ms s m"
  shows "\<exists>c'. send_past ks m c = Inr c' \<and> cluster_ok b ms M c' s \<and> beside c c'"
proof (cases "list_ex (\<lambda>k. blocks k (sender m) (recipient m)) ks \<and> sender m \<notin> down c")
  case True
  have "sender m \<in> set (on_net (net c))" "recipient m \<in> set (on_net (net c))"
    using assms by (simp_all add: cluster_ok_def msg_ok_def)
  from net_send_past_blocked [OF conjunct1 [OF True] this] obtain w' where
    "net_send_past ks (net c) m = Inr (False, w')" "on_net w' = on_net (net c)" "flight w' = flight (net c)"
    "delivered w' = delivered (net c)" by blast
  with True ok show ?thesis by (simp add: send_past_def cluster_ok_def beside_def)
next
  case False
  then have "send_past ks m c = send1 m c"
    by (auto simp: send_past_def send1_def net_send_past_open)
  with send1_ok [OF assms] show ?thesis by simp
qed

interpretation past: sending "send_past ks" for ks
  by unfold_locales (rule send_past_ok)

section \<open>A run under cuts is safe\<close>

lemma write_past_moves_on:
  assumes "cluster_inv c"
  shows "\<exists>c'. write_past (send_past ks) t c = Inr c' \<and> moves_on c c' \<and> cnow c' = cnow c"
  using past.propose_by_moves_on [OF assms, of ks "PTuple [PStr ''set'', PStr ''k'', PInt (int t)]"] assms
  by (auto simp: write_past_def moves_on_def)

text \<open>What the counters of a run show after \<open>k\<close> ticks.\<close>

definition tally_ok :: "nat \<Rightarrow> nat \<Rightarrow> cluster \<Rightarrow> cut_tally \<Rightarrow> bool" where
  "tally_ok writes k c y \<longleftrightarrow> leaderless y \<le> k \<and> changes y = length (seen_leaders y) \<and>
     distinct_adj (seen_leaders y) \<and> set (seen_leaders y) \<subseteq> set (cmembers c) \<and>
     written y = min writes ((k + 19) div 20)"

lemma writes_due: "((Suc k + 19) div 20 :: nat) = (k + 19) div 20 + (if k mod 20 = 0 then 1 else 0)"
proof -
  have k: "k = 20 * (k div 20) + k mod 20" and r: "k mod 20 < 20" by simp_all
  obtain q r where "k = 20 * q + r" "r < 20" using k r by blast
  then have "(k + 19) div 20 = q + (r + 19) div 20" "k mod 20 = r" "(Suc k + 19) div 20 = q + 1"
    by simp_all
  moreover have "(r + 19) div 20 = (if r = 0 then 0 else 1)" using \<open>r < 20\<close> by (cases r) simp_all
  ultimately show ?thesis by simp
qed

lemma note_office_tally:
  assumes "cluster_inv c" "tally_ok writes k c0 y" "cmembers c = cmembers c0"
    "w = min writes ((Suc k + 19) div 20)"
  shows "tally_ok writes (Suc k) c (note_office c (y\<lparr>written := w\<rparr>))"
proof (cases "cluster_leader c")
  case None
  with assms show ?thesis by (simp add: tally_ok_def note_office_def)
next
  case (Some f)
  then have "name f \<in> set (cmembers c0)" using leader_name(1) [OF assms(1) Some] assms(3) by (simp add: up_def)
  with Some assms show ?thesis
    by (auto simp: tally_ok_def note_office_def distinct_adj_append_iff)
qed

lemma cut_turns_ok:
  assumes "cluster_inv c0"
  shows "rfold (cut_turn (send_past ks) writes) [0..<k]
      (c0, \<lparr>leaderless = 0, seen_leaders = [], changes = 0, written = 0\<rparr>) = Inl StateMachineSafety \<or>
    (\<exists>c y. rfold (cut_turn (send_past ks) writes) [0..<k]
      (c0, \<lparr>leaderless = 0, seen_leaders = [], changes = 0, written = 0\<rparr>) = Inr (c, y) \<and>
      moves_on c0 c \<and> cnow c = cnow c0 + k \<and> tally_ok writes k c y)"
proof (induction k)
  case 0
  then show ?case using assms by (simp add: moves_on_def tally_ok_def)
next
  case (Suc k)
  let ?turn = "cut_turn (send_past ks) writes"
  let ?turns = "\<lambda>k. rfold ?turn [0..<k] (c0, \<lparr>leaderless = 0, seen_leaders = [], changes = 0, written = 0\<rparr>)"
  have step: "?turns (Suc k) = rbind (?turns k) (?turn k)" by (simp add: rfold_snoc)
  from Suc.IH show ?case
  proof (elim disjE exE conjE)
    assume "?turns k = Inl StateMachineSafety"
    with step show ?thesis by simp
  next
    fix c y
    assume k: "?turns k = Inr (c, y)" "moves_on c0 c" "cnow c = cnow c0 + k" "tally_ok writes k c y"
    then have inv: "cluster_inv c" by (simp add: moves_on_def)
    have "\<exists>c1. (if k mod 20 = 0 \<and> written y < writes
            then rbind (write_past (send_past ks) k c) (\<lambda>c1. Inr (c1, y\<lparr>written := written y + 1\<rparr>))
            else Inr (c, y)) = Inr (c1, y\<lparr>written := min writes ((Suc k + 19) div 20)\<rparr>) \<and>
        moves_on c c1 \<and> cnow c1 = cnow c"
      using write_past_moves_on [OF inv, of ks k] inv k(4) writes_due [of k]
      by (auto simp: moves_on_def tally_ok_def min_def)
    then obtain c1 where c1: "(if k mod 20 = 0 \<and> written y < writes
            then rbind (write_past (send_past ks) k c) (\<lambda>c1. Inr (c1, y\<lparr>written := written y + 1\<rparr>))
            else Inr (c, y)) = Inr (c1, y\<lparr>written := min writes ((Suc k + 19) div 20)\<rparr>)"
      "moves_on c c1" "cnow c1 = cnow c" by blast
    have turn: "?turn k (c, y) = rbind (tick_by (send_past ks) c1) (\<lambda>c2.
        Inr (c2, note_office c2 (y\<lparr>written := min writes ((Suc k + 19) div 20)\<rparr>)))"
      unfolding cut_turn_def prod.case c1(1) rbind.simps ..
    have "cluster_inv c1" using c1(2) by (simp add: moves_on_def)
    from past.tick_by_moves_on [OF this, of ks] show ?thesis
    proof (elim disjE exE conjE)
      assume "tick_by (send_past ks) c1 = Inl StateMachineSafety"
      with step k(1) turn show ?thesis by simp
    next
      fix c2
      assume c2: "tick_by (send_past ks) c1 = Inr c2" "moves_on c1 c2" "cnow c2 = Suc (cnow c1)"
      have on: "moves_on c c2" by (rule moves_on_trans [OF c1(2) c2(2)])
      then have "tally_ok writes (Suc k) c2
          (note_office c2 (y\<lparr>written := min writes ((Suc k + 19) div 20)\<rparr>))"
        by (intro note_office_tally [OF _ k(4)]) (simp_all add: moves_on_def)
      with step k(1,3) turn c1(3) c2(1,3) moves_on_trans [OF k(2) on] show ?thesis by simp
    qed
  qed
qed

lemma add_cuts:
  "\<forall>k\<in>set ks. c_node k \<in> set (cmembers c) \<Longrightarrow> rfold (add_cut c) ks js = Inr (js @ ks)"
  by (induction ks arbitrary: js) (simp_all add: add_cut_def)

lemma add_cuts_unknown:
  "\<exists>k\<in>set ks. c_node k \<notin> set (cmembers c) \<Longrightarrow> rfold (add_cut c) ks js = Inl UnknownNode"
  by (induction ks arbitrary: js) (auto simp: add_cut_def)


abbreviation short_run :: "(cut_run \<times> cluster) result" where
  "short_run \<equiv> run_past (\<lambda>s i. 0) (\<lambda>s p i. 0) ''one way''
     [\<lparr>c_node = ''n1'', c_direction = OUTBOUND, c_peer = []\<rparr>] 3 0 1 3 2 False"

lemma short_run_ends: "case short_run of Inl e \<Rightarrow> False | Inr (r, c) \<Rightarrow> cr_seen r = []"
  by code_simp


section \<open>A leader that cannot hear\<close>

text \<open>Writes and ticks in any order, a write that finds no leader being suppressed.\<close>

fun press_on :: "sends \<Rightarrow> pyobj option list \<Rightarrow> cluster \<Rightarrow> cluster result" where
  "press_on post [] c = Inr c"
| "press_on post (None # acts) c = rbind (tick_by post c) (press_on post acts)"
| "press_on post (Some v # acts) c =
     (case propose_by post c v of
        Inr (i, c') \<Rightarrow> press_on post acts c'
      | Inl NoLeader \<Rightarrow> press_on post acts c
      | Inl e \<Rightarrow> Inl e)"

text \<open>Nothing sent to \<open>p\<close> goes through, and nothing sent to it before is still on the wire.\<close>

definition deaf :: "link_cut list \<Rightarrow> name \<Rightarrow> bool" where
  "deaf ks p \<longleftrightarrow> (\<exists>k\<in>set ks. c_node k = p \<and> c_direction k \<in> {BOTH, INBOUND} \<and> c_peer k = [])"

definition nothing_for :: "name \<Rightarrow> cluster \<Rightarrow> bool" where
  "nothing_for p c \<longleftrightarrow> (\<forall>f\<in>set (flight (net c)). recipient (packet f) \<noteq> p)"

text \<open>What such a leader keeps.\<close>

definition office :: "node \<Rightarrow> role \<times> nat \<times> nat \<times> nat \<times> entry list \<times> name list" where
  "office n = (role n, current_term n, commit_index n, last_applied n, applied n, members n)"

lemma deaf_blocks: "deaf ks p \<Longrightarrow> list_ex (\<lambda>k. blocks k s p) ks"
  by (auto simp: deaf_def blocks_def list_ex_iff intro!: bexI)

lemma net_send_past_deaf:
  assumes "deaf ks p" "net_send_past ks w m = Inr (b, w')" "\<forall>f\<in>set (flight w). recipient (packet f) \<noteq> p"
  shows "\<forall>f\<in>set (flight w'). recipient (packet f) \<noteq> p"
proof (cases "list_ex (\<lambda>k. blocks k (sender m) (recipient m)) ks")
  case True
  then have "flight w' = flight w"
    using assms(2) by (auto simp: net_send_past_def Let_def reachable_past_def split: if_splits)
  with assms(3) show ?thesis by simp
next
  case False
  then have "recipient m \<noteq> p" "net_send w m = Inr (b, w')"
    using deaf_blocks [OF assms(1)] assms(2) net_send_past_open [OF False, of w] by auto
  have "recipient (packet f) \<noteq> p" if "f \<in> set (flight w')" for f
  proof -
    have "packet f = m \<or> packet f \<in> packet ` set (flight w)"
      using net_send_packets [OF \<open>net_send w m = Inr (b, w')\<close>] that by blast
    with \<open>recipient m \<noteq> p\<close> assms(3) show ?thesis by auto
  qed
  then show ?thesis by blast
qed

text \<open>Sending, delivering and timing leave the office of a deaf leader alone.\<close>

definition holds_office :: "name \<Rightarrow> cluster \<Rightarrow> cluster \<Rightarrow> bool" where
  "holds_office p c c' \<longleftrightarrow> nothing_for p c' \<and> office (nodes c' p) = office (nodes c p)"

lemma holds_office_trans: "holds_office p c c' \<Longrightarrow> holds_office p c' c'' \<Longrightarrow> holds_office p c c''"
  by (simp add: holds_office_def)

lemma send_past_office:
  assumes "deaf ks p" "send_past ks m c = Inr c'" "nothing_for p c"
  shows "nothing_for p c' \<and> nodes c' = nodes c"
proof (cases "sender m \<in> down c")
  case True
  with assms(2,3) show ?thesis by (simp add: send_past_def)
next
  case False
  with assms(2) obtain b w' where w: "net_send_past ks (net c) m = Inr (b, w')" "c' = c\<lparr>net := w'\<rparr>"
    by (auto simp: send_past_def raises)
  from net_send_past_deaf [OF assms(1) w(1)] assms(3) w(2) show ?thesis by (simp add: nothing_for_def)
qed

lemma sends_past_office:
  assumes "deaf ks p" "rfold (send_past ks) out c = Inr c'" "nothing_for p c"
  shows "nothing_for p c' \<and> nodes c' = nodes c"
  by (rule rfold_invariant [where P = "\<lambda>d. nothing_for p d \<and> nodes d = nodes c", OF _ _ assms(2)])
    (use send_past_office [OF assms(1)] assms(3) in auto)

lemma hand_out_office:
  assumes "deaf ks p" "hand_out (send_past ks) c q r = Inr c'" "nothing_for p c"
    "\<And>n out. q = p \<Longrightarrow> r = Inr (n, out) \<Longrightarrow> office n = office (nodes c p)"
  shows "holds_office p c c'"
proof -
  from assms(2) obtain n out where r: "r = Inr (n, out)"
    "rfold (send_past ks) out (put_node c q n) = Inr c'"
    by (auto simp: hand_out_def raises)
  have "nothing_for p (put_node c q n)" using assms(3) by (simp add: nothing_for_def put_node_def)
  from sends_past_office [OF assms(1) r(2) this] assms(4) [OF _ r(1)] show ?thesis
    by (cases "q = p") (auto simp: holds_office_def put_node_def)
qed

lemma tick_office:
  assumes "role n = LEADER" "tick n t = Inr (n', out)"
  shows "office n' = office n"
  using assms by (auto simp: tick_def Let_def raises office_def split: if_splits)

lemma advance_past_office:
  assumes deaf: "deaf ks p" and led: "role (nodes c p) = LEADER" and none: "nothing_for p c"
    and step: "advance_by (send_past ks) c = Inr c'"
  shows "holds_office p c c'"
proof -
  obtain landed w where w: "net_tick (net c) = (landed, w)" by fastforce
  note kept = net_tick_keeps [OF w]
  let ?c1 = "c\<lparr>cnow := cnow c + 1, net := w\<rparr>"
  from step obtain c2 c3 where c2: "rfold (deliver_by (send_past ks)) landed ?c1 = Inr c2"
    and c3: "rfold (time_node_by (send_past ks)) (up c2) c2 = Inr c3" and c': "c' = note_leader c3"
    by (auto simp: advance_by_def w Let_def raises)
  have start: "holds_office p c ?c1"
    using none kept(7) by (simp add: holds_office_def nothing_for_def)
  have landed: "recipient m \<noteq> p" if "m \<in> set landed" for m
    using that kept(8) none by (auto simp: nothing_for_def)
  have mid: "holds_office p c c2"
  proof (rule rfold_invariant [where P = "holds_office p c", OF _ start c2])
    fix m d d'
    assume *: "m \<in> set landed" "holds_office p c d" "deliver_by (send_past ks) m d = Inr d'"
    show "holds_office p c d'"
    proof (cases "recipient m \<in> down d")
      case True
      with * show ?thesis by (simp add: deliver_by_def)
    next
      case False
      with *(3) have "hand_out (send_past ks) d (recipient m) (step (nodes d (recipient m)) m) = Inr d'"
        by (simp add: deliver_by_def)
      from hand_out_office [OF deaf this] landed [OF *(1)] *(2) show ?thesis
        by (auto simp: holds_office_def)
    qed
  qed
  have "holds_office p c c3"
  proof (rule rfold_invariant [where P = "holds_office p c", OF _ mid c3])
    fix q d d'
    assume *: "holds_office p c d" "time_node_by (send_past ks) q d = Inr d'"
    then have lead: "role (nodes d p) = LEADER" using led by (simp add: holds_office_def office_def)
    from *(2) have "hand_out (send_past ks) d q (tick (nodes d q) (cnow d)) = Inr d'"
      by (simp add: time_node_by_def)
    from hand_out_office [OF deaf this] tick_office [OF lead] *(1) show "holds_office p c d'"
      by (auto simp: holds_office_def)
  qed
  then show ?thesis
    unfolding c' by (simp add: holds_office_def nothing_for_def note_leader_def Let_def split: option.split)
qed

lemma propose_office:
  assumes "propose n v = Inr (n', i)" "length (members n) \<noteq> 1"
  shows "office n' = office n"
  using assms by (auto simp: propose_def Let_def raises office_def split: if_splits)

lemma propose_past_office:
  assumes "deaf ks p" "nothing_for p c" "cluster_inv c" "p \<in> set (cmembers c)" "length (cmembers c) \<noteq> 1"
    "propose_by (send_past ks) c v = Inr (i, c')"
  shows "holds_office p c c'"
proof -
  from assms(6) obtain f n out where f: "cluster_leader c = Some f" "propose f v = Inr (n, i)"
    "rfold (send_past ks) out (put_node c (name f) n) = Inr c'"
    by (auto simp: propose_by_def raises split: option.splits)
  note f' = leader_name(2) [OF assms(3) f(1)]
  from assms(3) obtain s where ok: "cluster_ok (tight c) (cmembers c) {} c s"
    by (rule cluster_invE)
  have "name f \<in> set (cmembers c)" using leader_name(1) [OF assms(3) f(1)] by (simp add: up_def)
  then have "members f = cmembers c"
    using node_simD(2) [OF cluster_okD(2) [OF ok, of "name f"]] f' by simp
  then have "office n = office f" using propose_office [OF f(2)] assms(5) by simp
  moreover have "nothing_for p (put_node c (name f) n)"
    using assms(2) by (simp add: nothing_for_def put_node_def)
  note sends_past_office [OF assms(1) f(3) this]
  ultimately show ?thesis using f' by (auto simp: holds_office_def put_node_def)
qed

lemma press_on_office:
  assumes "deaf ks p" "cluster_inv c" "p \<in> set (cmembers c)" "length (cmembers c) \<noteq> 1"
    "role (nodes c p) = LEADER" "nothing_for p c"
  shows "press_on (send_past ks) acts c = Inl StateMachineSafety \<or>
    (\<exists>c'. press_on (send_past ks) acts c = Inr c' \<and> moves_on c c' \<and> holds_office p c c')"
  using assms
proof (induction "send_past ks" acts c rule: press_on.induct)
  case (1 c)
  then show ?case by (simp add: moves_on_def holds_office_def)
next
  case (2 acts c)
  from past.tick_by_moves_on [OF "2.prems"(2), of ks] show ?case
  proof (elim disjE exE conjE)
    fix d
    assume d: "tick_by (send_past ks) c = Inr d" "moves_on c d"
    then have "advance_by (send_past ks) c = Inr d" by (auto simp: tick_by_def raises split: if_splits)
    from advance_past_office [OF "2.prems"(1,5,6) this] have kept: "holds_office p c d" .
    with d(2) "2.prems" have "cluster_inv d" "p \<in> set (cmembers d)" "length (cmembers d) \<noteq> 1"
      "role (nodes d p) = LEADER" "nothing_for p d"
      by (simp_all add: moves_on_def holds_office_def office_def)
    from "2.hyps" [OF d(1) "2.prems"(1) this] d show ?thesis
      using moves_on_trans [OF d(2)] holds_office_trans [OF kept] by auto
  qed simp
next
  case (3 v acts c)
  from past.propose_by_moves_on [OF "3.prems"(2), of ks v] show ?case
  proof (elim disjE exE conjE)
    assume none: "propose_by (send_past ks) c v = Inl NoLeader"
    from "3.hyps"(1) [OF none refl "3.prems"] none show ?thesis by simp
  next
    fix i d
    assume d: "propose_by (send_past ks) c v = Inr (i, d)" "moves_on c d"
    from propose_past_office [OF "3.prems"(1,6,2-4) d(1)] have kept: "holds_office p c d" .
    with d(2) "3.prems" have "cluster_inv d" "p \<in> set (cmembers d)" "length (cmembers d) \<noteq> 1"
      "role (nodes d p) = LEADER" "nothing_for p d"
      by (simp_all add: moves_on_def holds_office_def office_def)
    from "3.hyps"(2) [OF d(1) refl "3.prems"(1) this] d show ?thesis
      using moves_on_trans [OF d(2)] holds_office_trans [OF kept] by auto
  qed
qed


text \<open>Two nodes, the first of which leads after twelve ticks, is deafened and is written to.\<close>

definition two_nodes :: "cluster result" where
  "two_nodes = rbind (Cluster (\<lambda>s i. 0) (\<lambda>s p i. if p = ''n0'' then 0 else 9) 2 0 None False False)
     (cluster_run 12)"

definition deafened :: "link_cut list" where
  "deafened = [\<lparr>c_node = ''n0'', c_direction = INBOUND, c_peer = []\<rparr>]"

lemma two_nodes_view:
  "case two_nodes of Inl e \<Rightarrow> False | Inr c \<Rightarrow> cmembers c = [''n0'', ''n1''] \<and>
     role (nodes c ''n0'') = LEADER \<and> list_all (\<lambda>f. recipient (packet f) \<noteq> ''n0'') (flight (net c)) \<and>
     (case press_on (send_past deafened) [Some PNone, None] c of Inl e \<Rightarrow> False | Inr c' \<Rightarrow> True)"
  by code_simp

lemma cluster_run_reach:
  "cluster_run k c = Inr c' \<Longrightarrow> cluster_reach net_seed node_seed c \<Longrightarrow> cluster_reach net_seed node_seed c'"
proof (induction k arbitrary: c)
  case (Suc k)
  then obtain d where d: "cluster_tick c = Inr d" "cluster_run k d = Inr c'" by (auto simp: raises)
  have "cluster_reach net_seed node_seed d"
    by (rule cluster_reach.performed [OF Suc.prems(2), of Tick]) (simp add: d(1))
  with Suc.IH d(2) show ?case by blast
qed simp


end
