(* ===== verification/Outside_Timers.thy ===== *)
theory Outside_Timers
  imports Cluster_Runs
begin

text \<open>
  Driving a cluster's nodes by timers held outside them, as \<open>src/rsm/timing.py\<close> and
  \<open>src/rsm/priority.py\<close> do: the driver draws and keeps the deadlines, rearms one whenever the node
  resets its own timer, and tells a node to stand when its deadline passes. The two drivers differ
  in how long a deadline is and in what a leader does on its turn; both are parameters here.
\<close>

section \<open>Timers\<close>

record timers =
  deadline :: "name \<Rightarrow> nat"
  last_seen :: "name \<Rightarrow> nat"
  timer_rng :: draws

text \<open>The range a deadline is drawn from, and what a node waits beyond it.\<close>

record reach =
  lowest :: nat
  highest :: nat
  beyond :: "name \<Rightarrow> nat"

definition rearm :: "reach \<Rightarrow> cluster \<Rightarrow> name \<Rightarrow> timers \<Rightarrow> timers" where
  "rearm r c p t =
     (let (span, g) = randint (lowest r) (highest r) (timer_rng t)
      in t\<lparr>timer_rng := g, deadline := (deadline t)(p := cnow c + span + beyond r p),
           last_seen := (last_seen t)(p := election_deadline (nodes c p))\<rparr>)"

definition follow :: "reach \<Rightarrow> cluster \<Rightarrow> timers \<Rightarrow> timers" where
  "follow r c t = fold (\<lambda>p t.
     if election_deadline (nodes c p) \<noteq> last_seen t p then rearm r c p t else t) (cmembers c) t"

definition first_timers :: "reach \<Rightarrow> cluster \<Rightarrow> draws \<Rightarrow> timers" where
  "first_timers r c g = fold (rearm r c) (cmembers c)
     \<lparr>deadline = (\<lambda>p. 0), last_seen = (\<lambda>p. 0), timer_rng = g\<rparr>"

section \<open>A tick\<close>

text \<open>What a leader does on its turn may use a state of the driver's own.\<close>

type_synonym 'x beat = "name \<Rightarrow> cluster \<times> 'x \<Rightarrow> (cluster \<times> 'x) result"

definition act :: "name \<Rightarrow> outcome \<Rightarrow> cluster \<Rightarrow> cluster result" where
  "act p r c = rbind r (\<lambda>(n, out). send_all (put_node c p n) out)"

definition timed_node ::
  "reach \<Rightarrow> 'x beat \<Rightarrow> name \<Rightarrow> cluster \<times> timers \<times> 'x \<Rightarrow> (cluster \<times> timers \<times> 'x) result" where
  "timed_node r beat p = (\<lambda>(c, t, x).
     let c1 = put_node c p ((nodes c p)\<lparr>now := cnow c\<rparr>) in
     if is_leader (nodes c1 p)
     then rbind (beat p (c1, x)) (\<lambda>(c2, x'). Inr (c2, rearm r c2 p t, x'))
     else if deadline t p \<le> cnow c1
     then rbind (act p (stand (nodes c1 p)) c1) (\<lambda>c2. Inr (c2, rearm r c2 p t, x))
     else Inr (c1, t, x))"

definition timed_tick ::
  "reach \<Rightarrow> 'x beat \<Rightarrow> cluster \<times> timers \<times> 'x \<Rightarrow> (cluster \<times> timers \<times> 'x) result" where
  "timed_tick r beat = (\<lambda>(c, t, x).
     let (landed, w) = net_tick (net c) in
     rbind (rfold deliver landed (c\<lparr>cnow := cnow c + 1, net := w\<rparr>)) (\<lambda>c2.
     rbind (rfold (timed_node r beat) (up c2) (c2, follow r c2 t, x)) (\<lambda>(c3, t3, x3).
     Inr (c3, follow r c3 t3, x3))))"

section \<open>Steps that keep the invariant of the cluster\<close>

lemma landing_moves_on:
  assumes inv: "cluster_inv c" and w: "net_tick (net c) = (landed, w)"
  shows "\<exists>c'. rfold deliver landed (c\<lparr>cnow := cnow c + 1, net := w\<rparr>) = Inr c' \<and> moves_on c c' \<and>
    cnow c' = Suc (cnow c)"
proof -
  let ?ms = "cmembers c"
  from inv obtain s where ok: "cluster_ok (tight c) ?ms {} c s" and down: "down c \<subseteq> set ?ms"
    by (rule cluster_invE)
  note kept = net_tick_keeps [OF w]
  define c1 where "c1 = c\<lparr>cnow := cnow c + 1, net := w\<rparr>"
  let ?b = "tight c1" and ?M = "set landed"
  have weaker: "?b \<longrightarrow> tight c" and snug: "m \<in> ?M \<Longrightarrow> ?b \<longrightarrow> snug m" for m
    using kept(5) by (auto simp: tight_def c1_def)
  have "cluster_ok (tight c) ?ms ?M c1 s"
    using ok kept(1,7,8) unfolding cluster_ok_def c1_def by auto
  then have ok1: "cluster_ok ?b ?ms ?M c1 s" by (rule cluster_ok_weaken [OF _ weaker order_refl])
  let ?P = "\<lambda>d. (\<exists>u. cluster_ok ?b ?ms ?M d u) \<and> beside c1 d"
  have "\<exists>d. rfold deliver landed c1 = Inr d \<and> ?P d"
  proof (rule rfold_total)
    show "?P c1" using ok1 beside_refl by blast
    show "\<exists>d'. deliver m d = Inr d' \<and> ?P d'" if "m \<in> ?M" "?P d" for m d
      using that(2) deliver_ok [OF _ that(1) snug [OF that(1)]] beside_trans by meson
  qed
  then obtain d u where d: "rfold deliver landed c1 = Inr d" "cluster_ok ?b ?ms ?M d u" "beside c1 d"
    by blast
  have "tight d = ?b" using d(3) by (simp add: tight_def beside_def)
  then have "cluster_ok (tight d) ?ms {} d u" using cluster_ok_weaken [OF d(2), of ?b "{}"] by simp
  then have "moves_on c d" "cnow d = Suc (cnow c)"
    using cluster_invI [of d c u] d(3) down by (simp_all add: moves_on_def beside_def c1_def)
  with d(1) show ?thesis unfolding c1_def by blast
qed

lemma act_moves_on:
  assumes inv: "cluster_inv c"
    and sim: "\<And>b s. inv (cmembers c) s \<Longrightarrow> node_sim b (cmembers c) p (nodes c p) s \<Longrightarrow>
      distinct (cmembers c) \<Longrightarrow> refines b (cmembers c) p s r"
    and p: "p \<in> set (cmembers c)"
  shows "\<exists>c'. act p r c = Inr c' \<and> moves_on c c' \<and> cnow c' = cnow c"
proof -
  from inv obtain s where ok: "cluster_ok (tight c) (cmembers c) {} c s"
    and down: "down c \<subseteq> set (cmembers c)"
    by (rule cluster_invE)
  have "refines (tight c) (cmembers c) p s r"
    by (rule sim) (use cluster_okD [OF ok] p in simp_all)
  from handled_ok [OF ok this] obtain c' s' where c': "act p r c = Inr c'"
    "cluster_ok (tight c) (cmembers c) {} c' s'" "beside c c'"
    unfolding act_def by blast
  then have "tight c' = tight c" by (simp add: tight_def beside_def)
  with c' down cluster_invI [of c' c s'] show ?thesis by (auto simp: moves_on_def beside_def)
qed

lemma quiet_put_moves_on:
  assumes inv: "cluster_inv c" and p: "p \<in> set (cmembers c)"
  shows "moves_on c (put_node c p ((nodes c p)\<lparr>now := k\<rparr>))"
proof -
  let ?n = "(nodes c p)\<lparr>now := k\<rparr>"
  have "\<exists>c'. act p (Inr (?n, [])) c = Inr c' \<and> moves_on c c' \<and> cnow c' = cnow c"
  proof (rule act_moves_on [OF inv _ p])
    fix b s
    assume "node_sim b (cmembers c) p (nodes c p) s"
    then have "node_sim b (cmembers c) p ?n s" by (simp add: unseen)
    then show "refines b (cmembers c) p s (Inr (?n, []))"
      by (intro refinesI [OF refl run_refl]) simp_all
  qed
  then show ?thesis by (simp add: act_def send_all_def)
qed

section \<open>Safety does not depend on the timers\<close>

text \<open>
  All a leader's turn has to promise is that it keeps the invariant and the clock. Then a tick keeps
  them too, whatever the range of the deadlines.
\<close>

locale beating =
  fixes beat :: "'x beat"
  assumes beats: "cluster_inv c \<Longrightarrow> p \<in> set (cmembers c) \<Longrightarrow> is_leader (nodes c p) \<Longrightarrow>
    \<exists>c' x'. beat p (c, x) = Inr (c', x') \<and> moves_on c c' \<and> cnow c' = cnow c"
begin

lemma timed_node_moves_on:
  assumes inv: "cluster_inv c" and p: "p \<in> set (cmembers c)"
  shows "\<exists>c' t' x'. timed_node r beat p (c, t, x) = Inr (c', t', x') \<and> moves_on c c' \<and> cnow c' = cnow c"
proof -
  define c1 where "c1 = put_node c p ((nodes c p)\<lparr>now := cnow c\<rparr>)"
  have on: "moves_on c c1" "cnow c1 = cnow c"
    using quiet_put_moves_on [OF inv p] by (simp_all add: c1_def put_node_def)
  then have c1: "cluster_inv c1" "p \<in> set (cmembers c1)" using p by (simp_all add: moves_on_def)
  note eq = timed_node_def [of r beat p, unfolded Let_def]
  consider "is_leader (nodes c1 p)" | "\<not> is_leader (nodes c1 p)" "deadline t p \<le> cnow c1"
    | "\<not> is_leader (nodes c1 p)" "\<not> deadline t p \<le> cnow c1" by blast
  then show ?thesis
  proof cases
    case 1
    from beats [OF c1 this, of x] obtain c2 x' where
      "beat p (c1, x) = Inr (c2, x')" "moves_on c1 c2" "cnow c2 = cnow c1" by blast
    with 1 on moves_on_trans [OF on(1)] show ?thesis by (simp add: eq c1_def)
  next
    case 2
    have "\<exists>c2. act p (stand (nodes c1 p)) c1 = Inr c2 \<and> moves_on c1 c2 \<and> cnow c2 = cnow c1"
      by (rule act_moves_on [OF c1(1) _ c1(2)]) (rule stand_sim, simp_all add: c1(2))
    then obtain c2 where "act p (stand (nodes c1 p)) c1 = Inr c2" "moves_on c1 c2" "cnow c2 = cnow c1" by blast
    with 2 on moves_on_trans [OF on(1)] show ?thesis by (simp add: eq c1_def)
  next
    case 3
    with on show ?thesis by (simp add: eq c1_def)
  qed
qed

lemma timed_tick_moves_on:
  assumes inv: "cluster_inv c"
  shows "\<exists>c' t' x'. timed_tick r beat (c, t, x) = Inr (c', t', x') \<and> moves_on c c' \<and> cnow c' = Suc (cnow c)"
proof -
  obtain landed w where w: "net_tick (net c) = (landed, w)" by fastforce
  from landing_moves_on [OF inv w] obtain c2 where
    c2: "rfold deliver landed (c\<lparr>cnow := cnow c + 1, net := w\<rparr>) = Inr c2" "moves_on c c2"
    "cnow c2 = Suc (cnow c)" by blast
  let ?P = "\<lambda>st. moves_on c2 (fst st) \<and> cnow (fst st) = cnow c2"
  have "\<exists>st. rfold (timed_node r beat) (up c2) (c2, follow r c2 t, x) = Inr st \<and> ?P st"
  proof (rule rfold_total)
    show "?P (c2, follow r c2 t, x)" using c2(2) by (simp add: moves_on_def)
    show "\<exists>st'. timed_node r beat p st = Inr st' \<and> ?P st'" if "p \<in> set (up c2)" "?P st" for p st
    proof (cases st)
      case (fields d u y)
      with that have d: "moves_on c2 d" "cnow d = cnow c2" by simp_all
      then have "cluster_inv d" "p \<in> set (cmembers d)"
        using that(1) by (simp_all add: moves_on_def up_def)
      from timed_node_moves_on [OF this, of r u y] d fields show ?thesis
        using moves_on_trans [OF d(1)] by auto
    qed
  qed
  then obtain c3 t3 x3 where c3: "rfold (timed_node r beat) (up c2) (c2, follow r c2 t, x) = Inr (c3, t3, x3)"
    "moves_on c2 c3" "cnow c3 = cnow c2" by auto
  have "timed_tick r beat (c, t, x) = Inr (c3, follow r c3 t3, x3)"
    by (simp add: timed_tick_def w c2(1)[simplified] c3(1))
  with moves_on_trans [OF c2(2) c3(2)] c2(3) c3(3) show ?thesis by simp
qed

end

end
