(* ===== verification/Timing_Trials.thy ===== *)
theory Timing_Trials
  imports Outside_Timers
begin

text \<open>
  \<open>src/rsm/timing.py\<close>: a cluster driven by timers under test, so that a sweep can vary them. The
  ratios of a setting, the uptime and the churn are left as the counts they divide; the loop that
  writes has the interval of four ticks every caller leaves it.
\<close>

section \<open>Settings\<close>

record timings =
  tm_name :: string
  heartbeat :: nat
  min_timeout :: nat
  max_timeout :: nat
  link_delay :: nat

definition Timings :: "string \<Rightarrow> nat \<Rightarrow> nat \<Rightarrow> nat \<Rightarrow> nat \<Rightarrow> timings result" where
  "Timings nm hb lo hi d =
     (if hb < 1 then Inl ConfigError
      else if lo < 1 then Inl ConfigError
      else if hi < lo then Inl ConfigError
      else if d < 1 then Inl ConfigError
      else Inr \<lparr>tm_name = nm, heartbeat = hb, min_timeout = lo, max_timeout = hi, link_delay = d\<rparr>)"

definition spread :: "timings \<Rightarrow> nat" where
  "spread s = max_timeout s - min_timeout s"

definition sane :: "timings \<Rightarrow> bool" where
  "sane s \<longleftrightarrow> heartbeat s + link_delay s < min_timeout s"

definition comfortable :: "timings \<Rightarrow> bool" where
  "comfortable s \<longleftrightarrow> 2 * heartbeat s + link_delay s < min_timeout s"

definition shipped_timings :: timings where
  "shipped_timings = \<lparr>tm_name = ''shipped'', heartbeat = HEARTBEAT_INTERVAL,
     min_timeout = MIN_ELECTION_TIMEOUT, max_timeout = MAX_ELECTION_TIMEOUT, link_delay = 1\<rparr>"

definition fixed_timings :: timings where
  "fixed_timings = \<lparr>tm_name = ''fixed'', heartbeat = 3, min_timeout = 15, max_timeout = 15, link_delay = 1\<rparr>"

record timing_run =
  rn_timings :: timings
  rn_leaders :: nat
  rn_terms :: nat
  rn_committed :: nat
  rn_proposed :: nat
  rn_messages :: nat
  rn_leaderless :: nat
  rn_ticks :: nat

definition stable :: "timing_run \<Rightarrow> bool" where
  "stable u \<longleftrightarrow> rn_leaders u = 1"

definition timing_run_good :: "timing_run \<Rightarrow> bool" where
  "timing_run_good u \<longleftrightarrow> stable u \<and> rn_committed u = rn_proposed u"

section \<open>A trial\<close>

record trial =
  tr_timings :: timings
  tr_cluster :: cluster
  tr_timers :: timers
  beat_due :: "name \<Rightarrow> nat"
  terms_seen :: nat
  leaders_seen :: "name set"
  tr_leaderless :: nat

definition trial_reach :: "timings \<Rightarrow> reach" where
  "trial_reach s = \<lparr>lowest = min_timeout s, highest = max_timeout s, beyond = (\<lambda>p. 0)\<rparr>"

definition Trial ::
  "(int \<Rightarrow> draws) \<Rightarrow> (int \<Rightarrow> name \<Rightarrow> draws) \<Rightarrow> (int \<Rightarrow> string \<Rightarrow> draws) \<Rightarrow> timings \<Rightarrow> nat \<Rightarrow> int \<Rightarrow>
   trial result" where
  "Trial net_seed node_seed trial_seed s k sd =
     (if k < 1 then Inl ConfigError
      else rbind (Conditions (0, 0) (link_delay s) (link_delay s)) (\<lambda>cs.
           rbind (Cluster net_seed node_seed k sd (Some cs) False False) (\<lambda>c.
           Inr \<lparr>tr_timings = s, tr_cluster = c,
             tr_timers = first_timers (trial_reach s) c (trial_seed sd (tm_name s)),
             beat_due = (\<lambda>p. 0), terms_seen = 1, leaders_seen = {}, tr_leaderless = 0\<rparr>)))"

definition trial_beat :: "nat \<Rightarrow> (name \<Rightarrow> nat) beat" where
  "trial_beat every p = (\<lambda>(c, due).
     if due p \<le> cnow c
     then rbind (replicate_to (nodes c p) None) (\<lambda>out.
          rbind (send_all c out) (\<lambda>c'. Inr (c', due(p := cnow c + every))))
     else Inr (c, due))"

definition trial_tick :: "trial \<Rightarrow> trial result" where
  "trial_tick y =
     rbind (timed_tick (trial_reach (tr_timings y)) (trial_beat (heartbeat (tr_timings y)))
              (tr_cluster y, tr_timers y, beat_due y)) (\<lambda>(c, t, due).
     Inr (y\<lparr>tr_cluster := c, tr_timers := t, beat_due := due,
       tr_leaderless := (if cluster_leader c = None then tr_leaderless y + 1 else tr_leaderless y),
       leaders_seen := (case cluster_leader c of None \<Rightarrow> leaders_seen y
         | Some f \<Rightarrow> insert (name f) (leaders_seen y)),
       terms_seen := Max (insert (terms_seen y) ((\<lambda>p. current_term (nodes c p)) ` set (cmembers c)))\<rparr>))"

fun trial_go :: "nat \<Rightarrow> trial \<Rightarrow> trial result" where
  "trial_go 0 y = Inr y"
| "trial_go (Suc k) y = rbind (trial_tick y) (trial_go k)"

fun trial_settle :: "nat \<Rightarrow> trial \<Rightarrow> trial result" where
  "trial_settle 0 y = Inr y"
| "trial_settle (Suc k) y =
     rbind (trial_tick y) (\<lambda>y'.
       if cluster_leader (tr_cluster y') \<noteq> None \<and> quiet (net (tr_cluster y')) then Inr y'
       else trial_settle k y')"

definition WINDOW :: nat where "WINDOW = 600"

text \<open>A write goes into the leader's own log and waits for its next beat.\<close>

definition trial_write :: "nat \<Rightarrow> trial \<Rightarrow> (bool \<times> trial) result" where
  "trial_write v y =
     (case cluster_leader (tr_cluster y) of
        None \<Rightarrow> Inr (False, y)
      | Some f \<Rightarrow>
          rbind (propose f (PTuple [PStr ''set'', PStr ''k'', PInt (int v)])) (\<lambda>(n, i).
          Inr (True, y\<lparr>tr_cluster := put_node (tr_cluster y) (name f) n\<rparr>)))"

function trial_propose :: "nat \<Rightarrow> nat \<Rightarrow> nat \<Rightarrow> nat \<Rightarrow> trial \<Rightarrow> (nat \<times> trial) result" where
  "trial_propose wanted budget sofar spent y =
     (if sofar < wanted \<and> spent < budget
      then rbind (trial_write sofar y) (\<lambda>(wrote, y1).
           rbind (trial_go 4 y1) (\<lambda>y2.
           trial_propose wanted budget (if wrote then sofar + 1 else sofar) (spent + 4) y2))
      else Inr (sofar, y))"
  by pat_completeness auto

termination
  by (relation "measure (\<lambda>(wanted, budget, sofar, spent, y). budget - spent)") auto

declare trial_propose.simps [simp del]

definition trial_committed :: "trial \<Rightarrow> nat result" where
  "trial_committed y =
     (case cluster_leader (tr_cluster y) of
        None \<Rightarrow> Inr 0
      | Some f \<Rightarrow>
          rbind (rmap (log_at (log f)) [1..<commit_index f + 1]) (\<lambda>es.
          Inr (length (filter (\<lambda>e. command e \<noteq> PNone) es))))"

definition trial_report :: "nat \<Rightarrow> trial \<Rightarrow> timing_run result" where
  "trial_report proposed y =
     rbind (trial_committed y) (\<lambda>k.
     Inr \<lparr>rn_timings = tr_timings y, rn_leaders = card (leaders_seen y), rn_terms = terms_seen y,
       rn_committed = k, rn_proposed = proposed, rn_messages = n_sent (counts (net (tr_cluster y))),
       rn_leaderless = tr_leaderless y, rn_ticks = cnow (tr_cluster y)\<rparr>)"

definition trial_run ::
  "(int \<Rightarrow> draws) \<Rightarrow> (int \<Rightarrow> name \<Rightarrow> draws) \<Rightarrow> (int \<Rightarrow> string \<Rightarrow> draws) \<Rightarrow> timings \<Rightarrow> nat \<Rightarrow> int \<Rightarrow>
   nat \<Rightarrow> (timing_run \<times> trial) result" where
  "trial_run net_seed node_seed trial_seed s k sd writes =
     rbind (Trial net_seed node_seed trial_seed s k sd) (\<lambda>made.
     rbind (trial_settle 200 made) (\<lambda>y1.
     rbind (trial_propose writes WINDOW 0 0 y1) (\<lambda>(sofar, y2).
     rbind (trial_go (WINDOW - cnow (tr_cluster y2)) y2) (\<lambda>y3.
     rbind (trial_report sofar y3) (\<lambda>u. Inr (u, y3))))))"

section \<open>Any settings at all are safe\<close>

lemma trial_beat_moves_on:
  assumes inv: "cluster_inv c" and p: "p \<in> set (cmembers c)" and lead: "is_leader (nodes c p)"
  shows "\<exists>c' due'. trial_beat every p (c, due) = Inr (c', due') \<and> moves_on c c' \<and> cnow c' = cnow c"
proof (cases "due p \<le> cnow c")
  case False
  with inv show ?thesis by (simp add: trial_beat_def moves_on_def)
next
  case True
  from inv obtain s where ok: "cluster_ok (tight c) (cmembers c) {} c s"
    and down: "down c \<subseteq> set (cmembers c)"
    by (rule cluster_invE)
  have "role (nodes c p) = LEADER" using lead by (simp add: is_leader_def)
  from replicate_sim [OF cluster_okD(1) [OF ok] cluster_okD(2) [OF ok p] this p, of None]
  obtain out where out: "replicate_to (nodes c p) None = Inr out"
    "\<forall>m\<in>set out. msg_ok (tight c) (cmembers c) s m" by auto
  from out_moves_on [OF ok down out(2)] out(1) True show ?thesis
    by (auto simp: trial_beat_def)
qed

interpretation trial: beating "trial_beat every" for every
  by unfold_locales (rule trial_beat_moves_on)

definition trial_ok :: "name list \<Rightarrow> trial \<Rightarrow> bool" where
  "trial_ok ms y \<longleftrightarrow> cluster_inv (tr_cluster y) \<and> cmembers (tr_cluster y) = ms \<and>
     tr_leaderless y \<le> cnow (tr_cluster y) \<and> leaders_seen y \<subseteq> set ms \<and>
     (\<forall>p\<in>set ms. current_term (nodes (tr_cluster y) p) \<le> terms_seen y)"

lemma trial_tick_ok:
  assumes ok: "trial_ok ms y"
  shows "\<exists>y'. trial_tick y = Inr y' \<and> trial_ok ms y' \<and> tr_timings y' = tr_timings y \<and>
    cnow (tr_cluster y') = Suc (cnow (tr_cluster y))"
proof -
  have inv: "cluster_inv (tr_cluster y)" using ok by (simp add: trial_ok_def)
  from trial.timed_tick_moves_on [OF inv] obtain c t due where
    tick: "timed_tick (trial_reach (tr_timings y)) (trial_beat (heartbeat (tr_timings y)))
      (tr_cluster y, tr_timers y, beat_due y) = Inr (c, t, due)"
    and c: "moves_on (tr_cluster y) c" "cnow c = Suc (cnow (tr_cluster y))" by blast
  then have "cluster_inv c" "cmembers c = ms" using ok by (simp_all add: moves_on_def trial_ok_def)
  moreover from this have "name f \<in> set ms" if "cluster_leader c = Some f" for f
    using leader_name(1) [OF _ that] by (simp add: up_def)
  ultimately show ?thesis
    using ok c(2) tick by (auto simp: trial_tick_def trial_ok_def split: option.split)
qed

lemma trial_go_ok:
  "trial_ok ms y \<Longrightarrow> \<exists>y'. trial_go k y = Inr y' \<and> trial_ok ms y' \<and> tr_timings y' = tr_timings y \<and>
    cnow (tr_cluster y') = cnow (tr_cluster y) + k"
proof (induction k arbitrary: y)
  case (Suc k)
  from trial_tick_ok [OF Suc.prems] Suc.IH show ?case by fastforce
qed simp

lemma trial_settle_ok:
  "trial_ok ms y \<Longrightarrow> \<exists>y'. trial_settle k y = Inr y' \<and> trial_ok ms y' \<and> tr_timings y' = tr_timings y \<and>
    cnow (tr_cluster y') \<le> cnow (tr_cluster y) + k"
proof (induction k arbitrary: y)
  case (Suc k)
  from trial_tick_ok [OF Suc.prems] obtain y1 where y1: "trial_tick y = Inr y1" "trial_ok ms y1"
    "tr_timings y1 = tr_timings y" "cnow (tr_cluster y1) = Suc (cnow (tr_cluster y))" by blast
  show ?case
  proof (cases "cluster_leader (tr_cluster y1) \<noteq> None \<and> quiet (net (tr_cluster y1))")
    case True
    with y1 show ?thesis by simp
  next
    case False
    with y1 Suc.IH [OF y1(2)] show ?thesis by fastforce
  qed
qed simp

text \<open>Committing leaves the term alone, and so does a write.\<close>

lemma apply_committed_term:
  "apply_committed n = Inr (out, n') \<Longrightarrow> current_term n' = current_term n"
proof (induction n arbitrary: out n' rule: apply_committed.induct)
  case (1 n)
  define n1 where "n1 = n\<lparr>last_applied := last_applied n + 1\<rparr>"
  define took where "took e = n1\<lparr>applied := applied n1 @ [e],
    state := (if command e \<noteq> PNone then apply_command (state n1) (command e) else state n1)\<rparr>" for e
  have eq: "apply_committed n =
     (if last_applied n < commit_index n then
        if \<not> holds (log n1) (last_applied n1) then apply_committed n1
        else rbind (log_at (log n1) (last_applied n1)) (\<lambda>e.
             rbind (apply_committed (took e)) (\<lambda>(out, n''). Inr (e # out, n'')))
      else Inr ([], n))"
    unfolding n1_def took_def by (subst apply_committed.simps) (simp only: Let_def)
  have same: "current_term n1 = current_term n" "current_term (took e) = current_term n" for e
    by (simp_all add: n1_def took_def)
  note IH = "1.IH"(1) [OF _ n1_def, of out n'] "1.IH"(2) [OF _ n1_def, folded took_def]
  consider "\<not> last_applied n < commit_index n" | "last_applied n < commit_index n" "\<not> holds (log n1) (last_applied n1)"
    | "last_applied n < commit_index n" "holds (log n1) (last_applied n1)" by blast
  then show ?case
  proof cases
    case 1
    with "1.prems" eq show ?thesis by simp
  next
    case 2
    with "1.prems" eq IH(1) same show ?thesis by simp
  next
    case 3
    with "1.prems" eq obtain e rest where
      "log_at (log n1) (last_applied n1) = Inr e" "apply_committed (took e) = Inr (rest, n')"
      by (auto simp: raises)
    with 3 IH(2) same show ?thesis by simp
  qed
qed

lemma propose_term:
  assumes "propose n v = Inr (n', i)"
  shows "current_term n' = current_term n"
proof -
  have "current_term m' = current_term m" if "advance_commit m = Inr m'" for m m'
    using that by (auto simp: advance_commit_def Let_def raises apply_ready_def
        dest!: apply_committed_term split: if_splits option.splits)
  from assms show ?thesis
    unfolding propose_def Let_def
    by (auto simp: raises split: if_splits dest!: \<open>\<And>m' m. advance_commit m = Inr m' \<Longrightarrow> current_term m' = current_term m\<close>)
qed

lemma trial_write_ok:
  assumes ok: "trial_ok ms y"
  shows "\<exists>b y'. trial_write v y = Inr (b, y') \<and> trial_ok ms y' \<and> tr_timings y' = tr_timings y \<and>
    cnow (tr_cluster y') = cnow (tr_cluster y)"
proof (cases "cluster_leader (tr_cluster y)")
  case None
  with ok show ?thesis by (simp add: trial_write_def ex_bool_eq)
next
  case (Some f)
  have inv: "cluster_inv (tr_cluster y)" using ok by (simp add: trial_ok_def)
  note f = leader_name [OF inv Some]
  then have "name f \<in> set (cmembers (tr_cluster y))" "is_leader (nodes (tr_cluster y) (name f))"
    by (simp_all add: up_def is_leader_def)
  from propose_moves_on [OF inv this] obtain n i where
    n: "propose (nodes (tr_cluster y) (name f)) (PTuple [PStr ''set'', PStr ''k'', PInt (int v)]) = Inr (n, i)"
    "moves_on (tr_cluster y) (put_node (tr_cluster y) (name f) n)"
    "cnow (put_node (tr_cluster y) (name f) n) = cnow (tr_cluster y)" by blast
  have "current_term n = current_term (nodes (tr_cluster y) (name f))" by (rule propose_term [OF n(1)])
  then have "trial_ok ms (y\<lparr>tr_cluster := put_node (tr_cluster y) (name f) n\<rparr>)"
    using ok n(2,3) by (auto simp: trial_ok_def moves_on_def put_node_def)
  with Some n f(2) show ?thesis by (simp add: trial_write_def ex_bool_eq)
qed

lemma trial_propose_ok:
  assumes "trial_ok ms y"
  shows "\<exists>w y'. trial_propose wanted budget sofar spent y = Inr (w, y') \<and> trial_ok ms y' \<and>
    tr_timings y' = tr_timings y \<and> w \<le> max sofar wanted \<and>
    cnow (tr_cluster y') \<le> cnow (tr_cluster y) + (budget + 3 - spent)"
  using assms
proof (induction wanted budget sofar spent y rule: trial_propose.induct)
  case (1 wanted budget sofar spent y)
  note eq = trial_propose.simps [of wanted budget sofar spent y]
  show ?case
  proof (cases "sofar < wanted \<and> spent < budget")
    case False
    then have "trial_propose wanted budget sofar spent y = Inr (sofar, y)" unfolding eq by (rule if_not_P)
    with "1.prems" show ?thesis by simp
  next
    case True
    obtain b y1 where y1: "trial_write sofar y = Inr (b, y1)" "trial_ok ms y1"
      "tr_timings y1 = tr_timings y" "cnow (tr_cluster y1) = cnow (tr_cluster y)"
      using trial_write_ok [OF "1.prems"] by blast
    obtain y2 where y2: "trial_go 4 y1 = Inr y2" "trial_ok ms y2" "tr_timings y2 = tr_timings y1"
      "cnow (tr_cluster y2) = cnow (tr_cluster y1) + 4"
      using trial_go_ok [OF y1(2)] by blast
    let ?w = "if b then sofar + 1 else sofar"
    have step: "trial_propose wanted budget sofar spent y = trial_propose wanted budget ?w (spent + 4) y2"
      using True y1(1) y2(1) unfolding eq by simp
    from "1.IH" [OF True y1(1) refl y2(1,2)] obtain w y' where
      "trial_propose wanted budget ?w (spent + 4) y2 = Inr (w, y')" "trial_ok ms y'"
      "tr_timings y' = tr_timings y2" "w \<le> max ?w wanted"
      "cnow (tr_cluster y') \<le> cnow (tr_cluster y2) + (budget + 3 - (spent + 4))" by blast
    moreover from this(4) True have "w \<le> max sofar wanted" by (simp split: if_splits)
    moreover have "4 + (budget + 3 - (spent + 4)) \<le> budget + 3 - spent" using True by simp
    ultimately show ?thesis unfolding step using y1 y2 by (intro exI [of _ w] exI [of _ y']) simp
  qed
qed

lemma rmap_stops:
  "x \<in> set xs \<Longrightarrow> g x = Inl e \<Longrightarrow> (\<And>y e'. y \<in> set xs \<Longrightarrow> g y = Inl e' \<Longrightarrow> e' = e) \<Longrightarrow> rmap g xs = Inl e"
proof (induction xs)
  case (Cons y ys)
  show ?case
  proof (cases "g y")
    case (Inl e')
    with Cons.prems(3) [of y e'] show ?thesis by simp
  next
    case (Inr z)
    then have "x \<in> set ys" using Cons.prems(1,2) by auto
    from Cons.IH [OF this Cons.prems(2) Cons.prems(3) [OF list.set_intros(2)]] Inr show ?thesis by simp
  qed
qed simp

lemma trial_committed_ok:
  assumes inv: "cluster_inv (tr_cluster y)"
  shows "(\<exists>k. trial_committed y = Inr k) \<or> \<not> tight (tr_cluster y) \<and> trial_committed y = Inl NotFound"
proof (cases "cluster_leader (tr_cluster y)")
  case None
  then show ?thesis by (simp add: trial_committed_def)
next
  case (Some f)
  note f = leader_name [OF inv Some]
  from inv obtain s where ok: "cluster_ok (tight (tr_cluster y)) (cmembers (tr_cluster y)) {} (tr_cluster y) s"
    by (rule cluster_invE)
  have sim: "node_sim (tight (tr_cluster y)) (cmembers (tr_cluster y)) (name f) f s"
    using cluster_okD(2) [OF ok, of "name f"] f by (simp add: up_def)
  let ?es = "alog s (name f)"
  have log: "log f = plain ?es" "indexed ?es"
    using node_simD(6) [OF sim] inv_log(1) [OF cluster_okD(1) [OF ok]] by simp_all
  have read: "log_at (log f) i = (if i \<le> length ?es then Inr (?es ! (i - 1)) else Inl NotFound)" if "1 \<le> i" for i
    using log_at_plain [OF log(2) that] that log(2) unfolding log(1)
    by (cases "i \<le> length ?es") (simp_all add: log_at_def plain_log)
  show ?thesis
  proof (cases "commit_index f \<le> length ?es")
    case True
    have "\<exists>es. rmap (log_at (log f)) [1..<commit_index f + 1] = Inr es \<and> (\<forall>e\<in>set es. True)"
    proof (rule rmap_total)
      show "\<exists>e. log_at (log f) i = Inr e \<and> True" if "i \<in> set [1..<commit_index f + 1]" for i
      proof -
        have "1 \<le> i" "i \<le> length ?es" using that True by auto
        with read [of i] show ?thesis by simp
      qed
    qed
    then show ?thesis using Some by (auto simp: trial_committed_def)
  next
    case False
    then have "\<not> tight (tr_cluster y)" using sim by (auto simp: node_sim_def)
    moreover have "rmap (log_at (log f)) [1..<commit_index f + 1] = Inl NotFound"
    proof (rule rmap_stops)
      show "commit_index f \<in> set [1..<commit_index f + 1]" using False by simp
      show "log_at (log f) (commit_index f) = Inl NotFound" using read [of "commit_index f"] False by simp
      show "e = NotFound" if "i \<in> set [1..<commit_index f + 1]" "log_at (log f) i = Inl e" for i e
      proof -
        have "1 \<le> i" using that(1) by auto
        with read [of i] that(2) show ?thesis by (simp split: if_splits)
      qed
    qed
    ultimately show ?thesis using Some by (simp add: trial_committed_def)
  qed
qed

lemma first_trial_ok:
  assumes "1 \<le> k" "1 \<le> link_delay s"
  shows "\<exists>y. Trial net_seed node_seed trial_seed s k sd = Inr y \<and>
    trial_ok (map (\<lambda>i. CHR ''n'' # decimal i) [0..<k]) y \<and> tr_timings y = s \<and>
    cnow (tr_cluster y) = 0 \<and> tr_leaderless y = 0"
proof -
  define cs where "cs = \<lparr>loss = (0 :: int, 0 :: nat), min_delay = link_delay s, max_delay = link_delay s\<rparr>"
  have cs: "Conditions (0, 0) (link_delay s) (link_delay s) = Inr cs"
    using assms(2) by (simp add: Conditions_def cs_def)
  obtain c where c: "Cluster net_seed node_seed k sd (Some cs) False False = Inr c"
    "cmembers c = map (\<lambda>i. CHR ''n'' # decimal i) [0..<k]"
    using Cluster_total [OF assms(1)] by blast
  have inv: "cluster_inv c" by (rule cluster_inv_reach [OF cluster_reach.made [OF c(1)]])
  have "\<forall>p\<in>set (cmembers c). current_term (nodes c p) = 1 \<and> cnow c = 0"
  proof
    fix p assume p: "p \<in> set (cmembers c)"
    from Cluster_ok(1) [OF c(1)] p have "node_sim (tight c) (cmembers c) p (nodes c p) init_protocol"
      by (simp add: cluster_ok_def)
    moreover have "cnow c = 0" using c(1) by (auto simp: Cluster_def Let_def raises split: if_splits)
    ultimately show "current_term (nodes c p) = 1 \<and> cnow c = 0"
      by (simp add: node_simD(4) init_protocol_def)
  qed
  moreover have "cnow c = 0" using c(1) by (auto simp: Cluster_def Let_def raises split: if_splits)
  ultimately show ?thesis
    using assms(1) cs c inv by (auto simp: Trial_def trial_ok_def)
qed



end
