(* ===== verification/Fixed_Timeouts.thy ===== *)
theory Fixed_Timeouts
  imports Timing_Trials
begin

text \<open>
  What \<open>a_fixed_timeout_never_elects_anyone_at_all\<close> of \<open>src/rsm/timing.py\<close> measures at ten
  runs, proved of all of them: with one timeout for everybody, every member of a cluster of two or
  more stands at the same tick, votes for itself, refuses the others, and does it again.
\<close>

section \<open>A member with nobody to elect\<close>

definition deadlocked :: "name list \<Rightarrow> name \<Rightarrow> node \<Rightarrow> bool" where
  "deadlocked ms p n \<longleftrightarrow> name n = p \<and> members n = ms \<and> role n \<noteq> LEADER \<and> \<not> pre_vote n \<and>
     log n = empty_log \<and> 1 \<le> current_term n \<and>
     (current_term n = 1 \<or> role n = CANDIDATE \<and> voted_for n = Some p)"

definition powerless :: "name list \<Rightarrow> nat \<Rightarrow> message \<Rightarrow> bool" where
  "powerless ms T m \<longleftrightarrow> 2 \<le> m_term m \<and> m_term m \<le> T \<and> sender m \<noteq> recipient m \<and>
     sender m \<in> set ms \<and> recipient m \<in> set ms \<and>
     ((\<exists>li lt. body m = RequestVote li lt False) \<or> body m = Vote False False)"

lemma powerless_mono: "powerless ms T m \<Longrightarrow> T \<le> U \<Longrightarrow> powerless ms U m"
  by (auto simp: powerless_def)

lemma step_powerless:
  assumes n: "deadlocked ms p n" "current_term n = T" and m: "powerless ms T m" "recipient m = p"
  shows "\<exists>out. step n m = Inr (n, out) \<and> (\<forall>r\<in>set out. powerless ms T r)"
proof -
  have old: "m_term m < T \<or> m_term m = T" and two: "2 \<le> T" using m(1) by (auto simp: powerless_def)
  then have own: "voted_for n = Some p" using n by (auto simp: deadlocked_def)
  have answer: "reply n m (Vote False False) =
      Inr (n, [\<lparr>sender = p, recipient = sender m, m_term = T, body = Vote False False\<rparr>])"
    using n m two by (auto simp: reply_def Message_def deadlocked_def powerless_def)
  have safe: "powerless ms T \<lparr>sender = p, recipient = sender m, m_term = T, body = Vote False False\<rparr>"
    using m two by (auto simp: powerless_def)
  from m(1) consider li lt where "body m = RequestVote li lt False" | "body m = Vote False False"
    unfolding powerless_def by blast
  then show ?thesis
  proof cases
    case 1
    have "sender m \<noteq> p" using m by (auto simp: powerless_def)
    then have "on_request_vote n m li lt False = reply n m (Vote False False)"
      using own by (simp add: on_request_vote_def)
    with 1 old n(2) have "step n m = reply n m (Vote False False)"
      by (elim disjE) (simp_all add: step_def refuse_def dispatch_def)
    with answer safe show ?thesis by simp
  next
    case 2
    with old n(2) show ?thesis by (auto simp: step_def refuse_def dispatch_def on_vote_def)
  qed
qed

lemma stand_deadlocked:
  assumes n: "deadlocked ms p n" and two: "2 \<le> length ms" and p: "p \<in> set ms"
  shows "\<exists>n' out. stand n = Inr (n', out) \<and> deadlocked ms p n' \<and>
    current_term n' = Suc (current_term n) \<and> (\<forall>m\<in>set out. powerless ms (Suc (current_term n)) m)"
proof -
  define n' where "n' = reset_election_timer (n\<lparr>current_term := current_term n + 1, role := CANDIDATE,
    voted_for := Some (name n), leader := None, votes := {name n}, pre_votes := {}\<rparr>)"
  have n': "deadlocked ms p n'" "current_term n' = Suc (current_term n)" "name n' = p" "members n' = ms"
    using n by (simp_all add: n'_def deadlocked_def reset_election_timer_def Let_def split: prod.split)
  define ask where "ask q = \<lparr>sender = p, recipient = q, m_term = Suc (current_term n),
    body = RequestVote (last_index (log n')) (last_term (log n')) False\<rparr>" for q
  have "rmap (\<lambda>q. Message (name n') q (current_term n')
      (RequestVote (last_index (log n')) (last_term (log n')) False)) (peers n') = Inr (map ask (peers n'))"
    using n' by (intro rmap_Inr) (auto simp: Message_def ask_def peers_def)
  moreover have "length (members n') \<noteq> 1" "\<not> pre_vote n" using n n'(4) two by (auto simp: deadlocked_def)
  ultimately have "stand n = Inr (n', map ask (peers n'))"
    unfolding stand_def become_candidate_def Let_def n'_def [symmetric] by simp
  moreover have "powerless ms (Suc (current_term n)) (ask q)" if "q \<in> set (peers n')" for q
    using that n n' p by (auto simp: powerless_def ask_def peers_def deadlocked_def)
  ultimately show ?thesis using n' by auto
qed

section \<open>A cluster of them\<close>

definition stuck :: "name list \<Rightarrow> nat \<Rightarrow> cluster \<Rightarrow> bool" where
  "stuck ms T c \<longleftrightarrow> cmembers c = ms \<and> down c = {} \<and> on_net (net c) = ms \<and>
     (\<forall>f\<in>set (flight (net c)). powerless ms T (packet f)) \<and>
     (\<forall>p\<in>set ms. deadlocked ms p (nodes c p))"

definition clockwork :: "name list \<Rightarrow> nat \<Rightarrow> cluster \<Rightarrow> timers \<Rightarrow> bool" where
  "clockwork ms k c t \<longleftrightarrow> (\<forall>p\<in>set ms. deadline t p = current_term (nodes c p) * k \<and>
     last_seen t p = election_deadline (nodes c p))"

lemma up_stuck: "stuck ms T c \<Longrightarrow> up c = ms"
  by (simp add: stuck_def up_def)

lemma no_leader_stuck:
  assumes "stuck ms T c"
  shows "cluster_leader c = None"
proof -
  have "filter (\<lambda>n. role n = LEADER) (map (nodes c) (up c)) = []"
    using assms by (auto simp: up_stuck stuck_def deadlocked_def filter_empty_conv)
  then show ?thesis by (simp add: cluster_leader_def)
qed

lemma send_powerless:
  assumes c: "stuck ms T c" and out: "\<forall>m\<in>set out. powerless ms T m"
  shows "\<exists>c'. send_all c out = Inr c' \<and> stuck ms T c' \<and> nodes c' = nodes c \<and> cnow c' = cnow c"
  unfolding send_all_def
proof (rule rfold_total [where P = "\<lambda>c'. stuck ms T c' \<and> nodes c' = nodes c \<and> cnow c' = cnow c"])
  show "stuck ms T c \<and> nodes c = nodes c \<and> cnow c = cnow c" using c by simp
next
  fix m d
  assume m: "m \<in> set out" and "stuck ms T d \<and> nodes d = nodes c \<and> cnow d = cnow c"
  then have d: "stuck ms T d" "nodes d = nodes c" "cnow d = cnow c" by simp_all
  have pm: "powerless ms T m" using out m by blast
  then obtain ok w where w: "net_send (net d) m = Inr (ok, w)"
    using net_send_total [of m "net d"] d by (auto simp: powerless_def stuck_def)
  have "\<forall>f\<in>set (flight w). powerless ms T (packet f)"
    using net_send_packets [OF w] d pm by (auto simp: stuck_def)
  then have "stuck ms T (d\<lparr>net := w\<rparr>)"
    using d(1) net_send_keeps(1) [OF w] by (simp add: stuck_def)
  with w d show "\<exists>d'. send1 m d = Inr d' \<and> stuck ms T d' \<and> nodes d' = nodes c \<and> cnow d' = cnow c"
    by (simp add: send1_def stuck_def)
qed

lemma deliver_powerless:
  assumes c: "stuck ms T c" "\<forall>p\<in>set ms. current_term (nodes c p) = T" and m: "powerless ms T m"
  shows "\<exists>c'. deliver m c = Inr c' \<and> stuck ms T c' \<and> nodes c' = nodes c \<and> cnow c' = cnow c"
proof -
  let ?p = "recipient m"
  have p: "?p \<in> set ms" using m by (simp add: powerless_def)
  then have "deadlocked ms ?p (nodes c ?p)" "current_term (nodes c ?p) = T"
    using c by (simp_all add: stuck_def)
  from step_powerless [OF this m refl] obtain out where
    out: "step (nodes c ?p) m = Inr (nodes c ?p, out)" "\<forall>r\<in>set out. powerless ms T r" by blast
  have "put_node c ?p (nodes c ?p) = c" by (simp add: put_node_def)
  with send_powerless [OF c(1) out(2)] out(1) c(1) show ?thesis by (simp add: deliver_def stuck_def)
qed

lemma follow_clockwork:
  assumes "stuck ms T c" "clockwork ms k c t"
  shows "follow r c t = t"
proof -
  have "fold (\<lambda>p t. if election_deadline (nodes c p) \<noteq> last_seen t p then rearm r c p t else t) ps t = t"
    if "set ps \<subseteq> set ms" for ps
    using that assms(2) by (induction ps) (simp_all add: clockwork_def)
  then show ?thesis using assms(1) by (simp add: follow_def stuck_def)
qed

lemma rearm_fixed:
  "lowest r = k \<Longrightarrow> highest r = k \<Longrightarrow> beyond r = (\<lambda>p. 0) \<Longrightarrow>
   deadline (rearm r c p t) = (deadline t)(p := cnow c + k) \<and>
   last_seen (rearm r c p t) = (last_seen t)(p := election_deadline (nodes c p))"
  by (simp add: rearm_def randint_def)

text \<open>A member's turn takes it to the term the clock shows, and never further.\<close>

lemma timed_node_clockwork:
  assumes c: "stuck ms T c" and t: "clockwork ms k c t" and two: "2 \<le> length ms" and p: "p \<in> set ms"
    and T: "T = Suc (cnow c div k)" "1 \<le> k"
    and level: "current_term (nodes c p) = T \<or> Suc (current_term (nodes c p)) = T \<and> cnow c = current_term (nodes c p) * k"
    and r: "lowest r = k" "highest r = k" "beyond r = (\<lambda>p. 0)"
  shows "\<exists>c' t'. timed_node r beat p (c, t, x) = Inr (c', t', x) \<and> stuck ms T c' \<and> clockwork ms k c' t' \<and>
    cnow c' = cnow c \<and> current_term (nodes c' p) = T \<and>
    (\<forall>q. q \<noteq> p \<longrightarrow> nodes c' q = nodes c q)"
proof -
  let ?n = "(nodes c p)\<lparr>now := cnow c\<rparr>"
  define c1 where "c1 = put_node c p ?n"
  have dn: "deadlocked ms p (nodes c p)" using c p by (simp add: stuck_def)
  then have n: "deadlocked ms p ?n" "\<not> is_leader ?n" by (auto simp: deadlocked_def is_leader_def)
  have c1: "stuck ms T c1" "nodes c1 p = ?n" "cnow c1 = cnow c" "clockwork ms k c1 t"
    using c n(1) t p by (auto simp: c1_def put_node_def stuck_def clockwork_def)
  have due: "deadline t p = current_term (nodes c p) * k" using t p by (simp add: clockwork_def)
  have eq: "timed_node r beat p (c, t, x) = (if deadline t p \<le> cnow c
      then rbind (act p (stand ?n) c1) (\<lambda>c2. Inr (c2, rearm r c2 p t, x)) else Inr (c1, t, x))"
    using n(2) c1 by (simp add: timed_node_def Let_def c1_def)
  show ?thesis
  proof (cases "current_term (nodes c p) = T")
    case True
    have "cnow c < T * k" using T(2) unfolding T(1) by (simp add: dividend_less_div_times)
    then have "timed_node r beat p (c, t, x) = Inr (c1, t, x)" unfolding eq due using True by simp
    moreover have "\<forall>q. q \<noteq> p \<longrightarrow> nodes c1 q = nodes c q" by (simp add: c1_def put_node_def)
    ultimately show ?thesis using c1 True by simp
  next
    case False
    with level have lower: "cnow c = current_term (nodes c p) * k" "T = Suc (current_term ?n)"
      by auto
    then have passed: "deadline t p \<le> cnow c" unfolding due by simp
    from stand_deadlocked [OF n(1) two p] lower(2) obtain n' out where
      n': "stand ?n = Inr (n', out)" "deadlocked ms p n'" "current_term n' = T"
      "\<forall>m\<in>set out. powerless ms T m" by auto
    have "stuck ms T (put_node c1 p n')"
      using c1(1) n'(2) by (simp add: stuck_def put_node_def)
    from send_powerless [OF this n'(4)] obtain c2 where
      c2: "send_all (put_node c1 p n') out = Inr c2" "stuck ms T c2" "nodes c2 = nodes (put_node c1 p n')"
      "cnow c2 = cnow (put_node c1 p n')" by blast
    have same: "nodes c2 p = n'" "\<forall>q. q \<noteq> p \<longrightarrow> nodes c2 q = nodes c q" "cnow c2 = cnow c"
      using c2(3,4) c1(3) by (simp_all add: put_node_def c1_def)
    have "timed_node r beat p (c, t, x) = Inr (c2, rearm r c2 p t, x)"
      using eq passed n'(1) c2(1) by (simp add: act_def)
    moreover have "cnow c2 + k = current_term n' * k" using same(3) n'(3) lower by simp
    then have "clockwork ms k c2 (rearm r c2 p t)"
      using rearm_fixed [OF r, of c2 p t] t same(1,2) by (simp add: clockwork_def)
    ultimately show ?thesis using c2(2) same n'(3) by simp
  qed
qed

lemma timed_nodes_clockwork:
  assumes "stuck ms T c" "clockwork ms k c t" "2 \<le> length ms" "set ps \<subseteq> set ms"
    "T = Suc (cnow c div k)" "1 \<le> k"
    "\<forall>p\<in>set ms. current_term (nodes c p) = T \<or>
       Suc (current_term (nodes c p)) = T \<and> cnow c = current_term (nodes c p) * k"
    "lowest r = k" "highest r = k" "beyond r = (\<lambda>p. 0)"
  shows "\<exists>c' t'. rfold (timed_node r beat) ps (c, t, x) = Inr (c', t', x) \<and> stuck ms T c' \<and>
    clockwork ms k c' t' \<and> cnow c' = cnow c \<and> (\<forall>p\<in>set ps. current_term (nodes c' p) = T) \<and>
    (\<forall>p. current_term (nodes c p) = T \<longrightarrow> current_term (nodes c' p) = T)"
  using assms
proof (induction ps arbitrary: c t)
  case (Cons p ps)
  have p: "p \<in> set ms" using Cons.prems(4) by simp
  from timed_node_clockwork [OF Cons.prems(1-3) p Cons.prems(5,6) bspec [OF Cons.prems(7) p] Cons.prems(8-10),
      of beat x]
  obtain c1 t1 where c1: "timed_node r beat p (c, t, x) = Inr (c1, t1, x)" "stuck ms T c1"
    "clockwork ms k c1 t1" "cnow c1 = cnow c" "current_term (nodes c1 p) = T"
    "\<forall>q. q \<noteq> p \<longrightarrow> nodes c1 q = nodes c q" by blast
  have level: "\<forall>q\<in>set ms. current_term (nodes c1 q) = T \<or>
      Suc (current_term (nodes c1 q)) = T \<and> cnow c1 = current_term (nodes c1 q) * k"
  proof
    fix q assume "q \<in> set ms"
    then show "current_term (nodes c1 q) = T \<or>
      Suc (current_term (nodes c1 q)) = T \<and> cnow c1 = current_term (nodes c1 q) * k"
      using Cons.prems(7) c1(4-6) by (cases "q = p") simp_all
  qed
  have kept: "current_term (nodes c1 q) = T" if "current_term (nodes c q) = T" for q
    using that c1(5,6) by (cases "q = p") simp_all
  have "set ps \<subseteq> set ms" "T = Suc (cnow c1 div k)" using Cons.prems(4,5) c1(4) by simp_all
  from Cons.IH [OF c1(2,3) Cons.prems(3) this Cons.prems(6) level Cons.prems(8-10)]
  obtain c' t' where
    c': "rfold (timed_node r beat) ps (c1, t1, x) = Inr (c', t', x)" "stuck ms T c'" "clockwork ms k c' t'"
    "cnow c' = cnow c1" "\<forall>p\<in>set ps. current_term (nodes c' p) = T"
    "\<forall>p. current_term (nodes c1 p) = T \<longrightarrow> current_term (nodes c' p) = T" by blast
  have "rfold (timed_node r beat) (p # ps) (c, t, x) = Inr (c', t', x)" using c1(1) c'(1) by simp
  moreover have "\<forall>q\<in>set (p # ps). current_term (nodes c' q) = T" using c'(5,6) c1(5) by simp
  moreover have "\<forall>q. current_term (nodes c q) = T \<longrightarrow> current_term (nodes c' q) = T"
    using c'(6) kept by blast
  ultimately show ?case using c'(2-4) c1(4) by (intro exI [of _ c'] exI [of _ t'] conjI) simp_all
qed simp

definition in_step :: "name list \<Rightarrow> nat \<Rightarrow> cluster \<Rightarrow> timers \<Rightarrow> bool" where
  "in_step ms k c t \<longleftrightarrow> stuck ms (Suc (cnow c div k)) c \<and> clockwork ms k c t \<and>
     (\<forall>p\<in>set ms. current_term (nodes c p) = Suc (cnow c div k))"

lemma next_term:
  assumes "1 \<le> k"
  shows "Suc (Suc m div k) = Suc (m div k) \<or>
    Suc (Suc m div k) = Suc (Suc (m div k)) \<and> Suc m = Suc (m div k) * k"
proof -
  have m: "m div k * k + m mod k = m" and lt: "m mod k < k" using assms by simp_all
  show ?thesis
  proof (cases "Suc (m mod k) = k")
    case True
    have "Suc m = m div k * k + Suc (m mod k)" using m by linarith
    then have e: "Suc m = Suc (m div k) * k" unfolding True by (simp add: add.commute)
    then have "Suc m div k = Suc (m div k)" using assms by (metis nonzero_mult_div_cancel_right not_one_le_zero)
    with e show ?thesis by simp
  next
    case False
    then have "Suc m div k = m div k" using assms by (simp add: div_Suc mod_Suc)
    then show ?thesis by simp
  qed
qed

lemma timed_tick_in_step:
  assumes st: "in_step ms k c t" and two: "2 \<le> length ms" and k: "1 \<le> k"
    and r: "lowest r = k" "highest r = k" "beyond r = (\<lambda>p. 0)"
  shows "\<exists>c' t'. timed_tick r beat (c, t, x) = Inr (c', t', x) \<and> in_step ms k c' t' \<and>
    cnow c' = Suc (cnow c)"
proof -
  let ?T = "Suc (cnow c div k)" and ?U = "Suc (Suc (cnow c) div k)"
  note st' = st [unfolded in_step_def]
  obtain landed w where w: "net_tick (net c) = (landed, w)" by fastforce
  note kept = net_tick_keeps [OF w]
  define c1 where "c1 = c\<lparr>cnow := cnow c + 1, net := w\<rparr>"
  have c1: "stuck ms ?T c1" "nodes c1 = nodes c" "cnow c1 = Suc (cnow c)"
    using st' kept(1,7) by (auto simp: c1_def stuck_def)
  have landed: "\<forall>m\<in>set landed. powerless ms ?T m" using st' kept(8) by (auto simp: stuck_def)
  have "\<exists>d. rfold deliver landed c1 = Inr d \<and> (stuck ms ?T d \<and> nodes d = nodes c1 \<and> cnow d = cnow c1)"
  proof (rule rfold_total)
    show "stuck ms ?T c1 \<and> nodes c1 = nodes c1 \<and> cnow c1 = cnow c1" using c1(1) by simp
    show "\<exists>d'. deliver m d = Inr d' \<and> stuck ms ?T d' \<and> nodes d' = nodes c1 \<and> cnow d' = cnow c1"
      if "m \<in> set landed" "stuck ms ?T d \<and> nodes d = nodes c1 \<and> cnow d = cnow c1" for m d
      using deliver_powerless [of ms ?T d m] that landed st' c1(2) by simp
  qed
  then obtain c2 where c2: "rfold deliver landed c1 = Inr c2" "stuck ms ?T c2" "nodes c2 = nodes c"
    "cnow c2 = Suc (cnow c)" using c1(2,3) by auto
  have le: "?T \<le> ?U" by (simp add: div_le_mono)
  then have c2U: "stuck ms ?U c2" using c2(2) powerless_mono by (auto simp: stuck_def)
  have tc2: "clockwork ms k c2 t" using st' c2(3) by (simp add: clockwork_def)
  have level: "\<forall>p\<in>set ms. current_term (nodes c2 p) = ?U \<or>
       Suc (current_term (nodes c2 p)) = ?U \<and> cnow c2 = current_term (nodes c2 p) * k"
    using next_term [OF k, of "cnow c"] st' c2(3,4) by auto
  have "set ms \<subseteq> set ms" "?U = Suc (cnow c2 div k)" using c2(4) by simp_all
  from timed_nodes_clockwork [OF c2U tc2 two this k level r, of beat x] obtain c3 t3 where
    c3: "rfold (timed_node r beat) ms (c2, t, x) = Inr (c3, t3, x)" "stuck ms ?U c3" "clockwork ms k c3 t3"
    "cnow c3 = cnow c2" "\<forall>p\<in>set ms. current_term (nodes c3 p) = ?U" by blast
  have "timed_tick r beat (c, t, x) = Inr (c3, follow r c3 t3, x)"
    unfolding timed_tick_def prod.case w Let_def c1_def [symmetric] c2(1) rbind.simps
      follow_clockwork [OF c2U tc2] up_stuck [OF c2U] c3(1) ..
  moreover have "follow r c3 t3 = t3" by (rule follow_clockwork [OF c3(2,3)])
  moreover have "in_step ms k c3 t3" using c3 c2(4) by (simp add: in_step_def)
  ultimately show ?thesis using c3(4) c2(4) by simp
qed

section \<open>A trial of one timeout\<close>

definition fruitless :: "name list \<Rightarrow> nat \<Rightarrow> trial \<Rightarrow> bool" where
  "fruitless ms k y \<longleftrightarrow> in_step ms k (tr_cluster y) (tr_timers y) \<and>
     min_timeout (tr_timings y) = k \<and> max_timeout (tr_timings y) = k \<and>
     leaders_seen y = {} \<and> tr_leaderless y = cnow (tr_cluster y) \<and>
     terms_seen y = Suc (cnow (tr_cluster y) div k)"

lemma trial_tick_fruitless:
  assumes y: "fruitless ms k y" and two: "2 \<le> length ms" and k: "1 \<le> k"
  shows "\<exists>y'. trial_tick y = Inr y' \<and> fruitless ms k y' \<and> tr_timings y' = tr_timings y \<and>
    cnow (tr_cluster y') = Suc (cnow (tr_cluster y)) \<and> cluster_leader (tr_cluster y') = None"
proof -
  let ?r = "trial_reach (tr_timings y)"
  have r: "lowest ?r = k" "highest ?r = k" "beyond ?r = (\<lambda>p. 0)"
    using y by (simp_all add: trial_reach_def fruitless_def)
  have "in_step ms k (tr_cluster y) (tr_timers y)" using y by (simp add: fruitless_def)
  from timed_tick_in_step [OF this two k r, of "trial_beat (heartbeat (tr_timings y))" "beat_due y"] obtain c t where
    c: "timed_tick ?r (trial_beat (heartbeat (tr_timings y))) (tr_cluster y, tr_timers y, beat_due y) =
      Inr (c, t, beat_due y)" "in_step ms k c t" "cnow c = Suc (cnow (tr_cluster y))" by blast
  have none: "cluster_leader c = None" using c(2) no_leader_stuck by (auto simp: in_step_def)
  have "set ms \<noteq> {}" using two by auto
  then have "(\<lambda>p. current_term (nodes c p)) ` set ms = {Suc (cnow c div k)}"
    using c(2) by (simp add: in_step_def image_constant_conv cong: image_cong)
  moreover have "cmembers c = ms" using c(2) by (simp add: in_step_def stuck_def)
  moreover have "cnow (tr_cluster y) div k \<le> cnow c div k" using c(3) by (simp add: div_le_mono)
  ultimately show ?thesis using y c none
    by (simp add: trial_tick_def fruitless_def max_def)
qed

lemma trial_go_fruitless:
  assumes two: "2 \<le> length ms" and k: "1 \<le> k"
  shows "fruitless ms k y \<Longrightarrow> \<exists>y'. trial_go j y = Inr y' \<and> fruitless ms k y' \<and> tr_timings y' = tr_timings y \<and>
    cnow (tr_cluster y') = cnow (tr_cluster y) + j"
proof (induction j arbitrary: y)
  case (Suc j)
  from trial_tick_fruitless [OF Suc.prems two k] Suc.IH show ?case by fastforce
qed simp

lemma trial_settle_fruitless:
  assumes two: "2 \<le> length ms" and k: "1 \<le> k"
  shows "fruitless ms k y \<Longrightarrow> \<exists>y'. trial_settle j y = Inr y' \<and> fruitless ms k y' \<and> tr_timings y' = tr_timings y \<and>
    cnow (tr_cluster y') = cnow (tr_cluster y) + j"
proof (induction j arbitrary: y)
  case (Suc j)
  from trial_tick_fruitless [OF Suc.prems two k] Suc.IH show ?case by fastforce
qed simp

lemma none_leads: "fruitless ms k y \<Longrightarrow> cluster_leader (tr_cluster y) = None"
  using no_leader_stuck by (auto simp: fruitless_def in_step_def)

lemma trial_propose_fruitless:
  assumes two: "2 \<le> length ms" and k: "1 \<le> k" and w: "0 < wanted"
  shows "fruitless ms k y \<Longrightarrow> \<exists>y'. trial_propose wanted (4 * j + spent) 0 spent y = Inr (0, y') \<and>
    fruitless ms k y' \<and> tr_timings y' = tr_timings y \<and> cnow (tr_cluster y') = cnow (tr_cluster y) + 4 * j"
proof (induction j arbitrary: y spent)
  case 0
  then show ?case by (subst trial_propose.simps) simp
next
  case (Suc j)
  from trial_go_fruitless [OF two k Suc.prems, of 4] obtain y1 where
    y1: "trial_go 4 y = Inr y1" "fruitless ms k y1" "tr_timings y1 = tr_timings y"
    "cnow (tr_cluster y1) = cnow (tr_cluster y) + 4" by blast
  have "trial_propose wanted (4 * Suc j + spent) 0 spent y =
      trial_propose wanted (4 * j + (spent + 4)) 0 (spent + 4) y1"
    using w y1(1) none_leads [OF Suc.prems]
    by (subst trial_propose.simps) (simp add: trial_write_def algebra_simps)
  moreover have "cnow (tr_cluster y) + 4 + 4 * j = cnow (tr_cluster y) + 4 * Suc j" by simp
  ultimately show ?case using Suc.IH [OF y1(2), of "spent + 4"] y1(3,4) by metis
qed


lemma Node_deadlocked:
  "Node p ms g False False = Inr n \<Longrightarrow> deadlocked ms p n \<and> current_term n = 1"
  by (auto simp: Node_def deadlocked_def reset_election_timer_def Let_def split: if_splits prod.splits)

lemma first_fruitless:
  assumes s: "min_timeout s = k" "max_timeout s = k" "1 \<le> link_delay s" and z: "1 \<le> z"
  shows "\<exists>y. Trial net_seed node_seed trial_seed s z sd = Inr y \<and> tr_timings y = s \<and>
    cnow (tr_cluster y) = 0 \<and> fruitless (map (\<lambda>i. CHR ''n'' # decimal i) [0..<z]) k y"
proof -
  let ?ms = "map (\<lambda>i. CHR ''n'' # decimal i) [0..<z]"
  define cs where "cs = \<lparr>loss = (0 :: int, 0 :: nat), min_delay = link_delay s, max_delay = link_delay s\<rparr>"
  have cs: "Conditions (0, 0) (link_delay s) (link_delay s) = Inr cs"
    using s(3) by (simp add: Conditions_def cs_def)
  obtain c where c: "Cluster net_seed node_seed z sd (Some cs) False False = Inr c" "cmembers c = ?ms"
    using Cluster_total [OF z] by blast
  from c(1) obtain w ns where w: "Network ?ms (net_seed sd) (Some cs) = Inr w"
    and ns: "rmap (\<lambda>p. Node p ?ms (node_seed sd p) False False) ?ms = Inr ns"
    and eq: "c = \<lparr>cmembers = ?ms, seed = sd, cpre_vote = False, net = w,
             nodes = (\<lambda>p. the (map_of (zip ?ms ns) p)), cnow = 0, down = {}, check = False,
             history = [], elections = 0, last_leader = None\<rparr>"
    unfolding Cluster_def by (auto simp: raises Let_def split: if_splits)
  have node: "deadlocked ?ms p (nodes c p) \<and> current_term (nodes c p) = 1" if "p \<in> set ?ms" for p
  proof -
    have "Node p ?ms (node_seed sd p) False False = Inr (nodes c p)"
      using rmap_map_of [OF ns cluster_names_distinct that] eq by simp
    then show ?thesis by (rule Node_deadlocked)
  qed
  have "on_net w = ?ms" "flight w = []" using w by (auto simp: Network_def split: if_splits)
  with node have st: "stuck ?ms 1 c" by (simp add: stuck_def eq)
  let ?r = "trial_reach s"
  have r: "lowest ?r = k" "highest ?r = k" "beyond ?r = (\<lambda>p. 0)" using s by (simp_all add: trial_reach_def)
  have drawn: "\<forall>p. (p \<in> set ps \<or> deadline t p = k \<and> last_seen t p = election_deadline (nodes c p)) \<longrightarrow>
      deadline (fold (rearm ?r c) ps t) p = k \<and>
      last_seen (fold (rearm ?r c) ps t) p = election_deadline (nodes c p)" for ps t
  proof (induction ps arbitrary: t)
    case (Cons q ps)
    have "cnow c = 0" by (simp add: eq)
    with rearm_fixed [OF r, of c q t] show ?case
      using Cons.IH [of "rearm ?r c q t"] by auto
  qed simp
  have "clockwork ?ms k c (first_timers ?r c (trial_seed sd (tm_name s)))"
    using drawn node unfolding first_timers_def c(2) clockwork_def by simp
  then have "in_step ?ms k c (first_timers ?r c (trial_seed sd (tm_name s)))"
    using st node by (simp add: in_step_def eq)
  with cs c z s show ?thesis by (auto simp: Trial_def fruitless_def eq)
qed

text \<open>
  C35. With one timeout for every member and two members or more, no trial ever elects anybody, at
  any seed, heartbeat or delay: the run has no leader at any tick, writes and commits nothing, leaves
  every log empty, and every member is in the same term, one more than the number of timeouts that
  fitted in the run. A run asked to write lasts 800 ticks and not the window's 600, because waiting
  for a leader costs the whole budget.
\<close>

theorem fixed_timeouts_never_elect:
  assumes s: "Timings nm hb k k d = Inr s" and z: "2 \<le> z"
  shows "\<exists>u y. trial_run net_seed node_seed trial_seed s z sd writes = Inr (u, y) \<and>
    rn_leaders u = 0 \<and> rn_leaderless u = rn_ticks u \<and> rn_proposed u = 0 \<and> rn_committed u = 0 \<and>
    \<not> timing_run_good u \<and> rn_ticks u = (if writes = 0 then WINDOW else 200 + WINDOW) \<and>
    rn_terms u = rn_ticks u div k + 1 \<and>
    (\<forall>p\<in>set (cmembers (tr_cluster y)). current_term (nodes (tr_cluster y) p) = rn_terms u \<and>
       role (nodes (tr_cluster y) p) \<noteq> LEADER \<and> entries (log (nodes (tr_cluster y) p)) = [])"
proof -
  let ?ms = "map (\<lambda>i. CHR ''n'' # decimal i) [0..<z]"
  have k: "min_timeout s = k" "max_timeout s = k" "1 \<le> link_delay s" "1 \<le> k"
    using s by (auto simp: Timings_def split: if_splits)
  have two: "2 \<le> length ?ms" "1 \<le> z" using z by simp_all
  from first_fruitless [OF k(1-3) two(2)] obtain y0 where y0:
    "Trial net_seed node_seed trial_seed s z sd = Inr y0" "tr_timings y0 = s" "cnow (tr_cluster y0) = 0"
    "fruitless ?ms k y0" by blast
  from trial_settle_fruitless [OF two(1) k(4) y0(4), of 200] obtain y1 where
    y1: "trial_settle 200 y0 = Inr y1" "fruitless ?ms k y1" "cnow (tr_cluster y1) = 200"
    using y0(3) by auto
  have "\<exists>y2. trial_propose writes WINDOW 0 0 y1 = Inr (0, y2) \<and> fruitless ?ms k y2 \<and>
    cnow (tr_cluster y2) = (if writes = 0 then 200 else 200 + WINDOW)"
  proof (cases "writes = 0")
    case True
    then have "trial_propose writes WINDOW 0 0 y1 = Inr (0, y1)" by (subst trial_propose.simps) simp
    with True y1 show ?thesis by simp
  next
    case False
    then have "0 < writes" by simp
    from trial_propose_fruitless [OF two(1) k(4) this y1(2), of 150 0] False y1(3) show ?thesis
      by (auto simp: WINDOW_def)
  qed
  then obtain y2 where y2: "trial_propose writes WINDOW 0 0 y1 = Inr (0, y2)" "fruitless ?ms k y2"
    "cnow (tr_cluster y2) = (if writes = 0 then 200 else 200 + WINDOW)" by blast
  from trial_go_fruitless [OF two(1) k(4) y2(2), of "WINDOW - cnow (tr_cluster y2)"] y2(3) obtain y3 where
    y3: "trial_go (WINDOW - cnow (tr_cluster y2)) y2 = Inr y3" "fruitless ?ms k y3"
    "cnow (tr_cluster y3) = (if writes = 0 then WINDOW else 200 + WINDOW)"
    by (auto simp: WINDOW_def split: if_splits)
  have none: "trial_committed y3 = Inr 0" using none_leads [OF y3(2)] by (simp add: trial_committed_def)
  define u where "u = \<lparr>rn_timings = tr_timings y3, rn_leaders = card (leaders_seen y3),
       rn_terms = terms_seen y3, rn_committed = 0, rn_proposed = 0,
       rn_messages = n_sent (counts (net (tr_cluster y3))), rn_leaderless = tr_leaderless y3,
       rn_ticks = cnow (tr_cluster y3)\<rparr>"
  have run: "trial_run net_seed node_seed trial_seed s z sd writes = Inr (u, y3)"
    by (simp add: trial_run_def y0(1) y1(1) y2(1) y3(1) trial_report_def none u_def)
  have counts: "rn_leaders u = 0" "rn_leaderless u = rn_ticks u" "rn_proposed u = 0" "rn_committed u = 0"
    "\<not> timing_run_good u" "rn_ticks u = (if writes = 0 then WINDOW else 200 + WINDOW)"
    "rn_terms u = rn_ticks u div k + 1"
    using y3(2,3) by (simp_all add: u_def fruitless_def timing_run_good_def stable_def)
  have "\<forall>p\<in>set (cmembers (tr_cluster y3)). current_term (nodes (tr_cluster y3) p) = rn_terms u \<and>
       role (nodes (tr_cluster y3) p) \<noteq> LEADER \<and> entries (log (nodes (tr_cluster y3) p)) = []"
    using y3(2) by (simp add: u_def fruitless_def in_step_def stuck_def deadlocked_def empty_log_def)
  with run counts show ?thesis by blast
qed

text \<open>The shipped benchmark: fifty four terms, in eight hundred ticks.\<close>

theorem fixed_timeouts_never_elect_witness:
  "\<exists>u y. trial_run (\<lambda>_ _. 0) (\<lambda>_ _ _. 0) (\<lambda>_ _ _. 0) fixed_timings 5 0 10 = Inr (u, y) \<and>
     rn_leaders u = 0 \<and> rn_terms u = 54 \<and> rn_ticks u = 800 \<and> rn_leaderless u = 800"
proof -
  have "Timings ''fixed'' 3 15 15 1 = Inr fixed_timings" by (simp add: Timings_def fixed_timings_def)
  from fixed_timeouts_never_elect [OF this, of 5 "\<lambda>_ _. 0" "\<lambda>_ _ _. 0" "\<lambda>_ _ _. 0" 0 10]
  show ?thesis by (auto simp: WINDOW_def)
qed

end
