(* ===== verification/Priority_Runs.thy ===== *)
theory Priority_Runs
  imports Outside_Timers
begin

text \<open>
  \<open>src/rsm/priority.py\<close>: preferring one node as leader by making the others wait longer before
  they stand, and a run that watches who leads while the preferred node comes and goes. The shares of
  an outcome are left as the counts they divide. Reclaiming the office calls the transfer of
  \<open>src/rsm/transfer.py\<close> and swallows whatever it raises, with the cluster as the exception left
  it; it is not modelled, and a run is one that was not asked to reclaim.
\<close>

section \<open>A preference\<close>

definition STEP :: nat where "STEP = 6"
definition PRIORITY_WINDOW :: nat where "PRIORITY_WINDOW = 600"
definition WRITE_EVERY :: nat where "WRITE_EVERY = 20"

record priorities =
  preference :: "name list"
  pstep :: nat

definition Priorities :: "name list \<Rightarrow> int \<Rightarrow> priorities result" where
  "Priorities ps st =
     (if ps = [] then Inl ConfigError
      else if \<not> distinct ps then Inl ConfigError
      else if st < 0 then Inl ConfigError
      else Inr \<lparr>preference = ps, pstep = nat st\<rparr>)"

fun position :: "'a list \<Rightarrow> 'a \<Rightarrow> nat" where
  "position [] p = 0"
| "position (q # qs) p = (if q = p then 0 else Suc (position qs p))"

definition priority_delay :: "priorities \<Rightarrow> name \<Rightarrow> nat" where
  "priority_delay s p =
     (if p \<in> set (preference s) then position (preference s) p * pstep s
      else length (preference s) * pstep s)"

definition preferred :: "priorities \<Rightarrow> name" where
  "preferred s = hd (preference s)"

definition flat :: "priorities \<Rightarrow> bool" where
  "flat s \<longleftrightarrow> pstep s = 0"

record outcome_counts =
  oc_name :: string
  oc_leaders :: "name list"
  oc_preferred :: name
  oc_preferred_ticks :: nat
  oc_ticks :: nat
  oc_elections :: nat
  oc_committed :: nat
  oc_attempted :: nat
  oc_messages :: nat

definition distinct_leaders :: "outcome_counts \<Rightarrow> nat" where
  "distinct_leaders u = card (set (oc_leaders u))"

section \<open>A run\<close>

record disruption =
  dr_crash :: name
  dr_crash_at :: int
  dr_restart_at :: int
  dr_flap_every :: nat
  dr_flap_for :: nat

definition priority_reach :: "priorities \<Rightarrow> reach" where
  "priority_reach s =
     \<lparr>lowest = MIN_ELECTION_TIMEOUT, highest = MAX_ELECTION_TIMEOUT, beyond = priority_delay s\<rparr>"

definition Priority_Run ::
  "(int \<Rightarrow> draws) \<Rightarrow> (int \<Rightarrow> name \<Rightarrow> draws) \<Rightarrow> (int \<Rightarrow> draws) \<Rightarrow> priorities \<Rightarrow> nat \<Rightarrow> int \<Rightarrow>
   (cluster \<times> timers) result" where
  "Priority_Run net_seed node_seed priority_seed s k sd =
     (if k < 1 then Inl ConfigError
      else rbind (Cluster net_seed node_seed k sd None False False) (\<lambda>c.
           Inr (c, first_timers (priority_reach s) c (priority_seed sd))))"

definition node_beat :: "unit beat" where
  "node_beat p = (\<lambda>(c, x). rbind (act p (tick (nodes c p) (cnow c)) c) (\<lambda>c'. Inr (c', x)))"

definition priority_tick :: "priorities \<Rightarrow> cluster \<times> timers \<Rightarrow> (cluster \<times> timers) result" where
  "priority_tick s = (\<lambda>(c, t).
     rbind (timed_tick (priority_reach s) node_beat (c, t, ())) (\<lambda>(c', t', x). Inr (c', t')))"

definition flap ::
  "(int \<Rightarrow> name \<Rightarrow> draws) \<Rightarrow> priorities \<Rightarrow> disruption \<Rightarrow> nat \<Rightarrow> cluster \<Rightarrow> cluster result" where
  "flap node_seed s d i c =
     (let want = preferred s; phase = i mod dr_flap_every d in
      if phase = 0 \<and> want \<notin> down c then crash c want
      else if phase = dr_flap_for d \<and> want \<in> down c then restart node_seed c want
      else Inr c)"

definition disrupt ::
  "(int \<Rightarrow> name \<Rightarrow> draws) \<Rightarrow> priorities \<Rightarrow> disruption \<Rightarrow> nat \<Rightarrow> cluster \<Rightarrow> cluster result" where
  "disrupt node_seed s d i c =
     rbind (if int i = dr_crash_at d \<and> dr_crash d \<noteq> []
            then (case crash c (dr_crash d) of Inl KeyError \<Rightarrow> Inr c | r \<Rightarrow> r) else Inr c) (\<lambda>c1.
     rbind (if int i = dr_restart_at d \<and> dr_crash d \<in> down c1
            then restart node_seed c1 (dr_crash d) else Inr c1) (\<lambda>c2.
     if dr_flap_every d \<noteq> 0 \<and> i > 60 then flap node_seed s d i c2 else Inr c2))"

definition attempt_write :: "nat \<Rightarrow> cluster \<Rightarrow> cluster result" where
  "attempt_write i c =
     (case cluster_propose c (PTuple [PStr ''set'', PStr ''k'', PInt (int i)]) of
        Inr (j, c') \<Rightarrow> Inr c'
      | Inl NoLeader \<Rightarrow> Inr c
      | Inl e \<Rightarrow> Inl e)"

definition note_leader_of :: "priorities \<Rightarrow> cluster \<Rightarrow> outcome_counts \<Rightarrow> outcome_counts" where
  "note_leader_of s c u =
     (case cluster_leader c of
        None \<Rightarrow> u
      | Some f \<Rightarrow>
          let u1 = (if name f = preferred s
                    then u\<lparr>oc_preferred_ticks := oc_preferred_ticks u + 1\<rparr> else u)
          in if oc_leaders u1 = [] then u1\<lparr>oc_leaders := [name f]\<rparr>
             else if name f \<noteq> last (oc_leaders u1)
             then u1\<lparr>oc_leaders := oc_leaders u1 @ [name f], oc_elections := oc_elections u1 + 1\<rparr>
             else u1)"

definition priority_turn ::
  "(int \<Rightarrow> name \<Rightarrow> draws) \<Rightarrow> priorities \<Rightarrow> disruption \<Rightarrow> nat \<Rightarrow>
   cluster \<times> timers \<times> outcome_counts \<Rightarrow> (cluster \<times> timers \<times> outcome_counts) result" where
  "priority_turn node_seed s d i = (\<lambda>(c, t, u).
     rbind (disrupt node_seed s d i c) (\<lambda>c1.
     rbind (if i mod WRITE_EVERY = 0 then attempt_write i c1 else Inr c1) (\<lambda>c2.
     rbind (priority_tick s (c2, t)) (\<lambda>(c3, t').
     Inr (c3, t', note_leader_of s c3
       (u\<lparr>oc_attempted := (if i mod WRITE_EVERY = 0 then oc_attempted u + 1 else oc_attempted u),
          oc_ticks := oc_ticks u + 1\<rparr>))))))"

definition priority_go ::
  "(int \<Rightarrow> name \<Rightarrow> draws) \<Rightarrow> priorities \<Rightarrow> disruption \<Rightarrow> string \<Rightarrow> nat \<Rightarrow> cluster \<times> timers \<Rightarrow>
   (outcome_counts \<times> cluster) result" where
  "priority_go node_seed s d nm window = (\<lambda>(c, t).
     rbind (rfold (priority_turn node_seed s d) [0..<window]
       (c, t, \<lparr>oc_name = nm, oc_leaders = [], oc_preferred = preferred s, oc_preferred_ticks = 0,
          oc_ticks = 0, oc_elections = 0, oc_committed = 0, oc_attempted = 0, oc_messages = 0\<rparr>))
       (\<lambda>(c', t', u).
     Inr (u\<lparr>oc_committed := length (committed c'),
            oc_messages := n_sent (counts (net c')) - n_sent (counts (net c))\<rparr>, c')))"

section \<open>A preference is safe\<close>

lemma node_beat_moves_on:
  assumes inv: "cluster_inv c" and p: "p \<in> set (cmembers c)"
  shows "\<exists>c' x'. node_beat p (c, x) = Inr (c', x') \<and> moves_on c c' \<and> cnow c' = cnow c"
proof -
  have "\<exists>c'. act p (tick (nodes c p) (cnow c)) c = Inr c' \<and> moves_on c c' \<and> cnow c' = cnow c"
    by (rule act_moves_on [OF inv _ p]) (rule tick_sim, simp_all add: p)
  then show ?thesis by (auto simp: node_beat_def)
qed

interpretation priority: beating node_beat
  by unfold_locales (rule node_beat_moves_on)

lemma priority_tick_moves_on:
  assumes "cluster_inv c"
  shows "\<exists>c' t'. priority_tick s (c, t) = Inr (c', t') \<and> moves_on c c' \<and> cnow c' = Suc (cnow c)"
  using priority.timed_tick_moves_on [OF assms, of "priority_reach s" t "()"]
  by (auto simp: priority_tick_def)

definition carries_on :: "cluster \<Rightarrow> cluster \<Rightarrow> bool" where
  "carries_on c c' \<longleftrightarrow> cluster_inv c' \<and> cmembers c' = cmembers c \<and> cnow c' = cnow c"

lemma crash_carries_on:
  assumes "cluster_inv c"
  shows "p \<notin> set (cmembers c) \<and> crash c p = Inl UnknownNode \<or>
    p \<in> set (cmembers c) \<and> (\<exists>c'. crash c p = Inr c' \<and> carries_on c c')"
proof (cases "p \<in> set (cmembers c)")
  case True
  then obtain c' where c': "crash c p = Inr c'" by (simp add: crash_def)
  have "cluster_inv c'" using cluster_inv_step [OF assms, of undefined "Crash p"] c' by simp
  with c' True show ?thesis by (auto simp: carries_on_def crash_def)
qed (simp add: crash_def)

lemma restart_carries_on:
  assumes inv: "cluster_inv c" and p: "p \<in> down c"
  shows "\<exists>c'. restart node_seed c p = Inr c' \<and> carries_on c c'"
proof -
  from inv obtain s where ok: "cluster_ok (tight c) (cmembers c) {} c s"
    and down: "down c \<subseteq> set (cmembers c)"
    by (rule cluster_invE)
  from restart_ok [OF ok down p] obtain c' where c': "restart node_seed c p = Inr c'" by blast
  have "cluster_inv c'" using cluster_inv_step [OF inv, of node_seed "Restart p"] c' by simp
  with c' show ?thesis by (auto simp: carries_on_def restart_def raises put_node_def Let_def split: if_splits)
qed

lemma carries_on_refl: "cluster_inv c \<Longrightarrow> carries_on c c"
  by (simp add: carries_on_def)

lemma flap_carries_on:
  assumes inv: "cluster_inv c"
  shows "preferred s \<notin> set (cmembers c) \<and> flap node_seed s d i c = Inl UnknownNode \<or>
    (\<exists>c'. flap node_seed s d i c = Inr c' \<and> carries_on c c')"
  using crash_carries_on [OF inv, of "preferred s"] restart_carries_on [OF inv, of "preferred s" node_seed]
    carries_on_refl [OF inv]
  unfolding flap_def Let_def by (simp split: if_splits) blast

lemma disrupt_carries_on:
  assumes inv: "cluster_inv c"
  shows "(dr_crash d \<notin> set (cmembers c) \<or> preferred s \<notin> set (cmembers c)) \<and>
      disrupt node_seed s d i c = Inl UnknownNode \<or>
    (\<exists>c'. disrupt node_seed s d i c = Inr c' \<and> carries_on c c')"
proof -
  let ?crash = "if int i = dr_crash_at d \<and> dr_crash d \<noteq> []
            then (case crash c (dr_crash d) of Inl KeyError \<Rightarrow> Inr c | r \<Rightarrow> r) else Inr c"
  have "dr_crash d \<notin> set (cmembers c) \<and> ?crash = Inl UnknownNode \<or> (\<exists>c1. ?crash = Inr c1 \<and> carries_on c c1)"
    using crash_carries_on [OF inv, of "dr_crash d"] carries_on_refl [OF inv] by auto
  then show ?thesis
  proof (elim disjE exE conjE)
    assume "dr_crash d \<notin> set (cmembers c)" "?crash = Inl UnknownNode"
    then show ?thesis by (simp add: disrupt_def)
  next
    fix c1 assume c1: "?crash = Inr c1" "carries_on c c1"
    then have inv1: "cluster_inv c1" by (simp add: carries_on_def)
    let ?restart = "if int i = dr_restart_at d \<and> dr_crash d \<in> down c1
            then restart node_seed c1 (dr_crash d) else Inr c1"
    have "\<exists>c2. ?restart = Inr c2 \<and> carries_on c1 c2"
      using restart_carries_on [OF inv1, of "dr_crash d" node_seed] carries_on_refl [OF inv1] by simp
    then obtain c2 where c2: "?restart = Inr c2" "carries_on c1 c2" by blast
    then have inv2: "cluster_inv c2" and on: "carries_on c c2" using c1(2) by (simp_all add: carries_on_def)
    have eq: "disrupt node_seed s d i c =
        (if dr_flap_every d \<noteq> 0 \<and> i > 60 then flap node_seed s d i c2 else Inr c2)"
      unfolding disrupt_def c1(1) rbind.simps c2(1) ..
    have "cmembers c2 = cmembers c" using on by (simp add: carries_on_def)
    with flap_carries_on [OF inv2, of s node_seed d i] on show ?thesis
      unfolding eq by (auto simp: carries_on_def)
  qed
qed

lemma attempt_write_carries_on:
  assumes inv: "cluster_inv c"
  shows "\<exists>c'. attempt_write i c = Inr c' \<and> carries_on c c'"
proof -
  let ?v = "PTuple [PStr ''set'', PStr ''k'', PInt (int i)]"
  from inv obtain s where ok: "cluster_ok (tight c) (cmembers c) {} c s" by (rule cluster_invE)
  from cluster_propose_ok [OF ok, of ?v] consider "cluster_propose c ?v = Inl NoLeader"
    | j c' where "cluster_propose c ?v = Inr (j, c')" by blast
  then show ?thesis
  proof cases
    case 1
    with carries_on_refl [OF inv] show ?thesis by (simp add: attempt_write_def)
  next
    case (2 j c')
    then have "perform undefined c (Propose ?v) = Inr c'" by simp
    from cluster_inv_step [OF inv this] propose_aside [OF 2] 2 show ?thesis
      by (simp add: attempt_write_def carries_on_def aside_def)
  qed
qed

text \<open>What the counts of a run show after \<open>i\<close> ticks.\<close>

definition counted :: "name list \<Rightarrow> nat \<Rightarrow> outcome_counts \<Rightarrow> bool" where
  "counted ms i u \<longleftrightarrow> oc_ticks u = i \<and> oc_attempted u = (i + 19) div 20 \<and> oc_preferred_ticks u \<le> i \<and>
     oc_elections u = length (oc_leaders u) - 1 \<and> distinct_adj (oc_leaders u) \<and> set (oc_leaders u) \<subseteq> set ms"

lemma attempts_due: "((Suc i + 19) div 20 :: nat) = (i + 19) div 20 + (if i mod 20 = 0 then 1 else 0)"
proof -
  have k: "i = 20 * (i div 20) + i mod 20" and r: "i mod 20 < 20" by simp_all
  obtain q r where "i = 20 * q + r" "r < 20" using k r by blast
  then have "(i + 19) div 20 = q + (r + 19) div 20" "i mod 20 = r" "(Suc i + 19) div 20 = q + 1"
    by simp_all
  moreover have "(r + 19) div 20 = (if r = 0 then 0 else 1)" using \<open>r < 20\<close> by (cases r) simp_all
  ultimately show ?thesis by simp
qed

lemma note_leader_counted:
  assumes "cluster_inv c" "cmembers c = ms" "counted ms i u"
    "v = u\<lparr>oc_attempted := (Suc i + 19) div 20, oc_ticks := Suc i\<rparr>"
  shows "counted ms (Suc i) (note_leader_of s c v)"
proof (cases "cluster_leader c")
  case None
  with assms show ?thesis by (simp add: counted_def note_leader_of_def)
next
  case (Some f)
  then have "name f \<in> set ms" using leader_name(1) [OF assms(1) Some] assms(2) by (simp add: up_def)
  with Some assms(3,4) show ?thesis
    by (cases "oc_leaders u = []") (auto simp: counted_def note_leader_of_def Let_def distinct_adj_append_iff)
qed

lemma priority_turns:
  assumes inv: "cluster_inv c0" and u0: "counted (cmembers c0) 0 u0"
  shows "(dr_crash d \<notin> set (cmembers c0) \<or> preferred s \<notin> set (cmembers c0)) \<and>
      rfold (priority_turn node_seed s d) [0..<i] (c0, t0, u0) = Inl UnknownNode \<or>
    (\<exists>c t u. rfold (priority_turn node_seed s d) [0..<i] (c0, t0, u0) = Inr (c, t, u) \<and>
      cluster_inv c \<and> cmembers c = cmembers c0 \<and> cnow c = cnow c0 + i \<and> counted (cmembers c0) i u)"
proof (induction i)
  case 0
  then show ?case using assms by simp
next
  case (Suc i)
  let ?turn = "priority_turn node_seed s d"
  have raised: "disrupt node_seed s d i c = Inl e \<Longrightarrow> ?turn i (c, t, u) = Inl e" for c t u e
    by (simp add: priority_turn_def)
  have step: "rfold ?turn [0..<Suc i] (c0, t0, u0) = rbind (rfold ?turn [0..<i] (c0, t0, u0)) (?turn i)"
    by (simp add: rfold_snoc)
  from Suc.IH show ?case
  proof (elim disjE exE conjE)
    fix c t u
    assume k: "rfold ?turn [0..<i] (c0, t0, u0) = Inr (c, t, u)" "cluster_inv c"
      "cmembers c = cmembers c0" "cnow c = cnow c0 + i" "counted (cmembers c0) i u"
    from disrupt_carries_on [OF k(2), of d s node_seed i] show ?thesis
    proof (elim disjE exE conjE)
      fix c1 assume c1: "disrupt node_seed s d i c = Inr c1" "carries_on c c1"
      then have inv1: "cluster_inv c1" by (simp add: carries_on_def)
      have "\<exists>c2. (if i mod WRITE_EVERY = 0 then attempt_write i c1 else Inr c1) = Inr c2 \<and> carries_on c1 c2"
        using attempt_write_carries_on [OF inv1, of i] carries_on_refl [OF inv1] by simp
      then obtain c2 where c2: "(if i mod WRITE_EVERY = 0 then attempt_write i c1 else Inr c1) = Inr c2"
        "carries_on c1 c2" by blast
      then have inv2: "cluster_inv c2" by (simp add: carries_on_def)
      from priority_tick_moves_on [OF inv2, of s t] obtain c3 t' where
        c3: "priority_tick s (c2, t) = Inr (c3, t')" "moves_on c2 c3" "cnow c3 = Suc (cnow c2)" by blast
      define v where "v = u\<lparr>oc_attempted := (if i mod WRITE_EVERY = 0 then oc_attempted u + 1 else oc_attempted u),
          oc_ticks := oc_ticks u + 1\<rparr>"
      have turn: "?turn i (c, t, u) = Inr (c3, t', note_leader_of s c3 v)"
        unfolding priority_turn_def prod.case c1(1) rbind.simps c2(1) c3(1) v_def ..
      have same: "cluster_inv c3" "cmembers c3 = cmembers c0" "cnow c3 = cnow c0 + Suc i"
        using c1(2) c2(2) c3(2,3) k(3,4) by (simp_all add: carries_on_def moves_on_def)
      have "v = u\<lparr>oc_attempted := (Suc i + 19) div 20, oc_ticks := Suc i\<rparr>"
        using k(5) attempts_due [of i] by (simp add: v_def counted_def WRITE_EVERY_def)
      from note_leader_counted [OF same(1,2) k(5) this] same show ?thesis
        unfolding step k(1) rbind.simps turn by blast
    qed (use step k in \<open>simp_all add: raised\<close>)
  qed (use step in simp_all)
qed

text \<open>
  Preferring a node as leader is safe: whatever the order, the step, the seeds, the crash, the
  restart and the flapping, a run ends in a cluster where two members leading one term are the same
  member and equal entries of two logs have equal logs below them. It counts every tick and every
  twentieth as an attempted write, the leaders it saw never repeat in a row, and there was one
  election fewer than that. The only thing a run raises is the name of a stranger it was told to
  crash or to prefer.
\<close>

theorem priority_safe:
  assumes made: "Priority_Run net_seed node_seed priority_seed s k sd = Inr (c0, t0)"
  shows "(dr_crash d \<notin> set (cmembers c0) \<or> preferred s \<notin> set (cmembers c0)) \<and>
      priority_go node_seed s d nm window (c0, t0) = Inl UnknownNode \<or>
    (\<exists>u c. priority_go node_seed s d nm window (c0, t0) = Inr (u, c) \<and>
      (\<forall>p\<in>set (cmembers c). \<forall>q\<in>set (cmembers c).
        (role (nodes c p) = LEADER \<and> role (nodes c q) = LEADER \<and>
         current_term (nodes c p) = current_term (nodes c q) \<longrightarrow> p = q) \<and>
        (\<forall>e\<in>set (entries (log (nodes c p))). \<forall>f\<in>set (entries (log (nodes c q))).
           e_index e = e_index f \<and> e_term e = e_term f \<longrightarrow>
           agree (e_index e) (entries (log (nodes c p))) (entries (log (nodes c q))))) \<and>
      cmembers c = cmembers c0 \<and> cnow c = window \<and> oc_ticks u = window \<and>
      oc_attempted u = (window + 19) div 20 \<and> oc_preferred_ticks u \<le> window \<and>
      distinct_adj (oc_leaders u) \<and> oc_elections u = length (oc_leaders u) - 1 \<and>
      set (oc_leaders u) \<subseteq> set (cmembers c0))"
proof -
  from made have c0: "Cluster net_seed node_seed k sd None False False = Inr c0"
    by (auto simp: Priority_Run_def raises split: if_splits)
  have inv: "cluster_inv c0" by (rule cluster_inv_reach [OF cluster_reach.made [OF c0]])
  have zero: "cnow c0 = 0" using c0 by (auto simp: Cluster_def Let_def raises split: if_splits)
  define u0 where "u0 = \<lparr>oc_name = nm, oc_leaders = [], oc_preferred = preferred s, oc_preferred_ticks = 0,
          oc_ticks = 0, oc_elections = 0, oc_committed = 0, oc_attempted = 0, oc_messages = 0\<rparr>"
  have "counted (cmembers c0) 0 u0" by (simp add: counted_def u0_def)
  from priority_turns [OF inv this, of d s node_seed window t0] show ?thesis
  proof (elim disjE [where R = ?thesis] exE)
    assume "(dr_crash d \<notin> set (cmembers c0) \<or> preferred s \<notin> set (cmembers c0)) \<and>
      rfold (priority_turn node_seed s d) [0..<window] (c0, t0, u0) = Inl UnknownNode"
    then show ?thesis by (intro disjI1) (simp add: priority_go_def u0_def [symmetric])
  next
    fix c t u
    assume "rfold (priority_turn node_seed s d) [0..<window] (c0, t0, u0) = Inr (c, t, u) \<and> cluster_inv c \<and>
      cmembers c = cmembers c0 \<and> cnow c = cnow c0 + window \<and> counted (cmembers c0) window u"
    then have k: "rfold (priority_turn node_seed s d) [0..<window] (c0, t0, u0) = Inr (c, t, u)" "cluster_inv c"
      "cmembers c = cmembers c0" "cnow c = cnow c0 + window" "counted (cmembers c0) window u"
      by simp_all
    let ?u = "u\<lparr>oc_committed := length (committed c),
            oc_messages := n_sent (counts (net c)) - n_sent (counts (net c0))\<rparr>"
    have go: "priority_go node_seed s d nm window (c0, t0) = Inr (?u, c)"
      by (simp add: priority_go_def u0_def [symmetric] k(1))
    have safe: "\<forall>p\<in>set (cmembers c). \<forall>q\<in>set (cmembers c).
        (role (nodes c p) = LEADER \<and> role (nodes c q) = LEADER \<and>
         current_term (nodes c p) = current_term (nodes c q) \<longrightarrow> p = q) \<and>
        (\<forall>e\<in>set (entries (log (nodes c p))). \<forall>f\<in>set (entries (log (nodes c q))).
           e_index e = e_index f \<and> e_term e = e_term f \<longrightarrow>
           agree (e_index e) (entries (log (nodes c p))) (entries (log (nodes c q))))"
      using one_leader [OF k(2)] logs_match(1) [OF k(2)] by blast
    have counts: "oc_ticks ?u = window" "oc_attempted ?u = (window + 19) div 20" "oc_preferred_ticks ?u \<le> window"
      "distinct_adj (oc_leaders ?u)" "oc_elections ?u = length (oc_leaders ?u) - 1"
      "set (oc_leaders ?u) \<subseteq> set (cmembers c0)" "cnow c = window"
      using k(4,5) zero by (simp_all add: counted_def)
    show ?thesis by (intro disjI2 exI [of _ ?u] exI [of _ c] conjI go safe k(3) counts)
  qed
qed

text \<open>A preferred node that flaps, and a stranger.\<close>

theorem priority_safe_witness:
  "\<exists>s c0 t0. Priorities [''n3'', ''n0'', ''n1'', ''n2'', ''n4''] 6 = Inr s \<and> priority_delay s ''n1'' = 12 \<and>
     Priority_Run (\<lambda>_ _. 0) (\<lambda>_ _ _. 0) (\<lambda>_ _. 0) s 5 1 = Inr (c0, t0) \<and>
     (\<exists>u c. priority_go (\<lambda>_ _ _. 0) s \<lparr>dr_crash = ''n3'', dr_crash_at = 200, dr_restart_at = 260,
         dr_flap_every = 60, dr_flap_for = 30\<rparr> ''flap'' 600 (c0, t0) = Inr (u, c) \<and>
       cnow c = 600 \<and> oc_attempted u = 30)"
proof -
  define s where "s = \<lparr>preference = [''n3'', ''n0'', ''n1'', ''n2'', ''n4''], pstep = 6\<rparr>"
  have s: "Priorities [''n3'', ''n0'', ''n1'', ''n2'', ''n4''] 6 = Inr s" "priority_delay s ''n1'' = 12"
    "preferred s = ''n3''"
    by (simp_all add: Priorities_def s_def priority_delay_def preferred_def)
  have "(1::nat) \<le> 5" by simp
  from Cluster_total [OF this] obtain c0 where
    c0: "Cluster (\<lambda>_ _. 0) (\<lambda>_ _ _. 0) 5 1 None False False = Inr c0"
    "cmembers c0 = map (\<lambda>i. CHR ''n'' # decimal i) [0..<5]" by blast
  then obtain t0 where run: "Priority_Run (\<lambda>_ _. 0) (\<lambda>_ _ _. 0) (\<lambda>_ _. 0) s 5 1 = Inr (c0, t0)"
    by (simp add: Priority_Run_def)
  have three: "''n3'' = CHR ''n'' # decimal 3" by code_simp
  have "''n3'' \<in> set (cmembers c0)" unfolding c0(2) three set_map by (rule imageI) simp
  with priority_safe [OF run, of "\<lparr>dr_crash = ''n3'', dr_crash_at = 200, dr_restart_at = 260,
         dr_flap_every = 60, dr_flap_for = 30\<rparr>" "''flap''" 600] s(3)
  show ?thesis using s(1,2) run by auto
qed

end
