(* ===== verification/Steady_Leader.thy ===== *)
theory Steady_Leader
  imports Cluster_Runs
begin

text \<open>
  A cluster in office: one leader, followers whose logs are the beginning of its own, and on the
  wire nothing but its appends and their answers. What the handlers of \<open>src/rsm/node.py\<close> do there
  is a few equations, from which the next theory proves that the office is kept for ever and that
  every write commits.
\<close>

section \<open>Members of a cluster in office\<close>

text \<open>How many entries a node holds; \<open>es\<close> is the leader's log and \<open>T\<close> its term.\<close>

definition held :: "node \<Rightarrow> nat" where
  "held n = length (entries (log n))"

definition in_line :: "name list \<Rightarrow> nat \<Rightarrow> entry list \<Rightarrow> name \<Rightarrow> node \<Rightarrow> bool" where
  "in_line ms T es p n \<longleftrightarrow> name n = p \<and> members n = ms \<and> current_term n = T \<and>
     log n = plain (take (held n) es) \<and> held n \<le> length es \<and> commit_index n \<le> held n \<and>
     last_applied n = commit_index n \<and> applied n = take (commit_index n) es \<and> state n = replay (applied n)"

definition follows :: "name list \<Rightarrow> nat \<Rightarrow> entry list \<Rightarrow> name \<Rightarrow> node \<Rightarrow> bool" where
  "follows ms T es p n \<longleftrightarrow> in_line ms T es p n \<and> role n = FOLLOWER"

text \<open>A leader has committed everything of its term that a majority is known to hold.\<close>

definition leads :: "name list \<Rightarrow> nat \<Rightarrow> entry list \<Rightarrow> name \<Rightarrow> node \<Rightarrow> bool" where
  "leads ms T es p n \<longleftrightarrow> in_line ms T es p n \<and> role n = LEADER \<and> held n = length es \<and>
     \<not> commit_any_term n \<and> mget (match_index n) p 0 = length es \<and>
     (\<forall>i\<in>set [commit_index n + 1..<length es + 1]. term_of es i = T \<longrightarrow> holders n i < quorum n)"

text \<open>What it has been told of a follower that holds \<open>h\<close> entries.\<close>

definition tracks :: "node \<Rightarrow> name \<Rightarrow> nat \<Rightarrow> bool" where
  "tracks n p h \<longleftrightarrow> (case next_index n p of None \<Rightarrow> False
     | Some i \<Rightarrow> mget (match_index n) p 0 < i \<and> i \<le> h + 1)"

definition in_office_msg ::
  "name list \<Rightarrow> nat \<Rightarrow> entry list \<Rightarrow> name \<Rightarrow> (name \<Rightarrow> nat) \<Rightarrow> message \<Rightarrow> bool" where
  "in_office_msg ms T es L h m \<longleftrightarrow> m_term m = T \<and> sender m \<in> set ms \<and> recipient m \<in> set ms \<and>
     (case body m of
        Append pi pt fs lc rid \<Rightarrow> sender m = L \<and> recipient m \<noteq> L \<and> pi \<le> h (recipient m) \<and>
          pt = term_of es pi \<and> pi + length fs \<le> length es \<and> fs = take (length fs) (drop pi es) \<and>
          lc \<le> length es
      | Appended ok mi ct ci rid \<Rightarrow> ok \<and> recipient m = L \<and> sender m \<noteq> L \<and> mi \<le> h (sender m)
      | _ \<Rightarrow> False)"

text \<open>An append to a follower, or an answer from it, that reaches as far as \<open>k\<close>.\<close>

fun append_to :: "nat \<Rightarrow> name \<Rightarrow> message \<Rightarrow> bool" where
  "append_to k p m = (recipient m = p \<and>
     (case body m of Append pi pt fs lc rid \<Rightarrow> k \<le> pi + length fs | _ \<Rightarrow> False))"

fun answer_from :: "nat \<Rightarrow> name \<Rightarrow> message \<Rightarrow> bool" where
  "answer_from k p m = (sender m = p \<and>
     (case body m of Appended ok mi ct ci rid \<Rightarrow> k \<le> mi | _ \<Rightarrow> False))"

lemma in_lineD:
  assumes "in_line ms T es p n" "indexed es"
  shows "name n = p" "members n = ms" "current_term n = T" "log n = plain (take (held n) es)"
    "held n \<le> length es" "commit_index n \<le> held n" "last_applied n = commit_index n"
    "applied n = take (commit_index n) es" "state n = replay (applied n)"
    "last_index (log n) = held n" "indexed (take (held n) es)"
proof -
  show "name n = p" "members n = ms" "current_term n = T" and log: "log n = plain (take (held n) es)"
    and h: "held n \<le> length es" and "commit_index n \<le> held n" "last_applied n = commit_index n"
    "applied n = take (commit_index n) es" "state n = replay (applied n)"
    using assms(1) by (simp_all add: in_line_def)
  show ix: "indexed (take (held n) es)" by (rule indexed_take [OF assms(2)])
  show "last_index (log n) = held n" unfolding log last_index_plain [OF ix] using h by simp
qed

text \<open>Fields a node may change and stay in line.\<close>

lemma in_line_quiet:
  "in_line ms T es p (n\<lparr>now := t\<rparr>) = in_line ms T es p n"
  "in_line ms T es p (n\<lparr>leader := l\<rparr>) = in_line ms T es p n"
  "in_line ms T es p (n\<lparr>heartbeat_due := t\<rparr>) = in_line ms T es p n"
  "in_line ms T es p (n\<lparr>next_index := f\<rparr>) = in_line ms T es p n"
  "in_line ms T es p (n\<lparr>match_index := f\<rparr>) = in_line ms T es p n"
  "in_line ms T es p (reset_election_timer n) = in_line ms T es p n"
  by (simp_all add: in_line_def held_def unseen)

section \<open>A follower takes an append\<close>

lemma term_of_cut: "i \<le> k \<Longrightarrow> term_of (take k es) i = term_of es i"
  by (auto simp: term_of_def)

lemma take_entries_take:
  assumes "indexed es"
  shows "h \<le> length es \<Longrightarrow> pi \<le> h \<Longrightarrow> pi + j \<le> length es \<Longrightarrow>
    take_entries (plain (take h es)) (take j (drop pi es)) = Inr (plain (take (max h (pi + j)) es))"
proof (induction j arbitrary: pi h)
  case (Suc j)
  let ?e = "es ! pi"
  have pi: "pi < length es" using Suc.prems by simp
  have cut: "take (Suc j) (drop pi es) = ?e # take j (drop (Suc pi) es)"
    using pi by (simp add: Cons_nth_drop_Suc [symmetric])
  have ix: "indexed (take h es)" and e: "e_index ?e = Suc pi"
    using indexed_take [OF assms] assms pi by (simp_all add: indexed_def)
  have len: "length (take h es) = h" using Suc.prems(1) by simp
  show ?case
  proof (cases "pi < h")
    case True
    have "holds (plain (take h es)) (e_index ?e)" "term_at (plain (take h es)) (e_index ?e) = Inr (e_term ?e)"
      using holds_plain [OF ix] term_at_plain [OF ix, of "Suc pi"] len e True
      by (simp_all add: term_of_def)
    then have "take_entries (plain (take h es)) (take (Suc j) (drop pi es)) =
        take_entries (plain (take h es)) (take j (drop (Suc pi) es))"
      unfolding cut by simp
    also have "\<dots> = Inr (plain (take (max h (Suc pi + j)) es))"
      using Suc.prems True by (intro Suc.IH) simp_all
    finally show ?thesis by simp
  next
    case False
    then have h: "h = pi" using Suc.prems by simp
    have "\<not> holds (plain (take h es)) (e_index ?e)" using holds_plain [OF ix] len e h by simp
    moreover have "place (plain (take h es)) ?e = plain (take (Suc h) es)"
      using last_index_plain [OF ix] len e h pi by (simp add: place_def take_Suc_conv_app_nth)
    ultimately have "take_entries (plain (take h es)) (take (Suc j) (drop pi es)) =
        take_entries (plain (take (Suc h) es)) (take j (drop (Suc pi) es))"
      unfolding cut by simp
    also have "\<dots> = Inr (plain (take (max (Suc h) (Suc pi + j)) es))"
      using Suc.prems h by (intro Suc.IH) simp_all
    finally show ?thesis using h by simp
  qed
qed simp

lemma apply_ready_in_line:
  assumes n: "in_line ms T es p n" "indexed es" and c: "commit_index n \<le> c" "c \<le> held n"
  shows "\<exists>st. apply_ready (n\<lparr>commit_index := c\<rparr>) =
      Inr (n\<lparr>commit_index := c, last_applied := c, applied := take c es, state := st\<rparr>) \<and>
    in_line ms T es p (n\<lparr>commit_index := c, last_applied := c, applied := take c es, state := st\<rparr>)"
proof -
  note d = in_lineD [OF n]
  let ?n = "n\<lparr>commit_index := c\<rparr>"
  have "log ?n = plain (take (held n) es)" using d(4) by simp
  from apply_committed_plain [OF this d(11)] obtain out st where out: "apply_committed ?n =
      Inr (out, ?n\<lparr>last_applied := max (last_applied ?n) (commit_index ?n),
                 applied := applied ?n @ out, state := st\<rparr>)"
    "last_applied ?n \<le> commit_index ?n \<longrightarrow> commit_index ?n \<le> length (take (held n) es) \<longrightarrow>
       out = take (commit_index ?n - last_applied ?n) (drop (last_applied ?n) (take (held n) es)) \<and>
       (state ?n = replay (applied ?n) \<longrightarrow> st = replay (applied ?n @ out))" by blast
  have cut: "min (c - commit_index n) (held n - commit_index n) = c - commit_index n" using c by simp
  have "out = take (c - commit_index n) (drop (commit_index n) (take (held n) es))"
    and st: "st = replay (applied n @ out)"
    using out(2) c d by simp_all
  then have "out = take (c - commit_index n) (drop (commit_index n) es)"
    by (simp add: drop_take cut)
  then have "applied n @ out = take (commit_index n + (c - commit_index n)) es"
    using d(8) by (simp only: take_add)
  then have all: "applied n @ out = take c es" using c(1) by simp
  let ?m = "n\<lparr>commit_index := c, last_applied := c, applied := take c es, state := st\<rparr>"
  have "max (last_applied ?n) (commit_index ?n) = c" using c(1) d(7) by simp
  then have "apply_ready ?n = Inr ?m" unfolding apply_ready_def out(1) using all by simp
  moreover have "st = replay (take c es)" using st all by simp
  then have "in_line ms T es p ?m"
    using d(1-5) c(2) by (simp add: in_line_def held_def)
  ultimately show ?thesis by blast
qed

lemma step_append:
  assumes n: "follows ms T es p n" and ix: "indexed es" and T: "1 \<le> T"
    and m: "in_office_msg ms T es L h m" "h p = held n" "recipient m = p"
    and b: "body m = Append pi pt fs lc rid"
  shows "\<exists>n'. step n m = Inr (n', [\<lparr>sender = p, recipient = L, m_term = T,
        body = Appended True (pi + length fs) NO_TERM NO_INDEX rid\<rparr>]) \<and>
      follows ms T es p n' \<and> held n' = max (held n) (pi + length fs) \<and> now n' = now n \<and>
      now n + MIN_ELECTION_TIMEOUT \<le> election_deadline n'"
proof -
  have line: "in_line ms T es p n" and role: "role n = FOLLOWER" using n by (simp_all add: follows_def)
  note d = in_lineD [OF line ix]
  have m': "m_term m = T" "sender m = L" "p \<noteq> L" "pi \<le> held n" "pt = term_of es pi" "pi + length fs \<le> length es"
    "fs = take (length fs) (drop pi es)" "lc \<le> length es"
    using m b by (simp_all add: in_office_msg_def)
  define n3 where "n3 = reset_election_timer (n\<lparr>leader := Some L\<rparr>)"
  have line3: "in_line ms T es p n3" using line by (simp add: n3_def in_line_quiet)
  have held3: "held n3 = held n" "now n3 = now n" "role n3 = FOLLOWER"
    using role by (simp_all add: n3_def held_def unseen)
  have late: "now n + MIN_ELECTION_TIMEOUT \<le> election_deadline n3"
    using randint_bounds [of MIN_ELECTION_TIMEOUT MAX_ELECTION_TIMEOUT "rng n"]
    by (simp add: n3_def reset_election_timer_def MIN_ELECTION_TIMEOUT_def MAX_ELECTION_TIMEOUT_def
        split: prod.split) (metis fst_conv)
  note d3 = in_lineD [OF line3 ix, unfolded held3]
  define k where "k = max (held n) (pi + length fs)"
  have k: "k \<le> length es" "held n \<le> k" using m'(6) d(5) by (simp_all add: k_def)
  have match: "matches (log n3) pi pt = Inr True"
    unfolding d3(4) using matches_plain [OF d3(11)] m'(4,5) d(5) by (simp add: term_of_cut)
  have taken: "take_entries (log n3) fs = Inr (plain (take k es))"
    unfolding d3(4) k_def using take_entries_take [OF ix d(5) m'(4,6)] m'(7) by simp
  define n4 where "n4 = n3\<lparr>log := plain (take k es)\<rparr>"
  have held4: "held n4 = k" using k by (simp add: n4_def held_def)
  have line4: "in_line ms T es p n4"
    using d3 k held4 by (simp add: in_line_def n4_def)
  have same: "last_index (log n4) = k" using in_lineD(10) [OF line4 ix] held4 by simp
  have "\<exists>n5. (if lc > commit_index n4 then apply_ready (n4\<lparr>commit_index := min lc (last_index (log n4))\<rparr>)
        else Inr n4) = Inr n5 \<and> in_line ms T es p n5 \<and> held n5 = k \<and> now n5 = now n \<and> role n5 = FOLLOWER \<and>
        election_deadline n5 = election_deadline n3"
  proof (cases "lc > commit_index n4")
    case True
    have "commit_index n4 \<le> min lc k" "min lc k \<le> held n4"
      using True in_lineD(6) [OF line4 ix] held4 by simp_all
    from apply_ready_in_line [OF line4 ix this] True held4 held3 show ?thesis
      unfolding same by (auto simp: n4_def held_def)
  next
    case False
    with line4 held4 held3 show ?thesis by (simp add: n4_def)
  qed
  then obtain n5 where n5: "(if lc > commit_index n4 then apply_ready (n4\<lparr>commit_index := min lc (last_index (log n4))\<rparr>)
        else Inr n4) = Inr n5" "in_line ms T es p n5" "held n5 = k" "now n5 = now n" "role n5 = FOLLOWER"
    "election_deadline n5 = election_deadline n3" by blast
  have index: "append_last_index pi fs = pi + length fs"
    by (rule append_last_index_indexed) (subst m'(7), rule indexed_slice [OF ix])
  have "on_append n m pi pt fs lc rid = rbind (if lc > commit_index n4
        then apply_ready (n4\<lparr>commit_index := min lc (last_index (log n4))\<rparr>) else Inr n4)
      (\<lambda>n5. reply n5 m (Appended True (append_last_index pi fs) NO_TERM NO_INDEX rid))"
    using role m'(2) match taken
    by (simp add: on_append_def n3_def [symmetric] Let_def) (simp add: n4_def)
  then have "on_append n m pi pt fs lc rid = reply n5 m (Appended True (pi + length fs) NO_TERM NO_INDEX rid)"
    unfolding n5(1) index by simp
  moreover have "step n m = on_append n m pi pt fs lc rid"
    using b m'(1) d(3) by (simp add: step_def dispatch_def)
  moreover have "name n5 = p" "current_term n5 = T" using in_lineD [OF n5(2) ix] by simp_all
  ultimately have "step n m = Inr (n5, [\<lparr>sender = p, recipient = L, m_term = T,
        body = Appended True (pi + length fs) NO_TERM NO_INDEX rid\<rparr>])"
    using T m'(2,3) by (simp add: reply_def Message_def)
  with n5 late show ?thesis by (auto simp: follows_def k_def)
qed

section \<open>A leader sends, and hears of its followers\<close>

lemma replicate_one_in_line:
  assumes n: "leads ms T es L n" and ix: "indexed es" and T: "1 \<le> T"
    and p: "p \<in> set ms" "p \<noteq> L" "L \<in> set ms" and t: "tracks n p (h p)"
  shows "\<exists>m. replicate_one n p = Inr m \<and> in_office_msg ms T es L h m \<and> sender m = L \<and> recipient m = p \<and>
    (length es < mget (match_index n) p 0 + 1 + MAX_BATCH \<longrightarrow> append_to (length es) p m)"
proof -
  have line: "in_line ms T es L n" and full: "held n = length es" using n by (simp_all add: leads_def)
  note d = in_lineD [OF line ix]
  from t obtain i where i: "next_index n p = Some i" "mget (match_index n) p 0 < i" "i \<le> h p + 1"
    by (auto simp: tracks_def split: option.splits)
  define start where "start = min i (length es + 1)"
  have start: "1 \<le> start" "start - 1 \<le> length es" "start - 1 \<le> h p" using i by (auto simp: start_def)
  define fs where "fs = take (min (start + MAX_BATCH - 1) (length es) - (start - 1)) (drop (start - 1) es)"
  have log: "log n = plain es" using d(4) full by simp
  have slice: "log_slice (log n) start (Some (start + MAX_BATCH - 1)) = Inr fs"
    unfolding log using slice_plain [OF ix start(1)] by (simp add: fs_def)
  have pt: "term_at (log n) (start - 1) = Inr (term_of es (start - 1))"
    unfolding log using ix start(2) by (rule term_at_plain)
  have reach: "start - 1 + length fs = min (start + MAX_BATCH - 1) (length es)"
    using start by (simp add: fs_def MAX_BATCH_def)
  let ?m = "\<lparr>sender = L, recipient = p, m_term = T,
    body = Append (start - 1) (term_of es (start - 1)) fs (commit_index n) 0\<rparr>"
  have "min (mget (next_index n) p (last_index (log n) + 1)) (last_index (log n) + 1) = start"
    using i(1) d(10) full by (simp add: start_def mget_def)
  then have "replicate_one n p = Inr ?m"
    unfolding replicate_one_def Let_def using slice pt start(1) d(1,3) T p(2)
    by (simp add: Message_def log)
  moreover have "in_office_msg ms T es L h ?m"
    using p start reach d(6) full by (simp add: in_office_msg_def) (simp add: fs_def)
  moreover have "append_to (length es) p ?m" if "length es < mget (match_index n) p 0 + 1 + MAX_BATCH"
    using that reach i(2) by (auto simp: start_def)
  ultimately show ?thesis by auto
qed

lemma replicate_in_line:
  assumes n: "leads ms T es L n" and ix: "indexed es" and T: "1 \<le> T" and L: "L \<in> set ms"
    and t: "\<forall>p\<in>set ms. p \<noteq> L \<longrightarrow> tracks n p (h p)"
  shows "\<exists>out. replicate_to n None = Inr out \<and> (\<forall>m\<in>set out. in_office_msg ms T es L h m) \<and>
    (\<forall>p\<in>set ms. p \<noteq> L \<longrightarrow> (\<exists>m\<in>set out. sender m = L \<and> recipient m = p \<and>
       (length es < mget (match_index n) p 0 + 1 + MAX_BATCH \<longrightarrow> append_to (length es) p m)))"
proof -
  have peers: "set (peers n) = set ms - {L}"
    using n by (auto simp: peers_def leads_def in_line_def)
  let ?P = "\<lambda>p m. replicate_one n p = Inr m \<and> in_office_msg ms T es L h m \<and> sender m = L \<and> recipient m = p \<and>
    (length es < mget (match_index n) p 0 + 1 + MAX_BATCH \<longrightarrow> append_to (length es) p m)"
  have "\<forall>p\<in>set ms - {L}. \<exists>m. ?P p m"
  proof
    fix p assume "p \<in> set ms - {L}"
    then have p: "p \<in> set ms" "p \<noteq> L" by simp_all
    then have "tracks n p (h p)" using t by blast
    from replicate_one_in_line [OF n ix T p L, of h, OF this] show "\<exists>m. ?P p m" .
  qed
  from bchoice [OF this] obtain g where g: "\<forall>p\<in>set ms - {L}. ?P p (g p)" by (elim exE)
  have "rmap (replicate_one n) (peers n) = Inr (map g (peers n))"
    using g peers by (intro rmap_Inr) blast
  then have "replicate_to n None = Inr (map g (peers n))" by (simp add: replicate_to_def)
  moreover have "\<forall>m\<in>set (map g (peers n)). in_office_msg ms T es L h m" using g peers by auto
  moreover have "\<forall>p\<in>set ms. p \<noteq> L \<longrightarrow> (\<exists>m\<in>set (map g (peers n)). sender m = L \<and> recipient m = p \<and>
       (length es < mget (match_index n) p 0 + 1 + MAX_BATCH \<longrightarrow> append_to (length es) p m))"
  proof (intro ballI impI)
    fix p assume p: "p \<in> set ms" "p \<noteq> L"
    then have "g p \<in> set (map g (peers n))" using peers by simp
    moreover have "?P p (g p)" using g p by blast
    ultimately show "\<exists>m\<in>set (map g (peers n)). sender m = L \<and> recipient m = p \<and>
       (length es < mget (match_index n) p 0 + 1 + MAX_BATCH \<longrightarrow> append_to (length es) p m)" by blast
  qed
  ultimately show ?thesis by blast
qed

lemma find_commit_highest:
  assumes "log n = plain es" "indexed es" "\<not> commit_any_term n"
  shows "i \<le> length es \<Longrightarrow> \<exists>r. find_commit n i = Inr r \<and>
    (case r of None \<Rightarrow> True | Some k \<Rightarrow> commit_index n < k \<and> k \<le> i) \<and>
    (\<forall>j. (case r of None \<Rightarrow> commit_index n | Some k \<Rightarrow> k) < j \<and> j \<le> i \<and> term_of es j = current_term n \<longrightarrow>
      holders n j < quorum n)"
proof (induction i)
  case 0
  then show ?case by simp
next
  case (Suc i)
  then obtain r where r: "find_commit n i = Inr r"
    "case r of None \<Rightarrow> True | Some k \<Rightarrow> commit_index n < k \<and> k \<le> i"
    "\<forall>j. (case r of None \<Rightarrow> commit_index n | Some k \<Rightarrow> k) < j \<and> j \<le> i \<and> term_of es j = current_term n \<longrightarrow>
      holders n j < quorum n" by auto
  have at: "term_at (log n) (Suc i) = Inr (term_of es (Suc i))"
    unfolding assms(1) using assms(2) Suc.prems by (rule term_at_plain)
  consider "Suc i \<le> commit_index n"
    | "commit_index n < Suc i" "term_of es (Suc i) = current_term n" "quorum n \<le> holders n (Suc i)"
    | "commit_index n < Suc i" "term_of es (Suc i) = current_term n \<longrightarrow> holders n (Suc i) < quorum n"
    by linarith
  then show ?case
  proof cases
    case 1
    then show ?thesis by (intro exI [of _ None]) simp
  next
    case 2
    then show ?thesis using at assms(3) by (intro exI [of _ "Some (Suc i)"]) simp
  next
    case 3
    then have "find_commit n (Suc i) = Inr r" using at assms(3) r(1) by auto
    moreover have "holders n j < quorum n"
      if "(case r of None \<Rightarrow> commit_index n | Some k \<Rightarrow> k) < j" "j \<le> Suc i" "term_of es j = current_term n" for j
      using that 3 r(3) by (cases "j = Suc i") auto
    ultimately show ?thesis using r(2) by (intro exI [of _ r]) (auto split: option.splits)
  qed
qed

lemma advance_commit_in_line:
  assumes line: "in_line ms T es L n" and role: "role n = LEADER" and full: "held n = length es"
    and any: "\<not> commit_any_term n" and ix: "indexed es"
  shows "\<exists>n'. advance_commit n = Inr n' \<and> leads ms T es L n' \<and> commit_index n \<le> commit_index n' \<and>
    next_index n' = next_index n \<and> (\<forall>q. q \<noteq> L \<longrightarrow> mget (match_index n') q 0 = mget (match_index n) q 0) \<and>
    now n' = now n \<and> heartbeat_due n' = heartbeat_due n"
proof -
  note d = in_lineD [OF line ix]
  define n1 where "n1 = n\<lparr>match_index := (match_index n)(L \<mapsto> length es)\<rparr>"
  have line1: "in_line ms T es L n1" using line by (simp add: n1_def in_line_quiet)
  have same: "held n1 = length es" "role n1 = LEADER" "\<not> commit_any_term n1" "commit_index n1 = commit_index n"
    using full role any by (simp_all add: n1_def held_def)
  have log: "log n1 = plain es" using in_lineD(4) [OF line1 ix] same by simp
  obtain r where r: "find_commit n1 (length es) = Inr r"
    "case r of None \<Rightarrow> True | Some k \<Rightarrow> commit_index n1 < k \<and> k \<le> length es"
    "\<forall>j. (case r of None \<Rightarrow> commit_index n1 | Some k \<Rightarrow> k) < j \<and> j \<le> length es \<and>
      term_of es j = current_term n1 \<longrightarrow> holders n1 j < quorum n1"
    using find_commit_highest [OF log ix same(3) order_refl] by blast
  have eq: "advance_commit n = (case r of None \<Rightarrow> Inr n1 | Some i \<Rightarrow> apply_ready (n1\<lparr>commit_index := i\<rparr>))"
    using role d(1,10) full r(1) in_lineD(10) [OF line1 ix] same(1)
    by (simp add: advance_commit_def n1_def [symmetric])
  have "\<exists>n'. advance_commit n = Inr n' \<and> in_line ms T es L n' \<and> role n' = LEADER \<and> held n' = length es \<and>
      \<not> commit_any_term n' \<and> match_index n' = match_index n1 \<and> next_index n' = next_index n \<and>
      commit_index n' = (case r of None \<Rightarrow> commit_index n1 | Some k \<Rightarrow> k) \<and> now n' = now n \<and>
      heartbeat_due n' = heartbeat_due n"
  proof (cases r)
    case None
    with eq line1 same show ?thesis by (simp add: n1_def)
  next
    case (Some i)
    with r(2) same have "commit_index n1 \<le> i" "i \<le> held n1" by simp_all
    from apply_ready_in_line [OF line1 ix this] eq Some same show ?thesis
      by (auto simp: n1_def held_def)
  qed
  then obtain n' where n': "advance_commit n = Inr n'" "in_line ms T es L n'" "role n' = LEADER" "held n' = length es"
      "\<not> commit_any_term n'" "match_index n' = match_index n1" "next_index n' = next_index n"
      "commit_index n' = (case r of None \<Rightarrow> commit_index n1 | Some k \<Rightarrow> k)" "now n' = now n"
      "heartbeat_due n' = heartbeat_due n" by blast
  have holds: "holders n' j = holders n1 j" "quorum n' = quorum n1" for j
    using n'(6) in_lineD(2) [OF n'(2) ix] in_lineD(2) [OF line1 ix] by (simp_all add: holders_def quorum_def)
  have "\<forall>i\<in>set [commit_index n' + 1..<length es + 1]. term_of es i = T \<longrightarrow> holders n' i < quorum n'"
    using r(3) n'(8) in_lineD(3) [OF line1 ix] unfolding holds by auto
  then have "leads ms T es L n'"
    using n' by (simp add: leads_def) (simp add: n1_def mget_def)
  moreover have "commit_index n \<le> commit_index n'" using r(2) n'(8) same by (auto split: option.splits)
  moreover have "\<forall>q. q \<noteq> L \<longrightarrow> mget (match_index n') q 0 = mget (match_index n) q 0"
    using n'(6) by (simp add: n1_def mget_def)
  ultimately show ?thesis using n' by blast
qed

lemma step_appended:
  assumes n: "leads ms T es L n" and ix: "indexed es" and T: "1 \<le> T" and ms: "[] \<notin> set ms" "L \<in> set ms"
    and t: "\<forall>p\<in>set ms. p \<noteq> L \<longrightarrow> tracks n p (h p)"
    and m: "in_office_msg ms T es L h m" and b: "body m = Appended ok mi ct ci rid"
  shows "\<exists>n' out. step n m = Inr (n', out) \<and> leads ms T es L n' \<and> commit_index n \<le> commit_index n' \<and>
    (\<forall>p\<in>set ms. p \<noteq> L \<longrightarrow> tracks n' p (h p)) \<and> (\<forall>q\<in>set out. in_office_msg ms T es L h q) \<and>
    (\<forall>q. q \<noteq> L \<longrightarrow> mget (match_index n) q 0 \<le> mget (match_index n') q 0) \<and>
    mi \<le> mget (match_index n') (sender m) 0 \<and> now n' = now n \<and> heartbeat_due n' = heartbeat_due n"
proof -
  let ?p = "sender m"
  have m': "ok" "m_term m = T" "?p \<in> set ms" "?p \<noteq> L" "mi \<le> h ?p"
    using m b by (simp_all add: in_office_msg_def)
  have line: "in_line ms T es L n" and role: "role n = LEADER" and full: "held n = length es"
    and any: "\<not> commit_any_term n" using n by (simp_all add: leads_def)
  note d = in_lineD [OF line ix]
  have tp: "tracks n ?p (h ?p)" using t m' by blast
  define n1 where "n1 = record_match n ?p mi"
  let ?mi = "max (mget (match_index n) ?p 0) mi"
  have n1: "in_line ms T es L n1" "role n1 = LEADER" "held n1 = length es" "\<not> commit_any_term n1"
    "next_index n1 = (next_index n)(?p \<mapsto> ?mi + 1)" "match_index n1 = (match_index n)(?p \<mapsto> ?mi)"
    "commit_index n1 = commit_index n" "now n1 = now n" "heartbeat_due n1 = heartbeat_due n"
    using line role full any by (simp_all add: n1_def record_match_def Let_def in_line_quiet held_def NO_INDEX_def)
  from advance_commit_in_line [OF n1(1-4) ix] obtain n2 where n2: "advance_commit n1 = Inr n2" "leads ms T es L n2"
    "commit_index n1 \<le> commit_index n2" "next_index n2 = next_index n1"
    "\<forall>q. q \<noteq> L \<longrightarrow> mget (match_index n2) q 0 = mget (match_index n1) q 0" "now n2 = now n1"
    "heartbeat_due n2 = heartbeat_due n1" by blast
  have known: "mget (match_index n) ?p 0 \<le> h ?p"
    using tp by (auto simp: tracks_def split: option.splits)
  have tracks2: "tracks n2 q (h q)" if "q \<in> set ms" "q \<noteq> L" for q
  proof (cases "q = ?p")
    case True
    have "?mi + 1 \<le> h ?p + 1" using known m'(5) by simp
    with True show ?thesis
      unfolding tracks_def n2(4) n1(5) using n2(5) n1(6) m'(4) by (simp add: mget_def)
  next
    case False
    have "mget (match_index n2) q 0 = mget (match_index n) q 0" "next_index n2 q = next_index n q"
      using n2(4,5) n1(5,6) that(2) False by (simp_all add: mget_def)
    then have "tracks n2 q (h q) = tracks n q (h q)" by (simp only: tracks_def)
    with t that show ?thesis by simp
  qed
  have match2: "mget (match_index n2) ?p 0 = ?mi" "\<And>q. q \<noteq> L \<Longrightarrow> mget (match_index n) q 0 \<le> mget (match_index n2) q 0"
    using n2(5) n1(6) m'(4) by (auto simp: mget_def)
  have "step n m = on_appended n m ok mi ct ci"
    using b m'(2) d(3) by (simp add: step_def dispatch_def)
  also have "\<dots> = (if mget (next_index n2) ?p 0 \<le> last_index (log n2)
        then rbind (replicate_to n2 (Some ?p)) (\<lambda>out. Inr (n2, out)) else Inr (n2, []))"
    using role m'(1) n2(1) by (simp add: on_appended_def n1_def)
  finally have step: "step n m = (if mget (next_index n2) ?p 0 \<le> last_index (log n2)
        then rbind (replicate_to n2 (Some ?p)) (\<lambda>out. Inr (n2, out)) else Inr (n2, []))" .
  obtain r where "replicate_one n2 ?p = Inr r" "in_office_msg ms T es L h r"
    using replicate_one_in_line [OF n2(2) ix T m'(3,4) ms(2), of h] tracks2 m'(3,4) by blast
  moreover have "?p \<noteq> []" using ms(1) m'(3) by auto
  ultimately have "replicate_to n2 (Some ?p) = Inr [r]" "\<forall>q\<in>set [r]. in_office_msg ms T es L h q"
    by (simp_all add: replicate_to_def)
  then have "\<exists>out. step n m = Inr (n2, out) \<and> (\<forall>q\<in>set out. in_office_msg ms T es L h q)"
    unfolding step by (cases "mget (next_index n2) ?p 0 \<le> last_index (log n2)") simp_all
  then obtain out where "step n m = Inr (n2, out)" "\<forall>q\<in>set out. in_office_msg ms T es L h q" by blast
  moreover have "mi \<le> mget (match_index n2) ?p 0" using match2(1) by simp
  ultimately show ?thesis
    using n2 n1 tracks2 match2(2) by (intro exI [of _ n2] exI [of _ out]) simp
qed

section \<open>Time and writes\<close>

lemma leads_quiet:
  "leads ms T es p (n\<lparr>now := t\<rparr>) = leads ms T es p n"
  "leads ms T es p (n\<lparr>heartbeat_due := t\<rparr>) = leads ms T es p n"
  "follows ms T es p (n\<lparr>now := t\<rparr>) = follows ms T es p n"
  "tracks (n\<lparr>now := t\<rparr>) q k = tracks n q k"
  "tracks (n\<lparr>heartbeat_due := t\<rparr>) q k = tracks n q k"
  "held (n\<lparr>now := t\<rparr>) = held n" "held (n\<lparr>heartbeat_due := t\<rparr>) = held n"
  by (simp_all add: leads_def follows_def tracks_def in_line_quiet held_def holders_def quorum_def
      split: option.split)

lemma tick_follows:
  "follows ms T es p n \<Longrightarrow> t < election_deadline n \<Longrightarrow> tick n t = Inr (n\<lparr>now := t\<rparr>, [])"
  by (simp add: tick_def follows_def Let_def)

lemma tick_leads:
  assumes n: "leads ms T es L n" and ix: "indexed es" and T: "1 \<le> T" and L: "L \<in> set ms"
    and t: "\<forall>p\<in>set ms. p \<noteq> L \<longrightarrow> tracks n p (h p)"
  shows "\<exists>n' out. tick n k = Inr (n', out) \<and> n' = n\<lparr>now := k, heartbeat_due := heartbeat_due n'\<rparr> \<and>
    (\<forall>m\<in>set out. in_office_msg ms T es L h m) \<and>
    (if k < heartbeat_due n then heartbeat_due n' = heartbeat_due n
     else heartbeat_due n' = k + HEARTBEAT_INTERVAL \<and>
       (\<forall>p\<in>set ms. p \<noteq> L \<longrightarrow> (\<exists>m\<in>set out. sender m = L \<and> recipient m = p)))"
proof (cases "k < heartbeat_due n")
  case True
  with n show ?thesis by (simp add: tick_def leads_def Let_def)
next
  case False
  define n' where "n' = n\<lparr>now := k, heartbeat_due := k + HEARTBEAT_INTERVAL\<rparr>"
  have n': "leads ms T es L n'" "\<forall>p\<in>set ms. p \<noteq> L \<longrightarrow> tracks n' p (h p)"
    using n t by (simp_all add: n'_def leads_quiet)
  from replicate_in_line [OF n'(1) ix T L n'(2)] obtain out where out: "replicate_to n' None = Inr out"
    "\<forall>m\<in>set out. in_office_msg ms T es L h m"
    "\<forall>p\<in>set ms. p \<noteq> L \<longrightarrow> (\<exists>m\<in>set out. sender m = L \<and> recipient m = p)" by blast
  have "tick n k = Inr (n', out)"
    using n False out(1) by (simp add: tick_def leads_def Let_def n'_def)
  then show ?thesis
    using False out(2,3) by (intro exI [of _ n'] exI [of _ out]) (simp add: n'_def)
qed

lemma in_line_snoc: "in_line ms T es p n \<Longrightarrow> in_line ms T (es @ [e]) p n"
  by (simp add: in_line_def)

lemma follows_snoc: "follows ms T es p n \<Longrightarrow> follows ms T (es @ [e]) p n"
  by (simp add: follows_def in_line_snoc)

lemma in_office_msg_snoc:
  assumes "in_office_msg ms T es L h m" "\<forall>p\<in>set ms. p \<noteq> L \<longrightarrow> h p \<le> length es"
  shows "in_office_msg ms T (es @ [e]) L h m"
proof (cases "body m")
  case (Append pi pt fs lc rid)
  with assms(1) have fs: "pi + length fs \<le> length es" "fs = take (length fs) (drop pi es)"
    by (simp_all add: in_office_msg_def)
  then have "take (length fs) (drop pi (es @ [e])) = fs" by simp
  with assms(1) Append fs(1) show ?thesis
    by (auto simp: in_office_msg_def term_of_append1)
qed (use assms in \<open>auto simp: in_office_msg_def\<close>)

lemma in_office_msg_mono:
  assumes "in_office_msg ms T es L h m" "\<And>p. p \<in> set ms \<Longrightarrow> p \<noteq> L \<Longrightarrow> h p \<le> k p"
  shows "in_office_msg ms T es L k m"
proof (cases "body m")
  case (Append pi pt fs lc rid)
  then have "h (recipient m) \<le> k (recipient m)"
    using assms(1) assms(2) [of "recipient m"] by (simp add: in_office_msg_def)
  with assms(1) Append show ?thesis by (auto simp: in_office_msg_def)
next
  case (Appended ok mi ct ci rid)
  then have "h (sender m) \<le> k (sender m)"
    using assms(1) assms(2) [of "sender m"] by (simp add: in_office_msg_def)
  with assms(1) Appended show ?thesis by (auto simp: in_office_msg_def)
qed (use assms(1) in \<open>simp_all add: in_office_msg_def\<close>)

lemma tracks_mono: "tracks n p h \<Longrightarrow> h \<le> k \<Longrightarrow> tracks n p k"
  by (auto simp: tracks_def split: option.splits)

lemma propose_in_line:
  assumes n: "leads ms T es L n" and ix: "indexed es" and T: "1 \<le> T" "term_of es (length es) \<le> T"
    and ms: "distinct ms" "L \<in> set ms"
    and t: "\<forall>p\<in>set ms. p \<noteq> L \<longrightarrow> tracks n p (h p) \<and> h p \<le> length es"
  shows "\<exists>n'. propose n v = Inr (n', length es + 1) \<and>
    leads ms T (es @ [\<lparr>e_term = T, e_index = length es + 1, command = v\<rparr>]) L n' \<and>
    commit_index n \<le> commit_index n' \<and> next_index n' = next_index n \<and>
    (\<forall>q. q \<noteq> L \<longrightarrow> mget (match_index n') q 0 = mget (match_index n) q 0) \<and>
    now n' = now n \<and> heartbeat_due n' = heartbeat_due n"
proof -
  let ?e = "\<lparr>e_term = T, e_index = length es + 1, command = v\<rparr>" and ?N = "length es + 1"
  have line: "in_line ms T es L n" and role: "role n = LEADER" and full: "held n = length es"
    and any: "\<not> commit_any_term n" using n by (simp_all add: leads_def)
  note d = in_lineD [OF line ix]
  have log: "log n = plain es" using d(4) full by simp
  have appended: "append1 (log n) ?e = Inr (plain (es @ [?e]))"
    unfolding log using ix T(2) by (intro append1_plain) simp_all
  have ix': "indexed (es @ [?e])" using ix by (simp add: indexed_append1)
  define n1 where "n1 = n\<lparr>log := plain (es @ [?e]), match_index := (match_index n)(L \<mapsto> ?N)\<rparr>"
  have n1: "in_line ms T (es @ [?e]) L n1" "role n1 = LEADER" "held n1 = length (es @ [?e])" "\<not> commit_any_term n1"
    using d role any full by (simp_all add: n1_def in_line_def held_def)
  have last: "last_index (plain (es @ [?e])) = ?N" using last_index_plain [OF ix'] by simp
  have made: "Entry (current_term n) (last_index (log n) + 1) v = Inr ?e"
    using d(3,10) T(1) full by (simp add: Entry_def)
  have eq: "propose n v = rbind (if length (members n1) = 1 then advance_commit n1 else Inr n1)
      (\<lambda>n2. Inr (n2, ?N))"
    using role d(1) made appended last
    by (simp add: propose_def is_leader_def n1_def Let_def)
  have size: "members n1 = ms" using in_lineD(2) [OF n1(1) ix'] .
  show ?thesis
  proof (cases "length ms = 1")
    case True
    from advance_commit_in_line [OF n1 ix'] True size show ?thesis
      unfolding eq by (auto simp: n1_def mget_def)
  next
    case False
    then have two: "2 \<le> length ms" using ms(2) by (cases ms) (auto simp: Suc_le_eq)
    have other: "mget (match_index n) q 0 \<le> length es" if "q \<in> set ms" "q \<noteq> L" for q
      using t that by (auto simp: tracks_def split: option.splits)
    have alone: "filter (\<lambda>q. ?N \<le> mget (match_index n1) q NO_INDEX) ms = filter (\<lambda>q. q = L) ms"
    proof (rule filter_cong [OF refl])
      fix q assume "q \<in> set ms"
      with other [of q] show "(?N \<le> mget (match_index n1) q NO_INDEX) = (q = L)"
        by (cases "q = L") (auto simp: n1_def mget_def NO_INDEX_def)
    qed
    have "length (filter (\<lambda>q. q = L) ms) = 1"
      using ms by (induction ms) (auto simp: filter_empty_conv)
    then have new: "holders n1 ?N = 1" using size alone by (simp add: holders_def)
    have old: "holders n1 i = holders n i" if "i \<le> length es" for i
    proof -
      have "filter (\<lambda>q. i \<le> mget (match_index n1) q NO_INDEX) ms = filter (\<lambda>q. i \<le> mget (match_index n) q NO_INDEX) ms"
        using n that by (intro filter_cong [OF refl]) (auto simp: n1_def mget_def leads_def NO_INDEX_def)
      then show ?thesis using size d(2) by (simp add: holders_def)
    qed
    have few: "\<forall>i\<in>set [commit_index n1 + 1..<length (es @ [?e]) + 1]. term_of (es @ [?e]) i = T \<longrightarrow> holders n1 i < quorum n1"
    proof (intro ballI impI)
      fix i assume i: "i \<in> set [commit_index n1 + 1..<length (es @ [?e]) + 1]" "term_of (es @ [?e]) i = T"
      show "holders n1 i < quorum n1"
      proof (cases "i = ?N")
        case True
        with new size two show ?thesis by (simp add: quorum_def)
      next
        case False
        with i have i': "commit_index n < i" "i \<le> length es" "term_of es i = T"
          by (auto simp: n1_def term_of_append1)
        then have "i \<in> set [commit_index n + 1..<length es + 1]" by auto
        with n i'(3) have "holders n i < quorum n" unfolding leads_def by blast
        with old [OF i'(2)] size d(2) show ?thesis by (simp add: quorum_def)
      qed
    qed
    have "leads ms T (es @ [?e]) L n1"
      unfolding leads_def using n1 few by (simp add: n1_def mget_def)
    with False show ?thesis unfolding eq size by (simp add: n1_def mget_def)
  qed
qed

end
