(* ===== verification/Steady_Cluster.thy ===== *)
theory Steady_Cluster
  imports Steady_Leader
begin

text \<open>
  A cluster in office, tick by tick, on the shipped network: nothing is lost and everything lands a
  tick later. The leader's beat reaches every follower before its timer runs out, so the office is
  never contested; what the leader writes is with every follower a tick later and committed a tick
  after that.
\<close>

section \<open>A cluster in office\<close>

definition on_wire :: "cluster \<Rightarrow> message set" where
  "on_wire c = packet ` set (flight (net c))"

definition heard_of :: "cluster \<Rightarrow> name \<Rightarrow> name \<Rightarrow> nat" where
  "heard_of c L p = mget (match_index (nodes c L)) p 0"

text \<open>\<open>M\<close> are the messages landing in this tick.\<close>

definition in_office ::
  "name list \<Rightarrow> name \<Rightarrow> nat \<Rightarrow> entry list \<Rightarrow> message set \<Rightarrow> cluster \<Rightarrow> bool" where
  "in_office ms L T es M c \<longleftrightarrow> cmembers c = ms \<and> distinct ms \<and> [] \<notin> set ms \<and> L \<in> set ms \<and> 1 \<le> T \<and>
     indexed es \<and> term_of es (length es) = T \<and> down c = {} \<and>
     on_net (net c) = ms \<and> sides (net c) = [] \<and> links (net c) = default_conditions \<and>
     leads ms T es L (nodes c L) \<and>
     (\<forall>p\<in>set ms. p \<noteq> L \<longrightarrow> follows ms T es p (nodes c p) \<and> tracks (nodes c L) p (held (nodes c p))) \<and>
     (\<forall>m\<in>M \<union> on_wire c. in_office_msg ms T es L (\<lambda>p. held (nodes c p)) m)"

definition prompt :: "cluster \<Rightarrow> bool" where
  "prompt c \<longleftrightarrow> (\<forall>f\<in>set (flight (net c)). due_at f = Suc (net_now (net c)))"

text \<open>Every follower hears of the leader before its timer can run out.\<close>

definition on_time :: "name \<Rightarrow> cluster \<Rightarrow> bool" where
  "on_time L c \<longleftrightarrow> cnow c < heartbeat_due (nodes c L) \<and>
     heartbeat_due (nodes c L) \<le> cnow c + HEARTBEAT_INTERVAL \<and>
     (\<forall>p\<in>set (cmembers c). p \<noteq> L \<longrightarrow> now (nodes c p) = cnow c \<and>
        (heartbeat_due (nodes c L) < election_deadline (nodes c p) \<or>
         (\<exists>m\<in>on_wire c. sender m = L \<and> recipient m = p)))"

definition office :: "name list \<Rightarrow> name \<Rightarrow> nat \<Rightarrow> entry list \<Rightarrow> cluster \<Rightarrow> bool" where
  "office ms L T es c \<longleftrightarrow> in_office ms L T es {} c \<and> prompt c \<and> on_time L c \<and> last_leader c = Some L"

section \<open>Sending\<close>

definition posted :: "message list \<Rightarrow> cluster \<Rightarrow> cluster \<Rightarrow> bool" where
  "posted out c c' \<longleftrightarrow> c' = c\<lparr>net := net c'\<rparr> \<and> on_net (net c') = on_net (net c) \<and>
     sides (net c') = sides (net c) \<and> links (net c') = links (net c) \<and> net_now (net c') = net_now (net c) \<and>
     on_wire c' = on_wire c \<union> set out \<and> (prompt c \<longrightarrow> prompt c')"

lemma send1_posted:
  assumes "down c = {}" "sides (net c) = []" "links (net c) = default_conditions"
    and m: "sender m \<in> set (on_net (net c))" "recipient m \<in> set (on_net (net c))"
  shows "\<exists>c'. send1 m c = Inr c' \<and> posted [m] c c'"
proof -
  obtain ok w where w: "net_send (net c) m = Inr (ok, w)" using net_send_total [OF m] by blast
  have lossless: "\<not> dyadic_less (fst (random_draw g)) (0, 0)" for g by (simp add: random_draw_def)
  have "flight w \<noteq> flight (net c)"
    using w m assms(2,3) lossless
    by (auto simp: net_send_def Let_def reachable_def default_conditions_def random_draw_def
        split: if_splits prod.splits)
  with net_send_flight [OF w] assms(3) have "flight w = flight (net c) @ [\<lparr>packet = m, sent_at = net_now (net c),
      due_at = net_now (net c) + 1, sequence = net_sequence (net c) + 1\<rparr>]"
    by (auto simp: default_conditions_def BASE_DELAY_def)
  with w net_send_keeps [OF w] assms(1) show ?thesis
    by (auto simp: send1_def posted_def on_wire_def prompt_def)
qed

lemma posted_refl: "posted [] c c"
  by (simp add: posted_def)

lemma posted_trans: "posted out c c' \<Longrightarrow> posted out' c' c'' \<Longrightarrow> posted (out @ out') c c''"
proof -
  assume a: "posted out c c'" and b: "posted out' c' c''"
  have "c'' = (c\<lparr>net := net c'\<rparr>)\<lparr>net := net c''\<rparr>" using a b unfolding posted_def by metis
  then have "c'' = c\<lparr>net := net c''\<rparr>" by simp
  with a b show "posted (out @ out') c c''" unfolding posted_def by auto
qed

lemma send_all_posted:
  assumes "down c = {}" "sides (net c) = []" "links (net c) = default_conditions"
    and "\<forall>m\<in>set out. sender m \<in> set (on_net (net c)) \<and> recipient m \<in> set (on_net (net c))"
  shows "\<exists>c'. send_all c out = Inr c' \<and> posted out c c'"
  using assms
proof (induction out arbitrary: c)
  case Nil
  then show ?case by (simp add: send_all_def posted_refl)
next
  case (Cons m out)
  obtain c1 where c1: "send1 m c = Inr c1" "posted [m] c c1"
    using send1_posted [of c m] Cons.prems by auto
  then have "down c1 = {}" "sides (net c1) = []" "links (net c1) = default_conditions" "on_net (net c1) = on_net (net c)"
    using Cons.prems(1-3) by (simp_all add: posted_def) (metis cluster.select_convs(7) cluster.surjective cluster.update_convs(4))
  with Cons.IH [of c1] Cons.prems(4) obtain c' where "send_all c1 out = Inr c'" "posted out c1 c'" by auto
  with c1 posted_trans [OF c1(2), of out c'] show ?case by (auto simp: send_all_def)
qed

section \<open>One handler\<close>

lemma in_officeD:
  assumes "in_office ms L T es M c"
  shows "cmembers c = ms" "distinct ms" "[] \<notin> set ms" "L \<in> set ms" "1 \<le> T" "indexed es"
    "term_of es (length es) = T" "down c = {}" "on_net (net c) = ms" "sides (net c) = []"
    "links (net c) = default_conditions" "leads ms T es L (nodes c L)"
    "\<And>p. p \<in> set ms \<Longrightarrow> p \<noteq> L \<Longrightarrow> follows ms T es p (nodes c p)"
    "\<And>p. p \<in> set ms \<Longrightarrow> p \<noteq> L \<Longrightarrow> tracks (nodes c L) p (held (nodes c p))"
    "\<And>m. m \<in> M \<Longrightarrow> in_office_msg ms T es L (\<lambda>p. held (nodes c p)) m"
    "\<And>m. m \<in> on_wire c \<Longrightarrow> in_office_msg ms T es L (\<lambda>p. held (nodes c p)) m"
  using assms by (simp_all add: in_office_def)

lemma in_office_less: "in_office ms L T es M c \<Longrightarrow> N \<subseteq> M \<Longrightarrow> in_office ms L T es N c"
  unfolding in_office_def by blast

text \<open>What a handler leaves alone, and what it can only add to.\<close>

definition carried :: "name list \<Rightarrow> name \<Rightarrow> cluster \<Rightarrow> cluster \<Rightarrow> bool" where
  "carried ms L c c' \<longleftrightarrow> c' = c\<lparr>net := net c', nodes := nodes c'\<rparr> \<and> net_now (net c') = net_now (net c) \<and>
     on_wire c \<subseteq> on_wire c' \<and> (prompt c \<longrightarrow> prompt c') \<and>
     (\<forall>p. p \<noteq> L \<longrightarrow> heard_of c L p \<le> heard_of c' L p) \<and>
     commit_index (nodes c L) \<le> commit_index (nodes c' L)"

lemma carried_refl: "carried ms L c c"
  by (simp add: carried_def)

lemma carried_trans: "carried ms L c d \<Longrightarrow> carried ms L d e \<Longrightarrow> carried ms L c e"
proof -
  assume a: "carried ms L c d" and b: "carried ms L d e"
  have "e = (c\<lparr>net := net d, nodes := nodes d\<rparr>)\<lparr>net := net e, nodes := nodes e\<rparr>"
    using a b unfolding carried_def by metis
  then have "e = c\<lparr>net := net e, nodes := nodes e\<rparr>" by simp
  with a b show ?thesis unfolding carried_def by (auto intro: order_trans)
qed

lemma carried_same:
  assumes "carried ms L c c'"
  shows "cmembers c' = cmembers c" "down c' = down c" "cnow c' = cnow c" "last_leader c' = last_leader c"
    "check c' = check c" "elections c' = elections c" "history c' = history c"
proof -
  have "c' = c\<lparr>net := net c', nodes := nodes c'\<rparr>" using assms by (simp add: carried_def)
  then show "cmembers c' = cmembers c" "down c' = down c" "cnow c' = cnow c" "last_leader c' = last_leader c"
    "check c' = check c" "elections c' = elections c" "history c' = history c"
    by (metis cluster.select_convs cluster.surjective cluster.update_convs)+
qed

lemma handled_in_office:
  assumes c: "in_office ms L T es M c" and p: "p \<in> set ms" and more: "held (nodes c p) \<le> held n"
    and node: "if p = L then leads ms T es L n \<and> (\<forall>q\<in>set ms. q \<noteq> L \<longrightarrow> tracks n q (held (nodes c q)) \<and>
        heard_of c L q \<le> mget (match_index n) q 0) \<and> commit_index (nodes c L) \<le> commit_index n
      else follows ms T es p n"
    and known: "p = L \<Longrightarrow> \<forall>q. q \<noteq> L \<longrightarrow> heard_of c L q \<le> mget (match_index n) q 0"
    and out: "\<forall>m\<in>set out. in_office_msg ms T es L (\<lambda>q. if q = p then held n else held (nodes c q)) m"
  shows "\<exists>c'. send_all (put_node c p n) out = Inr c' \<and> in_office ms L T es M c' \<and> carried ms L c c' \<and>
    nodes c' = (nodes c)(p := n) \<and> on_wire c' = on_wire c \<union> set out"
proof -
  note d = in_officeD [OF c]
  let ?d = "put_node c p n"
  have same: "down ?d = {}" "sides (net ?d) = []" "links (net ?d) = default_conditions" "on_net (net ?d) = ms"
    using d by (simp_all add: put_node_def)
  have "\<forall>m\<in>set out. sender m \<in> set (on_net (net ?d)) \<and> recipient m \<in> set (on_net (net ?d))"
    using out unfolding same by (auto simp: in_office_msg_def)
  from send_all_posted [OF same(1-3) this] obtain c' where c': "send_all ?d out = Inr c'" "posted out ?d c'" by blast
  then have eq: "c' = ?d\<lparr>net := net c'\<rparr>" by (simp add: posted_def)
  have nodes: "nodes c' = (nodes c)(p := n)" by (subst eq) (simp add: put_node_def)
  have top: "cmembers c' = ms" "down c' = {}" by (subst eq, simp add: put_node_def d(1,8))+
  have wire: "on_wire c' = on_wire c \<union> set out" "net_now (net c') = net_now (net c)" "prompt c \<longrightarrow> prompt c'"
    using c'(2) by (simp_all add: posted_def on_wire_def prompt_def put_node_def)
  let ?h = "\<lambda>q. held (nodes c' q)"
  have h: "?h = (\<lambda>q. if q = p then held n else held (nodes c q))"
    by (rule ext) (simp add: nodes)
  have grown: "held (nodes c q) \<le> ?h q" for q using more by (simp add: nodes)
  have msgs: "in_office_msg ms T es L ?h m" if "m \<in> M \<union> on_wire c'" for m
  proof (cases "m \<in> set out")
    case True
    with out show ?thesis unfolding h by blast
  next
    case False
    with that wire(1) have "m \<in> M \<or> m \<in> on_wire c" by auto
    then have "in_office_msg ms T es L (\<lambda>q. held (nodes c q)) m" using d(15,16) by blast
    then show ?thesis by (rule in_office_msg_mono) (rule grown)
  qed
  have leader: "leads ms T es L (nodes c' L)" using node d(12) by (cases "p = L") (simp_all add: nodes)
  have others: "follows ms T es q (nodes c' q)" "tracks (nodes c' L) q (?h q)" if q: "q \<in> set ms" "q \<noteq> L" for q
  proof -
    show "follows ms T es q (nodes c' q)" using node d(13) [OF q] q(2) by (cases "p = L") (auto simp: nodes)
    have "tracks (nodes c' L) q (held (nodes c q))"
      using node d(14) [OF q] q by (cases "p = L") (simp_all add: nodes)
    then show "tracks (nodes c' L) q (?h q)" by (rule tracks_mono) (rule grown)
  qed
  have "in_office ms L T es M c'"
    unfolding in_office_def using d(2-7) top leader others msgs c'(2) same
    by (simp add: posted_def)
  moreover have "carried ms L c c'"
  proof -
    have "c' = c\<lparr>net := net c', nodes := nodes c'\<rparr>"
      by (subst eq) (simp add: nodes put_node_def)
    moreover have "heard_of c L q \<le> heard_of c' L q" if "q \<noteq> L" for q
      using known that by (cases "p = L") (simp_all add: heard_of_def nodes)
    moreover have "commit_index (nodes c L) \<le> commit_index (nodes c' L)"
      using node by (cases "p = L") (simp_all add: nodes)
    ultimately show ?thesis using wire unfolding carried_def by blast
  qed
  ultimately show ?thesis using c'(1) nodes wire(1) by blast
qed

text \<open>A message that lands.\<close>

lemma deliver_in_office:
  assumes c: "in_office ms L T es M c" and m: "m \<in> M"
  shows "\<exists>c'. deliver m c = Inr c' \<and> in_office ms L T es M c' \<and> carried ms L c c' \<and>
    (\<forall>k p. p \<noteq> L \<longrightarrow> append_to k p m \<longrightarrow> (\<exists>r\<in>on_wire c'. answer_from k p r)) \<and>
    (\<forall>k p. p \<noteq> L \<longrightarrow> answer_from k p m \<longrightarrow> k \<le> heard_of c' L p) \<and>
    heartbeat_due (nodes c' L) = heartbeat_due (nodes c L) \<and>
    (\<forall>p. now (nodes c' p) = now (nodes c p)) \<and>
    (\<forall>p. p \<noteq> L \<longrightarrow> (sender m = L \<and> recipient m = p \<longrightarrow>
         now (nodes c p) + MIN_ELECTION_TIMEOUT \<le> election_deadline (nodes c' p)) \<and>
       (recipient m \<noteq> p \<longrightarrow> election_deadline (nodes c' p) = election_deadline (nodes c p)))"
proof -
  note d = in_officeD [OF c]
  let ?h = "\<lambda>p. held (nodes c p)" and ?p = "recipient m"
  have ok: "in_office_msg ms T es L ?h m" using d(15) m by blast
  then have p: "?p \<in> set ms" by (simp add: in_office_msg_def)
  have eq: "deliver m c = rbind (step (nodes c ?p) m) (\<lambda>(n, out). send_all (put_node c ?p n) out)"
    using d(8) by (simp add: deliver_def)
  from ok consider pi pt fs lc rid where "body m = Append pi pt fs lc rid" "?p \<noteq> L" "sender m = L"
    | ok mi ct ci rid where "body m = Appended ok mi ct ci rid" "?p = L" "sender m \<noteq> L"
    by (auto simp: in_office_msg_def split: payload.splits)
  then show ?thesis
  proof cases
    case 1
    from step_append [OF d(13) [OF p 1(2)] d(6,5) ok refl refl 1(1)] obtain n where
      n: "step (nodes c ?p) m = Inr (n, [\<lparr>sender = ?p, recipient = L, m_term = T,
        body = Appended True (pi + length fs) NO_TERM NO_INDEX rid\<rparr>])"
      "follows ms T es ?p n" "held n = max (held (nodes c ?p)) (pi + length fs)"
      "now n = now (nodes c ?p)" "now (nodes c ?p) + MIN_ELECTION_TIMEOUT \<le> election_deadline n" by blast
    let ?r = "\<lparr>sender = ?p, recipient = L, m_term = T,
        body = Appended True (pi + length fs) NO_TERM NO_INDEX rid\<rparr>"
    have "\<exists>c'. send_all (put_node c ?p n) [?r] = Inr c' \<and> in_office ms L T es M c' \<and> carried ms L c c' \<and>
        nodes c' = (nodes c)(?p := n) \<and> on_wire c' = on_wire c \<union> set [?r]"
      by (rule handled_in_office [OF c p]) (use 1 n p d(4) in \<open>simp_all add: in_office_msg_def\<close>)
    then obtain c' where c': "send_all (put_node c ?p n) [?r] = Inr c'" "in_office ms L T es M c'"
      "carried ms L c c'" "nodes c' = (nodes c)(?p := n)" "?r \<in> on_wire c'" by auto
    have reach: "\<exists>r\<in>on_wire c'. answer_from k q r" if "append_to k q m" for k q
      by (rule bexI [OF _ c'(5)]) (use that 1(1) in simp)
    have none: "\<not> answer_from k q m" for k q using 1(1) by simp
    show ?thesis
      using c' n eq 1(2) reach none
      by (intro exI [of _ c']) (simp del: append_to.simps answer_from.simps)
  next
    case 2
    have track: "\<forall>q\<in>set ms. q \<noteq> L \<longrightarrow> tracks (nodes c L) q (held (nodes c q))" using d(14) by blast
    from step_appended [OF d(12,6,5,3,4) track ok 2(1)] obtain n out where
      n: "step (nodes c L) m = Inr (n, out)" "leads ms T es L n" "commit_index (nodes c L) \<le> commit_index n"
      "\<forall>q\<in>set ms. q \<noteq> L \<longrightarrow> tracks n q (held (nodes c q))" "\<forall>r\<in>set out. in_office_msg ms T es L ?h r"
      "\<forall>q. q \<noteq> L \<longrightarrow> mget (match_index (nodes c L)) q 0 \<le> mget (match_index n) q 0"
      "mi \<le> mget (match_index n) (sender m) 0" "now n = now (nodes c L)"
      "heartbeat_due n = heartbeat_due (nodes c L)" by blast
    have full: "held n = held (nodes c L)" using n(2) d(12) by (simp add: leads_def)
    have "(\<lambda>q. if q = L then held n else held (nodes c q)) = ?h" using full by auto
    then have out: "\<forall>r\<in>set out. in_office_msg ms T es L (\<lambda>q. if q = L then held n else held (nodes c q)) r"
      using n(5) by simp
    have "\<exists>c'. send_all (put_node c L n) out = Inr c' \<and> in_office ms L T es M c' \<and> carried ms L c c' \<and>
        nodes c' = (nodes c)(L := n) \<and> on_wire c' = on_wire c \<union> set out"
      by (rule handled_in_office [OF c d(4) _ _ _ out]) (use n full in \<open>simp_all add: heard_of_def\<close>)
    then obtain c' where c': "send_all (put_node c L n) out = Inr c'" "in_office ms L T es M c'"
      "carried ms L c c'" "nodes c' = (nodes c)(L := n)" by blast
    have none: "\<not> append_to k q m" for k q using 2(1) by simp
    have reach: "k \<le> heard_of c' L q" if "answer_from k q m" for k q
      using that 2(1) n(7) c'(4) by (simp add: heard_of_def)
    show ?thesis
      using c' n(1,8,9) eq 2(2,3) none reach
      by (intro exI [of _ c']) (simp del: append_to.simps answer_from.simps)
  qed
qed

section \<open>What lands in a tick\<close>

lemma rfold_down:
  assumes "\<And>x xs s. P (x # xs) s \<Longrightarrow> \<exists>s'. f x s = Inr s' \<and> P xs s'" "P xs s"
  shows "\<exists>s'. rfold f xs s = Inr s' \<and> P [] s'"
  using assms(2)
proof (induction xs arbitrary: s)
  case (Cons x xs)
  from assms(1) [OF Cons.prems] obtain s1 where "f x s = Inr s1" "P xs s1" by blast
  with Cons.IH [of s1] show ?case by simp
qed simp

text \<open>
  What the leader waits for before a follower counts as holding \<open>k\<close> entries: an append, then its
  answer. \<open>R\<close> are the messages on their way.
\<close>

definition asked :: "name list \<Rightarrow> name \<Rightarrow> nat \<Rightarrow> message set \<Rightarrow> cluster \<Rightarrow> bool" where
  "asked ms L k R c \<longleftrightarrow> (\<forall>p\<in>set ms. p \<noteq> L \<longrightarrow> k \<le> heard_of c L p \<or>
     (\<exists>m\<in>R. answer_from k p m \<or> append_to k p m))"

definition answered :: "name list \<Rightarrow> name \<Rightarrow> nat \<Rightarrow> message set \<Rightarrow> cluster \<Rightarrow> bool" where
  "answered ms L k R c \<longleftrightarrow> (\<forall>p\<in>set ms. p \<noteq> L \<longrightarrow> k \<le> heard_of c L p \<or> (\<exists>m\<in>R. answer_from k p m))"

definition known :: "name list \<Rightarrow> name \<Rightarrow> nat \<Rightarrow> cluster \<Rightarrow> bool" where
  "known ms L k c \<longleftrightarrow> (\<forall>p\<in>set ms. p \<noteq> L \<longrightarrow> k \<le> heard_of c L p)"

definition landing ::
  "name list \<Rightarrow> name \<Rightarrow> nat \<Rightarrow> entry list \<Rightarrow> nat \<Rightarrow> message list \<Rightarrow> cluster \<Rightarrow> message list \<Rightarrow> cluster \<Rightarrow> bool" where
  "landing ms L T es k landed c rest d \<longleftrightarrow> in_office ms L T es (set rest) d \<and> carried ms L c d \<and>
     heartbeat_due (nodes d L) = heartbeat_due (nodes c L) \<and> (\<forall>p. now (nodes d p) = now (nodes c p)) \<and>
     (\<forall>p\<in>set ms. p \<noteq> L \<longrightarrow> heartbeat_due (nodes c L) < election_deadline (nodes d p) \<or>
        (\<exists>m\<in>set rest. sender m = L \<and> recipient m = p)) \<and>
     (asked ms L k (set landed) c \<longrightarrow> (\<forall>p\<in>set ms. p \<noteq> L \<longrightarrow> k \<le> heard_of d L p \<or>
        (\<exists>r\<in>on_wire d. answer_from k p r) \<or> (\<exists>m\<in>set rest. answer_from k p m \<or> append_to k p m))) \<and>
     (answered ms L k (set landed) c \<longrightarrow> answered ms L k (set rest) d)"

lemma landing_step:
  assumes d: "landing ms L T es k landed c (m # rest) d"
    and soon: "\<forall>p\<in>set ms. p \<noteq> L \<longrightarrow> heartbeat_due (nodes c L) < now (nodes c p) + MIN_ELECTION_TIMEOUT"
  shows "\<exists>d'. deliver m d = Inr d' \<and> landing ms L T es k landed c rest d'"
proof -
  have here: "in_office ms L T es (set (m # rest)) d" "m \<in> set (m # rest)"
    using d by (simp_all add: landing_def)
  from deliver_in_office [OF here] obtain d' where
    d': "deliver m d = Inr d'" "in_office ms L T es (set (m # rest)) d'" "carried ms L d d'"
    and append: "\<And>k p. p \<noteq> L \<Longrightarrow> append_to k p m \<Longrightarrow> \<exists>r\<in>on_wire d'. answer_from k p r"
    and answer: "\<And>k p. p \<noteq> L \<Longrightarrow> answer_from k p m \<Longrightarrow> k \<le> heard_of d' L p"
    and due: "heartbeat_due (nodes d' L) = heartbeat_due (nodes d L)" "\<And>p. now (nodes d' p) = now (nodes d p)"
    and reset: "\<And>p. p \<noteq> L \<Longrightarrow> sender m = L \<Longrightarrow> recipient m = p \<Longrightarrow>
         now (nodes d p) + MIN_ELECTION_TIMEOUT \<le> election_deadline (nodes d' p)"
    and kept: "\<And>p. p \<noteq> L \<Longrightarrow> recipient m \<noteq> p \<Longrightarrow> election_deadline (nodes d' p) = election_deadline (nodes d p)"
    by blast
  have before: "carried ms L c d" "heartbeat_due (nodes d L) = heartbeat_due (nodes c L)"
    "\<And>p. now (nodes d p) = now (nodes c p)"
    and timer: "\<And>p. p \<in> set ms \<Longrightarrow> p \<noteq> L \<Longrightarrow> heartbeat_due (nodes c L) < election_deadline (nodes d p) \<or>
        (\<exists>n\<in>set (m # rest). sender n = L \<and> recipient n = p)"
    and ask: "\<And>p. asked ms L k (set landed) c \<Longrightarrow> p \<in> set ms \<Longrightarrow> p \<noteq> L \<Longrightarrow> k \<le> heard_of d L p \<or>
        (\<exists>r\<in>on_wire d. answer_from k p r) \<or> (\<exists>n\<in>set (m # rest). answer_from k p n \<or> append_to k p n)"
    and told: "answered ms L k (set landed) c \<Longrightarrow> answered ms L k (set (m # rest)) d"
    using d unfolding landing_def by blast+
  have more: "heard_of d L p \<le> heard_of d' L p" if "p \<noteq> L" for p
    using d'(3) that by (simp add: carried_def)
  have wire: "on_wire d \<subseteq> on_wire d'" using d'(3) by (simp add: carried_def)
  have from_leader: "sender m = L" if "recipient m = p" "p \<noteq> L" for p
    using in_officeD(15) [OF here] that by (auto simp: in_office_msg_def split: payload.splits)
  have timer': "heartbeat_due (nodes c L) < election_deadline (nodes d' p) \<or>
        (\<exists>n\<in>set rest. sender n = L \<and> recipient n = p)" if p: "p \<in> set ms" "p \<noteq> L" for p
  proof (cases "recipient m = p")
    case True
    have "now (nodes c p) + MIN_ELECTION_TIMEOUT \<le> election_deadline (nodes d' p)"
      using reset [OF p(2) from_leader [OF True p(2)] True] before(3) by simp
    with soon p show ?thesis by fastforce
  next
    case False
    with kept [OF p(2) False] timer [OF p] show ?thesis by auto
  qed
  have ask': "k \<le> heard_of d' L p \<or> (\<exists>r\<in>on_wire d'. answer_from k p r) \<or>
      (\<exists>n\<in>set rest. answer_from k p n \<or> append_to k p n)"
    if "asked ms L k (set landed) c" "p \<in> set ms" "p \<noteq> L" for p
    using ask [OF that] append [OF that(3)] answer [OF that(3)] more [OF that(3)] wire
    by (fastforce simp del: append_to.simps answer_from.simps)
  have told': "answered ms L k (set rest) d'" if "answered ms L k (set landed) c"
    unfolding answered_def
  proof (intro ballI impI)
    fix p assume p: "p \<in> set ms" "p \<noteq> L"
    with told [OF that] have "k \<le> heard_of d L p \<or> answer_from k p m \<or> (\<exists>n\<in>set rest. answer_from k p n)"
      by (auto simp: answered_def simp del: answer_from.simps)
    with more [OF p(2)] answer [OF p(2), of k] show "k \<le> heard_of d' L p \<or> (\<exists>n\<in>set rest. answer_from k p n)"
      by linarith
  qed
  have "in_office ms L T es (set rest) d'" by (rule in_office_less [OF d'(2)]) auto
  then show ?thesis
    using d'(1) carried_trans [OF before(1) d'(3)] due before(2,3) timer' ask' told'
    by (intro exI [of _ d']) (simp add: landing_def del: append_to.simps answer_from.simps)
qed

lemma landed_in_office:
  assumes c: "office ms L T es c" and w: "net_tick (net c) = (landed, w)"
    and c1: "c1 = c\<lparr>cnow := cnow c + 1, net := w\<rparr>"
  shows "\<exists>d. rfold deliver landed c1 = Inr d \<and> in_office ms L T es {} d \<and> carried ms L c1 d \<and> prompt d \<and>
    heartbeat_due (nodes d L) = heartbeat_due (nodes c L) \<and>
    (\<forall>p\<in>set ms. p \<noteq> L \<longrightarrow> heartbeat_due (nodes c L) < election_deadline (nodes d p)) \<and>
    (asked ms L k (on_wire c) c \<longrightarrow> answered ms L k (on_wire d) d) \<and>
    (answered ms L k (on_wire c) c \<longrightarrow> known ms L k d)"
proof -
  have off: "in_office ms L T es {} c" "prompt c" "on_time L c" using c by (simp_all add: office_def)
  note d = in_officeD [OF off(1)]
  note kept = net_tick_keeps [OF w]
  have all: "set landed = on_wire c"
    using kept(8) off(2) by (auto simp: on_wire_def prompt_def)
  have none: "flight w = []" using kept(7) off(2) by (auto simp: prompt_def filter_empty_conv)
  have "in_office ms L T es (set landed) c1"
    using off(1) kept(1,2,3) none unfolding in_office_def all c1 by (simp add: on_wire_def)
  moreover have "\<forall>p\<in>set ms. p \<noteq> L \<longrightarrow> heartbeat_due (nodes c L) < election_deadline (nodes c p) \<or>
        (\<exists>m\<in>set landed. sender m = L \<and> recipient m = p)"
    using off(3) d(1) unfolding on_time_def all by blast
  moreover have same: "asked ms L k R c1 = asked ms L k R c" "answered ms L k R c1 = answered ms L k R c" for R
    by (simp_all add: asked_def answered_def heard_of_def c1)
  ultimately have first: "landing ms L T es k landed c1 landed c1"
    using carried_refl unfolding landing_def asked_def by (auto simp: c1)
  have soon: "\<forall>p\<in>set ms. p \<noteq> L \<longrightarrow> heartbeat_due (nodes c1 L) < now (nodes c1 p) + MIN_ELECTION_TIMEOUT"
    using off(3) d(1) unfolding on_time_def
    by (auto simp: c1 HEARTBEAT_INTERVAL_def MIN_ELECTION_TIMEOUT_def)
  have "\<exists>d. rfold deliver landed c1 = Inr d \<and> landing ms L T es k landed c1 [] d"
    by (rule rfold_down [where P = "landing ms L T es k landed c1"]) (rule landing_step [OF _ soon], assumption, rule first)
  then obtain e where e: "rfold deliver landed c1 = Inr e" "landing ms L T es k landed c1 [] e" by blast
  have "prompt c1" using none by (simp add: prompt_def c1)
  then have "prompt e" using e(2) by (simp add: landing_def carried_def)
  moreover have "asked ms L k (on_wire c) c \<longrightarrow> answered ms L k (on_wire e) e"
    using e(2) unfolding landing_def same all answered_def by auto
  moreover have "answered ms L k (on_wire c) c \<longrightarrow> known ms L k e"
    using e(2) unfolding landing_def same all by (auto simp: answered_def known_def)
  ultimately show ?thesis using e by (intro exI [of _ e]) (simp add: landing_def c1)
qed

section \<open>What every node does with the new time\<close>

definition timing ::
  "name list \<Rightarrow> name \<Rightarrow> nat \<Rightarrow> entry list \<Rightarrow> cluster \<Rightarrow> name list \<Rightarrow> cluster \<Rightarrow> bool" where
  "timing ms L T es c rest d \<longleftrightarrow> in_office ms L T es {} d \<and> carried ms L c d \<and>
     distinct rest \<and> set rest \<subseteq> set ms \<and>
     (\<forall>p\<in>set ms. p \<noteq> L \<longrightarrow> heartbeat_due (nodes c L) < election_deadline (nodes d p)) \<and>
     (\<forall>p\<in>set ms - set rest. now (nodes d p) = cnow c) \<and>
     (if L \<in> set rest \<or> cnow c < heartbeat_due (nodes c L)
      then heartbeat_due (nodes d L) = heartbeat_due (nodes c L)
      else heartbeat_due (nodes d L) = cnow c + HEARTBEAT_INTERVAL \<and>
        (\<forall>p\<in>set ms. p \<noteq> L \<longrightarrow> (\<exists>m\<in>on_wire d. sender m = L \<and> recipient m = p)))"

lemma timing_step:
  assumes d: "timing ms L T es c (p # rest) d" and due: "cnow c \<le> heartbeat_due (nodes c L)"
  shows "\<exists>d'. time_node p d = Inr d' \<and> timing ms L T es c rest d'"
proof -
  have off: "in_office ms L T es {} d" and through: "carried ms L c d" and fresh: "p \<notin> set rest" "distinct rest"
    and sub: "set rest \<subseteq> set ms" and p: "p \<in> set ms" using d by (simp_all add: timing_def)
  have timers: "\<And>q. q \<in> set ms \<Longrightarrow> q \<noteq> L \<Longrightarrow> heartbeat_due (nodes c L) < election_deadline (nodes d q)"
    and clocks: "\<And>q. q \<in> set ms \<Longrightarrow> q \<notin> set (p # rest) \<Longrightarrow> now (nodes d q) = cnow c"
    and beat: "if L \<in> set (p # rest) \<or> cnow c < heartbeat_due (nodes c L)
      then heartbeat_due (nodes d L) = heartbeat_due (nodes c L)
      else heartbeat_due (nodes d L) = cnow c + HEARTBEAT_INTERVAL \<and>
        (\<forall>p\<in>set ms. p \<noteq> L \<longrightarrow> (\<exists>m\<in>on_wire d. sender m = L \<and> recipient m = p))"
    using d unfolding timing_def by blast+
  note o = in_officeD [OF off]
  have t: "cnow d = cnow c" using carried_same(3) [OF through] .
  have eq: "time_node p d = rbind (tick (nodes d p) (cnow c)) (\<lambda>(n, out). send_all (put_node d p n) out)"
    by (simp add: time_node_def t)
  show ?thesis
  proof (cases "p = L")
    case False
    let ?n = "(nodes d p)\<lparr>now := cnow c\<rparr>"
    have n: "tick (nodes d p) (cnow c) = Inr (?n, [])"
      using tick_follows [OF o(13) [OF p False]] timers [OF p False] due by simp
    have "\<exists>d'. send_all (put_node d p ?n) [] = Inr d' \<and> in_office ms L T es {} d' \<and> carried ms L d d' \<and>
        nodes d' = (nodes d)(p := ?n) \<and> on_wire d' = on_wire d \<union> set []"
      by (rule handled_in_office [OF off p]) (use False o(13) [OF p False] in \<open>simp_all add: leads_quiet\<close>)
    then obtain d' where d': "send_all (put_node d p ?n) [] = Inr d'" "in_office ms L T es {} d'" "carried ms L d d'"
        "nodes d' = (nodes d)(p := ?n)" "on_wire d' = on_wire d" by auto
    have "timing ms L T es c rest d'"
      unfolding timing_def using d' carried_trans [OF through d'(3)] fresh sub timers clocks beat False
      by (auto split: if_splits)
    with eq n d'(1) show ?thesis by simp
  next
    case True
    have track: "\<forall>q\<in>set ms. q \<noteq> L \<longrightarrow> tracks (nodes d L) q (held (nodes d q))" using o(14) by blast
    from tick_leads [OF o(12,6,5,4) track, of "cnow c"] obtain n out where
      n: "tick (nodes d L) (cnow c) = Inr (n, out)" "n = (nodes d L)\<lparr>now := cnow c, heartbeat_due := heartbeat_due n\<rparr>"
      "\<forall>m\<in>set out. in_office_msg ms T es L (\<lambda>q. held (nodes d q)) m"
      "if cnow c < heartbeat_due (nodes d L) then heartbeat_due n = heartbeat_due (nodes d L)
       else heartbeat_due n = cnow c + HEARTBEAT_INTERVAL \<and>
       (\<forall>q\<in>set ms. q \<noteq> L \<longrightarrow> (\<exists>m\<in>set out. sender m = L \<and> recipient m = q))" by blast
    have "held n = held (nodes d L)" "now n = cnow c" "match_index n = match_index (nodes d L)"
      "commit_index n = commit_index (nodes d L)" "leads ms T es L n" "tracks n q k = tracks (nodes d L) q k" for q k
      using o(12) by (subst n(2), simp add: leads_quiet)+
    note same = this
    have "(\<lambda>q. if q = L then held n else held (nodes d q)) = (\<lambda>q. held (nodes d q))" using same(1) by auto
    then have out: "\<forall>m\<in>set out. in_office_msg ms T es L (\<lambda>q. if q = L then held n else held (nodes d q)) m"
      using n(3) by simp
    have "\<exists>d'. send_all (put_node d L n) out = Inr d' \<and> in_office ms L T es {} d' \<and> carried ms L d d' \<and>
        nodes d' = (nodes d)(L := n) \<and> on_wire d' = on_wire d \<union> set out"
      by (rule handled_in_office [OF off o(4) _ _ _ out]) (use same track in \<open>simp_all add: heard_of_def\<close>)
    then obtain d' where d': "send_all (put_node d L n) out = Inr d'" "in_office ms L T es {} d'" "carried ms L d d'"
        "nodes d' = (nodes d)(L := n)" "on_wire d' = on_wire d \<union> set out" by blast
    have was: "heartbeat_due (nodes d L) = heartbeat_due (nodes c L)" using beat True by simp
    have "timing ms L T es c rest d'"
      unfolding timing_def using d' carried_trans [OF through d'(3)] fresh sub timers clocks n(4) was True same(2)
      by (auto split: if_splits)
    with eq n(1) d'(1) True show ?thesis by simp
  qed
qed

section \<open>A tick\<close>

lemma leader_in_office:
  assumes "in_office ms L T es M c"
  shows "cluster_leader c = Some (nodes c L)" "name (nodes c L) = L"
proof -
  note d = in_officeD [OF assms]
  have "role (nodes c L) = LEADER" using d(12) by (simp add: leads_def)
  moreover have "role (nodes c p) \<noteq> LEADER" if "p \<in> set ms" "p \<noteq> L" for p
    using d(13) [OF that] by (simp add: follows_def)
  ultimately have "filter (\<lambda>p. role (nodes c p) = LEADER) ms = filter (\<lambda>p. p = L) ms"
    by (intro filter_cong [OF refl]) auto
  also have "\<dots> = [L]" using d(2,4) by (induction ms) (auto simp: filter_empty_conv)
  finally have "filter (\<lambda>n. role n = LEADER) (map (nodes c) (up c)) = [nodes c L]"
    using d(1,8) by (simp add: up_def filter_map o_def)
  then show "cluster_leader c = Some (nodes c L)" by (simp add: cluster_leader_def)
  show "name (nodes c L) = L" using d(12) by (simp add: leads_def in_line_def)
qed

lemma line_in_office:
  assumes "in_office ms L T es M c" "p \<in> set ms"
  shows "in_line ms T es p (nodes c p)"
  using in_officeD(12,13) [OF assms(1)] assms(2) by (cases "p = L") (auto simp: leads_def follows_def)

lemma verify_in_office:
  assumes c: "in_office ms L T es {} c"
  shows "verify c (take_moment c) = Inr ()"
proof (rule verify_ok(2))
  note d = in_officeD [OF c]
  have up: "up c = ms" using d(1,8) by (simp add: up_def)
  show "distinct (cmembers c)" using d(1,2) by simp
  show "p = q" if "p \<in> set (up c)" "q \<in> set (up c)" "role (nodes c p) = LEADER" "role (nodes c q) = LEADER" for p q
    using that d(13) unfolding up follows_def by (metis role.distinct(3))
  have es: "set (entries (log (nodes c p))) \<subseteq> set es" if "p \<in> set (up c)" for p
    using line_in_office [OF c] that unfolding up in_line_def by (metis entries_plain set_take_subset)
  show "e = f" if "p \<in> set (up c)" "q \<in> set (up c)" "e \<in> set (entries (log (nodes c p)))"
    "f \<in> set (entries (log (nodes c q)))" "e_index e = e_index f" for p q e f
  proof -
    have "e \<in> set es" "f \<in> set es" using es that by blast+
    then obtain i j where "i < length es" "e = es ! i" "j < length es" "f = es ! j"
      by (auto simp: in_set_conv_nth)
    with that(5) d(6) show ?thesis by (simp add: indexed_def)
  qed
  have short: "shortest c \<le> length (applied (nodes c p))" if "p \<in> set (up c)" for p
    using that by (auto simp: shortest_def)
  show "applied (nodes c p) ! i = applied (nodes c q) ! i"
    if "p \<in> set (up c)" "q \<in> set (up c)" "i < shortest c" for i p q
  proof -
    have "applied (nodes c r) ! i = es ! i" if r: "r \<in> set (up c)" for r
    proof -
      have "applied (nodes c r) = take (commit_index (nodes c r)) es"
        using line_in_office [OF c] r unfolding up in_line_def by blast
      with short [OF r] \<open>i < shortest c\<close> show ?thesis by simp
    qed
    with that show ?thesis by simp
  qed
qed

lemma tick_in_office:
  assumes c: "office ms L T es c"
  shows "\<exists>c'. cluster_tick c = Inr c' \<and> office ms L T es c' \<and> cnow c' = Suc (cnow c) \<and> check c' = check c \<and>
    elections c' = elections c \<and> (known ms L k c \<longrightarrow> known ms L k c') \<and>
    (asked ms L k (on_wire c) c \<longrightarrow> answered ms L k (on_wire c') c') \<and>
    (answered ms L k (on_wire c) c \<longrightarrow> known ms L k c')"
proof -
  obtain landed w where w: "net_tick (net c) = (landed, w)" by fastforce
  define c1 where "c1 = c\<lparr>cnow := cnow c + 1, net := w\<rparr>"
  from landed_in_office [OF c w c1_def, of k] obtain d where
    d: "rfold deliver landed c1 = Inr d" "in_office ms L T es {} d" "carried ms L c1 d" "prompt d"
    "heartbeat_due (nodes d L) = heartbeat_due (nodes c L)"
    "\<forall>p\<in>set ms. p \<noteq> L \<longrightarrow> heartbeat_due (nodes c L) < election_deadline (nodes d p)"
    "asked ms L k (on_wire c) c \<longrightarrow> answered ms L k (on_wire d) d"
    "answered ms L k (on_wire c) c \<longrightarrow> known ms L k d" by blast
  have t: "cnow d = Suc (cnow c)" using carried_same(3) [OF d(3)] by (simp add: c1_def)
  have timer: "on_time L c" "last_leader c = Some L" using c by (simp_all add: office_def)
  then have due: "cnow d \<le> heartbeat_due (nodes d L)" "heartbeat_due (nodes d L) \<le> cnow d + HEARTBEAT_INTERVAL"
    using d(5) t by (simp_all add: on_time_def)
  have up: "up d = ms" using in_officeD(1,8) [OF d(2)] by (simp add: up_def)
  have "timing ms L T es d ms d"
    using d(2,5,6) carried_refl in_officeD(2,4) [OF d(2)] unfolding timing_def by auto
  then have "\<exists>e. rfold time_node ms d = Inr e \<and> timing ms L T es d [] e"
    by (intro rfold_down [where P = "timing ms L T es d"]) (rule timing_step [OF _ due(1)], assumption)
  then obtain e where e: "rfold time_node (up d) d = Inr e" "timing ms L T es d [] e" using up by auto
  have off: "in_office ms L T es {} e" and through: "carried ms L d e"
    and still: "\<forall>p\<in>set ms. p \<noteq> L \<longrightarrow> heartbeat_due (nodes d L) < election_deadline (nodes e p)"
    and clocks: "\<forall>p\<in>set ms. now (nodes e p) = cnow d"
    and beat: "if cnow d < heartbeat_due (nodes d L) then heartbeat_due (nodes e L) = heartbeat_due (nodes d L)
      else heartbeat_due (nodes e L) = cnow d + HEARTBEAT_INTERVAL \<and>
        (\<forall>p\<in>set ms. p \<noteq> L \<longrightarrow> (\<exists>m\<in>on_wire e. sender m = L \<and> recipient m = p))"
    using e(2) by (simp_all add: timing_def)
  have cs: "carried ms L c1 e" by (rule carried_trans [OF d(3) through])
  note same = carried_same [OF cs]
  have wire: "on_wire d \<subseteq> on_wire e" "prompt e" and more: "\<And>p. p \<noteq> L \<Longrightarrow> heard_of d L p \<le> heard_of e L p"
    and all: "\<And>p. p \<noteq> L \<Longrightarrow> heard_of c L p \<le> heard_of e L p"
    using through d(4) cs by (simp_all add: carried_def c1_def heard_of_def)
  define c' where "c' = e\<lparr>history := history e @ [take_moment e]\<rparr>"
  have "advance c = Inr c'"
    unfolding advance_def w prod.case Let_def c1_def [symmetric] d(1) rbind.simps e(1)
    using leader_in_office [OF off] same(4) timer(2) by (simp add: c'_def c1_def)
  moreover have moment: "take_moment c' = take_moment e" by (simp add: c'_def take_moment_def up_def)
  have off': "in_office ms L T es {} c'" using off by (simp add: in_office_def c'_def on_wire_def)
  moreover have "verify c' (take_moment c') = Inr ()" by (rule verify_in_office [OF off'])
  ultimately have tick: "cluster_tick c = Inr c'" by (simp add: cluster_tick_def)
  have "on_time L e"
    using due clocks still beat t same(1,3) in_officeD(1) [OF off] timer(1) d(5)
    unfolding on_time_def by (auto simp: c1_def HEARTBEAT_INTERVAL_def split: if_splits)
  moreover have "on_time L c' = on_time L e" "prompt c' = prompt e"
    by (simp_all add: on_time_def prompt_def c'_def on_wire_def)
  ultimately have "office ms L T es c'"
    using off' wire(2) same(4) timer(2) by (simp add: office_def) (simp add: c'_def c1_def)
  moreover have "known ms L k c \<longrightarrow> known ms L k e" "known ms L k d \<longrightarrow> known ms L k e"
    using all more by (auto simp: known_def intro: order_trans)
  moreover have "answered ms L k (on_wire d) d \<longrightarrow> answered ms L k (on_wire e) e"
    using more wire(1) unfolding answered_def by (meson order_trans subsetD)
  moreover have "known ms L k c' = known ms L k e" "answered ms L k (on_wire c') c' = answered ms L k (on_wire e) e"
    by (simp_all add: known_def answered_def heard_of_def c'_def on_wire_def)
  ultimately show ?thesis
    using tick d(7,8) same(3,5,6) by (intro exI [of _ c']) (simp add: c'_def c1_def)
qed

lemma committed_in_office:
  assumes c: "in_office ms L T es M c" and k: "known ms L (length es) c"
  shows "commit_index (nodes c L) = length es"
proof (rule ccontr)
  assume ne: "commit_index (nodes c L) \<noteq> length es"
  note d = in_officeD [OF c]
  have lead: "in_line ms T es L (nodes c L)" "held (nodes c L) = length es"
    "mget (match_index (nodes c L)) L 0 = length es"
    "\<forall>i\<in>set [commit_index (nodes c L) + 1..<length es + 1]. term_of es i = T \<longrightarrow>
      holders (nodes c L) i < quorum (nodes c L)"
    using d(12) by (simp_all add: leads_def)
  have "commit_index (nodes c L) \<le> length es" using in_lineD(6) [OF lead(1) d(6)] lead(2) by simp
  with ne have "length es \<in> set [commit_index (nodes c L) + 1..<length es + 1]" by simp
  with lead(4) d(7) have "holders (nodes c L) (length es) < quorum (nodes c L)" by blast
  moreover have "length es \<le> mget (match_index (nodes c L)) p NO_INDEX" if "p \<in> set ms" for p
    using k that lead(3) by (cases "p = L") (simp_all add: known_def heard_of_def NO_INDEX_def)
  then have "holders (nodes c L) (length es) = length ms"
    using in_lineD(2) [OF lead(1) d(6)] by (simp add: holders_def)
  moreover have "0 < length ms" using d(4) by auto
  then have "length ms div 2 < length ms" by simp
  ultimately show False using in_lineD(2) [OF lead(1) d(6)] by (simp add: quorum_def)
qed

section \<open>A write\<close>

lemma propose_in_office:
  assumes c: "office ms L T es c"
  shows "\<exists>c'. cluster_propose c v = Inr (length es + 1, c') \<and>
    office ms L T (es @ [\<lparr>e_term = T, e_index = length es + 1, command = v\<rparr>]) c' \<and>
    cnow c' = cnow c \<and> check c' = check c \<and> elections c' = elections c \<and>
    (known ms L (length es) c \<longrightarrow> asked ms L (length es + 1) (on_wire c') c')"
proof -
  let ?e = "\<lparr>e_term = T, e_index = length es + 1, command = v\<rparr>"
  let ?es = "es @ [?e]"
  have off: "in_office ms L T es {} c" "prompt c" "on_time L c" "last_leader c = Some L"
    using c by (simp_all add: office_def)
  note d = in_officeD [OF off(1)]
  have line: "in_line ms T es p (nodes c p)" if "p \<in> set ms" for p by (rule line_in_office [OF off(1) that])
  have short: "held (nodes c p) \<le> length es" if "p \<in> set ms" for p
    by (rule in_lineD(5) [OF line [OF that] d(6)])
  have track: "\<forall>p\<in>set ms. p \<noteq> L \<longrightarrow> tracks (nodes c L) p (held (nodes c p)) \<and> held (nodes c p) \<le> length es"
    using d(14) short by blast
  have "term_of es (length es) \<le> T" using d(7) by simp
  from propose_in_line [OF d(12,6,5) this d(2,4) track, of v] obtain n where
    n: "propose (nodes c L) v = Inr (n, length es + 1)" "leads ms T ?es L n"
    "next_index n = next_index (nodes c L)" "\<forall>q. q \<noteq> L \<longrightarrow> mget (match_index n) q 0 = mget (match_index (nodes c L)) q 0"
    "now n = now (nodes c L)" "heartbeat_due n = heartbeat_due (nodes c L)" by blast
  let ?d = "put_node c L n"
  have nodes: "nodes ?d = (nodes c)(L := n)" by (simp add: put_node_def)
  have ix: "indexed ?es" using d(6) by (simp add: indexed_append1)
  have top: "term_of ?es (length ?es) = T" by (simp add: term_of_def)
  have tr: "tracks n p (held (nodes c p))" if "p \<in> set ms" "p \<noteq> L" for p
  proof -
    have "mget (match_index n) p 0 = mget (match_index (nodes c L)) p 0" using n(4) that(2) by blast
    then have "tracks n p (held (nodes c p)) = tracks (nodes c L) p (held (nodes c p))"
      using n(3) by (simp only: tracks_def)
    with track that show ?thesis by blast
  qed
  have grown: "held (nodes c p) \<le> held (nodes ?d p)" if "p \<in> set ms" for p
    using short [OF d(4)] n(2) by (simp add: nodes leads_def)
  have msgs: "in_office_msg ms T ?es L (\<lambda>p. held (nodes ?d p)) m" if "m \<in> on_wire c" for m
  proof -
    have "in_office_msg ms T ?es L (\<lambda>p. held (nodes c p)) m"
      by (rule in_office_msg_snoc [OF d(16) [OF that]]) (use short in blast)
    then show ?thesis by (rule in_office_msg_mono) (rule grown)
  qed
  have "in_office ms L T ?es {} ?d"
    unfolding in_office_def using d(1-5,8-11) ix top n(2) tr msgs follows_snoc [OF d(13)]
    by (simp add: put_node_def on_wire_def)
  note mid = this
  have at: "nodes ?d L = n" by (simp add: nodes)
  have track': "\<forall>p\<in>set ms. p \<noteq> L \<longrightarrow> tracks n p (held (nodes ?d p))" using tr by (simp add: nodes)
  from replicate_in_line [OF n(2) ix d(5,4) track'] obtain out where
    out: "replicate_to n None = Inr out" "\<forall>m\<in>set out. in_office_msg ms T ?es L (\<lambda>p. held (nodes ?d p)) m"
    "\<forall>p\<in>set ms. p \<noteq> L \<longrightarrow> (\<exists>m\<in>set out. sender m = L \<and> recipient m = p \<and>
       (length ?es < mget (match_index n) p 0 + 1 + MAX_BATCH \<longrightarrow> append_to (length ?es) p m))" by blast
  have "(\<lambda>q. if q = L then held n else held (nodes ?d q)) = (\<lambda>q. held (nodes ?d q))" by (auto simp: nodes)
  then have out': "\<forall>m\<in>set out. in_office_msg ms T ?es L (\<lambda>q. if q = L then held n else held (nodes ?d q)) m"
    using out(2) by simp
  have "\<exists>c'. send_all (put_node ?d L n) out = Inr c' \<and> in_office ms L T ?es {} c' \<and> carried ms L ?d c' \<and>
      nodes c' = (nodes ?d)(L := n) \<and> on_wire c' = on_wire ?d \<union> set out"
    by (rule handled_in_office [OF mid d(4) _ _ _ out']) (use n(2) track' in \<open>simp_all add: at heard_of_def\<close>)
  moreover have "put_node ?d L n = ?d" by (simp add: put_node_def)
  ultimately obtain c' where c': "send_all ?d out = Inr c'" "in_office ms L T ?es {} c'" "carried ms L ?d c'"
      "nodes c' = (nodes c)(L := n)" "on_wire c' = on_wire c \<union> set out" by (auto simp: nodes on_wire_def put_node_def)
  note same = carried_same [OF c'(3)]
  have "cluster_propose c v = Inr (length es + 1, c')"
    using leader_in_office [OF off(1)] n(1) out(1) c'(1) by (simp add: cluster_propose_def)
  moreover have "on_time L c'"
    using off(3) n(5,6) c'(4,5) same(1,3) unfolding on_time_def by (auto simp: put_node_def)
  moreover have "prompt c'" using c'(3) off(2) by (simp add: carried_def prompt_def put_node_def)
  moreover have "last_leader c' = Some L" using same(4) off(4) by (simp add: put_node_def)
  moreover have "asked ms L (length es + 1) (on_wire c') c'" if "known ms L (length es) c"
    unfolding asked_def
  proof (intro ballI impI disjI2)
    fix p assume p: "p \<in> set ms" "p \<noteq> L"
    have "length es \<le> mget (match_index (nodes c L)) p 0" "mget (match_index n) p 0 = mget (match_index (nodes c L)) p 0"
      using that n(4) p by (simp_all add: known_def heard_of_def)
    then have "length ?es < mget (match_index n) p 0 + 1 + MAX_BATCH" by (simp add: MAX_BATCH_def)
    with out(3) p obtain m where "m \<in> set out" "append_to (length ?es) p m" by blast
    then show "\<exists>m\<in>on_wire c'. answer_from (length es + 1) p m \<or> append_to (length es + 1) p m"
      using c'(5) by (intro bexI [of _ m]) (simp_all del: append_to.simps answer_from.simps)
  qed
  ultimately show ?thesis
    using c'(2) same(3,5,6) by (intro exI [of _ c']) (simp add: office_def put_node_def)
qed

section \<open>The office lasts and its writes commit\<close>

lemma run_in_office:
  assumes "office ms L T es c"
  shows "\<exists>c'. cluster_run j c = Inr c' \<and> office ms L T es c' \<and> cnow c' = cnow c + j \<and>
    elections c' = elections c \<and> (known ms L k c \<longrightarrow> known ms L k c')"
  using assms
proof (induction j arbitrary: c)
  case (Suc j)
  from tick_in_office [OF Suc.prems, of k] obtain d where d: "cluster_tick c = Inr d" "office ms L T es d"
    "cnow d = Suc (cnow c)" "elections d = elections c" "known ms L k c \<longrightarrow> known ms L k d" by blast
  from Suc.IH [OF d(2)] d show ?case by auto
qed simp

lemma run_until_known:
  assumes c: "office ms L T es c" and k: "asked ms L k (on_wire c) c"
  shows "\<exists>c'. cluster_run (Suc (Suc j)) c = Inr c' \<and> office ms L T es c' \<and> cnow c' = cnow c + j + 2 \<and>
    elections c' = elections c \<and> known ms L k c'"
proof -
  from tick_in_office [OF c, of k] k obtain d where d: "cluster_tick c = Inr d" "office ms L T es d"
    "cnow d = Suc (cnow c)" "elections d = elections c" "answered ms L k (on_wire d) d" by blast
  from tick_in_office [OF d(2), of k] d(5) obtain e where e: "cluster_tick d = Inr e" "office ms L T es e"
    "cnow e = Suc (cnow d)" "elections e = elections d" "known ms L k e" by blast
  from run_in_office [OF e(2), of j k] d(1,3,4) e show ?thesis by auto
qed

lemma known_logs:
  assumes c: "in_office ms L T es M c" and k: "known ms L (length es) c" and p: "p \<in> set ms"
  shows "log (nodes c p) = plain es"
proof -
  note d = in_officeD [OF c]
  have line: "in_line ms T es p (nodes c p)" by (rule line_in_office [OF c p])
  have "length es \<le> held (nodes c p)"
  proof (cases "p = L")
    case True
    with d(12) show ?thesis by (simp add: leads_def)
  next
    case False
    with k p have "length es \<le> heard_of c L p" by (simp add: known_def)
    with d(14) [OF p False] show ?thesis by (auto simp: tracks_def heard_of_def split: option.splits)
  qed
  with in_lineD(4,5) [OF line d(6)] show ?thesis by simp
qed

lemma state_in_office:
  assumes c: "in_office ms L T es M c" and k: "known ms L (length es) c"
  shows "state (nodes c L) = replay es" "applied (nodes c L) = es"
proof -
  have "in_line ms T es L (nodes c L)" using line_in_office [OF c in_officeD(4) [OF c]] .
  with committed_in_office [OF c k] show "state (nodes c L) = replay es" "applied (nodes c L) = es"
    by (simp_all add: in_line_def)
qed

lemma write_in_office:
  assumes c: "office ms L T es c" and k: "known ms L (length es) c"
  shows "\<exists>c1. cluster_propose c v = Inr (length es + 1, c1) \<and>
    (\<exists>c2. cluster_run (j + 2) c1 = Inr c2 \<and>
      (let fs = es @ [\<lparr>e_term = T, e_index = length es + 1, command = v\<rparr>] in
       office ms L T fs c2 \<and> known ms L (length fs) c2 \<and> cnow c2 = cnow c + j + 2 \<and>
       (\<forall>p\<in>set ms. entries (log (nodes c2 p)) = fs) \<and>
       commit_index (nodes c2 L) = length fs \<and> applied (nodes c2 L) = applied (nodes c L) @ [last fs] \<and>
       state (nodes c2 L) = (if v = PNone then state (nodes c L) else apply_command (state (nodes c L)) v)))"
proof -
  let ?fs = "es @ [\<lparr>e_term = T, e_index = length es + 1, command = v\<rparr>]"
  have len: "length ?fs = length es + 1" by simp
  from propose_in_office [OF c, of v] k obtain c1 where c1: "cluster_propose c v = Inr (length es + 1, c1)"
    "office ms L T ?fs c1" "cnow c1 = cnow c" "asked ms L (length ?fs) (on_wire c1) c1" unfolding len by blast
  from run_until_known [OF c1(2,4), of j] obtain c2 where c2: "cluster_run (j + 2) c1 = Inr c2"
    "office ms L T ?fs c2" "cnow c2 = cnow c + j + 2" "known ms L (length ?fs) c2" using c1(3) by auto
  then have off: "in_office ms L T ?fs {} c2" "in_office ms L T es {} c" using c by (simp_all add: office_def)
  have "\<forall>p\<in>set ms. entries (log (nodes c2 p)) = ?fs" using known_logs [OF off(1) c2(4)] by simp
  moreover have "commit_index (nodes c2 L) = length ?fs" by (rule committed_in_office [OF off(1) c2(4)])
  moreover have "applied (nodes c2 L) = applied (nodes c L) @ [last ?fs]"
    "state (nodes c2 L) = (if v = PNone then state (nodes c L) else apply_command (state (nodes c L)) v)"
    using state_in_office [OF off(1) c2(4)] state_in_office [OF off(2) k] by (simp_all add: fold_replay)
  ultimately show ?thesis
    using c1(1) c2 by (intro exI [of _ c1] conjI exI [of _ c2]) (simp_all only: Let_def simp_thms)
qed

section \<open>A settled cluster is in office\<close>

text \<open>\<open>settle\<close> by itself, on a cluster whose nodes draw different timeouts.\<close>

definition SETTLE_TICKS :: nat where "SETTLE_TICKS = 400"

definition staggered_seed :: "int \<Rightarrow> name \<Rightarrow> draws" where
  "staggered_seed sd p = (\<lambda>i. if p = ''n0'' then 0 else if p = ''n1'' then 1 else 9)"

definition settled :: "cluster result" where
  "settled = rbind (Cluster (\<lambda>_ _. 0) staggered_seed 3 1 None True False) (settle SETTLE_TICKS)"

lemma settled_in_office:
  "case settled of Inl e \<Rightarrow> False
   | Inr c \<Rightarrow> office [''n0'', ''n1'', ''n2''] ''n0'' 2 [\<lparr>e_term = 2, e_index = 1, command = PNone\<rparr>] c \<and>
       known [''n0'', ''n1'', ''n2''] ''n0'' 1 c \<and> state (nodes c ''n0'') = [] \<and>
      quiet (net c) \<and> tight c"
  by code_simp

text \<open>
  C31. A leader in office on the shipped network keeps it for ever: however long the cluster runs,
  no tick raises, the same node leads in the same term, nobody is elected and every member is in that
  term. A heartbeat always reaches a follower before its timer runs out.
\<close>

theorem office_lasts:
  assumes "office ms L T es c"
  shows "\<exists>c'. cluster_run j c = Inr c' \<and> office ms L T es c' \<and> cnow c' = cnow c + j \<and>
    map_option name (cluster_leader c') = Some L \<and> elections c' = elections c \<and>
    (\<forall>p\<in>set ms. current_term (nodes c' p) = T \<and> (role (nodes c' p) = LEADER \<longleftrightarrow> p = L))"
proof -
  from run_in_office [OF assms, of j 0] obtain c' where c': "cluster_run j c = Inr c'" "office ms L T es c'"
    "cnow c' = cnow c + j" "elections c' = elections c" by blast
  then have off: "in_office ms L T es {} c'" by (simp add: office_def)
  have "current_term (nodes c' p) = T \<and> (role (nodes c' p) = LEADER \<longleftrightarrow> p = L)" if "p \<in> set ms" for p
    using line_in_office [OF off that] in_officeD(12,13) [OF off] that
    by (cases "p = L") (auto simp: in_line_def leads_def follows_def)
  with c' leader_in_office [OF off] show ?thesis by (intro exI [of _ c']) simp
qed

theorem office_lasts_witness:
  "\<exists>c c'. settled = Inr c \<and> cluster_run 1000 c = Inr c' \<and> cnow c' = cnow c + 1000 \<and>
     map_option name (cluster_leader c') = Some ''n0'' \<and> elections c' = elections c"
proof -
  obtain c where c: "settled = Inr c"
    "office [''n0'', ''n1'', ''n2''] ''n0'' 2 [\<lparr>e_term = 2, e_index = 1, command = PNone\<rparr>] c"
    using settled_in_office by (auto split: sum.splits)
  from office_lasts [OF c(2), of 1000] obtain c' where "cluster_run 1000 c = Inr c'"
    "cnow c' = cnow c + 1000" "map_option name (cluster_leader c') = Some ''n0''" "elections c' = elections c"
    by (elim exE conjE)
  with c(1) show ?thesis by (intro exI conjI)
qed



end
