(* ===== verification/Refining.thy ===== *)
theory Refining
  imports Steady_Cluster Histories
begin

text \<open>
  \<open>src/rsm/verify/refine.py\<close>: a cluster and one copy of the machine run the same commands, and the
  part of the leader's state the machine also has is compared after each. A step keeps its command
  rather than the text of it.
\<close>

section \<open>The check\<close>

definition COMMANDS_RUN :: nat where "COMMANDS_RUN = 40"
definition CHECK_EVERY :: nat where "CHECK_EVERY = 1"

record refine_step =
  rs_at :: nat
  rs_command :: cmd
  rs_model :: "(pyobj \<times> pyobj) list"
  rs_cluster :: "(pyobj \<times> pyobj) list"

definition step_agrees :: "refine_step \<Rightarrow> bool" where
  "step_agrees s \<longleftrightarrow> rs_model s = rs_cluster s"

record refinement =
  rf_steps :: "refine_step list"
  rf_commands :: nat

definition first_break :: "refinement \<Rightarrow> refine_step option" where
  "first_break r = (case filter (\<lambda>s. \<not> step_agrees s) (rf_steps r) of [] \<Rightarrow> None | s # _ \<Rightarrow> Some s)"

definition breaks :: "refinement \<Rightarrow> refine_step list" where
  "breaks r = filter (\<lambda>s. \<not> step_agrees s) (rf_steps r)"

definition refinement_holds :: "refinement \<Rightarrow> bool" where
  "refinement_holds r \<longleftrightarrow> rf_steps r \<noteq> [] \<and> breaks r = []"

text \<open>Sorted pairs of the text of a key and the \<open>repr\<close> of its value, as the machine's digest.\<close>

definition mapping :: "dict \<Rightarrow> (pyobj \<times> pyobj) list" where
  "mapping d = sort_key (\<lambda>(k, v). key_text k) d"

definition default_commands :: "nat \<Rightarrow> nat \<Rightarrow> cmd list result" where
  "default_commands many keys =
     rmap (\<lambda>i. Command SET (CHR ''k'' # decimal (i mod keys)) (PInt (int i)) PNone) [0..<many]"

definition refine_turn ::
  "nat \<times> cmd \<Rightarrow> reference \<times> draws \<times> cluster \<times> refinement \<Rightarrow> (reference \<times> draws \<times> cluster \<times> refinement) result"
  where
  "refine_turn = (\<lambda>(index, one) (model, g, c, out).
     (case ref_apply model one g of
        (model', Inl e, g') \<Rightarrow> Inl e
      | (model', Inr a, g') \<Rightarrow>
          rbind (case cluster_propose c (PTuple [PStr (cname one), PStr (ckey one), cvalue one]) of
                   Inr (i, c') \<Rightarrow> Inr c'
                 | Inl NoLeader \<Rightarrow> Inr c
                 | Inl e \<Rightarrow> Inl e) (\<lambda>c1.
          rbind (cluster_run 4 c1) (\<lambda>c2.
          if index mod CHECK_EVERY \<noteq> 0 then Inr (model', g', c2, out)
          else Inr (model', g', c2, out\<lparr>rf_steps := rf_steps out @
            [\<lparr>rs_at = index, rs_command = one, rs_model = mapping (ref_state model'),
              rs_cluster = mapping (case cluster_leader c2 of None \<Rightarrow> [] | Some f \<Rightarrow> state f)\<rparr>]\<rparr>)))))"

definition check_refinement ::
  "(int \<Rightarrow> draws) \<Rightarrow> (int \<Rightarrow> name \<Rightarrow> draws) \<Rightarrow> draws \<Rightarrow> cmd list option \<Rightarrow> nat \<Rightarrow> int \<Rightarrow> refinement result" where
  "check_refinement net_seed node_seed g cs k sd =
     rbind (case cs of None \<Rightarrow> default_commands COMMANDS_RUN 5 | Some cs \<Rightarrow> Inr cs) (\<lambda>made.
     if made = [] then Inl ConfigError
     else rbind (Cluster net_seed node_seed k sd None True False) (\<lambda>fresh.
          rbind (settle SETTLE_TICKS fresh) (\<lambda>c.
          rbind (rfold refine_turn (enumerate 1 made)
                   (Reference, g, c, \<lparr>rf_steps = [], rf_commands = length made\<rparr>)) (\<lambda>(model, g', c', out).
          Inr out))))"

section \<open>What the two sides make of a command\<close>

text \<open>The machine's own state, and that of a node, which knows one command.\<close>

definition machine_does :: "cmd \<Rightarrow> dict \<Rightarrow> dict" where
  "machine_does c d = (if cname c = SET then dict_set d (PStr (ckey c)) (cvalue c)
     else if cname c = DELETE then dict_del d (PStr (ckey c)) else d)"

definition node_does :: "cmd \<Rightarrow> dict \<Rightarrow> dict" where
  "node_does c d = (if cname c = SET then dict_set d (PStr (ckey c)) (cvalue c) else d)"

lemma node_does: "apply_command d (PTuple [PStr (cname c), PStr (ckey c), cvalue c]) = node_does c d"
  by (simp add: node_does_def SET_def)

lemma machine_does:
  assumes "cname c \<in> {SET, DELETE}"
  shows "\<exists>model' a. ref_apply model c g = (model', Inr a, g) \<and> ref_state model' = machine_does c (ref_state model)"
  using assms by (auto simp: ref_apply_def apply_cmd_def effect_def machine_does_def ref_state_def Let_def
      command_names)

section \<open>A cluster in office\<close>

definition nth_step :: "cmd list \<Rightarrow> dict \<Rightarrow> dict \<Rightarrow> nat \<Rightarrow> refine_step" where
  "nth_step cs d e i = \<lparr>rs_at = i + 1, rs_command = cs ! i,
     rs_model = mapping (fold machine_does (take (i + 1) cs) d),
     rs_cluster = mapping (fold node_does (take (i + 1) cs) e)\<rparr>"

lemma refine_turn_in_office:
  assumes c: "office ms L T es c" "known ms L (length es) c" and one: "cname x \<in> {SET, DELETE}"
  shows "\<exists>model' c' fs. refine_turn (i, x) (model, g, c, out) = Inr (model', g, c', out\<lparr>rf_steps := rf_steps out @
      [\<lparr>rs_at = i, rs_command = x, rs_model = mapping (machine_does x (ref_state model)),
        rs_cluster = mapping (node_does x (state (nodes c L)))\<rparr>]\<rparr>) \<and>
    office ms L T fs c' \<and> known ms L (length fs) c' \<and> ref_state model' = machine_does x (ref_state model) \<and>
    state (nodes c' L) = node_does x (state (nodes c L))"
proof -
  let ?v = "PTuple [PStr (cname x), PStr (ckey x), cvalue x]"
  obtain model' a where m: "ref_apply model x g = (model', Inr a, g)"
    "ref_state model' = machine_does x (ref_state model)" using machine_does [OF one] by blast
  let ?fs = "es @ [\<lparr>e_term = T, e_index = length es + 1, command = ?v\<rparr>]"
  from write_in_office [OF c, of ?v 2] obtain c1 c2 where
    c1: "cluster_propose c ?v = Inr (length es + 1, c1)" and c2: "cluster_run 4 c1 = Inr c2"
    "office ms L T ?fs c2" "known ms L (length ?fs) c2"
    "state (nodes c2 L) = apply_command (state (nodes c L)) ?v"
    unfolding Let_def by (auto simp del: apply_command.simps)
  have lead: "cluster_leader c2 = Some (nodes c2 L)"
    using leader_in_office [of ms L T ?fs "{}" c2] c2(2) by (simp add: office_def)
  have st: "state (nodes c2 L) = node_does x (state (nodes c L))" using c2(4) unfolding node_does .
  have "refine_turn (i, x) (model, g, c, out) = Inr (model', g, c2, out\<lparr>rf_steps := rf_steps out @
      [\<lparr>rs_at = i, rs_command = x, rs_model = mapping (machine_does x (ref_state model)),
        rs_cluster = mapping (node_does x (state (nodes c L)))\<rparr>]\<rparr>)"
    by (simp add: refine_turn_def m c1 c2(1) CHECK_EVERY_def lead st)
  with m(2) c2(2,3) st show ?thesis by blast
qed

lemma refine_turns_in_office:
  assumes c: "office ms L T es c" "known ms L (length es) c" and cs: "\<forall>x\<in>set cs. cname x \<in> {SET, DELETE}"
  shows "\<exists>model' c' fs. rfold refine_turn (enumerate 1 cs) (model, g, c, out) =
      Inr (model', g, c', out\<lparr>rf_steps := rf_steps out @
        map (nth_step cs (ref_state model) (state (nodes c L))) [0..<length cs]\<rparr>) \<and>
    office ms L T fs c' \<and> known ms L (length fs) c' \<and>
    ref_state model' = fold machine_does cs (ref_state model) \<and>
    state (nodes c' L) = fold node_does cs (state (nodes c L))"
  using cs
proof (induction cs rule: rev_induct)
  case Nil
  have "out = out\<lparr>rf_steps := rf_steps out @ []\<rparr>" by simp
  with c show ?case by (auto simp del: append_Nil2)
next
  case (snoc x xs)
  let ?step = "nth_step xs (ref_state model) (state (nodes c L))"
  let ?step' = "nth_step (xs @ [x]) (ref_state model) (state (nodes c L))"
  from snoc obtain model' c' fs where k: "rfold refine_turn (enumerate 1 xs) (model, g, c, out) =
      Inr (model', g, c', out\<lparr>rf_steps := rf_steps out @ map ?step [0..<length xs]\<rparr>)"
    "office ms L T fs c'" "known ms L (length fs) c'" "ref_state model' = fold machine_does xs (ref_state model)"
    "state (nodes c' L) = fold node_does xs (state (nodes c L))" by auto
  have one: "cname x \<in> {SET, DELETE}" using snoc.prems by simp
  let ?out = "out\<lparr>rf_steps := rf_steps out @ map ?step [0..<length xs]\<rparr>"
  from refine_turn_in_office [OF k(2,3) one, of "length xs + 1" model' g ?out] obtain m c2 gs where
    t: "refine_turn (length xs + 1, x) (model', g, c', ?out) = Inr (m, g, c2, ?out\<lparr>rf_steps := rf_steps ?out @
      [\<lparr>rs_at = length xs + 1, rs_command = x, rs_model = mapping (machine_does x (ref_state model')),
        rs_cluster = mapping (node_does x (state (nodes c' L)))\<rparr>]\<rparr>)"
    "office ms L T gs c2" "known ms L (length gs) c2" "ref_state m = machine_does x (ref_state model')"
    "state (nodes c2 L) = node_does x (state (nodes c' L))" by blast
  have split: "enumerate 1 (xs @ [x]) = enumerate 1 xs @ [(length xs + 1, x)]"
    by (simp add: enumerate_append_eq)
  have "map ?step [0..<length xs] = map ?step' [0..<length xs]"
    by (simp add: nth_step_def nth_append)
  moreover have "\<lparr>rs_at = length xs + 1, rs_command = x, rs_model = mapping (machine_does x (ref_state model')),
        rs_cluster = mapping (node_does x (state (nodes c' L)))\<rparr> = ?step' (length xs)"
    by (simp add: nth_step_def k(4,5))
  ultimately have "?out\<lparr>rf_steps := rf_steps ?out @
      [\<lparr>rs_at = length xs + 1, rs_command = x, rs_model = mapping (machine_does x (ref_state model')),
        rs_cluster = mapping (node_does x (state (nodes c' L)))\<rparr>]\<rparr> =
      out\<lparr>rf_steps := rf_steps out @ map ?step' [0..<length (xs @ [x])]\<rparr>" by simp
  then have "rfold refine_turn (enumerate 1 (xs @ [x])) (model, g, c, out) =
      Inr (m, g, c2, out\<lparr>rf_steps := rf_steps out @ map ?step' [0..<length (xs @ [x])]\<rparr>)"
    unfolding split rfold_snoc k(1) rbind.simps t(1) by simp
  with t(2-5) k(4,5) show ?case by (intro exI [of _ m] exI [of _ c2] exI [of _ gs]) simp
qed



end
