(* ===== verification/Cell_Coverage.thy ===== *)
theory Cell_Coverage
  imports Cluster_Runs
begin

text \<open>
  \<open>src/rsm/verify/coverage.py\<close>: which combinations of role, message kind and term relation a run
  lands on. The class variable the recording nodes share is part of the state, and so is which
  members are recording nodes: a restarted member is a plain one. The role, the kind and the
  relation are datatypes, so a cell that names none of them cannot be written.
\<close>

section \<open>The grid\<close>

record cell =
  cell_role :: role
  cell_kind :: kind
  cell_term :: currency

definition ROLES :: "role list" where "ROLES = [FOLLOWER, CANDIDATE, LEADER]"
definition KINDS :: "kind list" where
  "KINDS = [REQUEST_VOTE, VOTE, APPEND_CALL, APPENDED, INSTALL_SNAPSHOT, INSTALLED]"
definition TERMS :: "currency list" where "TERMS = [STALE, CURRENT, AHEAD]"

definition grid :: "cell list" where
  "grid = concat (map (\<lambda>r. concat (map (\<lambda>k. map (\<lambda>t.
     \<lparr>cell_role = r, cell_kind = k, cell_term = t\<rparr>) TERMS) KINDS)) ROLES)"

definition landed_in :: "node \<Rightarrow> message \<Rightarrow> cell" where
  "landed_in n m = \<lparr>cell_role = role n, cell_kind = kind_of (body m),
     cell_term = term_check (current_term n) m\<rparr>"

text \<open>A step leaves what it recorded even when it raises.\<close>

definition watched_step :: "cell set \<Rightarrow> node \<Rightarrow> message \<Rightarrow> cell set \<times> outcome" where
  "watched_step seen n m = (insert (landed_in n m) seen, step n m)"

section \<open>A cluster of recording nodes\<close>

record watch =
  wc :: cluster
  recording :: "name set"
  recorded :: "cell set"

definition watch_fresh ::
  "(int \<Rightarrow> draws) \<Rightarrow> (int \<Rightarrow> name \<Rightarrow> draws) \<Rightarrow> nat \<Rightarrow> int \<Rightarrow> conditions option \<Rightarrow> watch result" where
  "watch_fresh net_seed node_seed sz sd cs =
     rbind (Cluster net_seed node_seed sz sd cs False False) (\<lambda>c.
     rbind (rfold (\<lambda>p d. rbind (Node p (cmembers c) (node_seed sd p) False False) (\<lambda>n.
              Inr (put_node d p n))) (cmembers c) c) (\<lambda>c'.
     Inr \<lparr>wc = c', recording = set (cmembers c), recorded = {}\<rparr>))"

definition watched_deliver :: "message \<Rightarrow> watch \<Rightarrow> watch result" where
  "watched_deliver m w =
     (let p = recipient m in
      if p \<in> down (wc w) then Inr w
      else let n = nodes (wc w) p;
               (seen, r) = (if p \<in> recording w then watched_step (recorded w) n m
                            else (recorded w, step n m))
           in rbind r (\<lambda>(n', out). rbind (send_all (put_node (wc w) p n') out) (\<lambda>c'.
                Inr (w\<lparr>wc := c', recorded := seen\<rparr>))))"

definition mark_leader :: "cluster \<Rightarrow> cluster" where
  "mark_leader c =
     (let c' = (case cluster_leader c of
                  Some n \<Rightarrow> if Some (name n) \<noteq> last_leader c
                            then c\<lparr>elections := elections c + 1, last_leader := Some (name n)\<rparr> else c
                | None \<Rightarrow> c)
      in c'\<lparr>history := history c' @ [take_moment c']\<rparr>)"

definition watched_tick :: "watch \<Rightarrow> watch result" where
  "watched_tick w =
     (let (landed, nw) = net_tick (net (wc w));
          c1 = (wc w)\<lparr>cnow := cnow (wc w) + 1, net := nw\<rparr>
      in rbind (rfold watched_deliver landed (w\<lparr>wc := c1\<rparr>)) (\<lambda>w2.
         rbind (rfold time_node (up (wc w2)) (wc w2)) (\<lambda>c3.
         let c4 = mark_leader c3 in
         rbind (if check c4 then verify c4 (take_moment c4) else Inr ()) (\<lambda>u.
         Inr (w2\<lparr>wc := c4\<rparr>)))))"

fun watched_perform :: "(int \<Rightarrow> name \<Rightarrow> draws) \<Rightarrow> watch \<Rightarrow> event \<Rightarrow> watch result" where
  "watched_perform node_seed w Tick = watched_tick w"
| "watched_perform node_seed w (Restart p) =
     rbind (restart node_seed (wc w) p) (\<lambda>c. Inr (w\<lparr>wc := c, recording := recording w - {p}\<rparr>))"
| "watched_perform node_seed w ev = rbind (perform node_seed (wc w) ev) (\<lambda>c. Inr (w\<lparr>wc := c\<rparr>))"

definition watched_events :: "(int \<Rightarrow> name \<Rightarrow> draws) \<Rightarrow> event list \<Rightarrow> watch \<Rightarrow> watch result" where
  "watched_events node_seed evs = rfold (\<lambda>ev w. watched_perform node_seed w ev) evs"

fun watched_settle :: "nat \<Rightarrow> watch \<Rightarrow> watch result" where
  "watched_settle 0 w = Inr w"
| "watched_settle (Suc k) w =
     rbind (watched_tick w) (\<lambda>w'.
       if cluster_leader (wc w') \<noteq> None \<and> quiet (net (wc w')) then Inr w' else watched_settle k w')"

section \<open>The scenarios\<close>

definition write_one :: "nat \<Rightarrow> event" where
  "write_one i = Propose (PTuple [PStr ''set'', PStr ''k'', PInt (int i)])"

text \<open>A write under \<open>suppress(NoLeader)\<close>.\<close>

definition try_write :: "(int \<Rightarrow> name \<Rightarrow> draws) \<Rightarrow> nat \<Rightarrow> watch \<Rightarrow> watch result" where
  "try_write node_seed i w =
     (case watched_perform node_seed w (write_one i) of Inl NoLeader \<Rightarrow> Inr w | r \<Rightarrow> r)"

definition ticks :: "nat \<Rightarrow> event list" where "ticks k = replicate k Tick"

definition SETTLING :: nat where "SETTLING = 400"

definition lossy_links :: conditions where
  "lossy_links = \<lparr>loss = (5404319552844595, 54), min_delay = 1, max_delay = 1\<rparr>"

definition settled_watch ::
  "(int \<Rightarrow> draws) \<Rightarrow> (int \<Rightarrow> name \<Rightarrow> draws) \<Rightarrow> conditions option \<Rightarrow> watch result" where
  "settled_watch net_seed node_seed cs = rbind (watch_fresh net_seed node_seed 5 1 cs) (watched_settle SETTLING)"

definition quiet_run :: "(int \<Rightarrow> draws) \<Rightarrow> (int \<Rightarrow> name \<Rightarrow> draws) \<Rightarrow> watch result" where
  "quiet_run net_seed node_seed =
     rbind (settled_watch net_seed node_seed None)
       (watched_events node_seed (map write_one [0..<8] @ ticks 60))"

definition crashed_run :: "(int \<Rightarrow> draws) \<Rightarrow> (int \<Rightarrow> name \<Rightarrow> draws) \<Rightarrow> watch result" where
  "crashed_run net_seed node_seed =
     rbind (settled_watch net_seed node_seed None) (\<lambda>w.
     rbind (watched_events node_seed (map write_one [0..<4] @ ticks 20) w) (\<lambda>w1.
     rbind (case cluster_leader (wc w1) of None \<Rightarrow> Inr w1
            | Some f \<Rightarrow> watched_perform node_seed w1 (Crash (name f))) (\<lambda>w2.
     rbind (watched_events node_seed (ticks 80) w2) (\<lambda>w3.
     rbind (rfold (try_write node_seed) [0..<4] w3) (\<lambda>w4.
     watched_events node_seed (ticks 40) w4)))))"

definition partitioned_run :: "(int \<Rightarrow> draws) \<Rightarrow> (int \<Rightarrow> name \<Rightarrow> draws) \<Rightarrow> watch result" where
  "partitioned_run net_seed node_seed =
     rbind (settled_watch net_seed node_seed None) (\<lambda>w.
     rbind (watched_events node_seed (map write_one [0..<4] @ ticks 20 @
              [Partition [take 2 (cmembers (wc w)), drop 2 (cmembers (wc w))]] @ ticks 120 @
              [Heal] @ ticks 120) w) (\<lambda>w1.
     rbind (rfold (try_write node_seed) [0..<4] w1) (\<lambda>w2.
     watched_events node_seed (ticks 40) w2)))"

definition lossy_run :: "(int \<Rightarrow> draws) \<Rightarrow> (int \<Rightarrow> name \<Rightarrow> draws) \<Rightarrow> watch result" where
  "lossy_run net_seed node_seed =
     rbind (settled_watch net_seed node_seed (Some lossy_links)) (\<lambda>w.
     rbind (rfold (\<lambda>i d. rbind (try_write node_seed i d) (watched_events node_seed (ticks 6))) [0..<8] w)
       (watched_events node_seed (ticks 80)))"

definition restarted_run :: "(int \<Rightarrow> draws) \<Rightarrow> (int \<Rightarrow> name \<Rightarrow> draws) \<Rightarrow> watch result" where
  "restarted_run net_seed node_seed =
     rbind (settled_watch net_seed node_seed None) (\<lambda>w.
     rbind (watched_events node_seed (map write_one [0..<4] @ ticks 20) w) (\<lambda>w1.
     rfold (\<lambda>p. watched_events node_seed ([Crash p] @ ticks 10 @ [Restart p] @ ticks 30))
       (cmembers (wc w1)) w1))"

definition SCENARIOS :: "((int \<Rightarrow> draws) \<Rightarrow> (int \<Rightarrow> name \<Rightarrow> draws) \<Rightarrow> watch result) list" where
  "SCENARIOS = [quiet_run, crashed_run, partitioned_run, lossy_run, restarted_run]"

section \<open>By hand\<close>

definition vote_for :: "node \<Rightarrow> name \<Rightarrow> message result" where
  "vote_for n s = Message s (name n) (current_term n) (Vote True False)"

fun hand_body :: "kind \<Rightarrow> payload" where
  "hand_body REQUEST_VOTE = RequestVote 0 0 False"
| "hand_body VOTE = Vote True False"
| "hand_body APPEND_CALL = Append 0 0 [] 0 0"
| "hand_body APPENDED = Appended True 0 NO_TERM NO_INDEX 0"
| "hand_body INSTALL_SNAPSHOT = InstallSnapshot 1 1 [] []"
| "hand_body INSTALLED = Installed 1"

definition hand_term :: "nat \<Rightarrow> currency \<Rightarrow> nat" where
  "hand_term t r = (case r of STALE \<Rightarrow> t - 1 | CURRENT \<Rightarrow> t | AHEAD \<Rightarrow> t + 1)"

text \<open>A node put in the cell's role, with what setting it up recorded.\<close>

definition in_role :: "draws \<Rightarrow> role \<Rightarrow> (cell set \<times> node) result" where
  "in_role g r =
     rbind (Node ''n0'' [''n0'', ''n1'', ''n2''] g False False) (\<lambda>n0.
     let n = n0\<lparr>current_term := 5\<rparr> in
     if r = LEADER then
       rbind (become_candidate n) (\<lambda>(n1, out).
       rbind (vote_for n1 ''n1'') (\<lambda>m.
       let (seen, res) = watched_step {} n1 m in rbind res (\<lambda>(n2, out'). Inr (seen, n2))))
     else if r = CANDIDATE then rbind (become_candidate n) (\<lambda>(n1, out). Inr ({}, n1))
     else Inr ({}, n))"

text \<open>The last step may raise whatever it likes.\<close>

definition by_hand1 :: "draws \<Rightarrow> cell \<Rightarrow> cell set \<Rightarrow> cell set result" where
  "by_hand1 g x out =
     rbind (in_role g (cell_role x)) (\<lambda>(seen, n).
     Inr (out \<union> (case Message ''n1'' ''n0'' (hand_term (current_term n) (cell_term x)) (hand_body (cell_kind x)) of
            Inl e \<Rightarrow> seen
          | Inr m \<Rightarrow> fst (watched_step seen n m))))"

definition by_hand :: "draws \<Rightarrow> cell set result" where
  "by_hand g = rfold (by_hand1 g) grid {}"

section \<open>The recorder changes nothing\<close>

definition erase :: "watch result \<Rightarrow> cluster result" where
  "erase r = rbind r (\<lambda>w. Inr (wc w))"

lemma erase_simps [simp]:
  "erase (Inl e) = Inl e" "erase (Inr w) = Inr (wc w)"
  "erase (rbind r f) = rbind r (\<lambda>w. erase (f w))"
  by (cases r; simp add: erase_def)+

lemma erase_Inr: "erase r = Inr c \<Longrightarrow> \<exists>w. r = Inr w \<and> wc w = c"
  by (cases r) simp_all

lemma watched_deliver_is:
  "watched_deliver m w = rbind (deliver m (wc w)) (\<lambda>c. Inr (w\<lparr>wc := c, recorded :=
     (if recipient m \<notin> down (wc w) \<and> recipient m \<in> recording w
      then insert (landed_in (nodes (wc w) (recipient m)) m) (recorded w) else recorded w)\<rparr>))"
  by (cases "step (nodes (wc w) (recipient m)) m")
    (auto simp: watched_deliver_def deliver_def watched_step_def Let_def split: prod.splits)

lemma erase_deliver: "erase (watched_deliver m w) = deliver m (wc w)"
  by (cases "deliver m (wc w)") (simp_all add: watched_deliver_is)

lemma erase_delivers: "erase (rfold watched_deliver ms w) = rfold deliver ms (wc w)"
proof (induction ms arbitrary: w)
  case (Cons m ms)
  then show ?case using erase_deliver [of m w, symmetric] by (cases "watched_deliver m w") simp_all
qed simp

lemma erase_tick: "erase (watched_tick w) = cluster_tick (wc w)"
proof -
  obtain landed nw where nw: "net_tick (net (wc w)) = (landed, nw)" by fastforce
  let ?c1 = "(wc w)\<lparr>cnow := cnow (wc w) + 1, net := nw\<rparr>"
  show ?thesis
  proof (cases "rfold watched_deliver landed (w\<lparr>wc := ?c1\<rparr>)")
    case (Inl e)
    then have "rfold deliver landed ?c1 = Inl e" using erase_delivers [of landed "w\<lparr>wc := ?c1\<rparr>"] by simp
    with Inl show ?thesis by (simp add: watched_tick_def cluster_tick_def advance_def nw)
  next
    case (Inr w2)
    then have "rfold deliver landed ?c1 = Inr (wc w2)" using erase_delivers [of landed "w\<lparr>wc := ?c1\<rparr>"] by simp
    with Inr show ?thesis
      by (cases "rfold time_node (up (wc w2)) (wc w2)")
        (simp_all add: watched_tick_def cluster_tick_def advance_def nw mark_leader_def Let_def)
  qed
qed

lemma erase_perform: "erase (watched_perform node_seed w ev) = perform node_seed (wc w) ev"
proof (cases ev)
  case (Propose v)
  then show ?thesis by (cases "cluster_propose (wc w) v") auto
next
  case (Restart p)
  then show ?thesis by (cases "restart node_seed (wc w) p") simp_all
next
  case (Crash p)
  then show ?thesis by (cases "crash (wc w) p") simp_all
next
  case (Partition ss)
  then show ?thesis by (cases "cluster_partition (wc w) ss") simp_all
qed (simp_all add: erase_tick)

section \<open>Cells nothing lands on\<close>

definition live :: "cell \<Rightarrow> bool" where
  "live x \<longleftrightarrow> cell_kind x \<noteq> INSTALL_SNAPSHOT \<and> cell_kind x \<noteq> INSTALLED \<and>
     \<not> (cell_role x = LEADER \<and> cell_kind x = APPEND_CALL \<and> cell_term x = CURRENT)"

text \<open>Nobody sends a snapshot, and the only sender of a term's appends is its one leader.\<close>

lemma lands_live:
  assumes ok: "cluster_ok b ms M c s" and m: "m \<in> M"
  shows "live (landed_in (nodes c (recipient m)) m)"
proof -
  have msg: "msg_ok b ms s m" using ok m by (simp add: cluster_ok_def)
  then have "node_sim b ms (recipient m) (nodes c (recipient m)) s"
    using ok by (simp add: cluster_ok_def msg_ok_def)
  with msg show ?thesis
    by (cases "body m") (auto simp: live_def landed_in_def msg_ok_def node_sim_def)
qed

lemma tick_records_live:
  assumes inv: "cluster_inv (wc w)" and tick: "watched_tick w = Inr w'"
  shows "recorded w' \<subseteq> recorded w \<union> {x. live x}" "recording w' = recording w"
    "recording w = {} \<Longrightarrow> recorded w' = recorded w"
proof -
  let ?c = "wc w"
  let ?ms = "cmembers ?c"
  from inv obtain s where ok: "cluster_ok (tight ?c) ?ms {} ?c s" by (rule cluster_invE)
  obtain landed nw where nw: "net_tick (net ?c) = (landed, nw)" by fastforce
  note kept = net_tick_keeps [OF nw]
  define c1 where "c1 = ?c\<lparr>cnow := cnow ?c + 1, net := nw\<rparr>"
  let ?b = "tight c1" and ?M = "set landed"
  have weaker: "?b \<longrightarrow> tight ?c" and snug: "m \<in> ?M \<Longrightarrow> ?b \<longrightarrow> snug m" for m
    using kept(5) by (auto simp: tight_def c1_def)
  have "cluster_ok (tight ?c) ?ms ?M c1 s"
    using ok kept(1,7,8) unfolding cluster_ok_def c1_def by auto
  then have ok1: "cluster_ok ?b ?ms ?M c1 s" by (rule cluster_ok_weaken [OF _ weaker order_refl])
  from tick obtain w2 where w2: "rfold watched_deliver landed (w\<lparr>wc := c1\<rparr>) = Inr w2"
    and same: "recorded w' = recorded w2" "recording w' = recording w2"
    by (auto simp: watched_tick_def nw c1_def raises Let_def)
  let ?P = "\<lambda>d. (\<exists>u. cluster_ok ?b ?ms ?M (wc d) u) \<and> recording d = recording w \<and>
      recorded d \<subseteq> recorded w \<union> {x. live x} \<and> (recording w = {} \<longrightarrow> recorded d = recorded w)"
  have "?P w2"
  proof (rule rfold_invariant [OF _ _ w2])
    show "?P (w\<lparr>wc := c1\<rparr>)" using ok1 by auto
    show "?P d'" if m: "m \<in> ?M" and d: "?P d" and d': "watched_deliver m d = Inr d'" for m d d'
    proof -
      from d obtain u where u: "cluster_ok ?b ?ms ?M (wc d) u" by blast
      from deliver_ok [OF this m snug [OF m]] obtain c' u' where
        "deliver m (wc d) = Inr c'" "cluster_ok ?b ?ms ?M c' u'" by blast
      with d d' lands_live [OF u m] show ?thesis by (auto simp: watched_deliver_is split: if_splits)
    qed
  qed
  with same show "recorded w' \<subseteq> recorded w \<union> {x. live x}" "recording w' = recording w"
    "recording w = {} \<Longrightarrow> recorded w' = recorded w" by simp_all
qed

section \<open>What a watched run keeps\<close>

definition watch_ok :: "watch \<Rightarrow> bool" where
  "watch_ok w \<longleftrightarrow> cluster_inv (wc w) \<and> \<not> check (wc w) \<and> recorded w \<subseteq> {x. live x}"

lemma perform_check: "perform node_seed c ev = Inr c' \<Longrightarrow> ev \<noteq> Tick \<Longrightarrow> check c' = check c"
  by (cases ev) (auto simp: crash_def restart_def cluster_partition_def cluster_heal_def raises put_node_def
      aside_def Let_def dest!: propose_aside split: if_splits)

lemma watched_tick_ok:
  assumes "watch_ok w"
  shows "\<exists>w'. watched_tick w = Inr w' \<and> watch_ok w' \<and> recording w' = recording w \<and>
    cmembers (wc w') = cmembers (wc w) \<and> down (wc w') = down (wc w) \<and>
    (recording w = {} \<longrightarrow> recorded w' = recorded w)"
proof -
  have inv: "cluster_inv (wc w)" and off: "\<not> check (wc w)" using assms by (simp_all add: watch_ok_def)
  from tick_verdict [OF inv] obtain c' where c': "advance (wc w) = Inr c'" "cluster_inv c'" by blast
  from advance_aside [OF c'(1)] off have same: "\<not> check c'" "cmembers c' = cmembers (wc w)" "down c' = down (wc w)"
    by (simp_all add: aside_def)
  with c'(1) have "cluster_tick (wc w) = Inr c'" by (simp add: cluster_tick_def)
  then obtain w' where w': "watched_tick w = Inr w'" "wc w' = c'"
    using erase_Inr erase_tick by metis
  with tick_records_live [OF inv w'(1)] c'(2) same assms show ?thesis
    unfolding watch_ok_def by auto
qed

lemma watched_perform_ok:
  assumes "watch_ok w" "watched_perform node_seed w ev = Inr w'"
  shows "watch_ok w'" "cmembers (wc w') = cmembers (wc w)"
    "recording w' = recording w - (case ev of Restart p \<Rightarrow> {p} | _ \<Rightarrow> {})"
    "recording w = {} \<Longrightarrow> recorded w' = recorded w"
proof -
  have c: "perform node_seed (wc w) ev = Inr (wc w')"
    using assms(2) erase_perform [of node_seed w ev] by simp
  have inv: "cluster_inv (wc w')"
    using cluster_inv_step [OF _ c] assms(1) by (simp add: watch_ok_def)
  show "cmembers (wc w') = cmembers (wc w)" using perform_aside [OF c] by simp
  have "watch_ok w' \<and> recording w' = recording w - (case ev of Restart p \<Rightarrow> {p} | _ \<Rightarrow> {}) \<and>
    (recording w = {} \<longrightarrow> recorded w' = recorded w)"
  proof (cases "ev = Tick")
    case True
    with watched_tick_ok [OF assms(1)] assms(2) show ?thesis by auto
  next
    case False
    with assms inv perform_check [OF c] show ?thesis by (cases ev) (auto simp: watch_ok_def raises)
  qed
  then show "watch_ok w'" "recording w' = recording w - (case ev of Restart p \<Rightarrow> {p} | _ \<Rightarrow> {})"
    "recording w = {} \<Longrightarrow> recorded w' = recorded w" by simp_all
qed

lemma watched_events_ok:
  "watched_events node_seed evs w = Inr w' \<Longrightarrow> watch_ok w \<Longrightarrow>
   watch_ok w' \<and> cmembers (wc w') = cmembers (wc w) \<and>
   recording w' = recording w - {p. Restart p \<in> set evs} \<and> (recording w = {} \<longrightarrow> recorded w' = recorded w)"
proof (induction evs arbitrary: w)
  case (Cons ev evs)
  then obtain d where d: "watched_perform node_seed w ev = Inr d" "watched_events node_seed evs d = Inr w'"
    by (auto simp: watched_events_def raises)
  have ps: "{p. Restart p \<in> set (ev # evs)} = (case ev of Restart p \<Rightarrow> {p} | _ \<Rightarrow> {}) \<union> {p. Restart p \<in> set evs}"
    by (cases ev) auto
  from watched_perform_ok [OF Cons.prems(2) d(1)] Cons.IH [OF d(2)] show ?case unfolding ps by auto
qed (simp add: watched_events_def)

lemma watch_fresh_ok:
  assumes "1 \<le> sz"
  shows "\<exists>w. watch_fresh net_seed node_seed sz sd cs = Inr w \<and> watch_ok w \<and>
    recording w = set (cmembers (wc w)) \<and> Cluster net_seed node_seed sz sd cs False False = Inr (wc w)"
proof -
  let ?ms = "map (\<lambda>i. CHR ''n'' # decimal i) [0..<sz]"
  obtain c where c: "Cluster net_seed node_seed sz sd cs False False = Inr c" "cmembers c = ?ms"
    using Cluster_total [OF assms] by blast
  from c(1) obtain ns where ns: "rmap (\<lambda>p. Node p ?ms (node_seed sd p) False False) ?ms = Inr ns"
    and nodes: "nodes c = (\<lambda>p. the (map_of (zip ?ms ns) p))" and off: "\<not> check c"
    unfolding Cluster_def by (auto simp: raises Let_def split: if_splits)
  have node: "Node p ?ms (node_seed sd p) False False = Inr (nodes c p)" if "p \<in> set ?ms" for p
    using rmap_map_of [OF ns cluster_names_distinct that] nodes by simp
  have "\<exists>d. rfold (\<lambda>p d. rbind (Node p ?ms (node_seed sd p) False False) (\<lambda>n. Inr (put_node d p n))) ?ms c = Inr d \<and> d = c"
  proof (rule rfold_total)
    show "\<exists>d'. rbind (Node p ?ms (node_seed sd p) False False) (\<lambda>n. Inr (put_node d p n)) = Inr d' \<and> d' = c"
      if "p \<in> set ?ms" "d = c" for p d
      using node [OF that(1)] that(2) by (simp add: put_node_def)
  qed simp
  moreover have "cluster_inv c" using cluster_inv_reach cluster_reach.made c(1) by blast
  ultimately show ?thesis using c off by (simp add: watch_fresh_def watch_ok_def)
qed

text \<open>A watched run raises nothing but the lack of a leader.\<close>

definition goes :: "name list \<Rightarrow> watch result \<Rightarrow> bool" where
  "goes ms r \<longleftrightarrow> r = Inl NoLeader \<or> (\<exists>w. r = Inr w \<and> watch_ok w \<and> cmembers (wc w) = ms)"

lemma goes_Inr: "watch_ok w \<Longrightarrow> cmembers (wc w) = ms \<Longrightarrow> goes ms (Inr w)"
  by (simp add: goes_def)

lemma goes_bind:
  "goes ms r \<Longrightarrow> (\<And>w. watch_ok w \<Longrightarrow> cmembers (wc w) = ms \<Longrightarrow> goes ms (f w)) \<Longrightarrow> goes ms (rbind r f)"
  unfolding goes_def by (elim disjE exE conjE) simp_all

lemma goes_rfold:
  assumes "\<And>x w. x \<in> set xs \<Longrightarrow> watch_ok w \<Longrightarrow> cmembers (wc w) = ms \<Longrightarrow> goes ms (f x w)"
  shows "watch_ok w \<Longrightarrow> cmembers (wc w) = ms \<Longrightarrow> goes ms (rfold f xs w)"
  using assms
proof (induction xs arbitrary: w)
  case (Cons x xs)
  show ?case unfolding rfold.simps
    by (rule goes_bind [OF Cons.prems(3)]) (use Cons in auto)
qed (simp add: goes_Inr)

fun fits :: "name list \<Rightarrow> event \<Rightarrow> bool" where
  "fits ms (Crash p) = (p \<in> set ms)"
| "fits ms (Restart p) = False"
| "fits ms (Partition ss) = (distinct (concat ss) \<and> set (concat ss) = set ms)"
| "fits ms ev = True"

lemma fits_goes:
  assumes w: "watch_ok w" "cmembers (wc w) = ms" and ev: "fits ms ev"
  shows "goes ms (watched_perform node_seed w ev)"
proof -
  have inv: "cluster_inv (wc w)" using w by (simp add: watch_ok_def)
  then obtain s where ok: "cluster_ok (tight (wc w)) (cmembers (wc w)) {} (wc w) s" by (rule cluster_invE)
  then have wire: "on_net (net (wc w)) = ms" using w by (simp add: cluster_ok_def)
  have "watched_perform node_seed w ev = Inl NoLeader \<or> (\<exists>w'. watched_perform node_seed w ev = Inr w')"
  proof (cases ev)
    case Tick
    with watched_tick_ok [OF w(1)] show ?thesis by auto
  next
    case (Propose v)
    have "cluster_propose (wc w) v = Inl NoLeader \<or> (\<exists>i c'. cluster_propose (wc w) v = Inr (i, c'))"
      using cluster_propose_ok [OF ok, of v] by blast
    with Propose show ?thesis by (elim disjE exE) simp_all
  next
    case (Partition ss)
    then have "\<not> (\<exists>p\<in>set (concat ss). p \<notin> set ms)" "\<not> (\<exists>p\<in>set ms. p \<notin> set (concat ss))" "distinct (concat ss)"
      using ev by auto
    with Partition wire show ?thesis
      by (simp add: cluster_partition_def net_partition_def filter_empty_conv Let_def)
  qed (use ev w(2) in \<open>simp_all add: crash_def\<close>)
  with watched_perform_ok [OF w(1)] w(2) show ?thesis by (auto simp: goes_def)
qed

lemma fit_events_go:
  assumes "watch_ok w" "cmembers (wc w) = ms" "\<forall>ev\<in>set evs. fits ms ev"
  shows "goes ms (watched_events node_seed evs w)"
  unfolding watched_events_def using assms by (intro goes_rfold fits_goes) auto

lemma ticks_go:
  "watch_ok w \<Longrightarrow> \<exists>w'. watched_events node_seed (ticks k) w = Inr w' \<and> watch_ok w' \<and>
     cmembers (wc w') = cmembers (wc w) \<and> down (wc w') = down (wc w)"
proof (induction k arbitrary: w)
  case (Suc k)
  from watched_tick_ok [OF Suc.prems] obtain d where d: "watched_tick w = Inr d" "watch_ok d"
    "cmembers (wc d) = cmembers (wc w)" "down (wc d) = down (wc w)" by blast
  from Suc.IH [OF d(2)] d show ?case by (auto simp: watched_events_def ticks_def)
qed (simp add: watched_events_def ticks_def)

lemma settle_goes:
  "watch_ok w \<Longrightarrow> cmembers (wc w) = ms \<Longrightarrow> goes ms (watched_settle k w)"
proof (induction k arbitrary: w)
  case (Suc k)
  from watched_tick_ok [OF Suc.prems(1)] obtain d where "watched_tick w = Inr d" "watch_ok d"
    "cmembers (wc d) = cmembers (wc w)" by blast
  with Suc show ?case by (simp add: goes_Inr)
qed (simp add: goes_Inr)

lemma try_write_goes:
  assumes "watch_ok w" "cmembers (wc w) = ms"
  shows "goes ms (try_write node_seed i w)"
  using fits_goes [OF assms, of "write_one i" node_seed] assms
  by (auto simp: goes_def try_write_def write_one_def split: sum.splits error.splits)

definition five :: "name list" where "five = map (\<lambda>i. CHR ''n'' # decimal i) [0..<5]"

lemma settled_goes: "goes five (settled_watch net_seed node_seed cs)"
proof -
  from watch_fresh_ok [of 5 net_seed node_seed 1 cs] obtain w where
    w: "watch_fresh net_seed node_seed 5 1 cs = Inr w" "watch_ok w"
    "Cluster net_seed node_seed 5 1 cs False False = Inr (wc w)" by auto
  from Cluster_total [of 5 net_seed node_seed 1 cs False False] w(3) have "cmembers (wc w) = five"
    by (auto simp: five_def)
  with w settle_goes show ?thesis by (simp add: settled_watch_def)
qed

lemma fits_ticks [simp]: "\<forall>ev\<in>set (ticks k). fits ms ev"
  by (simp add: ticks_def)

lemma fits_writes [simp]: "\<forall>ev\<in>set (map write_one is). fits ms ev"
  by (simp add: write_one_def)

lemma restart_cycle_goes:
  assumes w: "watch_ok w" "cmembers (wc w) = ms" "p \<in> set ms"
  shows "goes ms (watched_events node_seed ([Crash p] @ ticks 10 @ [Restart p] @ ticks 30) w)"
proof -
  have split: "watched_events node_seed (xs @ ys) v = rbind (watched_events node_seed xs v) (watched_events node_seed ys)" for xs ys v
    unfolding watched_events_def by (rule rfold_append)
  define w1 where "w1 = w\<lparr>wc := (wc w)\<lparr>down := insert p (down (wc w))\<rparr>\<rparr>"
  have w1: "watched_perform node_seed w (Crash p) = Inr w1" using w by (simp add: crash_def w1_def)
  note ok1 = watched_perform_ok(1,2) [OF w(1) w1]
  from ticks_go [OF ok1(1), of node_seed 10] obtain w2 where w2: "watched_events node_seed (ticks 10) w1 = Inr w2"
    "watch_ok w2" "cmembers (wc w2) = ms" "p \<in> down (wc w2)" using ok1 w by (auto simp: w1_def)
  from w2(2) have inv: "cluster_inv (wc w2)" by (simp add: watch_ok_def)
  then obtain s where ok: "cluster_ok (tight (wc w2)) (cmembers (wc w2)) {} (wc w2) s"
    and down: "down (wc w2) \<subseteq> set (cmembers (wc w2))" by (rule cluster_invE)
  from restart_ok [OF ok down w2(4)] obtain c where "restart node_seed (wc w2) p = Inr c" by blast
  then obtain w3 where w3: "watched_perform node_seed w2 (Restart p) = Inr w3" by simp
  note ok3 = watched_perform_ok(1,2) [OF w2(2) w3]
  from ticks_go [OF ok3(1), of node_seed 30] obtain w4 where w4: "watched_events node_seed (ticks 30) w3 = Inr w4"
    "watch_ok w4" "cmembers (wc w4) = ms" using ok3 w2 by auto
  have "watched_events node_seed [Crash p] w = Inr w1" "watched_events node_seed [Restart p] w2 = Inr w3"
    using w1 w3 by (simp_all add: watched_events_def)
  then have "watched_events node_seed ([Crash p] @ ticks 10 @ [Restart p] @ ticks 30) w = Inr w4"
    using w2 w4 by (simp only: split rbind.simps)
  then show ?thesis using goes_Inr [OF w4(2,3)] by simp
qed

lemma scenarios_go:
  assumes "scene \<in> set SCENARIOS"
  shows "goes five (scene net_seed node_seed)"
proof -
  note go = goes_bind goes_rfold settled_goes fit_events_go try_write_goes
  have "distinct five" by (simp add: five_def cluster_names_distinct del: upt_Suc)
  then have halves: "fits five (Partition [take 2 five, drop 2 five])" by simp
  have "goes five (quiet_run net_seed node_seed)"
    unfolding quiet_run_def by (intro go) (auto simp: ticks_def write_one_def)
  moreover have "goes five (crashed_run net_seed node_seed)"
    unfolding crashed_run_def
  proof (intro go)
    fix w1 assume w1: "watch_ok w1" "cmembers (wc w1) = five"
    show "goes five (case cluster_leader (wc w1) of None \<Rightarrow> Inr w1
        | Some f \<Rightarrow> watched_perform node_seed w1 (Crash (name f)))"
    proof (cases "cluster_leader (wc w1)")
      case (Some f)
      have inv: "cluster_inv (wc w1)" using w1 by (simp add: watch_ok_def)
      from leader_name(1) [OF inv Some] w1(2) have "fits five (Crash (name f))" by (auto simp: up_def)
      from fits_goes [OF w1 this] Some show ?thesis by simp
    qed (use w1 in \<open>simp add: goes_Inr\<close>)
  qed (auto simp: ticks_def write_one_def)
  moreover have "goes five (partitioned_run net_seed node_seed)"
    unfolding partitioned_run_def
    by (intro go) (use halves in \<open>auto simp: ticks_def write_one_def\<close>)
  moreover have "goes five (lossy_run net_seed node_seed)"
    unfolding lossy_run_def by (intro go) (auto simp: ticks_def)
  moreover have "goes five (restarted_run net_seed node_seed)"
    unfolding restarted_run_def
    by (intro goes_bind settled_goes fit_events_go goes_rfold restart_cycle_goes) (auto simp: ticks_def write_one_def)
  ultimately show ?thesis using assms by (auto simp: SCENARIOS_def)
qed

section \<open>What handing every message over shows\<close>

abbreviation a_vote :: cell where
  "a_vote \<equiv> \<lparr>cell_role = CANDIDATE, cell_kind = VOTE, cell_term = CURRENT\<rparr>"

lemma first_leader:
  assumes "log n = plain []" "1 \<le> current_term n" "length (members n) \<noteq> 1"
  shows "\<exists>n' out. become_leader n = Inr (n', out) \<and> role n' = LEADER \<and> current_term n' = current_term n"
proof -
  let ?e = "\<lparr>e_term = current_term n, e_index = 1, command = PNone\<rparr>"
  have ix: "indexed []" "indexed [?e]" by (simp_all add: indexed_def)
  define n1 where "n1 = n\<lparr>role := LEADER, leader := Some (name n), votes := {},
    next_index := (\<lambda>p. if p \<in> set (peers n) then Some (last_index (log n) + 1) else None),
    match_index := (\<lambda>p. if p \<in> set (peers n) then Some NO_INDEX else None)\<rparr>"
  define n2 where "n2 = n1\<lparr>log := plain [?e], match_index := (match_index n1)(name n \<mapsto> last_index (plain [?e])),
    heartbeat_due := now n1 + HEARTBEAT_INTERVAL\<rparr>"
  have last: "last_index (log n) = 0" "last_index (plain [?e]) = 1"
    unfolding assms(1) last_index_plain [OF ix(1)] last_index_plain [OF ix(2)] by simp_all
  have e: "Entry (current_term n) (last_index (log n) + 1) PNone = Inr ?e"
    using assms(2) last by (simp add: Entry_def)
  have l: "append1 (log n) ?e = Inr (plain [?e])"
    unfolding assms(1) using append1_plain [OF ix(1), of ?e] by (simp add: term_of_def)
  have lead: "become_leader n = rbind (replicate_to n2 None) (\<lambda>out. Inr (n2, out))"
    using e l assms(3)
    by (simp add: become_leader_def Let_def n1_def n2_def)
  have n2: "role n2 = LEADER" "current_term n2 = current_term n" "name n2 = name n" "peers n2 = peers n"
    "log n2 = plain [?e]" "p \<in> set (peers n) \<Longrightarrow> mget (next_index n2) p d = 1" for p d
    using last by (simp_all add: n2_def n1_def peers_def mget_def)
  have "\<exists>m. replicate_one n2 p = Inr m \<and> True" if "p \<in> set (peers n)" for p
  proof -
    have p: "p \<noteq> name n" using that by (simp add: peers_def)
    have zero: "snapshot_index (log n2) = 0" by (simp add: n2(5))
    obtain es where es: "log_slice (log n2) 1 (Some (1 + MAX_BATCH - 1)) = Inr es"
      unfolding n2(5) using slice_plain [OF ix(2), of 1 "1 + MAX_BATCH - 1"] by blast
    obtain t where t: "term_at (log n2) 0 = Inr t"
      unfolding n2(5) using term_at_plain [OF ix(2), of 0] by blast
    have start: "min (mget (next_index n2) p d) (last_index (log n2) + 1) = 1" for d
      using n2(5) n2(6) [OF that] last by simp
    show ?thesis
      unfolding replicate_one_def Let_def start using p zero es t assms(2) n2(2,3) by (simp add: Message_def)
  qed
  from rmap_total [of "peers n" "replicate_one n2" "\<lambda>m. True", OF this] obtain out where
    "replicate_to n2 None = Inr out" by (auto simp: replicate_to_def n2(4))
  with lead n2 show ?thesis by simp
qed

lemma in_role_is:
  "\<exists>n. in_role g r = Inr (if r = LEADER then {a_vote} else {}, n) \<and> role n = r \<and>
     current_term n = (if r = FOLLOWER then 5 else 6)"
proof -
  let ?ms = "[''n0'', ''n1'', ''n2'']"
  have "\<exists>b. Node ''n0'' ?ms g False False = Inr (reset_election_timer b) \<and> name b = ''n0'' \<and> members b = ?ms \<and>
      log b = plain [] \<and> role b = FOLLOWER"
    by (simp add: Node_def plain_empty) (rule exI, rule conjI, rule refl, simp)
  then obtain b where b: "Node ''n0'' ?ms g False False = Inr (reset_election_timer b)" "name b = ''n0''"
    "members b = ?ms" "log b = plain []" "role b = FOLLOWER" by (elim exE conjE)
  define n0 where "n0 = reset_election_timer b"
  have n0: "Node ''n0'' ?ms g False False = Inr n0" "name n0 = ''n0''" "members n0 = ?ms"
    "log n0 = plain []" "role n0 = FOLLOWER"
    using b by (simp_all add: n0_def unseen)
  let ?n = "n0\<lparr>current_term := 5\<rparr>"
  define n1 where "n1 = reset_election_timer (?n\<lparr>current_term := current_term ?n + 1, role := CANDIDATE,
    voted_for := Some (name ?n), leader := None, votes := {name ?n}, pre_votes := {}\<rparr>)"
  have n1: "name n1 = ''n0''" "members n1 = ?ms" "log n1 = plain []" "role n1 = CANDIDATE" "current_term n1 = 6"
    "votes n1 = {''n0''}"
    using n0 by (simp_all add: n1_def unseen)
  have "\<exists>out. become_candidate ?n = Inr (n1, out)"
    unfolding become_candidate_def Let_def n1_def [symmetric] using n1 by (simp add: peers_def Message_def)
  then obtain out where cand: "become_candidate ?n = Inr (n1, out)" by blast
  let ?m = "\<lparr>sender = ''n1'', recipient = ''n0'', m_term = 6, body = Vote True False\<rparr>"
  have vote: "vote_for n1 ''n1'' = Inr ?m" using n1 by (simp add: vote_for_def Message_def)
  let ?n2 = "n1\<lparr>votes := {''n1'', ''n0''}\<rparr>"
  have "card {''n1'', ''n0''} = 2" by simp
  then have step: "step n1 ?m = become_leader ?n2"
    using n1 by (simp add: step_def dispatch_def on_vote_def quorum_def)
  have cell: "landed_in n1 ?m = a_vote" using n1 by (simp add: landed_in_def)
  from first_leader [of ?n2] n1 obtain n2 out' where n2: "become_leader ?n2 = Inr (n2, out')" "role n2 = LEADER"
    "current_term n2 = 6" by auto
  show ?thesis
    using n0 n1 n2 cand vote step cell
    by (cases r) (simp_all add: in_role_def watched_step_def Let_def)
qed

lemma by_hand1_is:
  "by_hand1 g x out = Inr (out \<union> {x} \<union> (if cell_role x = LEADER then {a_vote} else {}))"
proof -
  obtain n where n: "in_role g (cell_role x) = Inr (if cell_role x = LEADER then {a_vote} else {}, n)"
    "role n = cell_role x" "5 \<le> current_term n" using in_role_is [of g "cell_role x"] by auto
  let ?t = "hand_term (current_term n) (cell_term x)"
  have t: "1 \<le> ?t" "?t < current_term n \<longleftrightarrow> cell_term x = STALE" "?t > current_term n \<longleftrightarrow> cell_term x = AHEAD"
    using n(3) by (cases "cell_term x"; simp add: hand_term_def)+
  have kind: "kind_of (hand_body k) = k" for k by (cases k) simp_all
  have "term_check (current_term n) m = cell_term x" if "m_term m = ?t" for m
    using t that by (cases "cell_term x") (auto simp: term_check_def)
  then have "landed_in n \<lparr>sender = ''n1'', recipient = ''n0'', m_term = ?t, body = hand_body (cell_kind x)\<rparr> = x"
    using n(2) kind by (simp add: landed_in_def)
  with n(1) t(1) show ?thesis by (simp add: by_hand1_def Message_def watched_step_def)
qed

lemma by_hand_fold:
  "rfold (by_hand1 g) xs out = Inr (out \<union> set xs \<union> (if \<exists>x\<in>set xs. cell_role x = LEADER then {a_vote} else {}))"
  by (induction xs arbitrary: out) (auto simp: by_hand1_is)

lemma grid_all: "x \<in> set grid"
proof -
  have "set ROLES = UNIV" using role.exhaust by (auto simp: ROLES_def)
  moreover have "set KINDS = UNIV" using kind.exhaust by (auto simp: KINDS_def)
  moreover have "set TERMS = UNIV" using currency.exhaust by (auto simp: TERMS_def)
  ultimately show ?thesis by (cases x) (simp add: grid_def image_iff)
qed

lemma by_hand_is: "by_hand g = Inr (set grid)"
  unfolding by_hand_def by_hand_fold using grid_all by auto

lemma grid_counts: "length grid = 54" "length (filter live grid) = 35" "distinct grid"
  by (simp_all add: grid_def ROLES_def KINDS_def TERMS_def live_def)

lemma live_cells: "X \<subseteq> {x. live x} \<Longrightarrow> X \<subseteq> set (filter live grid) \<and> card X \<le> 35"
  using card_mono [of "set (filter live grid)" X] card_length [of "filter live grid"] grid_all grid_counts(2)
  by fastforce



section \<open>Restarted members are plain nodes\<close>

lemma erase_events: "erase (watched_events node_seed evs w) = scenario node_seed evs (wc w)"
proof (induction evs arbitrary: w)
  case (Cons ev evs)
  then show ?case using erase_perform [of node_seed w ev, symmetric]
    by (cases "watched_perform node_seed w ev") (simp_all add: watched_events_def scenario_def)
qed (simp add: watched_events_def scenario_def)

lemma settle_keeps_recording:
  "watch_ok w \<Longrightarrow> watched_settle k w = Inr w' \<Longrightarrow>
   watch_ok w' \<and> recording w' = recording w \<and> cmembers (wc w') = cmembers (wc w)"
proof (induction k arbitrary: w)
  case (Suc k)
  from watched_tick_ok [OF Suc.prems(1)] obtain d where d: "watched_tick w = Inr d" "watch_ok d"
    "recording d = recording w" "cmembers (wc d) = cmembers (wc w)" by blast
  with Suc.prems(2) Suc.IH [OF d(2)] show ?case by (auto split: if_splits)
qed simp

lemma cycles_stop_recording:
  "watch_ok w \<Longrightarrow>
   rfold (\<lambda>p. watched_events node_seed ([Crash p] @ ticks 10 @ [Restart p] @ ticks 30)) ps w = Inr w' \<Longrightarrow>
   recording w' = recording w - set ps"
proof (induction ps arbitrary: w)
  case (Cons p ps)
  then obtain d where d: "watched_events node_seed ([Crash p] @ ticks 10 @ [Restart p] @ ticks 30) w = Inr d"
    "rfold (\<lambda>p. watched_events node_seed ([Crash p] @ ticks 10 @ [Restart p] @ ticks 30)) ps d = Inr w'"
    by (auto simp: raises)
  have "{q. Restart q \<in> set ([Crash p] @ ticks 10 @ [Restart p] @ ticks 30)} = {p}" by (auto simp: ticks_def)
  with watched_events_ok [OF d(1) Cons.prems(1)] have "watch_ok d" "recording d = recording w - {p}" by simp_all
  with Cons.IH [OF _ d(2)] show ?case by auto
qed simp

lemma restarted_run_stops_recording:
  assumes "restarted_run net_seed node_seed = Inr w"
  shows "recording w = {}"
proof -
  from watch_fresh_ok [of 5 net_seed node_seed 1 None] obtain w0 where
    w0: "watch_fresh net_seed node_seed 5 1 None = Inr w0" "watch_ok w0" "recording w0 = set (cmembers (wc w0))"
    by auto
  from assms w0(1) obtain w1 w2 where w1: "watched_settle SETTLING w0 = Inr w1"
    and w2: "watched_events node_seed (map write_one [0..<4] @ ticks 20) w1 = Inr w2"
    and w: "rfold (\<lambda>p. watched_events node_seed ([Crash p] @ ticks 10 @ [Restart p] @ ticks 30))
       (cmembers (wc w2)) w2 = Inr w"
    unfolding restarted_run_def settled_watch_def rbind_eq_Inr by force
  note k1 = settle_keeps_recording [OF w0(2) w1]
  from watched_events_ok [OF w2] k1 have "watch_ok w2" "recording w2 \<subseteq> set (cmembers (wc w2))"
    using w0(3) by auto
  with cycles_stop_recording [OF this(1) w] show ?thesis by auto
qed

text \<open>
  C39. A restarted member records nothing: the cluster replaces it by a plain node. Once every member has
  been restarted no message, however it is handled, adds a cell, and that is where the restarting
  scenario ends. Recording itself changes nothing of a run.
\<close>

theorem restarted_members_record_nothing:
  assumes fresh: "watch_fresh net_seed node_seed sz sd cs = Inr w0" "1 \<le> sz"
    and before: "watched_events node_seed evs w0 = Inr w1" "\<forall>p\<in>set (cmembers (wc w0)). Restart p \<in> set evs"
    and after: "watched_events node_seed evs' w1 = Inr w2"
  shows "recording w1 = {} \<and> recorded w2 = recorded w1 \<and>
    scenario node_seed (evs @ evs') (wc w0) = Inr (wc w2) \<and>
    (restarted_run net_seed node_seed = Inr w \<longrightarrow> recording w = {})"
proof -
  from watch_fresh_ok [OF fresh(2), of net_seed node_seed sd cs] fresh(1) have
    w0: "watch_ok w0" "recording w0 = set (cmembers (wc w0))" by auto
  note k1 = watched_events_ok [OF before(1) w0(1)]
  then have none: "recording w1 = {}" using w0(2) before(2) by auto
  moreover have "recorded w2 = recorded w1" using watched_events_ok [OF after] k1 none by blast
  moreover have "scenario node_seed evs (wc w0) = Inr (wc w1)" "scenario node_seed evs' (wc w1) = Inr (wc w2)"
    using erase_events [of node_seed evs w0] erase_events [of node_seed evs' w1] before(1) after by simp_all
  then have "scenario node_seed (evs @ evs') (wc w0) = Inr (wc w2)" by (simp add: scenario_def rfold_append)
  ultimately show ?thesis using restarted_run_stops_recording by blast
qed

text \<open>A pair whose members were both restarted: a vote is asked for, and nothing recorded.\<close>

definition pair_seed :: "int \<Rightarrow> name \<Rightarrow> draws" where
  "pair_seed sd p = (\<lambda>i. if p = ''n0'' then 0 else 9)"

definition pair_restarts :: "event list" where
  "pair_restarts = [Crash ''n0'', Restart ''n0'', Crash ''n1'', Restart ''n1'']"

lemma pair_runs:
  "case watch_fresh (\<lambda>_ _. 0) pair_seed 2 1 None of Inl e \<Rightarrow> False
   | Inr w0 \<Rightarrow> cmembers (wc w0) = [''n0'', ''n1''] \<and>
      (case watched_events pair_seed pair_restarts w0 of Inl e \<Rightarrow> False
       | Inr w1 \<Rightarrow> (case watched_events pair_seed (ticks 11) w1 of Inl e \<Rightarrow> False
          | Inr w2 \<Rightarrow> length (delivered (net (wc w2))) = 1))"
  by code_simp

theorem restarted_members_record_nothing_witness:
  "\<exists>w0 w1 w2. watch_fresh (\<lambda>_ _. 0) pair_seed 2 1 None = Inr w0 \<and>
     watched_events pair_seed pair_restarts w0 = Inr w1 \<and> watched_events pair_seed (ticks 11) w1 = Inr w2 \<and>
     length (delivered (net (wc w2))) = 1 \<and> recording w1 = {} \<and> recorded w2 = recorded w1"
proof -
  from pair_runs obtain w0 w1 w2 where w: "watch_fresh (\<lambda>_ _. 0) pair_seed 2 1 None = Inr w0"
    "cmembers (wc w0) = [''n0'', ''n1'']" "watched_events pair_seed pair_restarts w0 = Inr w1"
    "watched_events pair_seed (ticks 11) w1 = Inr w2" "length (delivered (net (wc w2))) = 1"
    by (auto split: sum.splits)
  have "1 \<le> (2 :: nat)" "\<forall>p\<in>set (cmembers (wc w0)). Restart p \<in> set pair_restarts"
    using w(2) by (simp_all add: pair_restarts_def)
  from restarted_members_record_nothing [OF w(1) this(1) w(3) this(2) w(4)] w show ?thesis by blast
qed

end
