(* ===== verification/Signed_Messages.thy ===== *)
theory Signed_Messages
  imports Cluster_Runs
begin

text \<open>
  What every message of a cluster without pre votes carries: its sender's own name and the term its
  sender was in. No message is ahead of its sender.
\<close>

section \<open>What a node signs\<close>

definition ident :: "node \<Rightarrow> name \<times> name list \<times> bool \<times> nat" where
  "ident n = (name n, members n, pre_vote n, current_term n)"

definition own :: "node \<Rightarrow> message \<Rightarrow> bool" where
  "own n m \<longleftrightarrow> sender m = name n \<and> recipient m \<noteq> name n \<and> m_term m = current_term n \<and>
     \<not> asks_pre_vote (body m)"

definition signs :: "node \<Rightarrow> outcome \<Rightarrow> bool" where
  "signs n r \<longleftrightarrow> (\<forall>n' out. r = Inr (n', out) \<longrightarrow> ident n' = ident n \<and> (\<forall>m\<in>set out. own n m))"

lemma own_ident: "ident n' = ident n \<Longrightarrow> own n' = own n"
  by (auto simp: ident_def own_def fun_eq_iff)

lemma ident_quiet [simp]:
  "ident (reset_election_timer n) = ident n" "ident (n\<lparr>leader := l\<rparr>) = ident n"
  "ident (n\<lparr>log := k\<rparr>) = ident n" "ident (n\<lparr>votes := v\<rparr>) = ident n" "ident (n\<lparr>now := t\<rparr>) = ident n"
  "ident (n\<lparr>voted_for := w\<rparr>) = ident n" "ident (n\<lparr>pre_votes := v\<rparr>) = ident n"
  "ident (n\<lparr>commit_index := i\<rparr>) = ident n" "ident (n\<lparr>last_applied := i\<rparr>) = ident n"
  "ident (n\<lparr>match_index := f\<rparr>) = ident n" "ident (n\<lparr>next_index := f\<rparr>) = ident n"
  "ident (n\<lparr>heartbeat_due := t\<rparr>) = ident n" "ident (n\<lparr>state := st\<rparr>) = ident n"
  "ident (n\<lparr>role := r\<rparr>) = ident n" "ident (n\<lparr>applied := es\<rparr>) = ident n"
  by (simp_all add: ident_def unseen)

lemma apply_committed_ident: "apply_committed n = Inr (out, n') \<Longrightarrow> ident n' = ident n"
proof (induction n arbitrary: out n' rule: apply_committed.induct)
  case (1 n)
  show ?case
  proof (cases "last_applied n < commit_index n")
    case ready: True
    let ?m = "n\<lparr>last_applied := last_applied n + 1\<rparr>"
    show ?thesis
    proof (cases "holds (log ?m) (last_applied ?m)")
      case False
      with "1.prems" ready have "apply_committed ?m = Inr (out, n')"
        by (subst (asm) apply_committed.simps) (simp add: Let_def)
      from "1.IH"(1) [OF ready refl False this] show ?thesis by simp
    next
      case True
      let ?k = "\<lambda>e. ?m\<lparr>applied := applied ?m @ [e],
        state := (if command e \<noteq> PNone then apply_command (state ?m) (command e) else state ?m)\<rparr>"
      have "apply_committed n = rbind (log_at (log ?m) (last_applied ?m)) (\<lambda>e.
          rbind (apply_committed (?k e)) (\<lambda>(out, n''). Inr (e # out, n'')))"
        by (subst apply_committed.simps) (simp only: Let_def ready True if_True not_True_eq_False if_False)
      note eq = trans [OF this [symmetric] "1.prems"]
      then obtain e where l: "log_at (log ?m) (last_applied ?m) = Inr e"
        by (cases "log_at (log ?m) (last_applied ?m)") (simp_all only: rbind.simps sum.simps)
      with eq have "rbind (apply_committed (?k e)) (\<lambda>(out, n''). Inr (e # out, n'')) = Inr (out, n')"
        by (simp only: rbind.simps)
      then obtain a where a: "apply_committed (?k e) = Inr (a, n')"
        by (cases "apply_committed (?k e)") auto
      have "\<not> \<not> holds (log ?m) (last_applied ?m)" using True by simp
      from "1.IH"(2) [OF ready refl this l a] show ?thesis by simp
    qed
  next
    case False
    with "1.prems" show ?thesis by (subst (asm) apply_committed.simps) simp
  qed
qed

lemma apply_ready_ident: "apply_ready n = Inr n' \<Longrightarrow> ident n' = ident n"
  by (auto simp: apply_ready_def raises dest: apply_committed_ident)

lemma advance_commit_ident: "advance_commit n = Inr n' \<Longrightarrow> ident n' = ident n"
  by (auto simp: advance_commit_def raises Let_def dest!: apply_ready_ident split: if_splits option.splits)

lemma reply_signs: "\<not> asks_pre_vote b \<Longrightarrow> signs n (reply n m b)"
  by (auto simp: signs_def reply_def own_def raises)

lemma replicate_one_own: "replicate_one n p = Inr m \<Longrightarrow> own n m"
  by (auto simp: replicate_one_def own_def raises Let_def split: if_splits)

lemma rmap_each: "rmap f xs = Inr ys \<Longrightarrow> (\<And>x y. f x = Inr y \<Longrightarrow> P y) \<Longrightarrow> \<forall>y\<in>set ys. P y"
  by (induction xs arbitrary: ys) (auto simp: raises)

lemma replicate_own: "replicate_to n t = Inr out \<Longrightarrow> m \<in> set out \<Longrightarrow> own n m"
  unfolding replicate_to_def using rmap_each [where P = "own n"] replicate_one_own by blast

lemma replicated_signs:
  "ident n' = ident n \<Longrightarrow> signs n (rbind (replicate_to n' t) (\<lambda>out. Inr (n', out)))"
  using own_ident [of n' n] replicate_own [of n' t] by (cases "replicate_to n' t") (auto simp: signs_def)

lemma signs_bind:
  "(\<And>x. r = Inr x \<Longrightarrow> signs n (f x)) \<Longrightarrow> signs n (rbind r f)"
  by (cases r) (simp_all add: signs_def)

lemma signs_same: "ident n' = ident n \<Longrightarrow> signs n (Inr (n', []))"
  by (simp add: signs_def)

lemma signs_ident: "ident n' = ident n \<Longrightarrow> signs n' r = signs n r"
  unfolding signs_def using own_ident [of n' n] by simp

section \<open>Every handler\<close>

lemma become_leader_signs: "signs n (become_leader n)"
  unfolding become_leader_def Let_def
proof (rule signs_bind, rule signs_bind, rule signs_bind)
  fix e l n3
  let ?n1 = "n\<lparr>role := LEADER, leader := Some (name n), votes := {},
       next_index := \<lambda>p. if p \<in> set (peers n) then Some (last_index (log n) + 1) else None,
       match_index := \<lambda>p. if p \<in> set (peers n) then Some NO_INDEX else None\<rparr>"
  let ?n2 = "?n1\<lparr>log := l, match_index := (match_index ?n1)(name ?n1 \<mapsto> last_index l),
       heartbeat_due := now ?n1 + HEARTBEAT_INTERVAL\<rparr>"
  assume "(if length (members ?n2) = 1 then advance_commit ?n2 else Inr ?n2) = Inr n3"
  then have "ident n3 = ident ?n2" using advance_commit_ident by (auto split: if_splits)
  then have "ident n3 = ident n" by simp
  then show "signs n (rbind (replicate_to n3 None) (\<lambda>out. Inr (n3, out)))" by (rule replicated_signs)
qed

lemma on_vote_signs: "signs n (on_vote n m g False)"
proof -
  have "signs n (become_leader (n\<lparr>votes := v\<rparr>))" for v
    using become_leader_signs [of "n\<lparr>votes := v\<rparr>"] signs_ident [of "n\<lparr>votes := v\<rparr>" n] by simp
  then show ?thesis by (auto simp: on_vote_def Let_def intro: signs_same)
qed

lemma on_request_vote_signs: "signs n (on_request_vote n m li lt False)"
proof -
  have "signs n (reply n' m (Vote b False))" if "ident n' = ident n" for n' b
    using reply_signs [of "Vote b False" n' m] signs_ident [OF that] by simp
  then show ?thesis by (simp add: on_request_vote_def Let_def)
qed

lemma on_append_signs:
  assumes "m_term m = current_term n"
  shows "signs n (on_append n m previous pt es lc rid)"
proof -
  have step_down: "ident (become_follower (n\<lparr>leader := k\<rparr>) (m_term m) l) = ident n" for k l
    using assms by (simp add: become_follower_def)
  have ready: "ident n5 = ident k"
    if "(if c then apply_ready (k\<lparr>commit_index := i\<rparr>) else Inr k) = Inr n5" for c k i n5
    using that apply_ready_ident by (auto split: if_splits)
  have say: "signs n (reply n' m b)" if "ident n' = ident n" "\<not> asks_pre_vote b" for n' b
    using reply_signs [OF that(2), of n' m] signs_ident [OF that(1)] by simp
  have conflict: "signs n (conflict n' m previous rid)" if "ident n' = ident n" for n'
    unfolding conflict_def by (auto intro!: signs_bind say that)
  show ?thesis unfolding on_append_def Let_def
    by (intro signs_bind) (auto intro!: signs_bind say conflict simp: step_down dest: ready)
qed

lemma on_appended_signs: "signs n (on_appended n m ok mi ct ci)"
proof -
  have match: "ident n1 = ident n" if "advance_commit (record_match n q i) = Inr n1" for q i n1
    using advance_commit_ident [OF that] by (simp add: record_match_def Let_def)
  have stay: "signs n (if c then rbind (replicate_to n1 t) (\<lambda>out. Inr (n1, out)) else Inr (n1, []))"
    if "ident n1 = ident n" for c n1 t
    using replicated_signs [OF that, of t] signs_same [OF that] by simp
  have again: "signs n (rbind (replicate_to (n\<lparr>next_index := f\<rparr>) t) (\<lambda>out. Inr (n\<lparr>next_index := f\<rparr>, out)))" for f t
    by (rule replicated_signs) simp
  show ?thesis
  proof (cases "role n \<noteq> LEADER")
    case True
    then show ?thesis by (simp add: on_appended_def signs_same)
  next
    case lead: False
    show ?thesis
    proof (cases ok)
      case True
      with lead have "on_appended n m ok mi ct ci = rbind (advance_commit (record_match n (sender m) mi)) (\<lambda>n1.
          if mget (next_index n1) (sender m) 0 \<le> last_index (log n1)
          then rbind (replicate_to n1 (Some (sender m))) (\<lambda>out. Inr (n1, out)) else Inr (n1, []))"
        by (simp add: on_appended_def)
      then show ?thesis by (simp only:) (rule signs_bind, rule stay, erule match)
    next
      case False
      with lead have "on_appended n m ok mi ct ci = rbind (if ct \<noteq> NO_TERM then skip_term n ct ci
          else Inr (max ci (first_index (log n)))) (\<lambda>ni.
          rbind (replicate_to (n\<lparr>next_index := (next_index n)(sender m \<mapsto> ni)\<rparr>) (Some (sender m)))
            (\<lambda>out. Inr (n\<lparr>next_index := (next_index n)(sender m \<mapsto> ni)\<rparr>, out)))"
        by (simp add: on_appended_def Let_def)
      then show ?thesis by (simp only:) (rule signs_bind, rule again)
    qed
  qed
qed

lemma on_installed_signs: "signs n (on_installed n m li)"
proof (cases "role n \<noteq> LEADER")
  case False
  have "ident n1 = ident n" if "advance_commit (record_match n q i) = Inr n1" for q i n1
    using advance_commit_ident [OF that] by (simp add: record_match_def Let_def)
  with False show ?thesis
    by (simp only: on_installed_def if_False) (rule signs_bind, rule replicated_signs, blast)
qed (simp add: on_installed_def signs_same)

lemma on_install_signs: "signs n (on_install n m li lt st)"
proof -
  have say: "signs n (reply n2 m (Installed i))" if "ident n2 = ident n" for n2 i
    using reply_signs [of "Installed i" n2 m] signs_ident [OF that] by simp
  have "ident n2 = ident n"
    if "(if c then rbind (Log [] li lt) (\<lambda>l. Inr (k\<lparr>log := l, state := st, commit_index := li, last_applied := li\<rparr>))
         else Inr k) = Inr n2" "ident k = ident n" for c k n2
    using that by (auto simp: raises split: if_splits)
  note kept = this
  show ?thesis unfolding on_install_def Let_def
    by (rule signs_bind, rule say, erule kept) simp
qed

lemma dispatch_signs:
  assumes "m_term m = current_term n" "\<not> asks_pre_vote (body m)"
  shows "signs n (dispatch n m)"
  using assms on_request_vote_signs on_vote_signs on_append_signs on_appended_signs on_install_signs on_installed_signs
  by (cases "body m") (simp_all add: dispatch_def)

lemma refuse_signs: "signs n (refuse n m)"
  by (cases "body m") (simp_all add: refuse_def reply_signs signs_same)

text \<open>A message moves a node to its term if that is ahead, and to no other.\<close>

lemma step_signs:
  assumes "\<not> asks_pre_vote (body m)" "step n m = Inr (n', out)"
  shows "ident n' = (name n, members n, pre_vote n, max (current_term n) (m_term m))"
    "\<forall>k\<in>set out. own n' k"
proof -
  define b where "b = (if m_term m > current_term n then become_follower n (m_term m) None else n)"
  have b: "ident b = (name n, members n, pre_vote n, max (current_term n) (m_term m))"
    by (auto simp: b_def become_follower_def ident_def unseen)
  have "signs b (step n m)"
  proof (cases "m_term m < current_term n")
    case True
    with assms(1) refuse_signs show ?thesis by (simp add: step_def b_def)
  next
    case False
    then have "step n m = dispatch b m" using assms(1) by (simp add: step_def b_def)
    moreover have "m_term m = current_term b" using b False by (auto simp: ident_def)
    ultimately show ?thesis using dispatch_signs [OF _ assms(1)] by simp
  qed
  with assms(2) have *: "ident n' = ident b" "\<forall>k\<in>set out. own b k" by (simp_all add: signs_def)
  with b own_ident [OF *(1)] show "ident n' = (name n, members n, pre_vote n, max (current_term n) (m_term m))"
    "\<forall>k\<in>set out. own n' k" by simp_all
qed

text \<open>A timer makes no leader where there is somebody to ask.\<close>

lemma tick_signs:
  assumes n: "\<not> pre_vote n" "length (members n) \<noteq> 1" and t: "tick n t = Inr (n', out)"
  shows "name n' = name n \<and> members n' = members n \<and> \<not> pre_vote n' \<and> current_term n \<le> current_term n' \<and>
    (role n' = LEADER \<longrightarrow> role n = LEADER \<and> current_term n' = current_term n) \<and> (\<forall>k\<in>set out. own n' k)"
proof (cases "role n = LEADER")
  case True
  let ?k = "\<lambda>h. n\<lparr>now := t, heartbeat_due := h\<rparr>"
  have "signs n (rbind (replicate_to (?k h) None) (\<lambda>out. Inr (?k h, out)))" for h
    by (rule replicated_signs) simp
  moreover have "signs n (Inr (n\<lparr>now := t\<rparr>, []))" by (rule signs_same) simp
  ultimately have "signs n (tick n t)" using True by (simp add: tick_def Let_def)
  with t have *: "ident n' = ident n" "\<forall>k\<in>set out. own n k" by (simp_all add: signs_def)
  with own_ident [OF *(1)] n True show ?thesis by (auto simp: ident_def)
next
  case False
  define n1 where "n1 = reset_election_timer (n\<lparr>now := t, current_term := current_term n + 1, role := CANDIDATE,
    voted_for := Some (name n), leader := None, votes := {name n}, pre_votes := {}\<rparr>)"
  have n1: "name n1 = name n" "members n1 = members n" "pre_vote n1 = pre_vote n" "role n1 = CANDIDATE"
    "current_term n1 = Suc (current_term n)" by (simp_all add: n1_def unseen)
  have "tick n t = (if t \<ge> election_deadline n then rbind (rmap (\<lambda>p. Message (name n1) p (current_term n1)
      (RequestVote (last_index (log n1)) (last_term (log n1)) False)) (peers n1)) (\<lambda>out. Inr (n1, out))
    else Inr (n\<lparr>now := t\<rparr>, []))"
    using False n by (simp add: tick_def stand_def become_candidate_def Let_def n1_def unseen)
  with t consider ms where "n' = n1" "out = ms" "rmap (\<lambda>p. Message (name n1) p (current_term n1)
      (RequestVote (last_index (log n1)) (last_term (log n1)) False)) (peers n1) = Inr ms"
    | "n' = n\<lparr>now := t\<rparr>" "out = []"
    by (auto simp: raises split: if_splits)
  then show ?thesis
  proof cases
    case 1
    have "\<forall>k\<in>set ms. own n1 k"
      by (rule rmap_each [OF 1(3)]) (auto simp: own_def raises)
    with 1 n1 n show ?thesis by simp
  qed (use False n in simp_all)
qed

section \<open>What a tick keeps\<close>

text \<open>A fact about a cluster and the messages it is delivering that the parts of a tick keep.\<close>

locale tick_kept =
  fixes Q :: "message set \<Rightarrow> cluster \<Rightarrow> bool"
  assumes landed: "Q {} c \<Longrightarrow> net_tick (net c) = (out, w) \<Longrightarrow> Q (set out) (c\<lparr>cnow := k, net := w\<rparr>)"
    and delivered: "Q M c \<Longrightarrow> m \<in> M \<Longrightarrow> deliver m c = Inr c' \<Longrightarrow> Q M c'"
    and timed: "Q M c \<Longrightarrow> p \<in> set (up c) \<Longrightarrow> time_node p c = Inr c' \<Longrightarrow> Q M c'"
    and booked: "Q M c \<Longrightarrow> Q {} (c\<lparr>elections := e, last_leader := l, history := h\<rparr>)"
begin

lemma advance_keeps:
  assumes q: "Q {} c" and t: "advance c = Inr c'"
  shows "Q {} c'"
proof -
  obtain out w where w: "net_tick (net c) = (out, w)" by fastforce
  let ?c1 = "c\<lparr>cnow := cnow c + 1, net := w\<rparr>"
  let ?mark = "\<lambda>c3. case cluster_leader c3 of
       Some n \<Rightarrow> if Some (name n) \<noteq> last_leader c3
                 then c3\<lparr>elections := elections c3 + 1, last_leader := Some (name n)\<rparr> else c3
     | None \<Rightarrow> c3"
  from t obtain c2 c3 where c2: "rfold deliver out ?c1 = Inr c2" and c3: "rfold time_node (up c2) c2 = Inr c3"
    and c': "c' = (?mark c3)\<lparr>history := history (?mark c3) @ [take_moment (?mark c3)]\<rparr>"
    by (auto simp: advance_def w Let_def raises)
  have q1: "Q (set out) ?c1" by (rule landed [OF q w])
  have q2: "Q (set out) c2"
    by (rule rfold_invariant [where P = "Q (set out)", OF _ q1 c2]) (rule delivered)
  let ?P = "\<lambda>d. Q (set out) d \<and> up d = up c2"
  have up: "up d' = up d" if "time_node p d = Inr d'" for p d d'
    using time_node_aside [OF that] by (simp add: aside_def up_def)
  have "?P c3"
  proof (rule rfold_invariant [OF _ _ c3])
    show "?P c2" using q2 by simp
    show "?P d'" if "p \<in> set (up c2)" "?P d" "time_node p d = Inr d'" for p d d'
      using timed [of "set out" d p d'] up [OF that(3)] that by simp
  qed
  then have q3: "Q (set out) c3" ..
  have "c' = c3\<lparr>elections := elections c', last_leader := last_leader c', history := history c'\<rparr>"
    unfolding c' by (simp split: option.split)
  then have "\<exists>e l h. c' = c3\<lparr>elections := e, last_leader := l, history := h\<rparr>" by (intro exI)
  with booked [OF q3] show ?thesis by blast
qed

lemma tick_keeps: "Q {} c \<Longrightarrow> cluster_tick c = Inr c' \<Longrightarrow> Q {} c'"
  by (auto simp: cluster_tick_def raises intro: advance_keeps split: if_splits)

lemma run_keeps: "Q {} c \<Longrightarrow> cluster_run k c = Inr c' \<Longrightarrow> Q {} c'"
proof (induction k arbitrary: c)
  case (Suc k)
  then obtain d where d: "cluster_tick c = Inr d" "cluster_run k d = Inr c'" by (auto simp: raises)
  from Suc.IH [OF tick_keeps [OF Suc.prems(1) d(1)] d(2)] show ?case .
qed simp

lemma settle_keeps: "Q {} c \<Longrightarrow> settle k c = Inr c' \<Longrightarrow> Q {} c'"
proof (induction k arbitrary: c)
  case (Suc k)
  then obtain d where d: "cluster_tick c = Inr d" "d = c' \<or> settle k d = Inr c'"
    by (auto simp: raises split: if_splits)
  from tick_keeps [OF Suc.prems(1) d(1)] d(2) Suc.IH show ?case by blast
qed simp

end

section \<open>A cluster whose messages are signed\<close>

definition plain_node :: "name list \<Rightarrow> name \<Rightarrow> node \<Rightarrow> bool" where
  "plain_node ms p n \<longleftrightarrow> name n = p \<and> members n = ms \<and> \<not> pre_vote n"

definition signed :: "name list \<Rightarrow> message set \<Rightarrow> cluster \<Rightarrow> bool" where
  "signed ms M c \<longleftrightarrow> cmembers c = ms \<and> on_net (net c) = ms \<and> length ms \<noteq> 1 \<and>
     (\<forall>p\<in>set ms. plain_node ms p (nodes c p)) \<and>
     (\<forall>m\<in>M \<union> packet ` set (flight (net c)). sender m \<in> set ms \<and> recipient m \<in> set ms \<and>
        \<not> asks_pre_vote (body m) \<and> m_term m \<le> current_term (nodes c (sender m)))"

lemma signedD:
  assumes "signed ms M c"
  shows "cmembers c = ms" "on_net (net c) = ms" "length ms \<noteq> 1" "p \<in> set ms \<Longrightarrow> plain_node ms p (nodes c p)"
    "m \<in> M \<or> m \<in> packet ` set (flight (net c)) \<Longrightarrow> sender m \<in> set ms \<and> recipient m \<in> set ms \<and>
        \<not> asks_pre_vote (body m) \<and> m_term m \<le> current_term (nodes c (sender m))"
  using assms by (auto simp: signed_def)

lemma put_node_signed:
  assumes c: "signed ms M c" and p: "p \<in> set ms" and n: "plain_node ms p n"
    "current_term (nodes c p) \<le> current_term n"
  shows "signed ms M (put_node c p n)"
  unfolding signed_def
proof (intro conjI ballI)
  show "cmembers (put_node c p n) = ms" "on_net (net (put_node c p n)) = ms" "length ms \<noteq> 1"
    using signedD [OF c] by (simp_all add: put_node_def)
  show "plain_node ms q (nodes (put_node c p n) q)" if "q \<in> set ms" for q
    using signedD(4) [OF c that] n(1) by (simp add: put_node_def)
  fix m assume "m \<in> M \<union> packet ` set (flight (net (put_node c p n)))"
  then have "m \<in> M \<or> m \<in> packet ` set (flight (net c))" by (simp add: put_node_def)
  from signedD(5) [OF c this] n(2) show "sender m \<in> set ms" "recipient m \<in> set ms" "\<not> asks_pre_vote (body m)"
    "m_term m \<le> current_term (nodes (put_node c p n) (sender m))"
    by (auto simp: put_node_def)
qed

lemma send1_signed:
  assumes c: "signed ms M c" and m: "own (nodes c p) m" "p \<in> set ms" and sent: "send1 m c = Inr c'"
  shows "signed ms M c'" "nodes c' = nodes c"
proof -
  have "signed ms M c' \<and> nodes c' = nodes c"
  proof (cases "sender m \<in> down c")
    case True
    with sent c show ?thesis by (simp add: send1_def)
  next
    case False
    with sent obtain ok w where w: "net_send (net c) m = Inr (ok, w)" "c' = c\<lparr>net := w\<rparr>"
      by (auto simp: send1_def raises)
    have "recipient m \<in> set ms"
      using w(1) signedD(2) [OF c] by (auto simp: net_send_def split: if_splits)
    moreover have "sender m = p"
      using m signedD(4) [OF c m(2)] by (simp add: own_def plain_node_def)
    ultimately show ?thesis
      using c m w(2) net_send_packets [OF w(1)] net_send_keeps(1) [OF w(1)]
      unfolding signed_def own_def by (auto 4 3)
  qed
  then show "signed ms M c'" "nodes c' = nodes c" by simp_all
qed

lemma handled_signed:
  assumes c: "signed ms M c" and p: "p \<in> set ms" and n: "plain_node ms p n"
    "current_term (nodes c p) \<le> current_term n" "\<forall>k\<in>set out. own n k"
    and sent: "send_all (put_node c p n) out = Inr c'"
  shows "signed ms M c'"
proof -
  let ?P = "\<lambda>d. signed ms M d \<and> nodes d p = n"
  have "?P c'"
  proof (rule rfold_invariant [OF _ _ sent [unfolded send_all_def]])
    show "?P (put_node c p n)" using put_node_signed [OF c p n(1,2)] by (simp add: put_node_def)
    show "?P d'" if "m \<in> set out" "?P d" "send1 m d = Inr d'" for m d d'
      using send1_signed [of ms M d p m d'] that n(3) p by auto
  qed
  then show ?thesis ..
qed

lemma deliver_signed:
  assumes c: "signed ms M c" and m: "m \<in> M" and d: "deliver m c = Inr c'"
  shows "signed ms M c'"
proof (cases "recipient m \<in> down c")
  case True
  with d c show ?thesis by (simp add: deliver_def)
next
  case False
  let ?p = "recipient m"
  note m' = signedD(5) [OF c disjI1, OF m]
  from False d obtain n out where n: "step (nodes c ?p) m = Inr (n, out)" "send_all (put_node c ?p n) out = Inr c'"
    by (auto simp: deliver_def raises)
  have "\<not> asks_pre_vote (body m)" "?p \<in> set ms" using m' by simp_all
  from step_signs [OF this(1) n(1)] signedD(4) [OF c this(2)]
  have "plain_node ms ?p n" "current_term (nodes c ?p) \<le> current_term n" "\<forall>k\<in>set out. own n k"
    by (auto simp: ident_def plain_node_def)
  with handled_signed [OF c _ this n(2)] m' show ?thesis by simp
qed

lemma time_node_signed:
  assumes c: "signed ms M c" and p: "p \<in> set ms" and t: "time_node p c = Inr c'"
  shows "signed ms M c'"
proof -
  from t obtain n out where n: "tick (nodes c p) (cnow c) = Inr (n, out)" "send_all (put_node c p n) out = Inr c'"
    by (auto simp: time_node_def raises)
  have k: "plain_node ms p (nodes c p)" "length ms \<noteq> 1" using signedD(3,4) [OF c] p by simp_all
  then have "\<not> pre_vote (nodes c p)" "length (members (nodes c p)) \<noteq> 1" by (simp_all add: plain_node_def)
  from tick_signs [OF this n(1)] k(1)
  have "plain_node ms p n" "current_term (nodes c p) \<le> current_term n" "\<forall>k\<in>set out. own n k"
    by (auto simp: plain_node_def)
  then show ?thesis using handled_signed [OF c p _ _ _ n(2)] by blast
qed

interpretation signing: tick_kept "signed ms" for ms
proof
  fix c :: cluster and out w k
  assume c: "signed ms {} c" and w: "net_tick (net c) = (out, w)"
  show "signed ms (set out) (c\<lparr>cnow := k, net := w\<rparr>)"
    using c net_tick_keeps(1,7,8) [OF w] unfolding signed_def by auto
next
  fix M c m c' assume "signed ms M c" "m \<in> M" "deliver m c = Inr c'"
  then show "signed ms M c'" by (rule deliver_signed)
next
  fix M c p c' assume c: "signed ms M c" and p: "p \<in> set (up c)" and t: "time_node p c = Inr c'"
  have "p \<in> set ms" using p signedD(1) [OF c] by (simp add: up_def)
  from time_node_signed [OF c this t] show "signed ms M c'" .
next
  show "signed ms {} (c\<lparr>elections := e, last_leader := l, history := h\<rparr>)" if "signed ms M c" for M c e l h
    using that by (simp add: signed_def)
qed

end
