(* ===== verification/Bounded_Liveness.thy ===== *)
theory Bounded_Liveness
  imports Signed_Messages Steady_Cluster
begin

text \<open>
  \<open>src/rsm/verify/liveness.py\<close>: properties of the form something good within so many ticks, each
  under the condition that a majority can reach each other, and the four runs that observe them.
\<close>

section \<open>Properties and observations\<close>

definition PATIENCE :: nat where "PATIENCE = 300"
definition ELECTION_BOUND :: nat where "ELECTION_BOUND = MAX_ELECTION_TIMEOUT * 2"
definition COMMIT_BOUND :: nat where "COMMIT_BOUND = 8"

record bounded =
  b_name :: string
  b_bound :: nat
  b_condition :: string

definition Property :: "string \<Rightarrow> nat \<Rightarrow> string \<Rightarrow> bounded result" where
  "Property nm k cond =
     (if nm = [] then Inl ConfigError
      else if k < 1 then Inl ConfigError
      else Inr \<lparr>b_name = nm, b_bound = k, b_condition = cond\<rparr>)"

definition MAJORITY_REACH :: string where "MAJORITY_REACH = ''a majority can reach each other''"

definition LEADER_ELECTED :: bounded where
  "LEADER_ELECTED = \<lparr>b_name = ''a leader is elected'', b_bound = ELECTION_BOUND, b_condition = MAJORITY_REACH\<rparr>"
definition WRITE_COMMITS :: bounded where
  "WRITE_COMMITS = \<lparr>b_name = ''a write commits'', b_bound = COMMIT_BOUND, b_condition = MAJORITY_REACH\<rparr>"
definition FOLLOWER_CATCHES_UP :: bounded where
  "FOLLOWER_CATCHES_UP = \<lparr>b_name = ''a follower catches up'', b_bound = ELECTION_BOUND * 2,
     b_condition = MAJORITY_REACH\<rparr>"

record observation =
  ob_claim :: bounded
  waited :: nat
  happened :: bool
  conditional :: bool

definition margin :: "observation \<Rightarrow> int" where
  "margin ob = int (b_bound (ob_claim ob)) - int (waited ob)"

text \<open>\<open>bool\<close> of an observation.\<close>

definition within :: "observation \<Rightarrow> bool" where
  "within ob \<longleftrightarrow> (if \<not> conditional ob then True else happened ob \<and> waited ob \<le> b_bound (ob_claim ob))"

section \<open>The runs\<close>

text \<open>The loop they share: tick until the good thing, for as long as there is patience.\<close>

fun tick_until :: "(cluster \<Rightarrow> bool) \<Rightarrow> nat \<Rightarrow> cluster \<Rightarrow> (bool \<times> cluster) result" where
  "tick_until hit 0 c = Inr (False, c)"
| "tick_until hit (Suc k) c =
     rbind (cluster_tick c) (\<lambda>c'. if hit c' then Inr (True, c') else tick_until hit k c')"

definition observe :: "bounded \<Rightarrow> (cluster \<Rightarrow> bool) \<Rightarrow> nat \<Rightarrow> cluster \<Rightarrow> observation result" where
  "observe p hit patience c =
     rbind (tick_until hit patience c) (\<lambda>(found, c').
     Inr \<lparr>ob_claim = p, waited = (if found then cnow c' - cnow c else patience), happened = found,
          conditional = True\<rparr>)"

definition new_leader :: "name \<Rightarrow> cluster \<Rightarrow> bool" where
  "new_leader gone c = (case cluster_leader c of None \<Rightarrow> False | Some f \<Rightarrow> name f \<noteq> gone)"

definition settled_cluster ::
  "(int \<Rightarrow> draws) \<Rightarrow> (int \<Rightarrow> name \<Rightarrow> draws) \<Rightarrow> nat \<Rightarrow> int \<Rightarrow> cluster result" where
  "settled_cluster net_seed node_seed sz sd =
     rbind (Cluster net_seed node_seed sz sd None True False) (settle SETTLE_TICKS)"

definition a_leader_is_elected ::
  "(int \<Rightarrow> draws) \<Rightarrow> (int \<Rightarrow> name \<Rightarrow> draws) \<Rightarrow> nat \<Rightarrow> int \<Rightarrow> bool \<Rightarrow> nat \<Rightarrow> observation result" where
  "a_leader_is_elected net_seed node_seed sz sd kill patience =
     rbind (settled_cluster net_seed node_seed sz sd) (\<lambda>made.
     if kill then
       (case cluster_leader made of
          None \<Rightarrow> Inl NoLeader
        | Some f \<Rightarrow> rbind (crash made (name f)) (\<lambda>c. observe LEADER_ELECTED (new_leader (name f)) patience c))
     else observe LEADER_ELECTED (new_leader []) patience made)"

definition a_write_commits ::
  "(int \<Rightarrow> draws) \<Rightarrow> (int \<Rightarrow> name \<Rightarrow> draws) \<Rightarrow> nat \<Rightarrow> int \<Rightarrow> nat \<Rightarrow> observation result" where
  "a_write_commits net_seed node_seed sz sd patience =
     rbind (settled_cluster net_seed node_seed sz sd) (\<lambda>made.
     rbind (cluster_propose made (PTuple [PStr ''set'', PStr ''k'', PInt 1])) (\<lambda>(i, c).
     observe WRITE_COMMITS (\<lambda>d. length (committed d) > length (committed made)) patience c))"

definition write_and_run :: "nat \<Rightarrow> cluster \<Rightarrow> cluster result" where
  "write_and_run i c =
     rbind (case cluster_propose c (PTuple [PStr ''set'', PStr ''k'', PInt (int i)]) of
              Inr (j, c') \<Rightarrow> Inr c'
            | Inl NoLeader \<Rightarrow> Inr c
            | Inl e \<Rightarrow> Inl e) (cluster_run 2)"

text \<open>Where every member leads, as the one of a cluster of one does, \<open>next\<close> raises: \<open>None\<close>.\<close>

definition caught_up :: "name \<Rightarrow> cluster \<Rightarrow> bool" where
  "caught_up victim c = (case cluster_leader c of None \<Rightarrow> False
     | Some f \<Rightarrow> last_index (log f) \<le> last_index (log (nodes c victim)))"

definition a_follower_catches_up ::
  "(int \<Rightarrow> draws) \<Rightarrow> (int \<Rightarrow> name \<Rightarrow> draws) \<Rightarrow> nat \<Rightarrow> int \<Rightarrow> nat \<Rightarrow> nat \<Rightarrow> observation option result" where
  "a_follower_catches_up net_seed node_seed sz sd writes patience =
     rbind (settled_cluster net_seed node_seed sz sd) (\<lambda>made.
     case filter (\<lambda>p. \<not> is_leader (nodes made p)) (cmembers made) of
       [] \<Rightarrow> Inr None
     | victim # others \<Rightarrow>
         rbind (crash made victim) (\<lambda>c.
         rbind (rfold write_and_run [0..<writes] c) (\<lambda>c1.
         rbind (restart node_seed c1 victim) (\<lambda>c2.
         rbind (observe FOLLOWER_CATCHES_UP (caught_up victim) patience c2) (\<lambda>ob. Inr (Some ob))))))"

definition top_term :: "cluster \<Rightarrow> nat" where
  "top_term c = Max (set (map (\<lambda>p. current_term (nodes c p)) (cmembers c)))"

definition under_a_partition ::
  "(int \<Rightarrow> draws) \<Rightarrow> (int \<Rightarrow> name \<Rightarrow> draws) \<Rightarrow> nat \<Rightarrow> int \<Rightarrow> nat \<Rightarrow> observation result" where
  "under_a_partition net_seed node_seed sz sd patience =
     rbind (settled_cluster net_seed node_seed sz sd) (\<lambda>made.
     rbind (cluster_partition made (map (\<lambda>p. [p]) (cmembers made))) (\<lambda>c.
     rbind (observe LEADER_ELECTED
        (\<lambda>d. case cluster_leader d of None \<Rightarrow> False | Some f \<Rightarrow> top_term made < current_term f) patience c) (\<lambda>ob.
     Inr (ob\<lparr>conditional := False\<rparr>))))"

section \<open>Cut into single members\<close>

text \<open>
  \<open>B\<close> is the highest term when the network was cut. Nothing is sent from then on that arrives, so
  no node above it is, or becomes, a leader.
\<close>

definition single :: "name list \<Rightarrow> nat \<Rightarrow> message set \<Rightarrow> cluster \<Rightarrow> bool" where
  "single ms B M c \<longleftrightarrow> cmembers c = ms \<and> on_net (net c) = ms \<and> length ms \<noteq> 1 \<and>
     sides (net c) = map (\<lambda>p. {p}) ms \<and>
     (\<forall>p\<in>set ms. plain_node ms p (nodes c p) \<and> (B < current_term (nodes c p) \<longrightarrow> role (nodes c p) \<noteq> LEADER)) \<and>
     (\<forall>m\<in>M \<union> packet ` set (flight (net c)). recipient m \<in> set ms \<and> \<not> asks_pre_vote (body m) \<and> m_term m \<le> B)"

lemma singleD:
  assumes "single ms B M c"
  shows "cmembers c = ms" "on_net (net c) = ms" "length ms \<noteq> 1" "sides (net c) = map (\<lambda>p. {p}) ms"
    "p \<in> set ms \<Longrightarrow> plain_node ms p (nodes c p)"
    "p \<in> set ms \<Longrightarrow> B < current_term (nodes c p) \<Longrightarrow> role (nodes c p) \<noteq> LEADER"
    "m \<in> M \<or> m \<in> packet ` set (flight (net c)) \<Longrightarrow> recipient m \<in> set ms \<and> \<not> asks_pre_vote (body m) \<and> m_term m \<le> B"
  using assms by (auto simp: single_def)

lemma put_node_single:
  assumes c: "single ms B M c" and n: "plain_node ms p n" "B < current_term n \<longrightarrow> role n \<noteq> LEADER"
  shows "single ms B M (put_node c p n)"
  using c n unfolding single_def by (simp add: put_node_def)

lemma same_side_single: "same_side (map (\<lambda>p. {p}) ms) s r \<Longrightarrow> s = r"
  by (induction ms) (auto split: if_splits)

definition idle_wire :: "cluster \<Rightarrow> in_flight list \<times> message list" where
  "idle_wire c = (flight (net c), delivered (net c))"

lemma send1_single:
  assumes c: "single ms B M c" and m: "own n m" and sent: "send1 m c = Inr c'"
  shows "single ms B M c' \<and> idle_wire c' = idle_wire c"
proof (cases "sender m \<in> down c")
  case True
  with sent c show ?thesis by (simp add: send1_def)
next
  case False
  with sent obtain ok w where w: "net_send (net c) m = Inr (ok, w)" "c' = c\<lparr>net := w\<rparr>"
    by (auto simp: send1_def raises)
  have apart: "sender m \<noteq> recipient m" using m by (auto simp: own_def)
  have "ms \<noteq> []" using w(1) singleD(2) [OF c] by (auto simp: net_send_def split: if_splits)
  then have "\<not> reachable (net c) (sender m) (recipient m)"
    using apart same_side_single singleD(4) [OF c] by (auto simp: reachable_def)
  then have "flight w = flight (net c)" using net_send_flight [OF w(1)] by auto
  with c w(2) net_send_keeps(1,3,5) [OF w(1)] show ?thesis by (simp add: single_def idle_wire_def)
qed

lemma handled_single:
  assumes c: "single ms B M c" and n: "plain_node ms p n" "B < current_term n \<longrightarrow> role n \<noteq> LEADER"
    "\<forall>k\<in>set out. own n k" and sent: "send_all (put_node c p n) out = Inr c'"
  shows "single ms B M c' \<and> idle_wire c' = idle_wire c"
proof (rule rfold_invariant [OF _ _ sent [unfolded send_all_def]])
  show "single ms B M (put_node c p n) \<and> idle_wire (put_node c p n) = idle_wire c"
    using put_node_single [OF c n(1,2)] by (simp add: idle_wire_def put_node_def)
  show "single ms B M d' \<and> idle_wire d' = idle_wire c"
    if "m \<in> set out" "single ms B M d \<and> idle_wire d = idle_wire c" "send1 m d = Inr d'" for m d d'
    using send1_single [of ms B M d n m d'] n(3) that by simp
qed

lemma refuse_same: "refuse n m = Inr (n', out) \<Longrightarrow> n' = n"
  by (auto simp: refuse_def reply_def raises split: payload.splits)

lemma deliver_single:
  assumes c: "single ms B M c" and m: "m \<in> M" and d: "deliver m c = Inr c'"
  shows "single ms B M c'"
proof (cases "recipient m \<in> down c")
  case True
  with d c show ?thesis by (simp add: deliver_def)
next
  case False
  let ?p = "recipient m"
  let ?k = "nodes c ?p"
  have m': "?p \<in> set ms" "\<not> asks_pre_vote (body m)" "m_term m \<le> B" using singleD(7) [OF c disjI1, OF m] by simp_all
  from False d obtain n out where n: "step ?k m = Inr (n, out)" "send_all (put_node c ?p n) out = Inr c'"
    by (auto simp: deliver_def raises)
  note k = singleD(5,6) [OF c m'(1)]
  note s = step_signs [OF m'(2) n(1)]
  have "plain_node ms ?p n" using s(1) k(1) by (auto simp: ident_def plain_node_def)
  moreover have "B < current_term n \<longrightarrow> role n \<noteq> LEADER"
  proof
    assume "B < current_term n"
    then have "B < current_term ?k" using s(1) m'(3) by (auto simp: ident_def)
    moreover from this have "step ?k m = refuse ?k m" using m' by (simp add: step_def)
    with n(1) have "n = ?k" using refuse_same by simp
    ultimately show "role n \<noteq> LEADER" using k(2) by simp
  qed
  ultimately show ?thesis using handled_single [OF c _ _ s(2) n(2)] by blast
qed

lemma time_node_single:
  assumes c: "single ms B M c" and p: "p \<in> set ms" and t: "time_node p c = Inr c'"
  shows "single ms B M c' \<and> idle_wire c' = idle_wire c"
proof -
  from t obtain n out where n: "tick (nodes c p) (cnow c) = Inr (n, out)" "send_all (put_node c p n) out = Inr c'"
    by (auto simp: time_node_def raises)
  note k = singleD(5,6) [OF c p]
  then have "\<not> pre_vote (nodes c p)" "length (members (nodes c p)) \<noteq> 1"
    using singleD(3) [OF c] by (simp_all add: plain_node_def)
  from tick_signs [OF this n(1)] k
  have "plain_node ms p n" "B < current_term n \<longrightarrow> role n \<noteq> LEADER" "\<forall>k\<in>set out. own n k"
    by (auto simp: plain_node_def)
  with handled_single [OF c _ _ _ n(2)] show ?thesis by blast
qed

interpretation singles: tick_kept "single ms B" for ms B
proof
  fix c :: cluster and out w k
  assume c: "single ms B {} c" and w: "net_tick (net c) = (out, w)"
  show "single ms B (set out) (c\<lparr>cnow := k, net := w\<rparr>)"
    using c net_tick_keeps(1,3,7,8) [OF w] unfolding single_def by auto
next
  fix M c m c' assume "single ms B M c" "m \<in> M" "deliver m c = Inr c'"
  then show "single ms B M c'" by (rule deliver_single)
next
  fix M c p c' assume c: "single ms B M c" and p: "p \<in> set (up c)" and t: "time_node p c = Inr c'"
  have "p \<in> set ms" using p singleD(1) [OF c] by (simp add: up_def)
  from time_node_single [OF c this t] show "single ms B M c'" ..
next
  show "single ms B {} (c\<lparr>elections := e, last_leader := l, history := h\<rparr>)" if "single ms B M c" for M c e l h
    using that by (simp add: single_def)
qed

text \<open>With nothing in flight nothing is ever delivered.\<close>

definition hushed :: "name list \<Rightarrow> nat \<Rightarrow> message list \<Rightarrow> message set \<Rightarrow> cluster \<Rightarrow> bool" where
  "hushed ms B D M c \<longleftrightarrow> single ms B M c \<and> M = {} \<and> idle_wire c = ([], D)"

interpretation hush: tick_kept "hushed ms B D" for ms B D
proof
  fix c :: cluster and out w k
  assume c: "hushed ms B D {} c" and w: "net_tick (net c) = (out, w)"
  have "set out = {}" using c net_tick_keeps(8) [OF w] by (auto simp: hushed_def idle_wire_def)
  moreover have "single ms B (set out) (c\<lparr>cnow := k, net := w\<rparr>)"
    using singles.landed [OF _ w] c by (simp add: hushed_def)
  ultimately show "hushed ms B D (set out) (c\<lparr>cnow := k, net := w\<rparr>)"
    using c net_tick_keeps(5,7) [OF w] by (simp add: hushed_def idle_wire_def)
next
  show "hushed ms B D M c'" if "hushed ms B D M c" "m \<in> M" for M c m c'
    using that by (simp add: hushed_def)
next
  fix M c p c' assume c: "hushed ms B D M c" and p: "p \<in> set (up c)" and t: "time_node p c = Inr c'"
  have s: "single ms B M c" using c unfolding hushed_def by blast
  have "p \<in> set ms" using p singleD(1) [OF s] by (simp add: up_def)
  from time_node_single [OF s this t] c show "hushed ms B D M c'" by (simp add: hushed_def)
next
  fix M and c :: cluster and e l h assume "hushed ms B D M c"
  then have c: "single ms B {} c" "idle_wire c = ([], D)" unfolding hushed_def by blast+
  from singles.booked [OF c(1)] c(2) show "hushed ms B D {} (c\<lparr>elections := e, last_leader := l, history := h\<rparr>)"
    by (simp add: hushed_def idle_wire_def)
qed

lemma hushed_ticks:
  assumes "cluster_inv c" "hushed ms B D {} c" "tight c"
  shows "\<exists>c'. cluster_tick c = Inr c' \<and> cluster_inv c' \<and> hushed ms B D {} c' \<and> tight c'"
proof -
  from tick_verdict [OF assms(1)] obtain d where d: "advance c = Inr d" "cluster_inv d"
    "verify d (take_moment d) = Inr () \<or> \<not> tight d \<and> verify d (take_moment d) = Inl StateMachineSafety" by blast
  have h: "hushed ms B D {} d" by (rule hush.advance_keeps [OF assms(2) d(1)])
  with assms(2,3) have "tight d" by (simp add: tight_def hushed_def idle_wire_def)
  with d h show ?thesis by (auto simp: cluster_tick_def)
qed

lemma hushed_watch:
  "cluster_inv c \<Longrightarrow> hushed ms B D {} c \<Longrightarrow> tight c \<Longrightarrow> \<exists>r. tick_until hit k c = Inr r"
proof (induction k arbitrary: c)
  case (Suc k)
  from hushed_ticks [OF Suc.prems] obtain d where "cluster_tick c = Inr d" "cluster_inv d" "hushed ms B D {} d"
    "tight d" by blast
  with Suc.IH [of d] show ?case by auto
qed auto

lemma single_leader:
  assumes "single ms B M c" "cluster_leader c = Some f"
  shows "current_term f \<le> B"
proof -
  obtain p where p: "p \<in> set (up c)" "f = nodes c p" "role f = LEADER"
    using leader_of_cluster [OF assms(2)] by blast
  then have "p \<in> set ms" using singleD(1) [OF assms(1)] by (simp add: up_def)
  from singleD(6) [OF assms(1) this] p show ?thesis by (auto simp: not_less [symmetric])
qed

section \<open>What an observation means\<close>

text \<open>The first tick at which the good thing holds, or none within the patience.\<close>

definition first_hit :: "(cluster \<Rightarrow> bool) \<Rightarrow> nat \<Rightarrow> cluster \<Rightarrow> cluster \<Rightarrow> bool" where
  "first_hit hit j c d \<longleftrightarrow> 1 \<le> j \<and> cluster_run j c = Inr d \<and> hit d \<and>
     (\<forall>i\<in>{1..<j}. \<exists>e. cluster_run i c = Inr e \<and> \<not> hit e)"

lemma tick_until_first:
  "cluster_inv c \<Longrightarrow> tick_until hit k c = Inl StateMachineSafety \<or>
   (\<exists>d. tick_until hit k c = Inr (False, d) \<and> (\<forall>i\<in>{1..k}. \<exists>e. cluster_run i c = Inr e \<and> \<not> hit e)) \<or>
   (\<exists>j d. tick_until hit k c = Inr (True, d) \<and> j \<le> k \<and> first_hit hit j c d \<and> cnow d = cnow c + j)"
proof (induction k arbitrary: c)
  case (Suc k)
  from tick_moves_on [OF Suc.prems] consider "cluster_tick c = Inl StateMachineSafety"
    | d where "cluster_tick c = Inr d" "cluster_inv d" "cnow d = Suc (cnow c)" by (auto simp: moves_on_def)
  then show ?case
  proof cases
    case (2 d)
    have run: "cluster_run (Suc i) c = cluster_run i d" for i using 2(1) by simp
    have later: "(\<forall>i\<in>{1..<Suc j}. \<exists>e. cluster_run i c = Inr e \<and> \<not> hit e)"
      if "\<not> hit d" "\<forall>i\<in>{1..<j}. \<exists>e. cluster_run i d = Inr e \<and> \<not> hit e" for j
    proof
      fix i assume "i \<in> {1..<Suc j}"
      then have i: "i = Suc (i - 1)" "i - 1 = 0 \<or> i - 1 \<in> {1..<j}" by auto
      from i(2) have "\<exists>e. cluster_run (i - 1) d = Inr e \<and> \<not> hit e" using that by auto
      then show "\<exists>e. cluster_run i c = Inr e \<and> \<not> hit e" using run [of "i - 1"] i(1) by simp
    qed
    show ?thesis
    proof (cases "hit d")
      case True
      then have "first_hit hit 1 c d" using 2(1) by (simp add: first_hit_def)
      with 2 True show ?thesis by (intro disjI2) (auto intro!: exI [of _ "1 :: nat"])
    next
      case False
      with 2(1) have step: "tick_until hit (Suc k) c = tick_until hit k d" by simp
      from Suc.IH [OF 2(2)] consider "tick_until hit k d = Inl StateMachineSafety"
        | e where "tick_until hit k d = Inr (False, e)" "\<forall>i\<in>{1..k}. \<exists>e. cluster_run i d = Inr e \<and> \<not> hit e"
        | j e where "tick_until hit k d = Inr (True, e)" "j \<le> k" "first_hit hit j d e" "cnow e = cnow d + j"
        by blast
      then show ?thesis
      proof cases
        case 1
        with step show ?thesis by simp
      next
        case (2 e)
        then have "\<forall>i\<in>{1..Suc k}. \<exists>e. cluster_run i c = Inr e \<and> \<not> hit e"
          using later [OF False, of "Suc k"] by (simp add: atLeastLessThanSuc_atLeastAtMost)
        with 2 step show ?thesis by simp
      next
        case (3 j e)
        then have "first_hit hit (Suc j) c e" using later [OF False, of j] run by (simp add: first_hit_def)
        with 3 step \<open>cnow d = Suc (cnow c)\<close> show ?thesis by (intro disjI2) (auto intro!: exI [of _ "Suc j"])
      qed
    qed
  qed simp
qed simp

lemma observe_first:
  assumes "cluster_inv c"
  shows "observe p hit k c = Inl StateMachineSafety \<or>
    (\<exists>ob. observe p hit k c = Inr ob \<and> ob_claim ob = p \<and> conditional ob \<and>
       (happened ob \<longrightarrow> waited ob \<le> k \<and> (\<exists>d. first_hit hit (waited ob) c d)) \<and>
       (\<not> happened ob \<longrightarrow> waited ob = k \<and> (\<forall>i\<in>{1..k}. \<exists>e. cluster_run i c = Inr e \<and> \<not> hit e)))"
  using tick_until_first [OF assms, of hit k] by (auto simp: observe_def)

section \<open>Nobody is elected in a cluster cut to pieces\<close>

lemma Node_plain: "Node p ms g False cat = Inr n \<Longrightarrow> plain_node ms p n"
  by (auto simp: Node_def plain_node_def reset_election_timer_def Let_def split: if_splits prod.splits)

lemma fresh_signed:
  assumes "Cluster net_seed node_seed sz sd cs chk False = Inr c" "2 \<le> sz"
  shows "signed (cmembers c) {} c" "distinct (cmembers c)"
proof -
  let ?ms = "map (\<lambda>i. CHR ''n'' # decimal i) [0..<sz]"
  from assms obtain w ns where w: "Network ?ms (net_seed sd) cs = Inr w"
    and ns: "rmap (\<lambda>p. Node p ?ms (node_seed sd p) False False) ?ms = Inr ns"
    and c: "cmembers c = ?ms" "net c = w" "nodes c = (\<lambda>p. the (map_of (zip ?ms ns) p))"
    unfolding Cluster_def by (auto simp: raises Let_def split: if_splits)
  have "plain_node ?ms p (nodes c p)" if "p \<in> set ?ms" for p
  proof -
    have "Node p ?ms (node_seed sd p) False False = Inr (nodes c p)"
      using rmap_map_of [OF ns cluster_names_distinct that] c(3) by simp
    then show ?thesis by (rule Node_plain)
  qed
  moreover have "on_net w = ?ms" "flight w = []" using w by (auto simp: Network_def split: if_splits)
  ultimately show "signed (cmembers c) {} c" using c assms(2) by (simp add: signed_def)
  show "distinct (cmembers c)" unfolding c(1) by (rule cluster_names_distinct)
qed

lemma settled_cluster_reach:
  assumes "1 \<le> sz"
  shows "settled_cluster net_seed node_seed sz sd = Inl StateMachineSafety \<or>
    (\<exists>c. settled_cluster net_seed node_seed sz sd = Inr c \<and> cluster_reach net_seed node_seed c)"
proof -
  obtain c where c: "Cluster net_seed node_seed sz sd None True False = Inr c"
    using Cluster_total [OF assms] by blast
  from settle_reach [OF cluster_reach.made [OF c], of SETTLE_TICKS] c show ?thesis
    by (simp add: settled_cluster_def)
qed

lemma settled_cluster_signed:
  assumes "settled_cluster net_seed node_seed sz sd = Inr c" "2 \<le> sz"
  shows "signed (cmembers c) {} c" "distinct (cmembers c)"
proof -
  from assms(1) obtain d where d: "Cluster net_seed node_seed sz sd None True False = Inr d"
    "settle SETTLE_TICKS d = Inr c" by (auto simp: settled_cluster_def raises)
  from signing.settle_keeps [OF fresh_signed(1) [OF d(1) assms(2)] d(2)] fresh_signed [OF d(1) assms(2)]
  show "signed (cmembers c) {} c" "distinct (cmembers c)" by (simp_all add: signed_def)
qed

lemma cut_to_pieces:
  assumes c: "signed ms {} c" "distinct ms"
  shows "\<exists>d. cluster_partition c (map (\<lambda>p. [p]) (cmembers c)) = Inr d \<and> single ms (top_term c) {} d \<and>
    idle_wire d = idle_wire c"
proof -
  have parts: "concat (map (\<lambda>p. [p]) ms) = ms" by (induction ms) simp_all
  let ?d = "c\<lparr>net := (net c)\<lparr>sides := map (\<lambda>p. {p}) ms\<rparr>\<rparr>"
  have "map set (map (\<lambda>p. [p]) ms) = map (\<lambda>p. {p}) ms" by simp
  then have "cluster_partition c (map (\<lambda>p. [p]) (cmembers c)) = Inr ?d"
    using signedD(1,2) [OF c(1)] c(2) parts
    by (simp add: cluster_partition_def net_partition_def Let_def filter_empty_conv)
  moreover have top: "current_term (nodes c p) \<le> top_term c" if "p \<in> set ms" for p
    using that signedD(1) [OF c(1)] by (simp add: top_term_def)
  have "single ms (top_term c) {} ?d"
    unfolding single_def
  proof (intro conjI ballI)
    show "top_term c < current_term (nodes ?d p) \<longrightarrow> role (nodes ?d p) \<noteq> LEADER" if "p \<in> set ms" for p
      using top [OF that] by simp
    fix m assume "m \<in> {} \<union> packet ` set (flight (net ?d))"
    then have m: "m \<in> {} \<or> m \<in> packet ` set (flight (net c))" by simp
    from signedD(5) [OF c(1) m] top show "recipient m \<in> set ms" "\<not> asks_pre_vote (body m)" "m_term m \<le> top_term c"
      by (auto intro: order_trans)
  qed (use signedD [OF c(1)] in simp_all)
  moreover have "idle_wire ?d = idle_wire c" by (simp add: idle_wire_def)
  ultimately show ?thesis by blast
qed

text \<open>
  C37. A cluster of two or more cut into single members elects nobody, however long it is watched and
  whatever was in flight when it was cut: no node ever leads a term above those of the cut. The
  observation says so, has waited the whole patience, and still counts as within its bound, because the
  condition of the bound is absent. Only the cluster's own check can end the run early, and not on
  a cluster that settled with an empty wire and no delivered append that overreached.
\<close>

theorem nobody_elected_in_pieces:
  assumes sz: "2 \<le> sz"
  shows "under_a_partition net_seed node_seed sz sd patience = Inl StateMachineSafety \<and>
      (\<forall>made. settled_cluster net_seed node_seed sz sd = Inr made \<longrightarrow> \<not> (quiet (net made) \<and> tight made)) \<or>
    (\<exists>ob. under_a_partition net_seed node_seed sz sd patience = Inr ob \<and> \<not> happened ob \<and>
       waited ob = patience \<and> \<not> conditional ob \<and> within ob)"
proof -
  have "1 \<le> sz" using sz by simp
  from settled_cluster_reach [OF this, of net_seed node_seed sd] consider
      "settled_cluster net_seed node_seed sz sd = Inl StateMachineSafety"
    | made where "settled_cluster net_seed node_seed sz sd = Inr made" "cluster_reach net_seed node_seed made"
    by blast
  then show ?thesis
  proof cases
    case 1
    then show ?thesis by (simp add: under_a_partition_def)
  next
    case (2 made)
    let ?ms = "cmembers made" and ?B = "top_term made"
    let ?hit = "\<lambda>d. case cluster_leader d of None \<Rightarrow> False | Some f \<Rightarrow> ?B < current_term f"
    obtain c where c: "cluster_partition made (map (\<lambda>p. [p]) ?ms) = Inr c" "single ?ms ?B {} c"
      "idle_wire c = idle_wire made"
      using cut_to_pieces settled_cluster_signed [OF 2(1) sz] by blast
    have "perform node_seed made (Partition (map (\<lambda>p. [p]) ?ms)) = Inr c" using c(1) by simp
    then have inv: "cluster_inv c" using cluster_inv_step cluster_inv_reach [OF 2(2)] by blast
    have run: "under_a_partition net_seed node_seed sz sd patience =
        rbind (observe LEADER_ELECTED ?hit patience c) (\<lambda>ob. Inr (ob\<lparr>conditional := False\<rparr>))"
      using 2(1) c(1) by (simp add: under_a_partition_def)
    have no: "\<not> ?hit d" if "cluster_run j c = Inr d" for j d
      using single_leader [OF singles.run_keeps [OF c(2) that]] by (auto split: option.split)
    have calm: "\<exists>ob. observe LEADER_ELECTED ?hit patience c = Inr ob" if q: "quiet (net made)" "tight made"
    proof -
      have "hushed ?ms ?B (delivered (net made)) {} c" "tight c"
        using q c(2,3) by (simp_all add: hushed_def idle_wire_def quiet_def tight_def)
      from hushed_watch [OF inv this, of ?hit patience] show ?thesis by (auto simp: observe_def)
    qed
    from observe_first [OF inv, of LEADER_ELECTED ?hit patience] consider
        "observe LEADER_ELECTED ?hit patience c = Inl StateMachineSafety"
      | ob where "observe LEADER_ELECTED ?hit patience c = Inr ob"
          "happened ob \<longrightarrow> (\<exists>d. first_hit ?hit (waited ob) c d)" "\<not> happened ob \<longrightarrow> waited ob = patience"
      by blast
    then show ?thesis
    proof cases
      case 1
      then have "\<not> (quiet (net made) \<and> tight made)" using calm by auto
      with 1 2(1) run show ?thesis by simp
    next
      case (2 ob)
      then have "\<not> happened ob" using no unfolding first_hit_def by blast
      with 2 run show ?thesis by (simp add: within_def)
    qed
  qed
qed

theorem nobody_elected_in_pieces_witness:
  "\<exists>ob. under_a_partition (\<lambda>_ _. 0) staggered_seed 3 1 200 = Inr ob \<and> \<not> happened ob \<and> waited ob = 200 \<and> within ob"
proof -
  have same: "settled_cluster (\<lambda>_ _. 0) staggered_seed 3 1 = settled"
    by (simp only: settled_cluster_def settled_def)
  obtain made where made: "settled = Inr made" "quiet (net made)" "tight made"
    using settled_in_office by (auto split: sum.splits)
  have "2 \<le> (3 :: nat)" by simp
  from nobody_elected_in_pieces [OF this, of "\<lambda>_ _. 0" staggered_seed 1 200] made same show ?thesis by auto
qed

section \<open>A write commits well inside its bound\<close>

text \<open>
  Where the cluster settles with a leader in office and its followers caught up, a write is seen
  committed after two ticks at most, so at least six of its eight are left over.
\<close>

theorem write_commits_in_time:
  assumes made: "settled_cluster net_seed node_seed sz sd = Inr made"
    and office: "office ms L T es made" "known ms L (length es) made" and patience: "2 \<le> patience"
  shows "\<exists>ob. a_write_commits net_seed node_seed sz sd patience = Inr ob \<and> happened ob \<and> waited ob \<le> 2 \<and>
    within ob \<and> 6 \<le> margin ob"
proof -
  let ?v = "PTuple [PStr ''set'', PStr ''k'', PInt 1]"
  let ?fs = "es @ [\<lparr>e_term = T, e_index = length es + 1, command = ?v\<rparr>]"
  let ?hit = "\<lambda>d. length (committed d) > length (committed made)"
  from write_in_office [OF office, of ?v 0] obtain c c2 where
    c: "cluster_propose made ?v = Inr (length es + 1, c)" "cluster_run (Suc (Suc 0)) c = Inr c2" "office ms L T ?fs c2"
    "applied (nodes c2 L) = applied (nodes made L) @ [last ?fs]" by (auto simp: Let_def simp del: cluster_run.simps)
  from propose_in_office [OF office(1), of ?v] c(1) have c1: "office ms L T ?fs c" by auto
  from tick_in_office [OF c1, of 0] obtain d where d: "cluster_tick c = Inr d" "cnow d = Suc (cnow c)"
    "office ms L T ?fs d" by blast
  from tick_in_office [OF d(3), of 0] c(2) d(1) have e: "cluster_tick d = Inr c2" "cnow c2 = Suc (cnow d)"
    by auto
  have leads: "cluster_leader made = Some (nodes made L)" "cluster_leader c2 = Some (nodes c2 L)"
    using leader_in_office office(1) c(3) by (auto simp: office_def)
  have hit: "?hit c2" using leads c(4) by (simp add: committed_def)
  from patience have "patience = Suc (Suc (patience - 2))" by simp
  then obtain k where k: "patience = Suc (Suc k)" by blast
  have "tick_until ?hit patience c = (if ?hit d then Inr (True, d) else Inr (True, c2))"
    using d(1) e(1) hit by (simp add: k)
  with made c(1) d(2) e(2) show ?thesis
    by (simp add: a_write_commits_def observe_def within_def margin_def WRITE_COMMITS_def COMMIT_BOUND_def)
qed

theorem write_commits_in_time_witness:
  "\<exists>ob. a_write_commits (\<lambda>_ _. 0) staggered_seed 3 1 300 = Inr ob \<and> waited ob \<le> 2 \<and> within ob"
proof -
  have same: "settled_cluster (\<lambda>_ _. 0) staggered_seed 3 1 = settled"
    by (simp only: settled_cluster_def settled_def)
  let ?es = "[\<lparr>e_term = 2, e_index = 1, command = PNone\<rparr>]"
  obtain made where made: "settled = Inr made" "office [''n0'', ''n1'', ''n2''] ''n0'' 2 ?es made"
    "known [''n0'', ''n1'', ''n2''] ''n0'' (length ?es) made"
    using settled_in_office by (auto split: sum.splits)
  from write_commits_in_time [OF same [THEN trans, OF made(1)] made(2,3), of 300] show ?thesis by auto
qed

end
