(* ===== verification/Shipping.thy ===== *)
theory Shipping
  imports Steady_Leader
begin

text \<open>
  \<open>src/rsm/batch.py\<close>: what it costs to bring a run of entries from a leader to a follower, counted
  from the batch size and the depth, and the conversation of a leader with a follower that is
  behind, which costs what was counted. Shares of bytes are left as the counts they divide.
\<close>

section \<open>The arithmetic\<close>

definition PIPELINE_DEPTH :: int where "PIPELINE_DEPTH = 4"
definition MESSAGE_BYTES :: int where "MESSAGE_BYTES = 64"
definition ENTRY_BYTES :: int where "ENTRY_BYTES = 32"

record shipment =
  sh_entries :: int
  sh_messages :: int
  sh_round_trips :: int
  sh_batch :: int

definition Shipment :: "int \<Rightarrow> int \<Rightarrow> int \<Rightarrow> int \<Rightarrow> shipment result" where
  "Shipment n ms rts b =
     (if b < 1 then Inl ConfigError
      else if n < 0 then Inl ConfigError
      else Inr \<lparr>sh_entries = n, sh_messages = ms, sh_round_trips = rts, sh_batch = b\<rparr>)"

definition nbytes :: "shipment \<Rightarrow> int" where
  "nbytes s = sh_messages s * MESSAGE_BYTES + sh_entries s * ENTRY_BYTES"

definition ship :: "int \<Rightarrow> int \<Rightarrow> int \<Rightarrow> shipment result" where
  "ship n b d =
     (if b < 1 then Inl ConfigError
      else if d < 1 then Inl ConfigError
      else let ms = (if n \<noteq> 0 then - ((- n) div b) else 0)
           in Shipment n ms (if ms \<noteq> 0 then - ((- ms) div d) else 0) b)"

text \<open>The fewest batches that hold the entries, and the fewest round trips that hold the batches.\<close>

lemma ceiling_div:
  fixes n b :: int
  assumes "1 \<le> b"
  shows "n \<le> - ((- n) div b) * b" "(- ((- n) div b) - 1) * b < n"
proof -
  define q where "q = (- n) div b"
  define r where "r = (- n) mod b"
  have "- n = q * b + r" "0 \<le> r" "r < b" using assms by (simp_all add: q_def r_def)
  moreover have "(- q - 1) * b = - (q * b) - b" "- q * b = - (q * b)" by (simp_all add: algebra_simps)
  ultimately have "n \<le> - q * b" "(- q - 1) * b < n" by linarith+
  then show "n \<le> - ((- n) div b) * b" "(- ((- n) div b) - 1) * b < n" unfolding q_def .
qed

lemma ship_is:
  assumes "0 \<le> n" "1 \<le> b" "1 \<le> d"
  shows "\<exists>s. ship n b d = Inr s \<and> sh_entries s = n \<and>
    (sh_messages s - 1) * b < n \<and> n \<le> sh_messages s * b \<and>
    (sh_round_trips s - 1) * d < sh_messages s \<and> sh_messages s \<le> sh_round_trips s * d"
proof -
  let ?ms = "- ((- n) div b)"
  have "(if n \<noteq> 0 then ?ms else 0) = ?ms" "(if ?ms \<noteq> 0 then - ((- ?ms) div d) else 0) = - ((- ?ms) div d)" by simp_all
  then have "ship n b d = Inr \<lparr>sh_entries = n, sh_messages = ?ms, sh_round_trips = - ((- ?ms) div d), sh_batch = b\<rparr>"
    using assms by (simp only: ship_def Shipment_def Let_def) simp
  with ceiling_div [OF assms(2), of n] ceiling_div [OF assms(3), of ?ms] show ?thesis by simp
qed

lemma ship_depth: "ship n b d = Inr s \<Longrightarrow> ship n b d' = Inr s' \<Longrightarrow> nbytes s = nbytes s'"
  by (auto simp: ship_def Shipment_def Let_def nbytes_def split: if_splits)

section \<open>A leader and a follower that is behind\<close>

text \<open>
  What the two say to each other from an append on, until the leader has nothing to add: the number
  of appends, with both nodes as they are left.
\<close>

fun converse :: "nat \<Rightarrow> node \<Rightarrow> node \<Rightarrow> message list \<Rightarrow> (nat \<times> node \<times> node) result" where
  "converse fuel n f [] = Inr (0, n, f)"
| "converse 0 n f (m # rest) = Inl Timeout"
| "converse (Suc k) n f (m # rest) =
     rbind (step f m) (\<lambda>(f', answers).
     rbind (rfold (\<lambda>a (b, out). rbind (step b a) (\<lambda>(b', more). Inr (b', out @ more))) answers (n, rest)) (\<lambda>(n', out).
     rbind (converse k n' f' out) (\<lambda>(j, both). Inr (j + 1, both))))"

text \<open>The append a leader sends a follower it takes to hold \<open>k\<close> entries.\<close>

lemma replicate_one_from:
  assumes n: "leads ms T es L n" and ix: "indexed es" and T: "1 \<le> T" and p: "p \<noteq> L"
    and k: "next_index n p = Some (k + 1)" "k \<le> length es"
  shows "replicate_one n p = Inr \<lparr>sender = L, recipient = p, m_term = T,
    body = Append k (term_of es k) (take MAX_BATCH (drop k es)) (commit_index n) 0\<rparr>"
proof -
  have line: "in_line ms T es L n" and full: "held n = length es" using n by (simp_all add: leads_def)
  note d = in_lineD [OF line ix]
  have log: "log n = plain es" using d(4) full by simp
  have "min (mget (next_index n) p (last_index (log n) + 1)) (last_index (log n) + 1) = k + 1"
    using k d(10) full by (simp add: mget_def)
  moreover have "log_slice (log n) (k + 1) (Some (k + 1 + MAX_BATCH - 1)) = Inr (take MAX_BATCH (drop k es))"
    unfolding log using slice_plain [OF ix, of "k + 1" "k + 1 + MAX_BATCH - 1"] k(2)
    by (simp add: min_def)
  moreover have "term_at (log n) k = Inr (term_of es k)" unfolding log using ix k(2) by (rule term_at_plain)
  ultimately show ?thesis
    unfolding replicate_one_def Let_def using d(1,3) T p log by (simp add: Message_def)
qed

lemma ceiling_step:
  fixes r :: nat
  assumes "0 < r"
  shows "(r + 63) div 64 = Suc ((r - min 64 r + 63) div 64)"
  using assms by (cases "64 \<le> r") (auto simp: min_def le_div_geq)

lemma converse_from:
  assumes ix: "indexed es" and T: "1 \<le> T" and ms: "[] \<notin> set ms" "L \<in> set ms" "p \<in> set ms" "p \<noteq> L"
  shows "leads ms T es L n \<Longrightarrow> next_index n p = Some (k + 1) \<Longrightarrow> mget (match_index n) p 0 \<le> k \<Longrightarrow>
    follows ms T es p f \<Longrightarrow> held f = k \<Longrightarrow> k < length es \<Longrightarrow> (length es - k + 63) div 64 \<le> fuel \<Longrightarrow>
    replicate_one n p = Inr m \<Longrightarrow>
    \<exists>n' f'. converse fuel n f [m] = Inr ((length es - k + 63) div 64, n', f') \<and> leads ms T es L n' \<and>
      follows ms T es p f' \<and> held f' = length es \<and> mget (match_index n') p 0 = length es"
proof (induction fuel arbitrary: n f k m)
  case 0
  then have "0 < length es - k" by simp
  from ceiling_step [OF this] 0 show ?case by simp
next
  case (Suc fuel)
  let ?fs = "take MAX_BATCH (drop k es)"
  define j where "j = k + length ?fs"
  have j: "k < j" "j \<le> length es" "j = min (k + 64) (length es)"
    using Suc.prems(6) by (auto simp: j_def MAX_BATCH_def)
  have m: "m = \<lparr>sender = L, recipient = p, m_term = T,
      body = Append k (term_of es k) ?fs (commit_index n) 0\<rparr>"
    using replicate_one_from [OF Suc.prems(1) ix T ms(4) Suc.prems(2)] Suc.prems(6,8) by simp
  have line: "in_line ms T es L n" and role: "role n = LEADER" and full: "held n = length es"
    and any: "\<not> commit_any_term n" using Suc.prems(1) by (simp_all add: leads_def)
  note d = in_lineD [OF line ix]
  have "commit_index n \<le> length es" using d(6) full by simp
  moreover have cut: "take (length ?fs) (drop k es) = ?fs" by (simp add: min_def)
  ultimately have ok: "in_office_msg ms T es L (\<lambda>q. k) m"
    using Suc.prems(6) ms j cut by (simp add: m in_office_msg_def j_def del: length_take)
  have to: "recipient m = p" and body: "body m = Append k (term_of es k) ?fs (commit_index n) 0" by (simp_all add: m)
  from step_append [OF Suc.prems(4) ix T ok _ to body] Suc.prems(5) obtain f' where
    f': "step f m = Inr (f', [\<lparr>sender = p, recipient = L, m_term = T, body = Appended True j NO_TERM NO_INDEX 0\<rparr>])"
      "follows ms T es p f'" "held f' = max k j" by (auto simp: j_def)
  then have held: "held f' = j" using j by simp
  let ?a = "\<lparr>sender = p, recipient = L, m_term = T, body = Appended True j NO_TERM NO_INDEX 0\<rparr>"
  define n1 where "n1 = record_match n p j"
  have n1: "in_line ms T es L n1" "role n1 = LEADER" "held n1 = length es" "\<not> commit_any_term n1"
    "next_index n1 = (next_index n)(p \<mapsto> j + 1)" "match_index n1 = (match_index n)(p \<mapsto> j)"
    using line role full any Suc.prems(3) j
    by (simp_all add: n1_def record_match_def Let_def in_line_quiet held_def NO_INDEX_def)
  from advance_commit_in_line [OF n1(1-4) ix] obtain n2 where n2: "advance_commit n1 = Inr n2" "leads ms T es L n2"
    "next_index n2 = next_index n1" "\<forall>q. q \<noteq> L \<longrightarrow> mget (match_index n2) q 0 = mget (match_index n1) q 0" by blast
  have next2: "next_index n2 p = Some (j + 1)" and match2: "mget (match_index n2) p 0 = j"
    using n2(3,4) n1(5,6) ms(4) by (simp_all add: mget_def)
  have last2: "last_index (log n2) = length es"
    using n2(2) in_lineD(10) [OF _ ix] by (auto simp: leads_def)
  have "step n ?a = on_appended n ?a True j NO_TERM NO_INDEX"
    using d(3) by (simp add: step_def dispatch_def)
  also have "\<dots> = (if j + 1 \<le> length es then rbind (replicate_to n2 (Some p)) (\<lambda>out. Inr (n2, out)) else Inr (n2, []))"
    using role n2(1) next2 last2 by (simp add: on_appended_def n1_def mget_def)
  finally have answer: "step n ?a =
    (if j + 1 \<le> length es then rbind (replicate_to n2 (Some p)) (\<lambda>out. Inr (n2, out)) else Inr (n2, []))" .
  have "0 < length es - k" "length es - k - min 64 (length es - k) = length es - j" using j Suc.prems(6) by auto
  then have turns: "(length es - k + 63) div 64 = Suc ((length es - j + 63) div 64)"
    using ceiling_step [of "length es - k"] by (simp only: if_True)
  show ?case
  proof (cases "j < length es")
    case True
    obtain m' where m': "replicate_one n2 p = Inr m'"
      using replicate_one_from [OF n2(2) ix T ms(4) next2 j(2)] by blast
    have "p \<noteq> []" using ms by auto
    then have step: "step n ?a = Inr (n2, [m'])" using answer True m' by (simp add: replicate_to_def)
    have "(length es - j + 63) div 64 \<le> fuel" using Suc.prems(7) turns by simp
    from Suc.IH [OF n2(2) next2 _ f'(2) held True this m'] match2 obtain n' g' where
      "converse fuel n2 f' [m'] = Inr ((length es - j + 63) div 64, n', g')" "leads ms T es L n'"
      "follows ms T es p g'" "held g' = length es" "mget (match_index n') p 0 = length es" by auto
    then show ?thesis using f'(1) step turns by simp
  next
    case False
    then have e: "j = length es" using j by simp
    then have "step n ?a = Inr (n2, [])" using answer by simp
    moreover have "(length es - k + 63) div 64 = 1" using turns e by simp
    ultimately show ?thesis using f' held n2(2) match2 e by simp
  qed
qed

lemma ceiling_nat: "- ((- int r) div 64) = int ((r + 63) div 64)"
proof -
  define c where "c = - ((- int r) div 64)"
  have c: "int r \<le> c * 64" "(c - 1) * 64 < int r" unfolding c_def by (rule ceiling_div, simp)+
  then have "int r + 63 = 64 * c + (int r + 63 - 64 * c)" "0 \<le> int r + 63 - 64 * c" "int r + 63 - 64 * c < 64"
    by (simp_all add: algebra_simps)
  then have "(int r + 63) div 64 = c" by (rule int_div_pos_eq)
  then show ?thesis unfolding c_def [symmetric] by (simp add: zdiv_int)
qed


text \<open>A hundred entries, to a follower that holds none: two messages.\<close>

definition hundred :: "entry list" where
  "hundred = map (\<lambda>i. \<lparr>e_term = 2, e_index = Suc i, command = PNone\<rparr>) [0..<100]"

definition trio :: "name list" where "trio = [''n0'', ''n1'', ''n2'']"

definition behind :: node where
  "behind = \<lparr>name = ''n1'', members = trio, pre_vote = False, commit_any_term = False, current_term = 2,
     voted_for = Some ''n0'', log = plain [], role = FOLLOWER, leader = None, commit_index = 0,
     last_applied = 0, next_index = Map.empty, match_index = Map.empty, votes = {}, pre_votes = {}, now = 0,
     election_deadline = 20, heartbeat_due = 0, applied = [], state = [], rng = (\<lambda>_. 0)\<rparr>"

definition boss :: node where
  "boss = behind\<lparr>name := ''n0'', role := LEADER, log := plain hundred, match_index := [''n0'' \<mapsto> 100],
     next_index := [''n1'' \<mapsto> 1, ''n2'' \<mapsto> 1]\<rparr>"

lemma hundred_entries: "length hundred = 100" "indexed hundred"
  by (simp_all add: hundred_def indexed_def del: upt_Suc)

lemma boss_leads: "leads trio 2 hundred ''n0'' boss"
proof -
  have "holders boss i \<le> 1" if "1 \<le> i" for i
    using that by (simp add: holders_def boss_def behind_def trio_def mget_def NO_INDEX_def)
  then have "holders boss i < quorum boss" if "1 \<le> i" for i
    using that by (fastforce simp: quorum_def boss_def behind_def trio_def)
  moreover have "in_line trio 2 hundred ''n0'' boss" "held boss = length hundred"
    by (simp_all add: in_line_def held_def boss_def behind_def hundred_entries replay_def)
  ultimately show ?thesis
    using hundred_entries by (simp add: leads_def boss_def behind_def mget_def)
qed


end
