(* ===== verification/Differential.thy ===== *)
theory Differential
  imports Bounded_Liveness Client Linearize Invariant_Checks
begin

text \<open>
  \<open>src/rsm/verify/differential.py\<close>: the harness that points the invariants, the reference machine and
  the linearizability checker at one run. The two shapes of run are modelled over what is done to the
  system under test, its writes, its ticks and its inspection, and the shipped ones are their
  instances on a settled cluster, so that what the checkers are given shows. \<open>machine_draws\<close> are the draws a
  \<open>now\<close> would take; the workload has none.
\<close>

section \<open>Results\<close>

definition SEQUENTIAL :: string where "SEQUENTIAL = ''sequential''"
definition CONCURRENT :: string where "CONCURRENT = ''concurrent''"
definition INVARIANTS :: string where "INVARIANTS = ''invariants''"
definition REFERENCE :: string where "REFERENCE = ''reference''"
definition LINEARIZABILITY :: string where "LINEARIZABILITY = ''linearizability''"

lemmas checker_names = INVARIANTS_def REFERENCE_def LINEARIZABILITY_def

record diff_result =
  df_shape :: string
  df_commands :: nat
  df_ran :: "string list"
  df_skipped :: "string list"
  failures :: "string list"

definition diff_passed :: "diff_result \<Rightarrow> bool" where
  "diff_passed r \<longleftrightarrow> failures r = []"

section \<open>The workload\<close>

text \<open>The doubles nearest to 0.45 and 0.88; three quarters is exact.\<close>

definition below_set :: dyadic where "below_set = (8106479329266893, 54)"
definition below_increment :: dyadic where "below_increment = (3, 2)"
definition below_delete :: dyadic where "below_delete = (7926335344172073, 53)"

definition draw_command :: "draws \<Rightarrow> (cmd \<times> draws) result" where
  "draw_command g =
     (let (pick, g1) = random_draw g in
      rbind (choice [''a'', ''b'', ''c''] g1) (\<lambda>(k, g2).
      if dyadic_less pick below_set then
        let (v, g3) = randint 0 20 g2 in rbind (Command SET k (PInt (int v)) PNone) (\<lambda>c. Inr (c, g3))
      else if dyadic_less pick below_increment then
        rbind (Command INCREMENT k (PInt 1) PNone) (\<lambda>c. Inr (c, g2))
      else if dyadic_less pick below_delete then
        rbind (Command DELETE k PNone PNone) (\<lambda>c. Inr (c, g2))
      else
        let (e, g3) = randint 0 3 g2; (v, g4) = randint 0 20 g3
        in rbind (Command COMPARE_AND_SET k (PInt (int v)) (PInt (int e))) (\<lambda>c. Inr (c, g4))))"

fun draw_commands :: "nat \<Rightarrow> draws \<Rightarrow> cmd list result" where
  "draw_commands 0 g = Inr []"
| "draw_commands (Suc k) g =
     rbind (draw_command g) (\<lambda>(c, g'). rbind (draw_commands k g') (\<lambda>cs. Inr (c # cs)))"

section \<open>One client at a time\<close>

record 'c seq_run =
  sq_system :: 'c
  sq_history :: history
  sq_machine :: machine
  sq_answers :: "pyobj list"
  sq_draws :: draws

definition seq_turn ::
  "(pyobj \<Rightarrow> 'c \<Rightarrow> 'c result) \<Rightarrow> (nat \<Rightarrow> 'c \<Rightarrow> 'c result) \<Rightarrow> cmd \<Rightarrow> 'c seq_run \<Rightarrow> 'c seq_run result" where
  "seq_turn put go one x =
     rbind (h_call (sq_history x) ''c1'' one) (\<lambda>(op, h).
     rbind (put (cmd_obj one) (sq_system x)) (\<lambda>c1.
     rbind (go 12 c1) (\<lambda>c2.
     case apply_cmd (sq_machine x) one (sq_draws x) of
       (m, Inl e, g) \<Rightarrow> Inl e
     | (m, Inr out, g) \<Rightarrow>
         rbind (h_complete h op out) (\<lambda>h'.
         Inr \<lparr>sq_system = c2, sq_history = h', sq_machine = m, sq_answers = sq_answers x @ [out],
              sq_draws = g\<rparr>))))"

definition sequential_over ::
  "(pyobj \<Rightarrow> 'c \<Rightarrow> 'c result) \<Rightarrow> (nat \<Rightarrow> 'c \<Rightarrow> 'c result) \<Rightarrow> ('c \<Rightarrow> report result) \<Rightarrow> draws \<Rightarrow>
   cmd list \<Rightarrow> 'c \<Rightarrow> diff_result result" where
  "sequential_over put go look machine_draws cs made =
     rbind (rfold (seq_turn put go) cs \<lparr>sq_system = made, sq_history = History, sq_machine = Machine [],
              sq_answers = [], sq_draws = machine_draws\<rparr>) (\<lambda>x.
     rbind (go 40 (sq_system x)) (\<lambda>c.
     rbind (look c) (\<lambda>rep.
     rbind (compare_runs cs (sq_answers x) (digest (m_state (sq_machine x))) machine_draws) (\<lambda>a.
     Inr \<lparr>df_shape = SEQUENTIAL, df_commands = length cs, df_ran = [INVARIANTS, REFERENCE],
          df_skipped = [LINEARIZABILITY],
          failures = (if report_clean rep then [] else [INVARIANTS]) @
            (if agreement_holds a then [] else [REFERENCE])\<rparr>))))"

text \<open>Which of them raise is the cluster's own: a missing leader ends a sequential run.\<close>

definition put_cluster :: "pyobj \<Rightarrow> cluster \<Rightarrow> cluster result" where
  "put_cluster v c = rbind (cluster_propose c v) (\<lambda>(i, c'). Inr c')"

definition sequential_run ::
  "(int \<Rightarrow> draws) \<Rightarrow> (int \<Rightarrow> name \<Rightarrow> draws) \<Rightarrow> (int \<Rightarrow> draws) \<Rightarrow> draws \<Rightarrow> int \<Rightarrow> nat \<Rightarrow> nat \<Rightarrow> diff_result result" where
  "sequential_run net_seed node_seed cmd_seed machine_draws sd n sz =
     rbind (draw_commands n (cmd_seed sd)) (\<lambda>cs.
     rbind (settled_cluster net_seed node_seed sz sd) (\<lambda>made.
     sequential_over put_cluster cluster_run inspect machine_draws cs made))"

section \<open>Several at once\<close>

record 'c con_run =
  cn_system :: 'c
  cn_history :: history
  cn_machine :: machine
  cn_draws :: draws

definition ask_one ::
  "(int \<Rightarrow> draws) \<Rightarrow> nat \<Rightarrow> history \<times> (op_ref \<times> cmd) list \<times> draws \<Rightarrow> (history \<times> (op_ref \<times> cmd) list \<times> draws) result" where
  "ask_one cmd_seed who = (\<lambda>(h, opened, g).
     let (sd, g') = randint 0 9999 g in
     rbind (draw_commands 1 (cmd_seed (int sd))) (\<lambda>cs.
     rbind (h_call h (''c'' @ decimal who) (hd cs)) (\<lambda>(op, h').
     Inr (h', opened @ [(op, hd cs)], g'))))"

definition answer_one :: "(pyobj \<Rightarrow> 'c \<Rightarrow> 'c result) \<Rightarrow> op_ref \<times> cmd \<Rightarrow> 'c con_run \<Rightarrow> 'c con_run result" where
  "answer_one put = (\<lambda>(op, one) x.
     case put (cmd_obj one) (cn_system x) of
       Inl NoLeader \<Rightarrow> Inr x
     | Inl e \<Rightarrow> Inl e
     | Inr c \<Rightarrow>
         (case apply_cmd (cn_machine x) one (cn_draws x) of
            (m, Inl e, g) \<Rightarrow> Inl e
          | (m, Inr out, g) \<Rightarrow>
              rbind (h_complete (cn_history x) op out) (\<lambda>h.
              Inr \<lparr>cn_system = c, cn_history = h, cn_machine = m, cn_draws = g\<rparr>)))"

definition con_round ::
  "(pyobj \<Rightarrow> 'c \<Rightarrow> 'c result) \<Rightarrow> (nat \<Rightarrow> 'c \<Rightarrow> 'c result) \<Rightarrow> (int \<Rightarrow> draws) \<Rightarrow> nat \<Rightarrow> nat \<Rightarrow>
   'c con_run \<times> draws \<Rightarrow> ('c con_run \<times> draws) result" where
  "con_round put go cmd_seed clients turn = (\<lambda>(x, g).
     rbind (rfold (ask_one cmd_seed) [0..<clients] (cn_history x, [], g)) (\<lambda>(h, opened, g').
     rbind (rfold (answer_one put) opened (x\<lparr>cn_history := h\<rparr>)) (\<lambda>x'.
     rbind (go 15 (cn_system x')) (\<lambda>c.
     Inr (x'\<lparr>cn_system := c\<rparr>, g')))))"

definition concurrent_over ::
  "(pyobj \<Rightarrow> 'c \<Rightarrow> 'c result) \<Rightarrow> (nat \<Rightarrow> 'c \<Rightarrow> 'c result) \<Rightarrow> ('c \<Rightarrow> report result) \<Rightarrow> (int \<Rightarrow> draws) \<Rightarrow>
   draws \<Rightarrow> draws \<Rightarrow> nat \<Rightarrow> nat \<Rightarrow> 'c \<Rightarrow> (diff_result \<times> history \<times> verdict) result" where
  "concurrent_over put go look cmd_seed machine_draws g clients each made =
     rbind (rfold (con_round put go cmd_seed clients) [0..<each]
              (\<lparr>cn_system = made, cn_history = History, cn_machine = Machine [], cn_draws = machine_draws\<rparr>, g)) (\<lambda>(x, g').
     rbind (go 40 (cn_system x)) (\<lambda>c.
     rbind (look c) (\<lambda>rep.
     rbind (check_history (cn_history x) BUDGET machine_draws) (\<lambda>v.
     Inr (\<lparr>df_shape = CONCURRENT, df_commands = length (operations (cn_history x)),
           df_ran = [INVARIANTS, LINEARIZABILITY], df_skipped = [REFERENCE],
           failures = (if report_clean rep then [] else [INVARIANTS]) @
             (if verdict_holds v then [] else [LINEARIZABILITY])\<rparr>, cn_history x, v)))))"

definition concurrent_run ::
  "(int \<Rightarrow> draws) \<Rightarrow> (int \<Rightarrow> name \<Rightarrow> draws) \<Rightarrow> (int \<Rightarrow> draws) \<Rightarrow> (int \<Rightarrow> draws) \<Rightarrow> draws \<Rightarrow> int \<Rightarrow> nat \<Rightarrow> nat \<Rightarrow> nat \<Rightarrow>
   (diff_result \<times> history \<times> verdict) result" where
  "concurrent_run net_seed node_seed state_seed cmd_seed machine_draws sd clients each sz =
     rbind (settled_cluster net_seed node_seed sz sd) (\<lambda>made.
     concurrent_over put_cluster cluster_run inspect cmd_seed machine_draws (state_seed sd) clients each made)"

section \<open>The workload on one machine\<close>

text \<open>What the workload draws.\<close>

definition workload_cmd :: "cmd \<Rightarrow> bool" where
  "workload_cmd c \<longleftrightarrow> cname c \<in> {SET, INCREMENT, DELETE, COMPARE_AND_SET} \<and>
     (cname c \<noteq> DELETE \<longrightarrow> (\<exists>i. cvalue c = PInt i))"

lemma draw_command_workload: "draw_command g = Inr (c, g') \<Longrightarrow> workload_cmd c"
  by (auto simp: draw_command_def workload_cmd_def Command_def raises command_names Let_def
      split: if_splits prod.splits)

lemma draw_commands_workload: "draw_commands k g = Inr cs \<Longrightarrow> length cs = k \<and> (\<forall>c\<in>set cs. workload_cmd c)"
  by (induction k arbitrary: g cs) (auto simp: raises dest: draw_command_workload)

lemma draw_command_total: "\<exists>c g'. draw_command g = Inr (c, g')"
proof -
  obtain pick g1 where g1: "random_draw g = (pick, g1)" by fastforce
  obtain k g2 where k: "choice [''a'', ''b'', ''c''] g1 = Inr (k, g2)" "k \<in> set [''a'', ''b'', ''c'']"
    using choice_total [of "[''a'', ''b'', ''c'']" g1] by blast
  then have "k \<noteq> []" by auto
  then show ?thesis
    by (simp add: draw_command_def g1 k(1) Command_def COMMANDS_def Let_def split: prod.split)
qed

lemma draw_commands_total: "\<exists>cs. draw_commands k g = Inr cs"
proof (induction k arbitrary: g)
  case (Suc k)
  obtain c g' where "draw_command g = Inr (c, g')" using draw_command_total by blast
  moreover obtain cs where "draw_commands k g' = Inr cs" using Suc by blast
  ultimately show ?case by simp
qed simp

lemma workload_plain: "workload_cmd c \<Longrightarrow> cname c \<in> set COMMANDS \<and> deterministic c"
  by (auto simp: workload_cmd_def COMMANDS_def deterministic_def command_names)

text \<open>Where every value held is a number the workload is always answered, and leaves only numbers.\<close>

definition all_numbers :: "dict \<Rightarrow> bool" where
  "all_numbers d \<longleftrightarrow> (\<forall>v\<in>snd ` set d. as_int v \<noteq> None)"

lemma workload_effect:
  assumes "workload_cmd c" "all_numbers d"
  shows "\<exists>d' out. (\<forall>g. effect c d g = (Inr (d', out), g)) \<and> all_numbers d'"
proof -
  let ?c = "if cname c = DELETE then c\<lparr>cvalue := PInt 1\<rparr> else c"
  have "effect ?c d g = effect c d g" for g by (simp add: effect_def command_names)
  moreover have "counting ?c" using assms(1) by (auto simp: counting_def workload_cmd_def)
  moreover have "numbers (Machine d, \<lambda>i. 0)" using assms(2) by (simp add: numbers_def all_numbers_def Machine_def)
  ultimately obtain d' out where "effect c d (\<lambda>i. 0) = (Inr (d', out), \<lambda>i. 0)" "all_numbers d'"
    using counting_answers [of "Machine d" "\<lambda>i. 0" ?c] by (auto simp: Machine_def all_numbers_def)
  moreover have "effect c d g = (fst (effect c d (\<lambda>i. 0)), g)" for g
    using effect_deterministic workload_plain [OF assms(1)] by blast
  ultimately show ?thesis by (metis fst_conv)
qed

lemma workload_apply:
  assumes "workload_cmd c" "all_numbers (m_state m)"
  shows "\<exists>m' out. (\<forall>g. apply_cmd m c g = (m', Inr out, g)) \<and> all_numbers (m_state m') \<and>
    (\<forall>g. effect c (m_state m) g = (Inr (m_state m', out), g))"
proof -
  obtain d' out where "\<And>g. effect c (m_state m) g = (Inr (d', out), g)" "all_numbers d'"
    using workload_effect [OF assms] by blast
  then show ?thesis by (simp add: apply_cmd_def Let_def)
qed

section \<open>The reference is told nothing of the system\<close>

text \<open>
  What a system may do: lack a leader, or find itself unsafe, or go on in a state it may be in. Of
  the shipped one these are the reachable clusters.
\<close>

definition TROUBLES :: "error set" where "TROUBLES = {NoLeader, StateMachineSafety}"

definition lawful :: "('c \<Rightarrow> bool) \<Rightarrow> ('c \<Rightarrow> 'c result) \<Rightarrow> bool" where
  "lawful P f \<longleftrightarrow> (\<forall>c. P c \<longrightarrow> (case f c of Inl e \<Rightarrow> e \<in> TROUBLES | Inr c' \<Rightarrow> P c'))"

definition troubled :: "'a result \<Rightarrow> bool" where
  "troubled r \<longleftrightarrow> (\<exists>e\<in>TROUBLES. r = Inl e)"

lemma troubled_Inl [simp]: "troubled (Inl e) \<longleftrightarrow> e \<in> TROUBLES"
  by (simp add: troubled_def)

lemma troubled_Inr [simp]: "\<not> troubled (Inr x)"
  by (simp add: troubled_def)

lemma lawfulE:
  assumes "lawful P f" "P c"
  obtains (trouble) e where "f c = Inl e" "e \<in> TROUBLES" | (fine) c' where "f c = Inr c'" "P c'"
  using assms by (cases "f c") (auto simp: lawful_def)

text \<open>A loop whose body is in trouble or keeps an invariant.\<close>

lemma rfold_troubled:
  assumes "\<And>x s. x \<in> set xs \<Longrightarrow> P s \<Longrightarrow> troubled (f x s) \<or> (\<exists>s'. f x s = Inr s' \<and> P s')" "P s"
  shows "troubled (rfold f xs s) \<or> (\<exists>s'. rfold f xs s = Inr s' \<and> P s')"
  using assms
proof (induction xs arbitrary: s)
  case (Cons x xs)
  from Cons.prems(1) [of x s] Cons.prems(2) consider
      e where "f x s = Inl e" "e \<in> TROUBLES" | t where "f x s = Inr t" "P t"
    by (auto simp: troubled_def)
  then show ?case
  proof cases
    case (2 t)
    with Cons.IH [of t] Cons.prems(1) show ?thesis by auto
  qed simp
qed simp

definition seq_ok :: "('c \<Rightarrow> bool) \<Rightarrow> 'c seq_run \<Rightarrow> bool" where
  "seq_ok P x \<longleftrightarrow> P (sq_system x) \<and> history_ok (sq_history x) \<and> all_numbers (m_state (sq_machine x))"

lemma seq_turn_answers:
  assumes sys: "\<And>v. lawful P (put v)" "\<And>k. lawful P (go k)" and x: "seq_ok P x" and c: "workload_cmd c"
  shows "troubled (seq_turn put go c x) \<or>
    (\<exists>z out. seq_turn put go c x = Inr z \<and> seq_ok P z \<and> sq_answers z = sq_answers x @ [out] \<and>
       (\<forall>g. apply_cmd (sq_machine x) c g = (sq_machine z, Inr out, g)))"
proof -
  obtain h op where h: "h_call (sq_history x) ''c1'' c = Inr (Own (length (operations (sq_history x))), h)"
    "history_ok h" "operations h = operations (sq_history x) @ [op]"
    using h_call_ok [of "sq_history x" "''c1''" c] x by (auto simp: seq_ok_def)
  obtain m out where m: "\<And>g. apply_cmd (sq_machine x) c g = (m, Inr out, g)" "all_numbers (m_state m)"
    using workload_apply [OF c, of "sq_machine x"] x by (auto simp: seq_ok_def)
  obtain h' where h': "h_complete h (Own (length (operations (sq_history x)))) out = Inr h'" "history_ok h'"
    using h_complete_own [OF h(2), of "length (operations (sq_history x))" out] h(3) by auto
  have "P (sq_system x)" using x by (simp add: seq_ok_def)
  with sys(1) [of "cmd_obj c"] show ?thesis
  proof (cases rule: lawfulE)
    case (fine c1)
    from sys(2) [of 12] fine(2) show ?thesis
    proof (cases rule: lawfulE)
      case (fine c2)
      then show ?thesis
        using h(1) h' m \<open>put (cmd_obj c) (sq_system x) = Inr c1\<close> by (simp add: seq_turn_def seq_ok_def)
    qed (use h(1) fine(1) in \<open>simp add: seq_turn_def\<close>)
  qed (use h(1) in \<open>simp add: seq_turn_def\<close>)
qed

lemma seq_turns_answer:
  assumes sys: "\<And>v. lawful P (put v)" "\<And>k. lawful P (go k)"
  shows "seq_ok P x \<Longrightarrow> \<forall>c\<in>set cs. workload_cmd c \<Longrightarrow> r_machine r = sq_machine x \<Longrightarrow>
   troubled (rfold (seq_turn put go) cs x) \<or>
   (\<exists>y outs r'. rfold (seq_turn put go) cs x = Inr y \<and> seq_ok P y \<and> sq_answers y = sq_answers x @ outs \<and>
      ref_run r cs k = (r', Inr outs) \<and> r_machine r' = sq_machine y)"
proof (induction cs arbitrary: x r)
  case (Cons c cs)
  then have c: "workload_cmd c" by simp
  from seq_turn_answers [of P put go, OF sys Cons.prems(1) c] show ?case
  proof (elim disjE exE conjE)
    fix z out
    assume z: "seq_turn put go c x = Inr z" "seq_ok P z" "sq_answers z = sq_answers x @ [out]"
      "\<forall>g. apply_cmd (sq_machine x) c g = (sq_machine z, Inr out, g)"
    let ?r = "r\<lparr>r_machine := sq_machine z, r_answers := r_answers r @ [out]\<rparr>"
    have ref: "ref_apply r c k = (?r, Inr out, k)" using z(4) Cons.prems(3) by (simp add: ref_apply_def)
    have "\<forall>c\<in>set cs. workload_cmd c" "r_machine ?r = sq_machine z" using Cons.prems(2) by simp_all
    from Cons.IH [OF z(2) this] z(1,3) ref show ?thesis by auto
  qed (auto simp: troubled_def)
qed simp

lemma reference_never_reports:
  assumes sys: "\<And>v. lawful P (put v)" "\<And>k. lawful P (go k)" "\<And>c. P c \<Longrightarrow> \<exists>rep. look c = Inr rep" "P made"
    and cs: "\<forall>c\<in>set cs. workload_cmd c"
  shows "troubled (sequential_over put go look g cs made) \<or>
    (\<exists>r. sequential_over put go look g cs made = Inr r \<and> set (failures r) \<subseteq> {INVARIANTS})"
proof -
  let ?x = "\<lparr>sq_system = made, sq_history = History, sq_machine = Machine [], sq_answers = [], sq_draws = g\<rparr>"
  have "seq_ok P ?x" using sys(4) by (simp add: seq_ok_def history_ok_empty all_numbers_def Machine_def)
  moreover have "r_machine Reference = sq_machine ?x" by (simp add: Reference_def)
  ultimately consider "troubled (rfold (seq_turn put go) cs ?x)"
    | y outs r where "rfold (seq_turn put go) cs ?x = Inr y" "seq_ok P y" "sq_answers y = sq_answers ?x @ outs"
      "ref_run Reference cs g = (r, Inr outs)" "r_machine r = sq_machine y"
    using seq_turns_answer [of P put go, OF sys(1,2) _ cs] by meson
  then show ?thesis
  proof cases
    case 1
    then show ?thesis by (auto simp: troubled_def sequential_over_def)
  next
    case y: (2 y outs r)
    then have "P (sq_system y)" by (simp add: seq_ok_def)
    with sys(2) [of 40] show ?thesis
    proof (cases rule: lawfulE)
      case (fine c)
      obtain rep where rep: "look c = Inr rep" using sys(3) fine(2) by blast
      have "list_all2 py_eq outs outs" by (simp add: list.rel_refl)
      moreover have "length outs = length cs" using ref_run_length [OF y(4)] .
      ultimately have "\<exists>a. compare_runs cs (sq_answers y) (digest (m_state (sq_machine y))) g = Inr a \<and> agreement_holds a"
        using y(3-5) by (simp add: compare_runs_def agreement_holds_def ref_digest_def no_differences)
      then show ?thesis using y(1) fine(1) rep by (auto simp: sequential_over_def)
    qed (use y(1) in \<open>simp add: sequential_over_def\<close>)
  qed
qed

section \<open>Neither is the linearizability checker\<close>

text \<open>
  The operations that were answered, in the order of their answers, are a run of the machine the
  harness keeps, so they explain what was recorded; what was never answered can come last.
\<close>

fun takes_all :: "dict \<Rightarrow> operation list \<Rightarrow> dict option" where
  "takes_all d [] = Some d"
| "takes_all d (x # xs) = (case takes d x of None \<Rightarrow> None | Some d' \<Rightarrow> takes_all d' xs)"

lemma takes_all_append:
  "takes_all d (xs @ ys) = (case takes_all d xs of None \<Rightarrow> None | Some d' \<Rightarrow> takes_all d' ys)"
  by (induction xs arbitrary: d) (auto split: option.splits)

lemma explains_takes_all: "explains d xs \<longleftrightarrow> takes_all d xs \<noteq> None"
  by (induction xs arbitrary: d) (auto split: option.splits)

definition answered_before :: "operation \<Rightarrow> operation \<Rightarrow> bool" where
  "answered_before x y \<longleftrightarrow> (case (returned_at x, returned_at y) of (Some r, Some u) \<Rightarrow> r < u | _ \<Rightarrow> False)"

definition answered_by :: "history \<Rightarrow> machine \<Rightarrow> bool" where
  "answered_by h m \<longleftrightarrow> history_ok h \<and> (\<forall>x\<in>set (operations h). workload_cmd (o_command x)) \<and>
     all_numbers (m_state m) \<and>
     (\<exists>xs. mset xs = mset (h_completed h) \<and> sorted_wrt answered_before xs \<and> takes_all [] xs = Some (m_state m))"

lemma answered_start: "answered_by History (Machine [])"
  using history_ok_empty
  by (auto simp: answered_by_def History_def h_completed_def all_numbers_def Machine_def)

lemma answered_call:
  assumes "answered_by h m" "workload_cmd c"
  shows "\<exists>h' x. h_call h who c = Inr (Own (length (operations h)), h') \<and> answered_by h' m \<and>
    operations h' = operations h @ [x] \<and> o_command x = c \<and> \<not> op_complete x"
  using assms h_call_ok [of h who c] by (fastforce simp: answered_by_def h_completed_def)

lemma answered_complete:
  assumes h: "answered_by h m" and i: "i < length (operations h)" "\<not> op_complete (operations h ! i)"
    and m: "\<And>g. effect (o_command (operations h ! i)) (m_state m) g = (Inr (m_state m', out), g)"
    "all_numbers (m_state m')"
  shows "\<exists>h'. h_complete h (Own i) out = Inr h' \<and> answered_by h' m' \<and> length (operations h') = length (operations h) \<and>
    (\<forall>j. j \<noteq> i \<longrightarrow> operations h' ! j = operations h ! j)"
proof -
  let ?y = "(operations h ! i)\<lparr>returned_at := Some (clock h + 1), o_result := out\<rparr>"
  have ok: "history_ok h" using h by (simp add: answered_by_def)
  obtain h' where h': "h_complete h (Own i) out = Inr h'" "history_ok h'" "operations h' = (operations h)[i := ?y]"
    using h_complete_own [OF ok i(1), of out] by auto
  obtain xs where xs: "mset xs = mset (h_completed h)" "sorted_wrt answered_before xs"
    "takes_all [] xs = Some (m_state m)"
    using h by (auto simp: answered_by_def)
  have ops: "operations h = take i (operations h) @ operations h ! i # drop (Suc i) (operations h)"
    using i(1) by (rule id_take_nth_drop)
  have "operations h' = take i (operations h) @ ?y # drop (Suc i) (operations h)"
    unfolding h'(3) using i(1) by (rule upd_conv_take_nth_drop)
  moreover have "op_complete ?y" by (simp add: op_complete_def)
  moreover have "h_completed h = filter op_complete (take i (operations h) @ drop (Suc i) (operations h))"
    unfolding h_completed_def by (subst ops) (simp add: i(2))
  ultimately have "mset (h_completed h') = add_mset ?y (mset (h_completed h))" by (simp add: h_completed_def)
  then have "mset (xs @ [?y]) = mset (h_completed h')" using xs(1) by simp
  moreover have "answered_before x ?y" if "x \<in> set xs" for x
  proof -
    have "x \<in> set (h_completed h)" using that xs(1) by (metis set_mset_mset)
    then have "op_complete x" "op_ok (clock h) x" using ok by (auto simp: h_completed_def history_ok_def)
    then show ?thesis by (auto simp: answered_before_def op_complete_def op_ok_def)
  qed
  then have "sorted_wrt answered_before (xs @ [?y])" using xs(2) by (simp add: sorted_wrt_append)
  moreover have "takes (m_state m) ?y = Some (m_state m')" by (simp add: takes_def m(1))
  then have "takes_all [] (xs @ [?y]) = Some (m_state m')" using xs(3) by (simp add: takes_all_append)
  moreover have "\<forall>x\<in>set (operations h'). workload_cmd (o_command x)"
  proof -
    have "workload_cmd (o_command ?y)" using h i(1) by (simp add: answered_by_def)
    then show ?thesis
      using h set_update_subset_insert [of "operations h" i ?y] unfolding h'(3) answered_by_def by blast
  qed
  ultimately have "answered_by h' m'" using h'(2) m(2) unfolding answered_by_def by blast
  with h'(1,3) show ?thesis by simp
qed

lemma numbers_take_all:
  assumes "\<forall>x\<in>set ys. \<not> op_complete x \<and> workload_cmd (o_command x)" "all_numbers d"
  shows "takes_all d ys \<noteq> None"
  using assms
proof (induction ys arbitrary: d)
  case (Cons y ys)
  then obtain d' out where "\<And>g. effect (o_command y) d g = (Inr (d', out), g)" "all_numbers d'"
    using workload_effect [of "o_command y" d] by auto
  with Cons show ?case by (simp add: takes_def)
qed simp

lemma answered_explained:
  assumes "answered_by h m"
  shows "explained h"
proof -
  obtain xs where xs: "mset xs = mset (h_completed h)" "sorted_wrt answered_before xs"
    "takes_all [] xs = Some (m_state m)"
    using assms by (auto simp: answered_by_def)
  have ok: "history_ok h" using assms by (simp add: answered_by_def)
  have last: "\<not> before y x" if "y \<in> set (h_pending h)" for x y
    using that by (auto simp: before_def h_pending_def op_complete_def)
  have "\<not> before y x" if "answered_before x y" "x \<in> set xs" for x y
  proof -
    have "x \<in> set (h_completed h)" using that(2) xs(1) by (metis set_mset_mset)
    then have "op_ok (clock h) x" using ok by (auto simp: h_completed_def history_ok_def)
    with that(1) show ?thesis by (auto simp: answered_before_def before_def op_ok_def split: option.splits)
  qed
  then have "sorted_wrt (\<lambda>x y. \<not> before y x) xs" using xs(2) by (auto elim: sorted_wrt_mono_rel [rotated])
  moreover have "sorted_wrt (\<lambda>x y. \<not> before y x) (h_pending h)" using last by (simp add: sorted_wrt_iff_nth_less)
  ultimately have "real_time (xs @ h_pending h)" using last by (simp add: real_time_def sorted_wrt_append)
  moreover have "takes_all (m_state m) (h_pending h) \<noteq> None"
    using assms by (intro numbers_take_all) (auto simp: answered_by_def h_pending_def)
  then have "explains [] (xs @ h_pending h)" using xs(3) by (simp add: explains_takes_all takes_all_append)
  moreover have "mset (xs @ h_pending h) = mset (operations h)"
    using xs(1) by (simp add: h_completed_def h_pending_def)
  ultimately show ?thesis unfolding explained_def by blast
qed

text \<open>An operation that was opened and not answered, with its command.\<close>

definition waits :: "history \<Rightarrow> op_ref \<times> cmd \<Rightarrow> bool" where
  "waits h = (\<lambda>(ref, c). case ref of Foreign x \<Rightarrow> False
     | Own i \<Rightarrow> i < length (operations h) \<and> \<not> op_complete (operations h ! i) \<and> o_command (operations h ! i) = c)"

definition opened_ok :: "machine \<Rightarrow> history \<times> (op_ref \<times> cmd) list \<times> draws \<Rightarrow> bool" where
  "opened_ok m = (\<lambda>(h, opened, g). answered_by h m \<and> (\<forall>x\<in>set opened. waits h x) \<and> distinct (map fst opened))"

lemma ask_one_ok:
  assumes "opened_ok m s"
  shows "\<exists>s'. ask_one cmd_seed who s = Inr s' \<and> opened_ok m s'"
proof -
  obtain h opened g where s: "s = (h, opened, g)" by (cases s) auto
  have h: "answered_by h m" "\<forall>x\<in>set opened. waits h x" "distinct (map fst opened)"
    using assms by (simp_all add: opened_ok_def s)
  obtain sd g' where sd: "randint 0 9999 g = (sd, g')" by fastforce
  obtain cs where cs: "draw_commands 1 (cmd_seed (int sd)) = Inr cs" using draw_commands_total by blast
  then obtain c where c: "cs = [c]" "workload_cmd c"
    using draw_commands_workload [OF cs] by (auto simp: length_Suc_conv)
  obtain h' x where h': "h_call h (''c'' @ decimal who) c = Inr (Own (length (operations h)), h')" "answered_by h' m"
    "operations h' = operations h @ [x]" "o_command x = c" "\<not> op_complete x"
    using answered_call [OF h(1) c(2)] by blast
  have "\<forall>y\<in>set opened. waits h' y" using h(2) h'(3) by (auto simp: waits_def nth_append split: op_ref.splits)
  moreover have "Own (length (operations h)) \<notin> set (map fst opened)"
  proof
    assume "Own (length (operations h)) \<in> set (map fst opened)"
    then obtain d where "(Own (length (operations h)), d) \<in> set opened" by auto
    with h(2) have "waits h (Own (length (operations h)), d)" by blast
    then show False by (simp add: waits_def)
  qed
  ultimately show ?thesis
    using h' h(3) cs c(1) by (simp add: s ask_one_def sd opened_ok_def waits_def)
qed

definition con_ok :: "('c \<Rightarrow> bool) \<Rightarrow> 'c con_run \<Rightarrow> bool" where
  "con_ok P x \<longleftrightarrow> P (cn_system x) \<and> answered_by (cn_history x) (cn_machine x)"

lemma answer_one_ok:
  assumes sys: "\<And>v. lawful P (put v)" and x: "con_ok P x" and w: "waits (cn_history x) (ref, c)"
  shows "troubled (answer_one put (ref, c) x) \<or> (\<exists>z. answer_one put (ref, c) x = Inr z \<and> con_ok P z \<and>
    (\<forall>y. fst y \<noteq> ref \<longrightarrow> waits (cn_history x) y \<longrightarrow> waits (cn_history z) y))"
proof -
  obtain i where i: "ref = Own i" "i < length (operations (cn_history x))"
      "\<not> op_complete (operations (cn_history x) ! i)" "o_command (operations (cn_history x) ! i) = c"
    using w by (auto simp: waits_def split: op_ref.splits)
  have x': "P (cn_system x)" "answered_by (cn_history x) (cn_machine x)" using x by (simp_all add: con_ok_def)
  have "workload_cmd c" "all_numbers (m_state (cn_machine x))"
    using x'(2) i(2,4) by (auto simp: answered_by_def)
  then obtain m out where m: "\<And>g. apply_cmd (cn_machine x) c g = (m, Inr out, g)" "all_numbers (m_state m)"
    "\<And>g. effect c (m_state (cn_machine x)) g = (Inr (m_state m, out), g)"
    using workload_apply by blast
  obtain h where h: "h_complete (cn_history x) (Own i) out = Inr h" "answered_by h m"
    "length (operations h) = length (operations (cn_history x))"
    "\<forall>j. j \<noteq> i \<longrightarrow> operations h ! j = operations (cn_history x) ! j"
    using answered_complete [OF x'(2) i(2,3), of m out] m(2,3) i(4) by blast
  have kept: "waits h y" if "fst y \<noteq> ref" "waits (cn_history x) y" for y
    using that h(3,4) i(1) by (cases y) (auto simp: waits_def split: op_ref.splits)
  from sys [of "cmd_obj c"] x'(1) show ?thesis
  proof (cases rule: lawfulE)
    case (trouble e)
    show ?thesis
    proof (cases "e = NoLeader")
      case True
      then show ?thesis using trouble(1) x by (simp add: answer_one_def)
    next
      case False
      with trouble have "e = StateMachineSafety" by (simp add: TROUBLES_def)
      with trouble show ?thesis by (simp add: answer_one_def)
    qed
  next
    case (fine c1)
    then show ?thesis using h(1,2) kept m(1) i(1) by (auto simp: answer_one_def con_ok_def)
  qed
qed

lemma answers_ok:
  assumes sys: "\<And>v. lawful P (put v)"
  shows "con_ok P x \<Longrightarrow> \<forall>y\<in>set opened. waits (cn_history x) y \<Longrightarrow> distinct (map fst opened) \<Longrightarrow>
    troubled (rfold (answer_one put) opened x) \<or> (\<exists>z. rfold (answer_one put) opened x = Inr z \<and> con_ok P z)"
proof (induction opened arbitrary: x)
  case (Cons y opened)
  obtain ref c where y: "y = (ref, c)" by fastforce
  from answer_one_ok [of P put x ref c, OF sys Cons.prems(1)] Cons.prems(2) y
  consider "troubled (answer_one put y x)"
    | z where "answer_one put y x = Inr z" "con_ok P z"
        "\<forall>w. fst w \<noteq> ref \<longrightarrow> waits (cn_history x) w \<longrightarrow> waits (cn_history z) w"
    by auto
  then show ?case
  proof cases
    case (2 z)
    have "\<forall>w\<in>set opened. waits (cn_history z) w" using Cons.prems(2,3) 2(3) y by force
    with Cons.IH [OF 2(2)] Cons.prems(3) 2(1) show ?thesis by simp
  qed (auto simp: troubled_def)
qed simp

lemma con_round_ok:
  assumes sys: "\<And>v. lawful P (put v)" "\<And>k. lawful P (go k)" and x: "con_ok P x"
  shows "troubled (con_round put go cmd_seed clients turn (x, g)) \<or>
    (\<exists>z g'. con_round put go cmd_seed clients turn (x, g) = Inr (z, g') \<and> con_ok P z)"
proof -
  have "opened_ok (cn_machine x) (cn_history x, [], g)" using x by (simp add: opened_ok_def con_ok_def)
  then obtain s where "rfold (ask_one cmd_seed) [0..<clients] (cn_history x, [], g) = Inr s" "opened_ok (cn_machine x) s"
    using rfold_total [of "[0..<clients]" "opened_ok (cn_machine x)" "ask_one cmd_seed"] ask_one_ok by blast
  then obtain h opened g' where h: "rfold (ask_one cmd_seed) [0..<clients] (cn_history x, [], g) = Inr (h, opened, g')"
    "answered_by h (cn_machine x)" "\<forall>y\<in>set opened. waits h y" "distinct (map fst opened)"
    by (cases s) (auto simp: opened_ok_def)
  have "con_ok P (x\<lparr>cn_history := h\<rparr>)" using x h(2) by (simp add: con_ok_def)
  from answers_ok [of P put, OF sys(1) this _ h(4)] h(3)
  consider "troubled (rfold (answer_one put) opened (x\<lparr>cn_history := h\<rparr>))"
    | z where "rfold (answer_one put) opened (x\<lparr>cn_history := h\<rparr>) = Inr z" "con_ok P z"
    by auto
  then show ?thesis
  proof cases
    case 1
    then show ?thesis using h(1) by (auto simp: troubled_def con_round_def)
  next
    case (2 z)
    then have "P (cn_system z)" by (simp add: con_ok_def)
    with sys(2) [of 15] show ?thesis
      by (cases rule: lawfulE) (use h(1) 2 in \<open>simp_all add: con_round_def con_ok_def\<close>)
  qed
qed

lemma checker_never_refutes:
  assumes sys: "\<And>v. lawful P (put v)" "\<And>k. lawful P (go k)" "\<And>c. P c \<Longrightarrow> \<exists>rep. look c = Inr rep" "P made"
  shows "troubled (concurrent_over put go look cmd_seed md g clients each made) \<or>
    (\<exists>r h v. concurrent_over put go look cmd_seed md g clients each made = Inr (r, h, v) \<and>
       answer v \<noteq> NOT_LINEARIZABLE \<and> (LINEARIZABILITY \<in> set (failures r) \<longrightarrow> BUDGET \<le> v_states v))"
proof -
  let ?x = "\<lparr>cn_system = made, cn_history = History, cn_machine = Machine [], cn_draws = md\<rparr>"
  have "con_ok P ?x" using sys(4) answered_start by (simp add: con_ok_def)
  moreover have "troubled (con_round put go cmd_seed clients t s) \<or>
      (\<exists>s'. con_round put go cmd_seed clients t s = Inr s' \<and> con_ok P (fst s'))" if "con_ok P (fst s)" for t s
    using con_round_ok [of P put go, OF sys(1,2) that, of cmd_seed clients t "snd s"] by auto
  ultimately consider "troubled (rfold (con_round put go cmd_seed clients) [0..<each] (?x, g))"
    | s where "rfold (con_round put go cmd_seed clients) [0..<each] (?x, g) = Inr s" "con_ok P (fst s)"
    using rfold_troubled [of "[0..<each]" "con_ok P \<circ> fst" "con_round put go cmd_seed clients" "(?x, g)"] by auto
  then show ?thesis
  proof cases
    case 1
    then show ?thesis by (auto simp: troubled_def concurrent_over_def)
  next
    case (2 s)
    obtain z g' where s: "s = (z, g')" by fastforce
    have z: "P (cn_system z)" "answered_by (cn_history z) (cn_machine z)" using 2(2) by (simp_all add: con_ok_def s)
    have "explained (cn_history z)" by (rule answered_explained [OF z(2)])
    moreover have "\<forall>x\<in>set (operations (cn_history z)). steady x"
      using z(2) workload_plain by (auto simp: answered_by_def steady_def)
    moreover have "1 \<le> BUDGET" by (simp add: BUDGET_def)
    ultimately obtain v where v: "check_history (cn_history z) BUDGET md = Inr v" "answer v \<noteq> NOT_LINEARIZABLE"
      "answer v = UNKNOWN \<longrightarrow> BUDGET \<le> v_states v"
      using check_search [of "cn_history z" BUDGET md] by blast
    from sys(2) [of 40] z(1) show ?thesis
    proof (cases rule: lawfulE)
      case (fine c)
      obtain rep where "look c = Inr rep" using sys(3) fine(2) by blast
      then show ?thesis
        using 2(1) s fine(1) v by (cases "answer v") (simp_all add: concurrent_over_def verdict_holds_def checker_names)
    qed (use 2(1) s in \<open>simp add: concurrent_over_def\<close>)
  qed
qed

section \<open>What the harness can find\<close>

text \<open>
  C40. The harness puts its checkers on the answers of a machine of its own and never on the system's,
  so whatever the system does with what it is given, so long as it only lacks a leader or finds itself
  unsafe, a sequential run reports nothing of the reference and a concurrent one is never found
  impossible: the only verdict against it is a search that ran out of its budget.
\<close>

theorem checkers_are_blind:
  assumes "\<And>v. lawful P (put v)" "\<And>k. lawful P (go k)" "\<And>c. P c \<Longrightarrow> \<exists>rep. look c = Inr rep" "P made"
    and "draw_commands n g = Inr cs"
  shows "(troubled (sequential_over put go look md cs made) \<or>
     (\<exists>r. sequential_over put go look md cs made = Inr r \<and> set (failures r) \<subseteq> {INVARIANTS})) \<and>
    (troubled (concurrent_over put go look cmd_seed md g' clients each made) \<or>
     (\<exists>r h v. concurrent_over put go look cmd_seed md g' clients each made = Inr (r, h, v) \<and>
        answer v \<noteq> NOT_LINEARIZABLE \<and> (LINEARIZABILITY \<in> set (failures r) \<longrightarrow> BUDGET \<le> v_states v)))"
  using reference_never_reports [of P put go look made cs md, OF assms(1-4)] draw_commands_workload [OF assms(5)]
    checker_never_refutes [of P put go look made cmd_seed md g' clients each, OF assms(1-4)] by simp

text \<open>A system that drops every write: every command of every run passes both of its checks.\<close>

theorem checkers_are_blind_witness:
  "(\<exists>r. sequential_over (\<lambda>v c. Inr c) (\<lambda>k c. Inr c) (\<lambda>c. Inr \<lparr>r_ticks = 0, breaches = []\<rparr>) (\<lambda>i. 0)
       [\<lparr>cname = SET, ckey = ''a'', cvalue = PInt 0, cexpected = PNone\<rparr>] () = Inr r \<and> set (failures r) \<subseteq> {INVARIANTS}) \<and>
   (\<exists>r h v. concurrent_over (\<lambda>v c. Inr c) (\<lambda>k c. Inr c) (\<lambda>c. Inr \<lparr>r_ticks = 0, breaches = []\<rparr>) (\<lambda>s i. 0) (\<lambda>i. 0)
       (\<lambda>i. 0) 3 3 () = Inr (r, h, v) \<and> answer v \<noteq> NOT_LINEARIZABLE)"
proof -
  let ?put = "\<lambda>(v :: pyobj) (c :: unit). (Inr c :: unit result)" and ?go = "\<lambda>(k :: nat) (c :: unit). (Inr c :: unit result)"
  let ?look = "\<lambda>c :: unit. (Inr \<lparr>r_ticks = 0, breaches = []\<rparr> :: report result)"
  have sys: "lawful (\<lambda>_. True) (?put v)" "lawful (\<lambda>_. True) (?go k)" "\<exists>rep. ?look c = Inr rep" for v k c
    by (simp_all add: lawful_def)
  have "draw_commands 1 (\<lambda>i. 0) = Inr [\<lparr>cname = SET, ckey = ''a'', cvalue = PInt 0, cexpected = PNone\<rparr>]"
    by code_simp
  note run = checkers_are_blind [of "\<lambda>_. True" ?put ?go ?look "()", OF sys TrueI this, of "\<lambda>i. 0" "\<lambda>s i. 0" "\<lambda>i. 0" 3 3]
  have "\<not> troubled (sequential_over ?put ?go ?look (\<lambda>i. 0) [\<lparr>cname = SET, ckey = ''a'', cvalue = PInt 0, cexpected = PNone\<rparr>] ())"
    by code_simp
  moreover have "\<not> troubled (concurrent_over ?put ?go ?look (\<lambda>s i. 0) (\<lambda>i. 0) (\<lambda>i. 0) 3 3 ())"
    by code_simp
  ultimately show ?thesis using run by blast
qed

text \<open>The shipped runs are on a cluster that settled, whose reachable states are where it may be.\<close>

lemma cluster_runs_on:
  "cluster_reach net_seed node_seed c \<Longrightarrow> cluster_run k c = Inl StateMachineSafety \<or>
    (\<exists>c'. cluster_run k c = Inr c' \<and> cluster_reach net_seed node_seed c')"
proof (induction k arbitrary: c)
  case (Suc k)
  from cluster_tick_ok [OF Suc.prems] Suc.IH show ?case by (elim disjE exE conjE) auto
qed simp

lemma shipped_lawful:
  "lawful (cluster_reach net_seed node_seed) (put_cluster v)"
  "lawful (cluster_reach net_seed node_seed) (cluster_run k)"
  using cluster_propose_reach [of net_seed node_seed _ v] cluster_runs_on [of net_seed node_seed _ k]
  by (fastforce simp: lawful_def put_cluster_def TROUBLES_def split: sum.splits)+

text \<open>
  What the shipped runs come to: no fault of a cluster can turn the reference or the checker against
  it, only its own inspection can.
\<close>

theorem differential_runs:
  assumes "1 \<le> sz"
  shows "troubled (sequential_run net_seed node_seed cmd_seed md sd n sz) \<or>
      (\<exists>r. sequential_run net_seed node_seed cmd_seed md sd n sz = Inr r \<and> set (failures r) \<subseteq> {INVARIANTS})"
    and "troubled (concurrent_run net_seed node_seed state_seed cmd_seed md sd clients each sz) \<or>
      (\<exists>r h v. concurrent_run net_seed node_seed state_seed cmd_seed md sd clients each sz = Inr (r, h, v) \<and>
         answer v \<noteq> NOT_LINEARIZABLE \<and> (LINEARIZABILITY \<in> set (failures r) \<longrightarrow> BUDGET \<le> v_states v))"
proof -
  obtain cs where cs: "draw_commands n (cmd_seed sd) = Inr cs" using draw_commands_total by blast
  have look: "\<exists>rep. inspect c = Inr rep" if "cluster_reach net_seed node_seed c" for c
    using inspect_reach [OF that] by blast
  from settled_cluster_reach [OF assms, of net_seed node_seed sd] consider
      "settled_cluster net_seed node_seed sz sd = Inl StateMachineSafety"
    | made where "settled_cluster net_seed node_seed sz sd = Inr made" "cluster_reach net_seed node_seed made"
    by blast
  note cases = this
  show "troubled (sequential_run net_seed node_seed cmd_seed md sd n sz) \<or>
      (\<exists>r. sequential_run net_seed node_seed cmd_seed md sd n sz = Inr r \<and> set (failures r) \<subseteq> {INVARIANTS})"
  proof (cases rule: cases)
    case 1
    then show ?thesis by (simp add: sequential_run_def cs TROUBLES_def)
  next
    case (2 made)
    from reference_never_reports [OF shipped_lawful look this(2)] draw_commands_workload [OF cs] 2(1)
    show ?thesis by (simp add: sequential_run_def cs)
  qed
  show "troubled (concurrent_run net_seed node_seed state_seed cmd_seed md sd clients each sz) \<or>
      (\<exists>r h v. concurrent_run net_seed node_seed state_seed cmd_seed md sd clients each sz = Inr (r, h, v) \<and>
         answer v \<noteq> NOT_LINEARIZABLE \<and> (LINEARIZABILITY \<in> set (failures r) \<longrightarrow> BUDGET \<le> v_states v))"
  proof (cases rule: cases)
    case 1
    then show ?thesis by (simp add: concurrent_run_def TROUBLES_def)
  next
    case (2 made)
    then show ?thesis
      using checker_never_refutes [OF shipped_lawful look 2(2)] by (simp add: concurrent_run_def)
  qed
qed

end
