(* ===== verification/Spec2Isabelle.thy ===== *)
theory Spec2Isabelle
  imports Cluster_Safety Demo_Run Membership Client Durability Log_Reconcile Linearize Wire Repairing Faults Expiry Sharding Commit_Overrun Exploration_Safety Exploration_Keys Fuzzing Handing_Over Watching Leasing Cutting Outside_Timers Timing_Trials Fixed_Timeouts Priority_Runs Steady_Leader Steady_Cluster Refining Cell_Coverage Signed_Messages Bounded_Liveness Shipping Differential
begin

text \<open>
  A model of \<open>replicated-state-machine\<close>, a Raft cluster in pure Python with the tools that test
  it, and the theorems that make it correct. Sources are under \<open>src/rsm/\<close>.

  \<^bold>\<open>The program.\<close> A \<open>Node\<close> (\<open>node.py\<close>) holds a term, a vote and a \<open>Log\<close> (\<open>log.py\<close>) and reacts to
  messages (\<open>rpc.py\<close>) and to the clock. A \<open>Cluster\<close> (\<open>cluster.py\<close>) owns the nodes and a simulated
  \<open>Network\<close> (\<open>net.py\<close>); its \<open>tick\<close> takes what is due off the network, has the recipients handle it,
  runs every timer, sends the answers and then checks itself. Around the cluster stand the key
  value \<open>Machine\<close> and client sessions, snapshots and the disk, membership and learners, the wire
  format, log repair, expiring keys and sharding; around those, under \<open>verify/\<close>, the checks,
  the fault schedules, the fuzzer, the exploration of orderings and the linearizability checker.

  \<^bold>\<open>How it is modelled.\<close> A class is a record, a method a function from the old state to the new
  one, and a \<open>raise\<close> the left side of a sum (\<open>result\<close>, in \<open>Prelude\<close>); a loop that may raise is
  \<open>rmap\<close> or \<open>rfold\<close>. A seeded generator is the sequence of its draws, a parameter of every theorem:
  what is proved holds for every seed. Terms, indices and ticks are natural numbers, as every
  constructor accepts only such. Python values are \<open>pyobj\<close>, its dictionaries association lists in
  insertion order. \<open>repr\<close> and \<open>hashlib\<close> are parameters.

  \<^bold>\<open>The core.\<close>
  \<^item> \<open>Prelude\<close>: errors, results, Python values, draws, \<open>sample\<close> and \<open>shuffle\<close>.
  \<^item> \<open>Raft_Log\<close>, \<open>Raft_Rpc\<close>, \<open>Raft_Node\<close>, \<open>Raft_Net\<close>, \<open>Raft_Cluster\<close>: \<open>log.py\<close>, \<open>rpc.py\<close>, \<open>node.py\<close>, \<open>net.py\<close>
    and \<open>cluster.py\<close>, every operation.
  \<^item> \<open>Quorums\<close>: \<open>quorum.py\<close>, and the interface a quorum system offers the protocol, as a locale.
  \<^item> \<open>Protocol\<close>, \<open>Protocol_Safety\<close>: the abstract specification, a step relation over terms, votes,
    logs and commitments that keeps its history, and its invariant. The safety argument of Raft is
    made here once, for any pair of quorum systems that meet.
  \<^item> \<open>Node_Refines\<close>, \<open>Node_Handlers\<close>: every handler of a node refines a run of protocol steps of that
    node alone and sends messages the new state accounts for. \<open>Cluster_Safety\<close> lifts that to every
    cluster reachable by ticks, writes, crashes, restarts, partitions and heals; C1 to C5 read the
    five safety properties off it, and \<open>Demo_Run\<close> is the run their
    witnesses use. \<open>Cluster_Runs\<close> holds what the drivers of a cluster rely on.
  \<^item> \<open>Commit_Overrun\<close>: the commit rule of a follower is safe only while an append reaches as far as
    the commit index it carries (\<open>snug\<close>; \<open>tight\<close> says so of a cluster). C3 and C4 assume it; this
    theory shows how a follower commits a stale tail when an append is cut at \<open>MAX_BATCH\<close>, and
    \<open>Log_Growth\<close> that no log short enough to fit a batch can get there.

  \<^bold>\<open>The components around it.\<close>
  \<^item> \<open>Raft_Machine\<close>, \<open>Client\<close>: \<open>machine.py\<close>, \<open>client.py\<close>. Replicas agree; a repeated request runs once.
  \<^item> \<open>Durability\<close>: \<open>snapshot.py\<close>, \<open>persist.py\<close>. A vote survives a restart; compaction keeps answers.
  \<^item> \<open>Membership\<close>: \<open>membership.py\<close>, \<open>learner.py\<close>. Joint configurations are a quorum system, so the
    protocol's safety holds for them.
  \<^item> \<open>Log_Reconcile\<close>, \<open>Repairing\<close>: the walks of \<open>log.py\<close> and the four strategies of \<open>repair.py\<close> find the
    same index. \<open>jump_back\<close> may run forever on logs Raft never produces, so it is a
    \<open>partial_function (option)\<close>, proved to return on logs that match. The probing loops of \<open>repair.py\<close>
    carry the limit the code has.
  \<^item> \<open>Bytes\<close>, \<open>Wire\<close>: \<open>wire.py\<close>. Frames and streams round trip; refusals are exact.
  \<^item> \<open>Expiry\<close>: \<open>expire.py\<close>. \<open>Sharding\<close>: \<open>keyspace.py\<close> and \<open>rebalance.py\<close>.
  \<^item> \<open>Watching\<close>: \<open>watch.py\<close>. \<open>Leasing\<close>: \<open>lease.py\<close>. \<open>Handing_Over\<close>: \<open>transfer.py\<close>. \<open>Shipping\<close>: \<open>batch.py\<close>, whose
    arithmetic is that of the conversation a leader and a follower really have.
  \<^item> \<open>Cutting\<close>: \<open>partition.py\<close>, cuts with a direction laid over the cluster's operations.
  \<^item> \<open>Outside_Timers\<close>, \<open>Timing_Trials\<close>, \<open>Priority_Runs\<close>: \<open>timing.py\<close> and \<open>priority.py\<close>, which drive the nodes by
    timers of their own. The drivers' steps are protocol steps, so safety carries over;
    \<open>Fixed_Timeouts\<close> shows that equal timeouts elect nobody.

  \<^bold>\<open>Progress.\<close>
  \<^item> \<open>Steady_Leader\<close>, \<open>Steady_Cluster\<close>: on the shipped network a leader in office keeps it, and what it
    writes is committed two ticks later. A cluster of three is run until it settles, to show that
    offices exist; elections end only with luck, which the draws decide.
  \<^item> \<open>Signed_Messages\<close>, \<open>Bounded_Liveness\<close>: \<open>verify/liveness.py\<close>. Messages carry the term of their sender; a
    cluster cut into single members elects nobody, and a write to a leader in office meets its bound.
  \<^item> \<open>Refining\<close>: \<open>verify/refine.py\<close>, the check of a settled cluster against one machine.

  \<^bold>\<open>The verification tools.\<close>
  \<^item> \<open>Invariant_Checks\<close>: \<open>verify/invariants.py\<close>. On reachable clusters the inspection reports nothing
    it should not; one of its five checks can never report.
  \<^item> \<open>Faults\<close>, \<open>Defects\<close>, \<open>Fuzzing\<close>: \<open>verify/faults.py\<close> and \<open>verify/fuzz.py\<close>. Schedules run to the end,
    drawn ones take hold; the shrinker ends and gives an irreducible failure.
  \<^item> \<open>Exploration\<close>, \<open>Exploration_Safety\<close>, \<open>Exploration_Keys\<close>: \<open>verify/explore.py\<close>. The search over the
    shipped nodes ends and reports nothing; the symmetric key identifies renamed worlds, and leaves
    out state that matters.
  \<^item> \<open>Histories\<close>, \<open>Linearize\<close>: \<open>verify/history.py\<close>, \<open>verify/linearize.py\<close>, \<open>verify/reference.py\<close>. The
    checker decides linearizability within a budget that bounds it.
  \<^item> \<open>Cell_Coverage\<close>: \<open>verify/coverage.py\<close>. Which combinations of role, message and term a cluster can
    meet, beside those that can be made by hand; recording changes nothing of a run.
  \<^item> \<open>Differential\<close>: \<open>verify/differential.py\<close>, over any system under test. Its reference and its checker
    are given the answers of a machine of the harness, so neither can find fault with the system.

  \<^bold>\<open>Bounds.\<close> \<open>settle\<close> runs at most the ticks it is given, as the code's loop does. The exploration
  ends because every visit adds only states not seen before and their number is bounded. The
  linearizability search has the code's budget. The watched runs of \<open>verify/liveness.py\<close> have their
  patience, a trial its 200 ticks of settling and 600 of writing, and the refinement check four ticks
  for each command, as in the code. The conversation of \<open>Shipping\<close> is given one step for each entry
  of the log, proved to be enough. No other function carries fuel.

  \<^bold>\<open>Not modelled.\<close> The functions that run scenarios and tabulate measurements at the end of most
  modules, and the modules made of nothing else (\<open>election.py\<close>, \<open>replicate.py\<close>, \<open>recovery.py\<close>, \<open>eval/\<close>):
  they call the operations above with fixed arguments and put floats and text in dictionaries.
  \<open>as_dict\<close> and \<open>__str__\<close> methods, the command line, charts and reports are text. Rounded ratios are
  kept as the counts they are made of. The simulation of offered load (\<open>backpressure.py\<close>) adds up floats
  every tick; the long runs and traces under \<open>verify/\<close> combine the tools above.
\<close>

section \<open>The cluster is safe\<close>

text \<open>
  C1. Whatever was lost, delayed, partitioned, crashed and restarted before, the next tick of the
  cluster delivers every message, runs every timer and sends every answer without any handler
  raising, and the checks that follow never report two leaders in a term or two entries under one
  index and term. They report nothing at all when every append delivered so far reached as far as
  the commit index it carried.
\<close>

theorem cluster_tick_safe:
  assumes "cluster_reach net_seed node_seed c"
  shows "\<exists>c'. advance c = Inr c' \<and>
    (verify c' (take_moment c') = Inr () \<or>
     verify c' (take_moment c') = Inl StateMachineSafety \<and> (\<exists>m\<in>set (delivered (net c')). \<not> snug m))"
  using tick_verdict [OF cluster_inv_reach [OF assms]] by (auto simp: tight_def)

theorem cluster_tick_safe_witness:
  "\<exists>c. cluster_reach demo_net demo_node c \<and> role (nodes c ''n0'') = LEADER \<and> (\<exists>c'. advance c = Inr c')"
proof -
  obtain c where "cluster_reach demo_net demo_node c" "demo_view c" using demo_reached by blast
  with cluster_tick_safe [OF this(1)] show ?thesis by (auto simp: demo_view_def)
qed

text \<open>
  C2. Election safety: in every state a cluster can reach, two members that both lead the same
  term are the same member.
\<close>

theorem election_safety:
  assumes "cluster_reach net_seed node_seed c" "p \<in> set (cmembers c)" "q \<in> set (cmembers c)"
    and "role (nodes c p) = LEADER" "role (nodes c q) = LEADER"
    and "current_term (nodes c p) = current_term (nodes c q)"
  shows "p = q"
  by (rule one_leader [OF cluster_inv_reach]) (use assms in auto)

theorem election_safety_witness:
  "\<exists>c. cluster_reach demo_net demo_node c \<and> demo_view c \<and> role (nodes c ''n1'') \<noteq> LEADER"
proof -
  obtain c where c: "cluster_reach demo_net demo_node c" "demo_view c" using demo_reached by blast
  then have "role (nodes c ''n1'') \<noteq> LEADER"
    using election_safety [OF c(1), of "''n0''" "''n1''"] by (auto simp: demo_view_def)
  with c show ?thesis by blast
qed

text \<open>
  C3. Log matching: when two members hold entries with the same index and the same term, the two
  entries are the same and so is everything before them.
\<close>

theorem cluster_log_matching:
  assumes "cluster_reach net_seed node_seed c" "p \<in> set (cmembers c)" "q \<in> set (cmembers c)"
    and "e \<in> set (entries (log (nodes c p)))" "f \<in> set (entries (log (nodes c q)))"
    and "e_index e = e_index f" "e_term e = e_term f"
  shows "e = f \<and> take (e_index e) (entries (log (nodes c p))) = take (e_index e) (entries (log (nodes c q)))"
  using logs_match [OF cluster_inv_reach [OF assms(1)] assms(2-7)] by (simp add: agree_def)

theorem cluster_log_matching_witness:
  "\<exists>c. cluster_reach demo_net demo_node c \<and>
     map command (entries (log (nodes c ''n1''))) = [PNone, PTuple [PStr ''set'', PStr ''a'', PInt 1]]"
proof -
  obtain c where c: "cluster_reach demo_net demo_node c" "demo_view c" using demo_reached by blast
  let ?l = "entries (log (nodes c ''n0''))" and ?m = "entries (log (nodes c ''n1''))"
  have l: "map e_index ?l = [1, 2]" "map e_index ?m = [1, 2]" "map e_term ?l = [2, 2]"
    "map e_term ?m = [2, 2]" "''n0'' \<in> set (cmembers c)" "''n1'' \<in> set (cmembers c)"
    using c(2) by (simp_all add: demo_view_def)
  then have len: "length ?l = 2" "length ?m = 2" by (metis length_map length_Cons list.size(3) numeral_2_eq_2)+
  have "e_index (?l ! 1) = map e_index ?l ! 1" "e_index (?m ! 1) = map e_index ?m ! 1"
    "e_term (?l ! 1) = map e_term ?l ! 1" "e_term (?m ! 1) = map e_term ?m ! 1"
    using len by simp_all
  then have "take 2 ?l = take 2 ?m"
    using cluster_log_matching [OF c(1) l(5,6), of "?l ! 1" "?m ! 1"] l len by simp
  then have "?l = ?m" using len by simp
  with c show ?thesis by (auto simp: demo_view_def)
qed

text \<open>
  C4. State machine safety: when every append delivered so far reached as far as the commit index
  it carried, what any two members have applied agrees as far as both have applied, each has
  applied exactly its committed prefix, its state is the replay of it, and two members that have
  applied equally much are in the same state.
\<close>

theorem state_machine_safety:
  assumes "cluster_reach net_seed node_seed c" "\<forall>m\<in>set (delivered (net c)). snug m"
    and "p \<in> set (cmembers c)" "q \<in> set (cmembers c)"
    and "length (applied (nodes c p)) \<le> length (applied (nodes c q))"
  shows "applied (nodes c p) = take (commit_index (nodes c p)) (applied (nodes c q)) \<and>
    length (applied (nodes c p)) = commit_index (nodes c p) \<and>
    state (nodes c p) = replay (applied (nodes c p)) \<and>
    (commit_index (nodes c p) = commit_index (nodes c q) \<longrightarrow> state (nodes c p) = state (nodes c q))"
proof -
  have inv: "cluster_inv c" by (rule cluster_inv_reach [OF assms(1)])
  have t: "tight c" using assms(2) by (simp add: tight_def)
  note P = applied_prefix [OF inv t assms(3)] and Q = applied_prefix [OF inv t assms(4)]
  have pre: "applied (nodes c p) = take (commit_index (nodes c p)) (applied (nodes c q))"
    using applied_agree [OF inv t assms(3,4)] assms(5) P(3) by (simp add: agree_def)
  moreover have "state (nodes c p) = state (nodes c q)"
    if "commit_index (nodes c p) = commit_index (nodes c q)"
  proof -
    have "applied (nodes c p) = applied (nodes c q)"
      using pre that Q(3) by (metis order_refl take_all)
    then show ?thesis unfolding P(4) Q(4) by simp
  qed
  ultimately show ?thesis using P(3,4) by blast
qed

theorem state_machine_safety_witness:
  "\<exists>c. cluster_reach demo_net demo_node c \<and> state (nodes c ''n1'') = [(PStr ''a'', PInt 1)]"
proof -
  obtain c where c: "cluster_reach demo_net demo_node c" "demo_view c" using demo_reached by blast
  have ap: "length (applied (nodes c p)) = commit_index (nodes c p)" if "p \<in> set (cmembers c)" for p
    by (rule applied_prefix(3) [OF cluster_inv_reach [OF c(1)] demo_tight [OF c(2)] that])
  have n: "''n0'' \<in> set (cmembers c)" "''n1'' \<in> set (cmembers c)"
    "commit_index (nodes c ''n0'') = 2" "commit_index (nodes c ''n1'') = 2"
    using c(2) by (simp_all add: demo_view_def)
  have "\<forall>m\<in>set (delivered (net c)). snug m" using demo_tight [OF c(2)] by (simp only: tight_def)
  from state_machine_safety [OF c(1) this n(2,1)]
  have "state (nodes c ''n1'') = state (nodes c ''n0'')" using ap n by auto
  with c show ?thesis by (auto simp: demo_view_def)
qed

text \<open>
  C5. Leader completeness: a leader's log begins with everything that any member whose term is
  not later has committed, under the same condition on the appends delivered.
\<close>

theorem leader_completeness:
  assumes "cluster_reach net_seed node_seed c" "\<forall>m\<in>set (delivered (net c)). snug m"
    and "p \<in> set (cmembers c)" "q \<in> set (cmembers c)"
    and "role (nodes c p) = LEADER" "current_term (nodes c q) \<le> current_term (nodes c p)"
  shows "commit_index (nodes c q) \<le> last_index (log (nodes c p)) \<and>
    take (commit_index (nodes c q)) (entries (log (nodes c p))) = applied (nodes c q)"
proof -
  have inv: "cluster_inv c" by (rule cluster_inv_reach [OF assms(1)])
  have t: "tight c" using assms(2) by (simp add: tight_def)
  have "agree (commit_index (nodes c q)) (entries (log (nodes c p))) (applied (nodes c q))"
    by (rule leader_holds_applied [OF inv t assms(3-6)])
  moreover have "last_index (log (nodes c p)) = length (entries (log (nodes c p)))"
    by (rule reached_log [OF inv assms(3)]) (simp add: last_index_plain)
  ultimately show ?thesis
    using applied_prefix(3) [OF inv t assms(4)] by (simp add: agree_def)
qed

theorem leader_completeness_witness:
  "\<exists>c. cluster_reach demo_net demo_node c \<and>
     map command (applied (nodes c ''n1'')) = [PNone, PTuple [PStr ''set'', PStr ''a'', PInt 1]]"
proof -
  obtain c where c: "cluster_reach demo_net demo_node c" "demo_view c" using demo_reached by blast
  have "take 2 (entries (log (nodes c ''n0''))) = applied (nodes c ''n1'')"
    using leader_completeness [OF c(1) demo_tight [OF c(2), unfolded tight_def], of "''n0''" "''n1''"] c(2)
    by (simp add: demo_view_def)
  moreover have "length (entries (log (nodes c ''n0''))) = 2"
  proof -
    have "map e_index (entries (log (nodes c ''n0''))) = [1, 2]" using c(2) by (simp add: demo_view_def)
    then show ?thesis by (metis length_map length_Cons list.size(3) numeral_2_eq_2)
  qed
  ultimately have "applied (nodes c ''n1'') = entries (log (nodes c ''n0''))" by simp
  with c show ?thesis by (auto simp: demo_view_def)
qed

text \<open>
  C16. Inspecting a cluster the protocol reaches always gives a report. It holds no breach of
  election safety, of append-only leaders or of log matching, and, when every append delivered
  reached as far as its commit index, none of state machine safety; what remains are alarms of
  the leader completeness check, which compares a leader's term with the term an entry was
  created in rather than the one it was committed in.
\<close>

theorem inspection_sound:
  assumes "cluster_reach net_seed node_seed c"
  shows "\<exists>r. inspect c = Inr r \<and> r_ticks r = cnow c \<and>
    {ELECTION_SAFETY, LEADER_APPEND_ONLY, LOG_MATCHING} \<inter> set (report_broken r) = {} \<and>
    ((\<forall>m\<in>set (delivered (net c)). snug m) \<longrightarrow> set (report_broken r) \<subseteq> {LEADER_COMPLETENESS})"
proof -
  obtain r where r: "inspect c = Inr r" "r_ticks r = cnow c"
    "set (breaches r) \<subseteq> {b. b_property b = LEADER_COMPLETENESS} \<union> set (check_state_machine_safety c)"
    "tight c \<longrightarrow> (\<forall>b\<in>set (breaches r). b_property b = LEADER_COMPLETENESS)"
    using inspect_reach [OF assms] by blast
  have "b_property b \<in> {LEADER_COMPLETENESS, STATE_MACHINE_SAFETY}" if "b \<in> set (breaches r)" for b
    using r(3) that machine_check_named by blast
  then have "set (report_broken r) \<subseteq> {LEADER_COMPLETENESS, STATE_MACHINE_SAFETY}"
    by (auto simp: report_broken_def list_ex_iff)
  then have "{ELECTION_SAFETY, LEADER_APPEND_ONLY, LOG_MATCHING} \<inter> set (report_broken r) = {}"
    by (auto simp: property_names)
  moreover have "set (report_broken r) \<subseteq> {LEADER_COMPLETENESS}" if "tight c"
    using r(4) that by (auto simp: report_broken_def list_ex_iff)
  ultimately show ?thesis using r(1,2) by (auto simp: tight_def)
qed

theorem inspection_sound_witness:
  "\<exists>c r. cluster_reach demo_net demo_node c \<and> demo_view c \<and> inspect c = Inr r \<and>
     set (report_broken r) \<subseteq> {LEADER_COMPLETENESS}"
proof -
  obtain c where c: "cluster_reach demo_net demo_node c" "demo_view c" using demo_reached by blast
  from inspection_sound [OF c(1)] demo_tight [OF c(2)] c show ?thesis by (auto simp: tight_def)
qed

end
